(* ===== verification/Prelude.thy ===== *)
theory Prelude
  imports Main "HOL-Library.Word" "HOL-Library.Char_ord"
begin

text \<open>
  What every component of the LogService model shares: the outcome type of a C++ call that
  may run into undefined behaviour or stop the process, C strings and the string routines of
  \<^verbatim>\<open>include/wrap.h\<close>, decimal text as the streams print and read it, and the conversions between
  the 32-bit \<^verbatim>\<open>int\<close> and the 64-bit \<^verbatim>\<open>uint64_t\<close> of the source.  The collections
  \<open>res_simps\<close>, \<open>cstr_simps\<close> and \<open>text_simps\<close> gather the facts component proofs simplify with.
\<close>

named_theorems res_simps
named_theorems cstr_simps
named_theorems text_simps

section \<open>Outcomes of a call\<close>

text \<open>
  \<open>UB\<close> stands for a read or write outside an object, a null dereference or another undefined
  behaviour; \<open>Exited\<close> for \<^verbatim>\<open>err_sys\<close>, which prints a message and calls \<^verbatim>\<open>exit(1)\<close>;
  \<open>Waits\<close> for a busy wait that only another thread can end.
\<close>

datatype fault = UB | Exited | Waits

type_synonym 'a res = "fault + 'a"

fun bindE :: "'e + 'a \<Rightarrow> ('a \<Rightarrow> 'e + 'b) \<Rightarrow> 'e + 'b" where
  "bindE (Inl e) f = Inl e"
| "bindE (Inr x) f = f x"

lemma bindE_cong [fundef_cong]:
  "m = m' \<Longrightarrow> (\<And>x. m' = Inr x \<Longrightarrow> f x = g x) \<Longrightarrow> bindE m f = bindE m' g"
  by (cases m') auto

lemma bindE_eq_Inr [res_simps]: "bindE m f = Inr y \<longleftrightarrow> (\<exists>x. m = Inr x \<and> f x = Inr y)"
  by (cases m) auto

lemma bindE_Inr_right [simp]: "bindE m Inr = m"
  by (cases m) auto

lemma bindE_assoc [res_simps]: "bindE (bindE m f) g = bindE m (\<lambda>x. bindE (f x) g)"
  by (cases m) auto

section \<open>C strings\<close>

text \<open>
  A \<^verbatim>\<open>char\<close> array is the list of its bytes; the C string in it is what stands before the first
  NUL.  Reading the string of an array that holds no NUL runs off its end.
\<close>

definition nul :: char where
  "nul = CHR 0x00"

definition newline :: char where
  "newline = CHR 0x0A"

definition blank :: char where
  "blank = CHR 0x20"

definition cstr :: "string \<Rightarrow> string" where
  "cstr b = takeWhile (\<lambda>c. c \<noteq> nul) b"

definition read_cstr :: "string \<Rightarrow> string res" where
  "read_cstr b = (if nul \<in> set b then Inr (cstr b) else Inl UB)"

definition nul_free :: "string \<Rightarrow> bool" where
  "nul_free s \<longleftrightarrow> nul \<notin> set s"

lemma char_consts_distinct [simp]:
  "nul \<noteq> newline" "newline \<noteq> nul" "nul \<noteq> blank" "blank \<noteq> nul"
  "newline \<noteq> blank" "blank \<noteq> newline"
  by (simp_all add: nul_def newline_def blank_def)

lemma nul_free_Nil [simp]: "nul_free []"
  by (simp add: nul_free_def)

lemma nul_free_Cons [simp]: "nul_free (c # s) \<longleftrightarrow> c \<noteq> nul \<and> nul_free s"
  by (auto simp: nul_free_def)

lemma nul_free_append [simp]: "nul_free (s @ t) \<longleftrightarrow> nul_free s \<and> nul_free t"
  by (auto simp: nul_free_def)

lemma nul_free_take: "nul_free s \<Longrightarrow> nul_free (take n s)"
  by (auto simp: nul_free_def dest: in_set_takeD)

lemma nul_free_cstr [simp]: "nul_free (cstr b)"
  unfolding nul_free_def cstr_def by (auto dest: set_takeWhileD)

lemma cstr_nul_free [cstr_simps]: "nul_free s \<Longrightarrow> cstr s = s"
  unfolding nul_free_def cstr_def by (subst takeWhile_eq_all_conv) auto

lemma cstr_append [cstr_simps]: "nul_free s \<Longrightarrow> cstr (s @ t) = s @ cstr t"
  unfolding nul_free_def cstr_def by (subst takeWhile_append2) auto

lemma cstr_nul_Cons [cstr_simps]: "cstr (nul # t) = []"
  by (simp add: cstr_def)

lemma cstr_replicate_nul [cstr_simps]: "cstr (replicate n nul @ t) = (if n = 0 then cstr t else [])"
  by (cases n) (simp_all add: cstr_nul_Cons)

lemma cstr_Nil [simp]: "cstr [] = []"
  by (simp add: cstr_def)

lemma length_cstr_le: "length (cstr b) \<le> length b"
  unfolding cstr_def by (rule length_takeWhile_le)

lemma read_cstr_terminated [cstr_simps]: "nul_free s \<Longrightarrow> read_cstr (s @ nul # t) = Inr s"
  by (simp add: read_cstr_def cstr_append cstr_nul_Cons)

text \<open>
  \<^verbatim>\<open>strncpy(dest, src, n)\<close> writes exactly \<open>n\<close> bytes: the string, then NULs; \<^verbatim>\<open>lgy_strncpy\<close> of
  \<^verbatim>\<open>wrap.h\<close> writes one more, a terminating NUL.  Both are given by the bytes they write.
\<close>

definition c_strncpy :: "string \<Rightarrow> nat \<Rightarrow> string" where
  "c_strncpy src n = take n (cstr src) @ replicate (n - length (cstr src)) nul"

definition lgy_strncpy :: "string \<Rightarrow> nat \<Rightarrow> string" where
  "lgy_strncpy src n = c_strncpy src n @ [nul]"

lemma length_c_strncpy [simp]: "length (c_strncpy src n) = n"
  by (simp add: c_strncpy_def)

lemma length_lgy_strncpy [simp]: "length (lgy_strncpy src n) = Suc n"
  by (simp add: lgy_strncpy_def)

lemma cstr_lgy_strncpy [cstr_simps]: "cstr (lgy_strncpy src n) = take n (cstr src)"
  by (simp add: lgy_strncpy_def c_strncpy_def cstr_append cstr_nul_Cons cstr_replicate_nul nul_free_take)

lemma c_strncpy_exact [cstr_simps]: "nul_free s \<Longrightarrow> length s = n \<Longrightarrow> c_strncpy s n = s"
  by (simp add: c_strncpy_def cstr_nul_free)

lemma cstr_strncpy_lgy [cstr_simps]: "cstr (lgy_strncpy src n @ t) = take n (cstr src)"
  by (simp add: lgy_strncpy_def c_strncpy_def cstr_append cstr_nul_Cons cstr_replicate_nul nul_free_take)

text \<open>
  A large zero-initialised array is the list of the bytes up to the last one written; every byte
  after it is NUL.  \<open>buf_write off bs buf\<close> stores \<open>bs\<close> from offset \<open>off\<close>, \<open>buf_read\<close> gives what
  stands from an offset on.
\<close>

definition buf_write :: "nat \<Rightarrow> string \<Rightarrow> string \<Rightarrow> string" where
  "buf_write off bs buf =
     take off (buf @ replicate (off - length buf) nul) @ bs @ drop (off + length bs) buf"

definition buf_read :: "nat \<Rightarrow> nat \<Rightarrow> string \<Rightarrow> string" where
  "buf_read off len buf = take len (drop off buf @ replicate len nul)"

lemma take_buf_write [simp]: "take off (buf_write off bs buf) = take off (buf @ replicate (off - length buf) nul)"
  by (simp add: buf_write_def)

lemma take_buf_write_all: "off \<le> length buf \<Longrightarrow>
    take (off + n) (buf_write off bs buf) = take off buf @ take n (bs @ drop (off + length bs) buf)"
  by (simp add: buf_write_def)

lemma length_buf_write: "length (buf_write off bs buf) = max (length buf) (off + length bs)"
  by (auto simp: buf_write_def)

section \<open>Machine integers\<close>

text \<open>
  \<^verbatim>\<open>uint64_t\<close> is \<open>64 word\<close>.  Storing one in an \<^verbatim>\<open>int\<close> keeps the low 32 bits, read as two's
  complement; using an \<^verbatim>\<open>int\<close> where a \<^verbatim>\<open>uint64_t\<close> is expected sign-extends it.
\<close>

type_synonym u64 = "64 word"

definition to_int32 :: "u64 \<Rightarrow> int" where
  "to_int32 x = sint (ucast x :: 32 word)"

definition to_uint64 :: "int \<Rightarrow> u64" where
  "to_uint64 i = word_of_int i"

lemma to_int32_small: "x < 2 ^ 31 \<Longrightarrow> to_int32 (word_of_nat x) = int x"
proof -
  assume x: "x < 2 ^ 31"
  have u: "(ucast (word_of_nat x :: u64) :: 32 word) = word_of_nat x"
    using x by (simp add: unsigned_of_nat take_bit_nat_eq_self)
  have "take_bit 32 (int x) = int x"
    using x by (simp add: take_bit_int_eq_self)
  moreover have "signed_take_bit 31 (int x) = int x"
    using x by (subst signed_take_bit_int_eq_self_iff) auto
  ultimately show ?thesis
    unfolding to_int32_def u by (simp add: signed_of_nat)
qed

lemma to_uint64_small: "to_uint64 (int n) = word_of_nat n"
  by (simp add: to_uint64_def)

section \<open>Decimal text\<close>

text \<open>Integers as an output stream prints them and as an input stream or \<^verbatim>\<open>strtol\<close> reads them.\<close>

text \<open>\<^verbatim>\<open>isspace\<close> in the C locale.\<close>

definition c_isspace :: "char \<Rightarrow> bool" where
  "c_isspace c \<longleftrightarrow> c \<in> {CHR 0x20, CHR 0x09, CHR 0x0A, CHR 0x0B, CHR 0x0C, CHR 0x0D}"

definition is_digit :: "char \<Rightarrow> bool" where
  "is_digit c \<longleftrightarrow> CHR ''0'' \<le> c \<and> c \<le> CHR ''9''"

definition digit :: "nat \<Rightarrow> char" where
  "digit d = char_of (48 + d)"

definition digit_val :: "char \<Rightarrow> nat" where
  "digit_val c = of_char c - 48"

fun show_nat :: "nat \<Rightarrow> string" where
  "show_nat n = (if n < 10 then [digit n] else show_nat (n div 10) @ [digit (n mod 10)])"

declare show_nat.simps [simp del]

definition show_int :: "int \<Rightarrow> string" where
  "show_int i = (if i < 0 then CHR ''-'' # show_nat (nat (- i)) else show_nat (nat i))"

definition digits_val :: "string \<Rightarrow> nat" where
  "digits_val ds = foldl (\<lambda>a c. 10 * a + digit_val c) 0 ds"

lemma digit_chars [text_simps]:
  "digit 0 = CHR ''0''" "digit (Suc 0) = CHR ''1''" "digit 1 = CHR ''1''" "digit 2 = CHR ''2''"
  "digit 3 = CHR ''3''" "digit 4 = CHR ''4''" "digit 5 = CHR ''5''" "digit 6 = CHR ''6''"
  "digit 7 = CHR ''7''" "digit 8 = CHR ''8''" "digit 9 = CHR ''9''"
  by code_simp+

lemma is_digit_iff: "is_digit c \<longleftrightarrow> 48 \<le> (of_char c :: nat) \<and> (of_char c :: nat) \<le> 57"
  by (simp add: is_digit_def less_eq_char_def)

lemma of_char_digit: "d < 10 \<Longrightarrow> of_char (digit d) = 48 + d"
  by (simp add: digit_def)

lemma is_digit_digit [simp]: "d < 10 \<Longrightarrow> is_digit (digit d)"
  by (simp add: is_digit_iff of_char_digit)

lemma digit_val_digit [simp]: "d < 10 \<Longrightarrow> digit_val (digit d) = d"
  by (simp add: digit_val_def of_char_digit)

lemma digits_val_snoc: "digits_val (ds @ [c]) = 10 * digits_val ds + digit_val c"
  by (simp add: digits_val_def)

lemma show_nat_digits: "list_all is_digit (show_nat n)"
proof (induction n rule: show_nat.induct)
  case (1 n)
  then show ?case by (subst show_nat.simps) simp
qed

lemma show_nat_nonempty [simp]: "show_nat n \<noteq> []"
  by (subst show_nat.simps) simp

lemma digits_val_show_nat [text_simps]: "digits_val (show_nat n) = n"
proof (induction n rule: show_nat.induct)
  case (1 n)
  show ?case
  proof (cases "n < 10")
    case True
    then show ?thesis by (subst show_nat.simps) (simp add: digits_val_def)
  next
    case False
    with 1 have "digits_val (show_nat (n div 10) @ [digit (n mod 10)]) = n"
      by (simp add: digits_val_snoc)
    with False show ?thesis by (subst show_nat.simps) simp
  qed
qed

lemma length_show_nat: "n < 10 ^ Suc k \<Longrightarrow> length (show_nat n) \<le> Suc k"
proof (induction k arbitrary: n)
  case (Suc k)
  then have "n div 10 < 10 ^ Suc k" by (simp add: less_mult_imp_div_less)
  with Suc.IH show ?case by (subst show_nat.simps) simp
qed (subst show_nat.simps, simp)

lemma show_nat_inj: "show_nat m = show_nat n \<longleftrightarrow> m = n"
  by (metis digits_val_show_nat)

lemma takeWhile_show_nat [text_simps]:
  "rest = [] \<or> \<not> is_digit (hd rest) \<Longrightarrow> takeWhile is_digit (show_nat n @ rest) = show_nat n"
  using show_nat_digits [of n] by (cases rest) (auto simp: list_all_iff)

lemma dropWhile_show_nat [text_simps]:
  "rest = [] \<or> \<not> is_digit (hd rest) \<Longrightarrow> dropWhile is_digit (show_nat n @ rest) = rest"
  using show_nat_digits [of n] by (cases rest) (auto simp: list_all_iff)

lemma show_nat_Cons: obtains d ds where "show_nat n = d # ds" "is_digit d"
  using show_nat_digits [of n] show_nat_nonempty [of n]
  by (cases "show_nat n") auto

lemma show_nat_leading: "0 < n \<Longrightarrow> hd (show_nat n) \<noteq> CHR ''0''"
proof (induction n rule: show_nat.induct)
  case (1 n)
  show ?case
  proof (cases "n < 10")
    case True
    have "of_char (digit n) \<noteq> (48 :: nat)"
      using True 1 by (simp add: of_char_digit)
    then have "digit n \<noteq> CHR ''0''" by auto
    with True show ?thesis by (subst show_nat.simps) simp
  next
    case False
    with 1 show ?thesis by (subst show_nat.simps) simp
  qed
qed

lemma nul_free_digits: "list_all is_digit s \<Longrightarrow> nul_free s"
  by (auto simp: nul_free_def nul_def list_all_iff is_digit_iff)

lemma nul_free_show_nat [simp]: "nul_free (show_nat n)"
  by (rule nul_free_digits) (rule show_nat_digits)

text \<open>Counting the elements of a list after an update.\<close>

lemma count_update:
  "i < length xs \<Longrightarrow> length (filter P (xs[i := x])) + (if P (xs ! i) then 1 else 0)
     = length (filter P xs) + (if P x then 1 else 0)"
proof -
  assume i: "i < length xs"
  have "length (filter P xs) = length (filter P (take i xs @ xs ! i # drop (Suc i) xs))"
    using id_take_nth_drop [OF i] by simp
  moreover have "length (filter P (xs[i := x])) = length (filter P (take i xs @ x # drop (Suc i) xs))"
    using upd_conv_take_nth_drop [OF i, of x] by simp
  ultimately show ?thesis by simp
qed

end
