(* ===== verification/RW_Lock.thy ===== *)
theory RW_Lock
  imports Prelude
begin

text \<open>
  \<^verbatim>\<open>include/RWLock.h\<close>, the reader-writer lock of a bulk handler.  Every operation runs under the
  mutex \<^verbatim>\<open>m\<close>, so one pass of it is one step; \<^verbatim>\<open>cv.wait\<close> gives the mutex back and puts the thread to
  sleep until a \<^verbatim>\<open>notify_all\<close> or a spurious wake-up, after which it tests its condition again.
\<close>

section \<open>The lock\<close>

record RWLock =
  readerCount :: int
  writerUsed :: bool

definition new_RWLock :: RWLock where
  "new_RWLock = \<lparr>readerCount = 0, writerUsed = False\<rparr>"

text \<open>One test of the condition: \<open>None\<close> when the thread has to wait.\<close>

definition getReadLock :: "RWLock \<Rightarrow> RWLock option" where
  "getReadLock l = (if writerUsed l then None else Some (l\<lparr>readerCount := readerCount l + 1\<rparr>))"

definition getWriteLock :: "RWLock \<Rightarrow> RWLock option" where
  "getWriteLock l = (if readerCount l \<noteq> 0 \<or> writerUsed l then None else Some (l\<lparr>writerUsed := True\<rparr>))"

text \<open>The flag says whether \<^verbatim>\<open>notify_all\<close> is called.\<close>

definition unlockReader :: "RWLock \<Rightarrow> RWLock \<times> bool" where
  "unlockReader l = (l\<lparr>readerCount := readerCount l - 1\<rparr>, readerCount l - 1 = 0)"

definition unlockWriter :: "RWLock \<Rightarrow> RWLock \<times> bool" where
  "unlockWriter l = (l\<lparr>writerUsed := False\<rparr>, True)"

section \<open>Threads\<close>

datatype mode = Reader | Writer

text \<open>Outside, inside the call and about to test, asleep in \<^verbatim>\<open>cv.wait\<close>, or holding the lock.\<close>

datatype pc = Outside | Asking mode | Asleep mode | Holding mode

record system =
  lock :: RWLock
  pcs :: "pc list"

fun wake :: "pc \<Rightarrow> pc" where
  "wake (Asleep m) = Asking m"
| "wake p = p"

definition notified :: "bool \<Rightarrow> pc list \<Rightarrow> pc list" where
  "notified notify ps = (if notify then map wake ps else ps)"

fun try_lock :: "mode \<Rightarrow> RWLock \<Rightarrow> RWLock option" where
  "try_lock Reader l = getReadLock l"
| "try_lock Writer l = getWriteLock l"

fun unlock :: "mode \<Rightarrow> RWLock \<Rightarrow> RWLock \<times> bool" where
  "unlock Reader l = unlockReader l"
| "unlock Writer l = unlockWriter l"

inductive lock_step :: "system \<Rightarrow> system \<Rightarrow> bool" where
  call: "i < length (pcs s) \<Longrightarrow> pcs s ! i = Outside \<Longrightarrow>
     lock_step s (s\<lparr>pcs := (pcs s)[i := Asking m]\<rparr>)"
| enter: "i < length (pcs s) \<Longrightarrow> pcs s ! i = Asking m \<Longrightarrow> try_lock m (lock s) = Some l \<Longrightarrow>
     lock_step s (s\<lparr>lock := l, pcs := (pcs s)[i := Holding m]\<rparr>)"
| wait: "i < length (pcs s) \<Longrightarrow> pcs s ! i = Asking m \<Longrightarrow> try_lock m (lock s) = None \<Longrightarrow>
     lock_step s (s\<lparr>pcs := (pcs s)[i := Asleep m]\<rparr>)"
| spurious: "i < length (pcs s) \<Longrightarrow> pcs s ! i = Asleep m \<Longrightarrow>
     lock_step s (s\<lparr>pcs := (pcs s)[i := Asking m]\<rparr>)"
| leave: "i < length (pcs s) \<Longrightarrow> pcs s ! i = Holding m \<Longrightarrow> unlock m (lock s) = (l, notify) \<Longrightarrow>
     lock_step s (s\<lparr>lock := l, pcs := notified notify ((pcs s)[i := Outside])\<rparr>)"

inductive lock_reach :: "nat \<Rightarrow> system \<Rightarrow> bool" for n where
  start: "lock_reach n \<lparr>lock = new_RWLock, pcs = replicate n Outside\<rparr>"
| step: "lock_reach n s \<Longrightarrow> lock_step s s' \<Longrightarrow> lock_reach n s'"

section \<open>The invariant\<close>

definition holders :: "mode \<Rightarrow> pc list \<Rightarrow> nat" where
  "holders m ps = length (filter (\<lambda>p. p = Holding m) ps)"

definition lock_inv :: "system \<Rightarrow> bool" where
  "lock_inv s \<longleftrightarrow> readerCount (lock s) = int (holders Reader (pcs s))
     \<and> holders Writer (pcs s) = (if writerUsed (lock s) then 1 else 0)
     \<and> (writerUsed (lock s) \<longrightarrow> readerCount (lock s) = 0)
     \<and> ((\<exists>m. Asleep m \<in> set (pcs s)) \<longrightarrow> readerCount (lock s) \<noteq> 0 \<or> writerUsed (lock s))"

lemma holders_update:
  "i < length ps \<Longrightarrow> holders m (ps[i := p]) + (if ps ! i = Holding m then 1 else 0)
     = holders m ps + (if p = Holding m then 1 else 0)"
  using count_update [of i ps "\<lambda>p. p = Holding m" p] by (simp add: holders_def)

lemma wake_iff: "wake p = Holding m \<longleftrightarrow> p = Holding m" "wake p \<noteq> Asleep m"
  by (cases p; simp)+

lemma holders_notified [simp]: "holders m (notified b ps) = holders m ps"
  by (simp add: holders_def notified_def filter_map comp_def wake_iff)

lemma asleep_notified: "Asleep m \<in> set (notified b ps) \<longleftrightarrow> \<not> b \<and> Asleep m \<in> set ps"
  using wake_iff(2) by (auto simp: notified_def) metis

lemma asleep_update: "Asleep m \<in> set (ps[i := p]) \<Longrightarrow> p \<noteq> Asleep m \<Longrightarrow> Asleep m \<in> set ps"
  using set_update_subset_insert [of ps i p] by auto

lemma lock_inv_step:
  assumes "lock_inv s" "lock_step s s'"
  shows "lock_inv s'"
  using assms(2)
proof (cases rule: lock_step.cases)
  case (call i m)
  with assms(1) holders_update [of i "pcs s" Reader "Asking m"] holders_update [of i "pcs s" Writer "Asking m"] show ?thesis
    by (auto simp: lock_inv_def dest: asleep_update)
next
  case (enter i m l)
  with assms(1) holders_update [of i "pcs s" Reader "Holding m"] holders_update [of i "pcs s" Writer "Holding m"] show ?thesis
    by (cases m) (auto simp: lock_inv_def getReadLock_def getWriteLock_def dest: asleep_update split: if_splits)
next
  case (wait i m)
  with assms(1) holders_update [of i "pcs s" Reader "Asleep m"] holders_update [of i "pcs s" Writer "Asleep m"] show ?thesis
    by (cases m) (auto simp: lock_inv_def getReadLock_def getWriteLock_def split: if_splits)
next
  case (spurious i m)
  with assms(1) holders_update [of i "pcs s" Reader "Asking m"] holders_update [of i "pcs s" Writer "Asking m"] show ?thesis
    by (auto simp: lock_inv_def dest: asleep_update)
next
  case (leave i m l notify)
  with assms(1) holders_update [of i "pcs s" Reader Outside] holders_update [of i "pcs s" Writer Outside] show ?thesis
    by (cases m) (auto simp: lock_inv_def unlockReader_def unlockWriter_def asleep_notified dest: asleep_update split: if_splits)
qed

lemma lock_inv_reach: "lock_reach n s \<Longrightarrow> lock_inv s"
proof (induction rule: lock_reach.induct)
  case start
  have "holders m (replicate n Outside) = 0" for m by (simp add: holders_def)
  then show ?case by (auto simp: lock_inv_def new_RWLock_def)
qed (rule lock_inv_step)

section \<open>Properties\<close>

lemma holders_pos: "holders m ps = 0 \<longleftrightarrow> Holding m \<notin> set ps"
  by (auto simp: holders_def filter_empty_conv)

lemma holders_two:
  assumes "i < length ps" "j < length ps" "i \<noteq> j" "ps ! i = Holding m" "ps ! j = Holding m"
  shows "holders m ps > 1"
proof -
  have "holders m (ps[i := Outside]) + 1 = holders m ps"
    using holders_update [OF assms(1), of m Outside] assms(4) by simp
  moreover have "Holding m \<in> set (ps[i := Outside])"
    using assms(2,3,5) by (metis length_list_update nth_list_update_neq nth_mem)
  then have "holders m (ps[i := Outside]) > 0" using holders_pos by (metis neq0_conv)
  ultimately show ?thesis by simp
qed

text \<open>A run of two threads in which the second sleeps while the first writes, for the witnesses.\<close>

lemma writer_and_sleeper:
  "lock_reach 2 \<lparr>lock = \<lparr>readerCount = 0, writerUsed = True\<rparr>, pcs = [Holding Writer, Asleep Reader]\<rparr>"
proof -
  have s0: "lock_reach 2 \<lparr>lock = new_RWLock, pcs = [Outside, Outside]\<rparr>"
    using lock_reach.start [of 2] by (simp add: numeral_2_eq_2)
  have s1: "lock_reach 2 \<lparr>lock = new_RWLock, pcs = [Asking Writer, Outside]\<rparr>"
    using lock_reach.step [OF s0 lock_step.call [of 0 _ Writer]] by simp
  have s2: "lock_reach 2 \<lparr>lock = new_RWLock, pcs = [Asking Writer, Asking Reader]\<rparr>"
    using lock_reach.step [OF s1 lock_step.call [of 1 _ Reader]] by simp
  have s3: "lock_reach 2 \<lparr>lock = \<lparr>readerCount = 0, writerUsed = True\<rparr>, pcs = [Holding Writer, Asking Reader]\<rparr>"
    using lock_reach.step [OF s2 lock_step.enter [of 0 _ Writer]] by (simp add: getWriteLock_def new_RWLock_def)
  show ?thesis
    using lock_reach.step [OF s3 lock_step.wait [of 1 _ Reader]] by (simp add: getReadLock_def)
qed

text \<open>And a run of three in which two read together while the third asks to write.\<close>

lemma two_readers:
  "\<exists>s. lock_reach 3 s \<and> pcs s = [Holding Reader, Holding Reader, Asking Writer]"
proof -
  have s0: "lock_reach 3 \<lparr>lock = new_RWLock, pcs = [Outside, Outside, Outside]\<rparr>"
    using lock_reach.start [of 3] by (simp add: numeral_3_eq_3)
  have s1: "lock_reach 3 \<lparr>lock = new_RWLock, pcs = [Asking Reader, Outside, Outside]\<rparr>"
    using lock_reach.step [OF s0 lock_step.call [of 0 _ Reader]] by simp
  have s2: "lock_reach 3 \<lparr>lock = new_RWLock, pcs = [Asking Reader, Asking Reader, Outside]\<rparr>"
    using lock_reach.step [OF s1 lock_step.call [of 1 _ Reader]] by simp
  have s3: "lock_reach 3 \<lparr>lock = new_RWLock, pcs = [Asking Reader, Asking Reader, Asking Writer]\<rparr>"
    using lock_reach.step [OF s2 lock_step.call [of 2 _ Writer]] by simp
  have s4: "lock_reach 3 \<lparr>lock = \<lparr>readerCount = 1, writerUsed = False\<rparr>, pcs = [Holding Reader, Asking Reader, Asking Writer]\<rparr>"
    using lock_reach.step [OF s3 lock_step.enter [of 0 _ Reader]] by (simp add: getReadLock_def new_RWLock_def)
  have "lock_reach 3 \<lparr>lock = \<lparr>readerCount = 2, writerUsed = False\<rparr>, pcs = [Holding Reader, Holding Reader, Asking Writer]\<rparr>"
    using lock_reach.step [OF s4 lock_step.enter [of 1 _ Reader]] by (simp add: getReadLock_def)
  then show ?thesis by fastforce
qed

text \<open>
  C36. Mutual exclusion: in every state any number of threads can reach, while one thread holds the
  lock for writing no other thread holds it, and \<^verbatim>\<open>readerCount\<close> is the number of readers inside.
\<close>

theorem RWLock_exclusion:
  assumes "lock_reach n s"
  shows "readerCount (lock s) = int (holders Reader (pcs s))
     \<and> (\<forall>i j m. i < length (pcs s) \<and> j < length (pcs s) \<and> i \<noteq> j \<and> pcs s ! i = Holding Writer
            \<longrightarrow> pcs s ! j \<noteq> Holding m)"
proof (intro conjI allI impI)
  have inv: "lock_inv s" using assms by (rule lock_inv_reach)
  then show "readerCount (lock s) = int (holders Reader (pcs s))" by (simp add: lock_inv_def)
  fix i j m
  assume i: "i < length (pcs s) \<and> j < length (pcs s) \<and> i \<noteq> j \<and> pcs s ! i = Holding Writer"
  then have "Holding Writer \<in> set (pcs s)" by (metis nth_mem)
  then have w: "holders Writer (pcs s) = 1" "holders Reader (pcs s) = 0"
    using inv holders_pos [of Writer "pcs s"] by (auto simp: lock_inv_def split: if_splits)
  show "pcs s ! j \<noteq> Holding m"
  proof
    assume j: "pcs s ! j = Holding m"
    show False
    proof (cases m)
      case Reader
      with j i have "Holding Reader \<in> set (pcs s)" by (metis nth_mem)
      with w(2) holders_pos show False by metis
    next
      case Writer
      with holders_two [of i "pcs s" j Writer] i j w(1) show False by simp
    qed
  qed
qed

text \<open>
  The witness: two readers hold the lock together and are counted; from there neither is turned out, and a
  writer that asks is refused.
\<close>

theorem RWLock_exclusion_witness:
  "\<exists>s w. lock_reach 3 s \<and> pcs s = [Holding Reader, Holding Reader, Asking Writer] \<and> readerCount (lock s) = 2
     \<and> try_lock Writer (lock s) = None
     \<and> lock_reach 2 w \<and> pcs w ! 0 = Holding Writer \<and> pcs w ! 1 \<noteq> Holding Reader \<and> try_lock Reader (lock w) = None"
proof -
  obtain s where s: "lock_reach 3 s" "pcs s = [Holding Reader, Holding Reader, Asking Writer]"
    using two_readers by blast
  have "readerCount (lock s) = 2"
    using RWLock_exclusion [OF s(1)] by (simp add: s(2) holders_def)
  then have "try_lock Writer (lock s) = None" by (simp add: getWriteLock_def)
  moreover let ?w = "\<lparr>lock = \<lparr>readerCount = 0, writerUsed = True\<rparr>, pcs = [Holding Writer, Asleep Reader]\<rparr>"
  have "pcs ?w ! 1 \<noteq> Holding Reader" using RWLock_exclusion [OF writer_and_sleeper] by auto
  moreover have "pcs ?w ! 0 = Holding Writer" "try_lock Reader (lock ?w) = None" by (simp_all add: getReadLock_def)
  ultimately show ?thesis using s \<open>readerCount (lock s) = 2\<close> writer_and_sleeper by blast
qed

text \<open>
  C37. No wake-up is lost: whenever a thread sleeps in the lock, some thread holds it - whose
  unlocking wakes the sleepers when it is the last -, and when no thread holds the lock every thread
  that asks can enter at once.
\<close>

theorem RWLock_no_lost_wakeup:
  assumes "lock_reach n s"
  shows "(Asleep m \<in> set (pcs s) \<longrightarrow> (\<exists>k. Holding k \<in> set (pcs s)))
     \<and> ((\<forall>k. Holding k \<notin> set (pcs s)) \<longrightarrow> try_lock m (lock s) \<noteq> None)"
proof -
  have inv: "lock_inv s" using assms by (rule lock_inv_reach)
  have free: "readerCount (lock s) = 0 \<and> \<not> writerUsed (lock s)" if "\<forall>k. Holding k \<notin> set (pcs s)"
    using inv that holders_pos [of Reader "pcs s"] holders_pos [of Writer "pcs s"]
    by (auto simp: lock_inv_def split: if_splits)
  show ?thesis
  proof (intro conjI impI)
    assume "Asleep m \<in> set (pcs s)"
    with inv have "\<not> (readerCount (lock s) = 0 \<and> \<not> writerUsed (lock s))" by (auto simp: lock_inv_def)
    with free show "\<exists>k. Holding k \<in> set (pcs s)" by blast
  next
    assume "\<forall>k. Holding k \<notin> set (pcs s)"
    with free show "try_lock m (lock s) \<noteq> None" by (cases m) (simp_all add: getReadLock_def getWriteLock_def)
  qed
qed

text \<open>
  The witness: a reader sleeps while a writer holds the lock; one step later the writer has left, the reader
  is awake, and the lock is free for it.
\<close>

theorem RWLock_no_lost_wakeup_witness:
  "\<exists>s s'. lock_reach 2 s \<and> Asleep Reader \<in> set (pcs s) \<and> (\<exists>k. Holding k \<in> set (pcs s)) \<and> try_lock Reader (lock s) = None
     \<and> lock_step s s' \<and> pcs s' = [Outside, Asking Reader] \<and> try_lock Reader (lock s') \<noteq> None"
proof -
  let ?s = "\<lparr>lock = \<lparr>readerCount = 0, writerUsed = True\<rparr>, pcs = [Holding Writer, Asleep Reader]\<rparr>"
  let ?s' = "?s\<lparr>lock := \<lparr>readerCount = 0, writerUsed = False\<rparr>, pcs := [Outside, Asking Reader]\<rparr>"
  have step: "lock_step ?s ?s'"
    using lock_step.leave [of 0 ?s Writer "\<lparr>readerCount = 0, writerUsed = False\<rparr>" True]
    by (simp add: unlockWriter_def notified_def)
  have "Asleep Reader \<in> set (pcs ?s) \<longrightarrow> (\<exists>k. Holding k \<in> set (pcs ?s))"
    using RWLock_no_lost_wakeup [OF writer_and_sleeper] by blast
  moreover have "(\<forall>k. Holding k \<notin> set (pcs ?s')) \<longrightarrow> try_lock Reader (lock ?s') \<noteq> None"
    using RWLock_no_lost_wakeup [OF lock_reach.step [OF writer_and_sleeper step]] by blast
  moreover have "Asleep Reader \<in> set (pcs ?s)" "\<forall>k. Holding k \<notin> set (pcs ?s')" "pcs ?s' = [Outside, Asking Reader]"
    "try_lock Reader (lock ?s) = None" by (simp_all add: getReadLock_def)
  ultimately show ?thesis using writer_and_sleeper step by blast
qed

end
