(* ===== verification/Config.thy ===== *)
theory Config
  imports Main
begin

text \<open>
  The sizes and thresholds of \<^verbatim>\<open>include/Config.h\<close>, by the source's names.  A size is a \<open>nat\<close>;
  every constant here is far below the \<^verbatim>\<open>int\<close> limit.
\<close>

definition BUFFER_SIZE :: nat where "BUFFER_SIZE = 1024"
definition Q_LEN :: nat where "Q_LEN = 1024"
definition STR_LEN :: nat where "STR_LEN = 1024"
definition CLIENT_Q_LEN :: nat where "CLIENT_Q_LEN = 128"
definition CLIENT_STR_LEN :: nat where "CLIENT_STR_LEN = 1024"
definition BULKSIZE :: nat where "BULKSIZE = 4096 * 512"
definition QueryResult_SIZE :: nat where "QueryResult_SIZE = 4096 * 4"
definition QueryResult_Q_LEN :: nat where "QueryResult_Q_LEN = 16"
definition SEARCH_KEYWORD_LEN :: nat where "SEARCH_KEYWORD_LEN = 32"
definition KEY_LEN :: nat where "KEY_LEN = 16"
definition FILE_NAME_LEN :: nat where "FILE_NAME_LEN = 32"
definition BULK_QUEUE_LEN :: nat where "BULK_QUEUE_LEN = 64"
definition PERSISTENCE_THRESHOLD :: nat where "PERSISTENCE_THRESHOLD = 48"
definition RELEASE_TIME :: int where "RELEASE_TIME = 12000"
definition AUTOSAVE_TIME :: int where "AUTOSAVE_TIME = 30000"
definition PERSISTENCE_SLEEP_TIME :: int where "PERSISTENCE_SLEEP_TIME = 100"
definition MAX_NUM_RESULT :: int where "MAX_NUM_RESULT = 50000"

lemmas config_defs =
  BUFFER_SIZE_def Q_LEN_def STR_LEN_def CLIENT_Q_LEN_def CLIENT_STR_LEN_def BULKSIZE_def
  QueryResult_SIZE_def QueryResult_Q_LEN_def SEARCH_KEYWORD_LEN_def KEY_LEN_def FILE_NAME_LEN_def
  BULK_QUEUE_LEN_def PERSISTENCE_THRESHOLD_def RELEASE_TIME_def AUTOSAVE_TIME_def
  PERSISTENCE_SLEEP_TIME_def MAX_NUM_RESULT_def

end
