(* ===== verification/Msg_Queue.thy ===== *)
theory Msg_Queue
  imports Prelude Config
begin

text \<open>
  \<^verbatim>\<open>include/MsgQueue.h\<close>: the ring buffer in shared memory that carries requests, query results and
  bulk buffers between the processes and threads.  \<open>slots\<close> is the byte array \<^verbatim>\<open>msg_queue_\<close> cut into
  messages of \<open>one_msg_size\<close> cells; the cell type is a parameter (bytes for the raw queue, or one
  cell per object).  A returned pointer into the array is the index of its slot.  The locale
  \<open>bounded_fifo\<close> is the interface the processes rely on; the ring buffer is shown to provide it.
\<close>

section \<open>The queue\<close>

record 'a MsgQueue =
  size_q :: nat
  one_msg_size :: nat
  write_position :: nat
  read_position :: nat
  read_sem :: int
  write_sem :: int
  slots :: "'a list list"

definition new_MsgQueue :: "nat \<Rightarrow> nat \<Rightarrow> 'a \<Rightarrow> 'a MsgQueue" where
  "new_MsgQueue queue_len msg_size z = \<lparr>size_q = queue_len, one_msg_size = msg_size,
     write_position = 0, read_position = 0, read_sem = 1, write_sem = 1,
     slots = replicate queue_len (replicate msg_size z)\<rparr>"

text \<open>A semaphore is its count; waiting on a count of zero never returns here (\<open>None\<close>).\<close>

definition sem_wait :: "int \<Rightarrow> int option" where
  "sem_wait s = (if s > 0 then Some (s - 1) else None)"

definition isInit :: "'a MsgQueue \<Rightarrow> bool" where
  "isInit q \<longleftrightarrow> size_q q \<noteq> 0"

definition Empty :: "'a MsgQueue \<Rightarrow> bool" where
  "Empty q \<longleftrightarrow> write_position q = read_position q"

definition Full :: "'a MsgQueue \<Rightarrow> bool" where
  "Full q \<longleftrightarrow> (write_position q + 1) mod size_q q = read_position q"

definition Size :: "'a MsgQueue \<Rightarrow> nat" where
  "Size q = (if write_position q \<ge> read_position q then write_position q - read_position q
             else write_position q + size_q q - read_position q)"

text \<open>\<^verbatim>\<open>p++; if(p >= size_) p = 0;\<close>\<close>

definition advance :: "nat \<Rightarrow> nat \<Rightarrow> nat" where
  "advance n p = (if p + 1 \<ge> n then 0 else p + 1)"

definition copy_in :: "'a list option \<Rightarrow> nat \<Rightarrow> 'a MsgQueue \<Rightarrow> 'a MsgQueue" where
  "copy_in buf len q = (case buf of
       None \<Rightarrow> q
     | Some b \<Rightarrow> q\<lparr>slots := (slots q)[write_position q := take len b @ drop len (slots q ! write_position q)]\<rparr>)"

definition clip_len :: "'a MsgQueue \<Rightarrow> nat \<Rightarrow> nat" where
  "clip_len q len = (if len = 0 \<or> len > one_msg_size q then one_msg_size q else len)"

definition write_slot :: "'a list option \<Rightarrow> nat \<Rightarrow> 'a MsgQueue \<Rightarrow> 'a MsgQueue" where
  "write_slot buf len q =
     (let q' = copy_in buf len q in q'\<lparr>write_position := advance (size_q q) (write_position q)\<rparr>)"

text \<open>A full queue posts \<^verbatim>\<open>write_sem_\<close> although nothing waited on it.\<close>

definition WriteToMsgQueue :: "'a list option \<Rightarrow> nat \<Rightarrow> 'a MsgQueue \<Rightarrow> nat \<times> 'a MsgQueue" where
  "WriteToMsgQueue buf len q =
     (let len' = clip_len q len
      in if Full q then (0, q\<lparr>write_sem := write_sem q + 1\<rparr>) else (len', write_slot buf len' q))"

text \<open>\<^verbatim>\<open>while(Full());\<close> spins: with no other thread running it returns only if the queue is not full.\<close>

definition WriteToMsgQueue_Wait :: "'a list option \<Rightarrow> nat \<Rightarrow> 'a MsgQueue \<Rightarrow> (nat \<times> 'a MsgQueue) option" where
  "WriteToMsgQueue_Wait buf len q =
     (let len' = clip_len q len in if Full q then None else Some (len', write_slot buf len' q))"

text \<open>The result is the return value, what was copied out, and the queue.\<close>

definition ReadAndDeleteFromMsgQueue :: "'a MsgQueue \<Rightarrow> (nat \<times> 'a list option \<times> 'a MsgQueue) option" where
  "ReadAndDeleteFromMsgQueue q =
     (case sem_wait (read_sem q) of
        None \<Rightarrow> None
      | Some s \<Rightarrow>
          if Empty q then Some (0, None, q\<lparr>read_sem := s + 1\<rparr>)
          else Some (one_msg_size q, Some (slots q ! read_position q),
                 q\<lparr>read_position := advance (size_q q) (read_position q), read_sem := s + 1\<rparr>))"

definition Get_Unit :: "'a \<Rightarrow> 'a MsgQueue \<Rightarrow> nat option \<times> 'a MsgQueue" where
  "Get_Unit z q =
     (if Full q then (None, q\<lparr>write_sem := write_sem q + 1\<rparr>)
      else (Some (write_position q),
            q\<lparr>slots := (slots q)[write_position q := replicate (one_msg_size q) z],
              write_position := advance (size_q q) (write_position q)\<rparr>))"

definition Front_Unit :: "'a MsgQueue \<Rightarrow> (nat option \<times> 'a MsgQueue) option" where
  "Front_Unit q =
     (case sem_wait (read_sem q) of
        None \<Rightarrow> None
      | Some s \<Rightarrow>
          if Empty q then Some (None, q\<lparr>read_sem := s + 1\<rparr>)
          else Some (Some (read_position q), q\<lparr>read_sem := s + 1\<rparr>))"

definition Release_front_unit :: "'a MsgQueue \<Rightarrow> (nat option \<times> 'a MsgQueue) option" where
  "Release_front_unit q =
     (case sem_wait (read_sem q) of
        None \<Rightarrow> None
      | Some s \<Rightarrow>
          if Empty q then Some (None, q\<lparr>read_sem := s + 1\<rparr>)
          else Some (Some (read_position q),
                 q\<lparr>read_position := advance (size_q q) (read_position q), read_sem := s + 1\<rparr>))"

section \<open>Invariant and contents\<close>

definition queue_inv :: "'a MsgQueue \<Rightarrow> bool" where
  "queue_inv q \<longleftrightarrow> 0 < size_q q \<and> 0 < one_msg_size q
     \<and> write_position q < size_q q \<and> read_position q < size_q q
     \<and> length (slots q) = size_q q \<and> (\<forall>s \<in> set (slots q). length s = one_msg_size q)
     \<and> read_sem q = 1"

definition slot_order :: "'a MsgQueue \<Rightarrow> nat list" where
  "slot_order q = map (\<lambda>i. (read_position q + i) mod size_q q) [0..<Size q]"

definition contents :: "'a MsgQueue \<Rightarrow> 'a list list" where
  "contents q = map (\<lambda>i. slots q ! i) (slot_order q)"

lemma advance_mod: "p < n \<Longrightarrow> advance n p = (p + 1) mod n"
  by (auto simp: advance_def mod_if)

lemma Size_mod: "queue_inv q \<Longrightarrow> Size q = (write_position q + size_q q - read_position q) mod size_q q"
  by (auto simp: queue_inv_def Size_def mod_if)

lemma Size_bound: "queue_inv q \<Longrightarrow> Size q < size_q q"
  by (auto simp: Size_mod queue_inv_def)

lemma Empty_iff: "queue_inv q \<Longrightarrow> Empty q \<longleftrightarrow> Size q = 0"
  by (auto simp: queue_inv_def Empty_def Size_def)

lemma Full_iff: "queue_inv q \<Longrightarrow> Full q \<longleftrightarrow> Size q = size_q q - 1"
  by (auto simp: queue_inv_def Full_def Size_def mod_if)

lemma write_position_order: "queue_inv q \<Longrightarrow> write_position q = (read_position q + Size q) mod size_q q"
  by (auto simp: queue_inv_def Size_def mod_if)

lemma Size_after_write:
  "queue_inv q \<Longrightarrow> \<not> Full q \<Longrightarrow> Size (q\<lparr>slots := ss, write_position := advance (size_q q) (write_position q)\<rparr>) = Suc (Size q)"
  by (auto simp: queue_inv_def Full_def Size_def advance_def mod_if split: if_splits)

lemma Size_after_read:
  "queue_inv q \<Longrightarrow> \<not> Empty q \<Longrightarrow>
   Size q = Suc (Size (q\<lparr>read_position := advance (size_q q) (read_position q), read_sem := s\<rparr>))"
  by (auto simp: queue_inv_def Empty_def Size_def advance_def split: if_splits)

lemma slot_order_bound: "queue_inv q \<Longrightarrow> i \<in> set (slot_order q) \<Longrightarrow> i < size_q q"
  by (auto simp: queue_inv_def slot_order_def)

lemma mod_shift_eq:
  fixes r i j n :: nat
  assumes "i < n" "j < n" "(r + i) mod n = (r + j) mod n"
  shows "i = j"
proof -
  have "i mod n = j mod n"
    using assms(3) by (simp add: nat_mod_eq_iff)
  with assms(1,2) show ?thesis by simp
qed

lemma slot_order_distinct: "queue_inv q \<Longrightarrow> distinct (slot_order q)"
proof -
  assume q: "queue_inv q"
  have "inj_on (\<lambda>i. (read_position q + i) mod size_q q) {0..<Size q}"
    using Size_bound [OF q] by (auto intro!: inj_onI mod_shift_eq [of _ "size_q q" _ "read_position q"])
  then show ?thesis by (simp add: slot_order_def distinct_map)
qed

lemma length_slot_order [simp]: "length (slot_order q) = Size q"
  by (simp add: slot_order_def)

lemma slot_order_ne: "0 < Size q \<Longrightarrow> slot_order q \<noteq> []"
  by (metis length_slot_order less_numeral_extra(3) list.size(3))

lemma write_position_free: "queue_inv q \<Longrightarrow> write_position q \<notin> set (slot_order q)"
proof
  assume q: "queue_inv q" and "write_position q \<in> set (slot_order q)"
  then obtain i where "i < Size q" "(read_position q + i) mod size_q q = write_position q"
    by (auto simp: slot_order_def)
  with q have "i = Size q"
    by (intro mod_shift_eq [of i "size_q q" "Size q" "read_position q"])
       (auto simp: write_position_order [OF q, symmetric] dest: Size_bound)
  with \<open>i < Size q\<close> show False by simp
qed

lemma read_position_first:
  "queue_inv q \<Longrightarrow> \<not> Empty q \<Longrightarrow>
   slot_order q = read_position q # slot_order (q\<lparr>read_position := advance (size_q q) (read_position q), read_sem := s\<rparr>)"
proof -
  assume q: "queue_inv q" "\<not> Empty q"
  let ?q' = "q\<lparr>read_position := advance (size_q q) (read_position q), read_sem := s\<rparr>"
  have "[0..<Size q] = 0 # map Suc [0..<Size ?q']"
    by (subst Size_after_read [OF q, of s]) (simp only: upt_conv_Cons map_Suc_upt zero_less_Suc)
  moreover have "(read_position q + Suc i) mod size_q q = (read_position ?q' + i) mod size_q q" for i
    using q(1) by (simp add: advance_mod queue_inv_def mod_add_left_eq)
  ultimately show ?thesis
    using q(1) by (simp add: slot_order_def queue_inv_def)
qed

lemma slot_order_write:
  "queue_inv q \<Longrightarrow> \<not> Full q \<Longrightarrow>
   slot_order (q\<lparr>slots := ss, write_position := advance (size_q q) (write_position q)\<rparr>) = slot_order q @ [write_position q]"
  by (simp add: slot_order_def Size_after_write flip: write_position_order)

lemma advance_less: "0 < n \<Longrightarrow> advance n p < n"
  by (auto simp: advance_def)

lemma queue_inv_write:
  "queue_inv q \<Longrightarrow> length m = one_msg_size q \<Longrightarrow>
   queue_inv (q\<lparr>slots := (slots q)[write_position q := m], write_position := advance (size_q q) (write_position q)\<rparr>)"
  by (auto simp: queue_inv_def advance_less dest: set_update_subset_insert [THEN subsetD])

lemma queue_inv_read:
  "queue_inv q \<Longrightarrow> queue_inv (q\<lparr>read_position := advance (size_q q) (read_position q), read_sem := 1\<rparr>)"
  by (auto simp: queue_inv_def advance_less)

lemma contents_write:
  assumes "queue_inv q" "\<not> Full q"
  shows "contents (q\<lparr>slots := (slots q)[write_position q := m], write_position := advance (size_q q) (write_position q)\<rparr>)
         = contents q @ [m]"
  using assms write_position_free [OF assms(1)]
  by (auto simp: contents_def slot_order_write queue_inv_def intro!: nth_list_update_neq)

lemma new_MsgQueue_inv: "0 < n \<Longrightarrow> 0 < k \<Longrightarrow> queue_inv (new_MsgQueue n k z) \<and> contents (new_MsgQueue n k z) = []"
  by (simp add: queue_inv_def new_MsgQueue_def contents_def slot_order_def Size_def)

text \<open>Sending and receiving one whole message, as the processes call the two operations.\<close>

definition send :: "'a list \<Rightarrow> 'a MsgQueue \<Rightarrow> bool \<times> 'a MsgQueue" where
  "send m q = (let (n, q') = WriteToMsgQueue (Some m) 0 q in (n \<noteq> 0, q'))"

definition receive :: "'a MsgQueue \<Rightarrow> ('a list option \<times> 'a MsgQueue) option" where
  "receive q = map_option (\<lambda>(n, m, q'). (m, q')) (ReadAndDeleteFromMsgQueue q)"

lemma write_slot_whole:
  "queue_inv q \<Longrightarrow> length m = one_msg_size q \<Longrightarrow>
   write_slot (Some m) (clip_len q 0) q
   = q\<lparr>slots := (slots q)[write_position q := m], write_position := advance (size_q q) (write_position q)\<rparr>"
  by (simp add: write_slot_def copy_in_def clip_len_def queue_inv_def nth_mem)

lemma send_free:
  assumes "queue_inv q" "length m = one_msg_size q" "\<not> Full q"
  shows "\<exists>q'. send m q = (True, q') \<and> queue_inv q' \<and> contents q' = contents q @ [m]
              \<and> size_q q' = size_q q \<and> one_msg_size q' = one_msg_size q"
proof -
  let ?q' = "q\<lparr>slots := (slots q)[write_position q := m], write_position := advance (size_q q) (write_position q)\<rparr>"
  have "clip_len q 0 \<noteq> 0" using assms(1) by (simp add: clip_len_def queue_inv_def)
  then have "send m q = (True, ?q')"
    using assms by (simp add: send_def WriteToMsgQueue_def write_slot_whole)
  with queue_inv_write [OF assms(1,2)] contents_write [OF assms(1,3), of m] show ?thesis by simp
qed

lemma send_full:
  assumes "queue_inv q" "Full q"
  shows "\<exists>q'. send m q = (False, q') \<and> queue_inv q' \<and> contents q' = contents q
              \<and> size_q q' = size_q q \<and> one_msg_size q' = one_msg_size q"
  using assms by (auto simp: send_def WriteToMsgQueue_def queue_inv_def contents_def slot_order_def Size_def)

lemma receive_empty:
  assumes "queue_inv q" "Empty q"
  shows "receive q = Some (None, q)"
  using assms by (simp add: receive_def ReadAndDeleteFromMsgQueue_def sem_wait_def queue_inv_def)

lemma receive_item:
  assumes "queue_inv q" "contents q = m # ms"
  shows "\<exists>q'. receive q = Some (Some m, q') \<and> queue_inv q' \<and> contents q' = ms
              \<and> size_q q' = size_q q \<and> one_msg_size q' = one_msg_size q"
proof -
  have "length (contents q) = Size q" by (simp add: contents_def slot_order_def)
  then have ne: "\<not> Empty q" using assms by (simp add: Empty_iff)
  let ?q' = "q\<lparr>read_position := advance (size_q q) (read_position q), read_sem := 1\<rparr>"
  have "contents q = slots q ! read_position q # contents ?q'"
    by (subst contents_def, subst read_position_first [OF assms(1) ne, of 1]) (simp add: contents_def)
  moreover have "read_sem q = 1" using assms(1) by (simp add: queue_inv_def)
  then have "receive q = Some (Some (slots q ! read_position q), ?q')"
    using ne by (simp add: receive_def ReadAndDeleteFromMsgQueue_def sem_wait_def)
  ultimately show ?thesis
    using assms queue_inv_read [OF assms(1)] by simp
qed

section \<open>The interface the processes rely on\<close>

locale bounded_fifo =
  fixes inv :: "'q \<Rightarrow> bool"
    and fits :: "'q \<Rightarrow> 'm \<Rightarrow> bool"
    and items :: "'q \<Rightarrow> 'm list"
    and room :: "'q \<Rightarrow> nat"
    and enq :: "'m \<Rightarrow> 'q \<Rightarrow> bool \<times> 'q"
    and deq :: "'q \<Rightarrow> ('m option \<times> 'q) option"
  assumes enq_free: "inv q \<Longrightarrow> fits q m \<Longrightarrow> length (items q) < room q \<Longrightarrow>
      \<exists>q'. enq m q = (True, q') \<and> inv q' \<and> items q' = items q @ [m] \<and> room q' = room q \<and> fits q' = fits q"
    and enq_full: "inv q \<Longrightarrow> fits q m \<Longrightarrow> \<not> length (items q) < room q \<Longrightarrow>
      \<exists>q'. enq m q = (False, q') \<and> inv q' \<and> items q' = items q \<and> room q' = room q \<and> fits q' = fits q"
    and deq_empty: "inv q \<Longrightarrow> items q = [] \<Longrightarrow> deq q = Some (None, q)"
    and deq_item: "inv q \<Longrightarrow> items q = m # ms \<Longrightarrow>
      \<exists>q'. deq q = Some (Some m, q') \<and> inv q' \<and> items q' = ms \<and> room q' = room q \<and> fits q' = fits q"

datatype 'm fifo_op = Send 'm | Receive

text \<open>
  A run of sends and receives against a queue given by its two operations: the messages that were
  accepted, those that were received, and the final queue.
\<close>

fun run_fifo :: "('m \<Rightarrow> 'q \<Rightarrow> bool \<times> 'q) \<Rightarrow> ('q \<Rightarrow> ('m option \<times> 'q) option) \<Rightarrow> 'm fifo_op list \<Rightarrow> 'q
    \<Rightarrow> ('m list \<times> 'm list \<times> 'q) option" where
  "run_fifo enq deq [] q = Some ([], [], q)"
| "run_fifo enq deq (Send m # ops) q =
     (let (ok, q') = enq m q
      in map_option (\<lambda>(acc, rec, q''). (if ok then m # acc else acc, rec, q'')) (run_fifo enq deq ops q'))"
| "run_fifo enq deq (Receive # ops) q =
     (case deq q of
        None \<Rightarrow> None
      | Some (r, q') \<Rightarrow>
          map_option (\<lambda>(acc, rec, q''). (acc, (case r of None \<Rightarrow> rec | Some m \<Rightarrow> m # rec), q''))
            (run_fifo enq deq ops q'))"

context bounded_fifo begin

lemma run_in_order:
  "inv q \<Longrightarrow> (\<forall>m. Send m \<in> set ops \<longrightarrow> fits q m) \<Longrightarrow> length (items q) \<le> room q \<Longrightarrow>
   \<exists>acc rec q'. run_fifo enq deq ops q = Some (acc, rec, q') \<and> inv q'
      \<and> items q @ acc = rec @ items q' \<and> length (items q') \<le> room q \<and> room q' = room q"
proof (induction ops arbitrary: q)
  case (Cons op ops)
  show ?case
  proof (cases op)
    case (Send m)
    with Cons.prems have fit: "fits q m" by simp
    show ?thesis
    proof (cases "length (items q) < room q")
      case True
      from enq_free [OF Cons.prems(1) fit True] obtain q' where
        q': "enq m q = (True, q')" "inv q'" "items q' = items q @ [m]" "room q' = room q" "fits q' = fits q"
        by blast
      with Cons.IH [of q'] Cons.prems True Send show ?thesis by fastforce
    next
      case False
      from enq_full [OF Cons.prems(1) fit False] obtain q' where
        q': "enq m q = (False, q')" "inv q'" "items q' = items q" "room q' = room q" "fits q' = fits q"
        by blast
      with Cons.IH [of q'] Cons.prems Send show ?thesis by fastforce
    qed
  next
    case Receive
    show ?thesis
    proof (cases "items q")
      case Nil
      with Cons.IH [of q] Cons.prems Receive show ?thesis by (auto simp: deq_empty)
    next
      case (Cons m ms)
      from deq_item [OF Cons.prems(1) Cons] obtain q' where
        q': "deq q = Some (Some m, q')" "inv q'" "items q' = ms" "room q' = room q" "fits q' = fits q"
        by blast
      with Cons.IH [of q'] Cons.prems Cons Receive show ?thesis by fastforce
    qed
  qed
qed auto

end

interpretation ring: bounded_fifo queue_inv "\<lambda>q m. length m = one_msg_size q" contents
    "\<lambda>q. size_q q - 1" send receive
proof unfold_locales
  fix q :: "'a MsgQueue" and m :: "'a list" and ms
  assume q: "queue_inv q"
  have len: "length (contents q) = Size q" by (simp add: contents_def slot_order_def)
  show "length m = one_msg_size q \<Longrightarrow> length (contents q) < size_q q - 1 \<Longrightarrow>
    \<exists>q'. send m q = (True, q') \<and> queue_inv q' \<and> contents q' = contents q @ [m]
      \<and> size_q q' - 1 = size_q q - 1 \<and> (\<lambda>m. length m = one_msg_size q') = (\<lambda>m. length m = one_msg_size q)"
    using send_free [OF q, of m] by (auto simp: len Full_iff [OF q])
  show "length m = one_msg_size q \<Longrightarrow> \<not> length (contents q) < size_q q - 1 \<Longrightarrow>
    \<exists>q'. send m q = (False, q') \<and> queue_inv q' \<and> contents q' = contents q
      \<and> size_q q' - 1 = size_q q - 1 \<and> (\<lambda>m. length m = one_msg_size q') = (\<lambda>m. length m = one_msg_size q)"
    using send_full [OF q, of m] Size_bound [OF q] by (fastforce simp: len Full_iff [OF q])
  show "contents q = [] \<Longrightarrow> receive q = Some (None, q)"
    using receive_empty [OF q] by (auto simp: Empty_iff [OF q] simp flip: len)
  show "contents q = m # ms \<Longrightarrow>
    \<exists>q'. receive q = Some (Some m, q') \<and> queue_inv q' \<and> contents q' = ms
      \<and> size_q q' - 1 = size_q q - 1 \<and> (\<lambda>m. length m = one_msg_size q') = (\<lambda>m. length m = one_msg_size q)"
    using receive_item [OF q] by fastforce
qed

text \<open>
  C18. The ring buffer is a FIFO of at most \<open>size_ - 1\<close> messages: in any run of sends and receives no
  call hangs, what was received followed by what is still queued is what was queued at the start
  followed by what was accepted, in order, and nothing is lost, duplicated or overwritten.
\<close>

theorem MsgQueue_fifo:
  assumes "queue_inv q" and "\<forall>m. Send m \<in> set ops \<longrightarrow> length m = one_msg_size q"
  shows "\<exists>acc rec q'. run_fifo send receive ops q = Some (acc, rec, q') \<and> queue_inv q'
           \<and> contents q @ acc = rec @ contents q' \<and> length (contents q') \<le> size_q q - 1"
  using ring.run_in_order [OF assms] Size_bound [OF assms(1)]
  by (fastforce simp: contents_def slot_order_def)

theorem MsgQueue_fifo_witness:
  "\<exists>acc rec q'. run_fifo send receive
       [Send [7, 8], Receive, Send [1, 2], Send [3, 4], Send [5, 6], Receive] (new_MsgQueue 3 2 (0 :: nat))
       = Some (acc, rec, q') \<and> queue_inv q' \<and> acc = rec @ contents q' \<and> length (contents q') \<le> 2"
  using MsgQueue_fifo [of "new_MsgQueue 3 2 (0 :: nat)"
      "[Send [7, 8], Receive, Send [1, 2], Send [3, 4], Send [5, 6], Receive]"]
    new_MsgQueue_inv [of 3 2 "0 :: nat"]
  by (auto simp: new_MsgQueue_def)

text \<open>
  A buffer \<^verbatim>\<open>Get_Unit\<close> hands out is none of the buffers still in use, its cells are cleared, and
  it joins the buffers in use at the end, so \<^verbatim>\<open>Front_Unit\<close> and \<^verbatim>\<open>Release_front_unit\<close> give buffers
  back in the order they were taken.
\<close>

lemma Get_Unit_fresh:
  assumes "queue_inv q"
  shows "(case Get_Unit z q of
            (None, q') \<Rightarrow> Size q = size_q q - 1 \<and> slot_order q' = slot_order q
          | (Some i, q') \<Rightarrow> i \<notin> set (slot_order q) \<and> i < size_q q
              \<and> slots q' ! i = replicate (one_msg_size q) z
              \<and> slot_order q' = slot_order q @ [i]) \<and> queue_inv (snd (Get_Unit z q))"
proof (cases "Full q")
  case True
  with assms show ?thesis
    by (auto simp: Get_Unit_def Full_iff slot_order_def Size_def queue_inv_def)
next
  case False
  have "length (slots q) = size_q q" "write_position q < size_q q"
    using assms by (auto simp: queue_inv_def)
  with False assms write_position_free [OF assms] show ?thesis
    by (simp add: Get_Unit_def slot_order_write queue_inv_write)
qed

lemma Front_Release:
  "queue_inv q \<Longrightarrow> \<not> Empty q \<Longrightarrow>
   \<exists>q'. Front_Unit q = Some (Some (hd (slot_order q)), q)
      \<and> Release_front_unit q = Some (Some (hd (slot_order q)), q')
      \<and> slot_order q' = tl (slot_order q) \<and> slots q' = slots q \<and> queue_inv q'
      \<and> size_q q' = size_q q \<and> one_msg_size q' = one_msg_size q"
  using read_position_first [of q 1] queue_inv_read [of q]
  by (auto simp: Front_Unit_def Release_front_unit_def sem_wait_def queue_inv_def)

end
