(* ===== verification/Queue_Threads.thy ===== *)
theory Queue_Threads
  imports Msg_Queue
begin

text \<open>
  The ring buffer of \<^verbatim>\<open>include/MsgQueue.h\<close> between processes.  \<open>Msg_Queue\<close> takes every call as a whole;
  here a call is cut at its accesses to shared memory, and the calls of any number of threads take
  turns.  A writer takes no semaphore (the \<^verbatim>\<open>sem_wait\<close> of \<^verbatim>\<open>write_sem_\<close> is commented out), a reader holds
  \<^verbatim>\<open>read_sem_\<close> from the first access to the last, and both move their position in two steps, an
  increment and, at the end of the array, a reset.  Memory is sequentially consistent.
\<close>

section \<open>The steps of a call\<close>

text \<open>
  A writing call, with whether it is \<^verbatim>\<open>WriteToMsgQueue_Wait\<close>, its buffer and its clipped length: outside
  with what was returned last, before the test of \<^verbatim>\<open>Full\<close>, before the copy, before the increment, before
  the reset.
\<close>

datatype 'a writer =
    W_out nat
  | W_test bool "'a list option" nat
  | W_copy "'a list option" nat
  | W_inc "'a list option" nat
  | W_wrap nat

fun writer_step :: "'a writer \<Rightarrow> 'a MsgQueue \<Rightarrow> ('a writer \<times> 'a MsgQueue) res" where
  "writer_step (W_out n) q = Inr (W_out n, q)"
| "writer_step (W_test wait buf len) q =
     (if \<not> Full q then Inr (W_copy buf len, q)
      else if wait then Inr (W_test wait buf len, q)
      else Inr (W_out 0, q\<lparr>write_sem := write_sem q + 1\<rparr>))"
| "writer_step (W_copy buf len) q =
     (if write_position q < size_q q then Inr (W_inc buf len, copy_in buf len q) else Inl UB)"
| "writer_step (W_inc buf len) q = Inr (W_wrap len, q\<lparr>write_position := write_position q + 1\<rparr>)"
| "writer_step (W_wrap len) q =
     Inr (W_out len, if write_position q \<ge> size_q q then q\<lparr>write_position := 0\<rparr> else q)"

text \<open>The three calls of a reader, and what they give back: nothing, a copy, or a slot of the array.\<close>

datatype reading = Read_And_Delete | Front | Release

datatype 'a got = Nothing | Copied "'a list" | Slot nat

datatype 'a reader =
    R_out "'a got"
  | R_wait reading
  | R_test reading
  | R_copy
  | R_inc "'a got"
  | R_wrap "'a got"
  | R_post "'a got"

fun reader_step :: "'a reader \<Rightarrow> 'a MsgQueue \<Rightarrow> ('a reader \<times> 'a MsgQueue) res" where
  "reader_step (R_out g) q = Inr (R_out g, q)"
| "reader_step (R_wait op) q =
     (case sem_wait (read_sem q) of None \<Rightarrow> Inr (R_wait op, q) | Some n \<Rightarrow> Inr (R_test op, q\<lparr>read_sem := n\<rparr>))"
| "reader_step (R_test op) q =
     (if Empty q then Inr (R_post Nothing, q)
      else Inr (case op of Read_And_Delete \<Rightarrow> R_copy | Front \<Rightarrow> R_post (Slot (read_position q))
                         | Release \<Rightarrow> R_inc (Slot (read_position q)), q))"
| "reader_step R_copy q =
     (if read_position q < size_q q then Inr (R_inc (Copied (slots q ! read_position q)), q) else Inl UB)"
| "reader_step (R_inc g) q = Inr (R_wrap g, q\<lparr>read_position := read_position q + 1\<rparr>)"
| "reader_step (R_wrap g) q =
     Inr (R_post g, if read_position q \<ge> size_q q then q\<lparr>read_position := 0\<rparr> else q)"
| "reader_step (R_post g) q = Inr (R_out g, q\<lparr>read_sem := read_sem q + 1\<rparr>)"

section \<open>A call that runs alone\<close>

text \<open>With no other thread in between, the steps of a call are the operation of \<open>Msg_Queue\<close>.\<close>

fun writer_steps :: "nat \<Rightarrow> 'a writer \<Rightarrow> 'a MsgQueue \<Rightarrow> ('a writer \<times> 'a MsgQueue) res" where
  "writer_steps 0 w q = Inr (w, q)"
| "writer_steps (Suc n) w q = bindE (writer_step w q) (\<lambda>(w', q'). writer_steps n w' q')"

fun reader_steps :: "nat \<Rightarrow> 'a reader \<Rightarrow> 'a MsgQueue \<Rightarrow> ('a reader \<times> 'a MsgQueue) res" where
  "reader_steps 0 r q = Inr (r, q)"
| "reader_steps (Suc n) r q = bindE (reader_step r q) (\<lambda>(r', q'). reader_steps n r' q')"

lemma copy_in_fields [simp]:
  "size_q (copy_in b n q) = size_q q" "one_msg_size (copy_in b n q) = one_msg_size q"
  "write_position (copy_in b n q) = write_position q" "read_position (copy_in b n q) = read_position q"
  "read_sem (copy_in b n q) = read_sem q"
  by (simp_all add: copy_in_def split: option.splits)

lemma Full_copy_in [simp]: "Full (copy_in b n q) = Full q"
  by (simp add: Full_def)

lemma writer_alone:
  assumes "queue_inv q"
  shows "writer_steps 4 (W_test False buf (clip_len q len)) q
    = Inr (W_out (fst (WriteToMsgQueue buf len q)), snd (WriteToMsgQueue buf len q))"
  using assms
  by (simp add: numeral_eq_Suc WriteToMsgQueue_def write_slot_def advance_def queue_inv_def Let_def)

lemma writer_waiting_alone:
  assumes "queue_inv q" "WriteToMsgQueue_Wait buf len q = Some (n, q')"
  shows "writer_steps 4 (W_test True buf (clip_len q len)) q = Inr (W_out n, q')"
  using assms
  by (auto simp: numeral_eq_Suc WriteToMsgQueue_Wait_def write_slot_def advance_def queue_inv_def Let_def split: if_splits)

lemma reader_alone:
  assumes "queue_inv q"
  shows "\<exists>n m q'. ReadAndDeleteFromMsgQueue q = Some (n, m, q')
    \<and> reader_steps 6 (R_wait Read_And_Delete) q = Inr (R_out (case m of None \<Rightarrow> Nothing | Some x \<Rightarrow> Copied x), q')"
  using assms
  by (auto simp: numeral_eq_Suc ReadAndDeleteFromMsgQueue_def sem_wait_def queue_inv_def advance_def Empty_def)

lemma front_alone:
  assumes "queue_inv q" "Front_Unit q = Some (u, q')"
  shows "reader_steps 3 (R_wait Front) q = Inr (R_out (case u of None \<Rightarrow> Nothing | Some i \<Rightarrow> Slot i), q')"
  using assms by (auto simp: numeral_eq_Suc Front_Unit_def sem_wait_def queue_inv_def Empty_def)

lemma release_alone:
  assumes "queue_inv q" "Release_front_unit q = Some (u, q')"
  shows "reader_steps 5 (R_wait Release) q = Inr (R_out (case u of None \<Rightarrow> Nothing | Some i \<Rightarrow> Slot i), q')"
  using assms by (auto simp: numeral_eq_Suc Release_front_unit_def sem_wait_def queue_inv_def Empty_def advance_def)

section \<open>Threads that take turns\<close>

text \<open>
  \<open>given\<close> and \<open>removed\<close> record, in order, what the finished writes put in and what the finished reads took
  out.
\<close>

record 'a queue_system =
  shared_q :: "'a MsgQueue"
  writers :: "'a writer list"
  readers :: "'a reader list"
  given :: "'a list list"
  removed :: "'a list list"

definition start_system :: "'a MsgQueue \<Rightarrow> nat \<Rightarrow> nat \<Rightarrow> 'a queue_system" where
  "start_system q k n = \<lparr>shared_q = q, writers = replicate k (W_out 0), readers = replicate n (R_out Nothing),
     given = [], removed = []\<rparr>"

text \<open>A thread begins a call, or makes the next access of the call it is in.\<close>

datatype 'a event =
    W_call nat bool "'a list option" nat
  | W_go nat
  | R_call nat reading
  | R_go nat

definition sent_part :: "'a list option \<Rightarrow> nat \<Rightarrow> 'a list" where
  "sent_part buf len = (case buf of None \<Rightarrow> [] | Some b \<Rightarrow> take len b)"

fun now_given :: "'a writer \<Rightarrow> 'a list list" where
  "now_given (W_inc buf len) = [sent_part buf len]"
| "now_given _ = []"

fun now_removed :: "'a reader \<Rightarrow> 'a MsgQueue \<Rightarrow> 'a list list" where
  "now_removed (R_inc (Copied m)) q = [m]"
| "now_removed (R_inc (Slot i)) q = [slots q ! i]"
| "now_removed _ q = []"

fun writer_outside :: "'a writer \<Rightarrow> bool" where
  "writer_outside (W_out n) \<longleftrightarrow> True"
| "writer_outside _ \<longleftrightarrow> False"

fun reader_outside :: "'a reader \<Rightarrow> bool" where
  "reader_outside (R_out g) \<longleftrightarrow> True"
| "reader_outside _ \<longleftrightarrow> False"

fun happens :: "'a event \<Rightarrow> 'a queue_system \<Rightarrow> 'a queue_system res" where
  "happens (W_call i wait buf len) s =
     (if i < length (writers s) \<and> writer_outside (writers s ! i)
      then Inr (s\<lparr>writers := (writers s)[i := W_test wait buf (clip_len (shared_q s) len)]\<rparr>) else Inr s)"
| "happens (W_go i) s =
     (if i < length (writers s) then
        bindE (writer_step (writers s ! i) (shared_q s)) (\<lambda>(w, q).
          Inr (s\<lparr>shared_q := q, writers := (writers s)[i := w], given := given s @ now_given (writers s ! i)\<rparr>))
      else Inr s)"
| "happens (R_call i op) s =
     (if i < length (readers s) \<and> reader_outside (readers s ! i)
      then Inr (s\<lparr>readers := (readers s)[i := R_wait op]\<rparr>) else Inr s)"
| "happens (R_go i) s =
     (if i < length (readers s) then
        bindE (reader_step (readers s ! i) (shared_q s)) (\<lambda>(r, q).
          Inr (s\<lparr>shared_q := q, readers := (readers s)[i := r],
                 removed := removed s @ now_removed (readers s ! i) (shared_q s)\<rparr>))
      else Inr s)"

fun turns :: "'a event list \<Rightarrow> 'a queue_system \<Rightarrow> 'a queue_system res" where
  "turns [] s = Inr s"
| "turns (e # es) s = bindE (happens e s) (turns es)"

fun writer_tests :: "'a writer \<Rightarrow> bool" where
  "writer_tests (W_test wait buf len) \<longleftrightarrow> True"
| "writer_tests _ \<longleftrightarrow> False"

fun reader_tests :: "'a reader \<Rightarrow> bool" where
  "reader_tests (R_test op) \<longleftrightarrow> True"
| "reader_tests _ \<longleftrightarrow> False"

text \<open>A test that looks at the other side's position between its increment and its reset.\<close>

fun looks_between :: "'a event \<Rightarrow> 'a queue_system \<Rightarrow> bool" where
  "looks_between (W_go i) s \<longleftrightarrow> i < length (writers s) \<and> writer_tests (writers s ! i)
     \<and> read_position (shared_q s) \<ge> size_q (shared_q s)"
| "looks_between (R_go i) s \<longleftrightarrow> i < length (readers s) \<and> reader_tests (readers s ! i)
     \<and> write_position (shared_q s) \<ge> size_q (shared_q s)"
| "looks_between _ s \<longleftrightarrow> False"

fun never_between :: "'a event list \<Rightarrow> 'a queue_system \<Rightarrow> bool" where
  "never_between [] s \<longleftrightarrow> True"
| "never_between (e # es) s \<longleftrightarrow> \<not> looks_between e s \<and> (case happens e s of Inl _ \<Rightarrow> True | Inr s' \<Rightarrow> never_between es s')"

section \<open>The invariant\<close>

text \<open>The queue as it stands once the pending resets are done.\<close>

definition wrapped :: "nat \<Rightarrow> nat \<Rightarrow> nat" where
  "wrapped n p = (if p \<ge> n then 0 else p)"

definition settled :: "'a MsgQueue \<Rightarrow> 'a MsgQueue" where
  "settled q = q\<lparr>write_position := wrapped (size_q q) (write_position q),
     read_position := wrapped (size_q q) (read_position q), read_sem := 1\<rparr>"

definition front_of :: "'a list \<Rightarrow> 'a list \<Rightarrow> bool" where
  "front_of x m \<longleftrightarrow> take (length x) m = x"

definition call_fits :: "'a MsgQueue \<Rightarrow> 'a list option \<Rightarrow> nat \<Rightarrow> bool" where
  "call_fits q buf len \<longleftrightarrow> len \<le> one_msg_size q \<and> (\<forall>b. buf = Some b \<longrightarrow> len \<le> length b)"

fun writer_ok :: "'a MsgQueue \<Rightarrow> 'a writer \<Rightarrow> bool" where
  "writer_ok q (W_out n) \<longleftrightarrow> write_position q < size_q q"
| "writer_ok q (W_test wait buf len) \<longleftrightarrow> write_position q < size_q q \<and> call_fits q buf len"
| "writer_ok q (W_copy buf len) \<longleftrightarrow> write_position q < size_q q \<and> call_fits q buf len \<and> \<not> Full (settled q)"
| "writer_ok q (W_inc buf len) \<longleftrightarrow> write_position q < size_q q \<and> \<not> Full (settled q)
     \<and> front_of (sent_part buf len) (slots q ! write_position q)"
| "writer_ok q (W_wrap len) \<longleftrightarrow> write_position q \<le> size_q q"

fun inside :: "'a reader \<Rightarrow> bool" where
  "inside (R_out g) \<longleftrightarrow> False"
| "inside (R_wait op) \<longleftrightarrow> False"
| "inside _ \<longleftrightarrow> True"

fun reader_ok :: "'a MsgQueue \<Rightarrow> 'a reader \<Rightarrow> bool" where
  "reader_ok q (R_test op) \<longleftrightarrow> read_position q < size_q q"
| "reader_ok q R_copy \<longleftrightarrow> read_position q < size_q q \<and> \<not> Empty (settled q)"
| "reader_ok q (R_inc g) \<longleftrightarrow> read_position q < size_q q \<and> \<not> Empty (settled q)
     \<and> (g = Copied (slots q ! read_position q) \<or> g = Slot (read_position q))"
| "reader_ok q (R_wrap g) \<longleftrightarrow> read_position q \<le> size_q q"
| "reader_ok q (R_post g) \<longleftrightarrow> read_position q < size_q q"
| "reader_ok q _ \<longleftrightarrow> True"

lemma reader_ok_outside: "\<not> inside r \<Longrightarrow> reader_ok q r"
  by (cases r) simp_all

lemma settled_simps [simp]:
  "size_q (settled q) = size_q q" "one_msg_size (settled q) = one_msg_size q" "slots (settled q) = slots q"
  "settled (q\<lparr>read_sem := n\<rparr>) = settled q" "read_sem (settled q) = 1"
  "write_position (settled q) = wrapped (size_q q) (write_position q)"
  "read_position (settled q) = wrapped (size_q q) (read_position q)"
  by (simp_all add: settled_def)

lemma wrapped_simps [simp]: "p < n \<Longrightarrow> wrapped n p = p" "wrapped n n = 0" "wrapped n 0 = 0"
  by (simp_all add: wrapped_def)

lemma wrapped_Suc: "p < n \<Longrightarrow> wrapped n (p + 1) = advance n p"
  by (auto simp: wrapped_def advance_def)

lemma contents_same:
  "size_q q' = size_q q \<Longrightarrow> write_position q' = write_position q \<Longrightarrow> read_position q' = read_position q \<Longrightarrow>
   slots q' = slots q \<Longrightarrow> contents q' = contents q"
  by (simp add: contents_def slot_order_def Size_def)

lemma settled_inc_write:
  assumes "queue_inv (settled q)" "write_position q < size_q q" "\<not> Full (settled q)"
  shows "queue_inv (settled (q\<lparr>write_position := write_position q + 1\<rparr>))"
    "contents (settled (q\<lparr>write_position := write_position q + 1\<rparr>)) = contents (settled q) @ [slots q ! write_position q]"
    "\<not> Empty (settled (q\<lparr>write_position := write_position q + 1\<rparr>))"
proof -
  let ?m = "slots q ! write_position q"
  have e: "settled (q\<lparr>write_position := write_position q + 1\<rparr>)
      = (settled q)\<lparr>slots := (slots (settled q))[write_position (settled q) := ?m],
           write_position := advance (size_q (settled q)) (write_position (settled q))\<rparr>"
    using assms(2) by (simp add: settled_def wrapped_Suc [simplified])
  have len: "length ?m = one_msg_size (settled q)"
    using assms(1,2) by (auto simp: queue_inv_def)
  show "queue_inv (settled (q\<lparr>write_position := write_position q + 1\<rparr>))"
    unfolding e by (rule queue_inv_write [OF assms(1) len])
  show "contents (settled (q\<lparr>write_position := write_position q + 1\<rparr>)) = contents (settled q) @ [?m]"
    unfolding e by (rule contents_write [OF assms(1,3)])
  show "\<not> Empty (settled (q\<lparr>write_position := write_position q + 1\<rparr>))"
    unfolding e using assms by (auto simp: Empty_def Full_def queue_inv_def advance_mod)
qed

lemma settled_inc_read:
  assumes "queue_inv (settled q)" "read_position q < size_q q" "\<not> Empty (settled q)"
  shows "queue_inv (settled (q\<lparr>read_position := read_position q + 1\<rparr>))"
    "contents (settled q) = slots q ! read_position q # contents (settled (q\<lparr>read_position := read_position q + 1\<rparr>))"
    "\<not> Full (settled (q\<lparr>read_position := read_position q + 1\<rparr>))"
proof -
  have e: "settled (q\<lparr>read_position := read_position q + 1\<rparr>)
      = (settled q)\<lparr>read_position := advance (size_q (settled q)) (read_position (settled q)), read_sem := 1\<rparr>"
    using assms(2) by (simp add: settled_def wrapped_Suc [simplified])
  show i: "queue_inv (settled (q\<lparr>read_position := read_position q + 1\<rparr>))"
    unfolding e by (rule queue_inv_read [OF assms(1)])
  show "contents (settled q) = slots q ! read_position q # contents (settled (q\<lparr>read_position := read_position q + 1\<rparr>))"
    unfolding e using read_position_first [OF assms(1,3), of 1] assms(2) by (simp add: contents_def)
  show "\<not> Full (settled (q\<lparr>read_position := read_position q + 1\<rparr>))"
    using Size_after_read [OF assms(1,3), of 1] Size_bound [OF assms(1)] Full_iff [OF i] unfolding e by simp
qed

lemma settled_copy:
  assumes "queue_inv (settled q)" "write_position q < size_q q" "call_fits q buf len"
  shows "queue_inv (settled (copy_in buf len q))" "contents (settled (copy_in buf len q)) = contents (settled q)"
    "front_of (sent_part buf len) (slots (copy_in buf len q) ! write_position q)"
    "i \<noteq> write_position q \<Longrightarrow> slots (copy_in buf len q) ! i = slots q ! i"
proof -
  have w: "write_position q < length (slots q)" "length (slots q ! write_position q) = one_msg_size q"
    using assms(1,2) by (auto simp: queue_inv_def)
  have same: "size_q (settled (copy_in buf len q)) = size_q q" "slots (settled (copy_in buf len q)) = slots (copy_in buf len q)"
    by simp_all
  show "queue_inv (settled (copy_in buf len q))"
    using assms w
    by (cases buf) (auto simp: queue_inv_def copy_in_def call_fits_def dest!: set_update_subset_insert [THEN subsetD])
  show "front_of (sent_part buf len) (slots (copy_in buf len q) ! write_position q)"
    using assms(3) w by (cases buf) (auto simp: front_of_def sent_part_def copy_in_def call_fits_def)
  show "i \<noteq> write_position q \<Longrightarrow> slots (copy_in buf len q) ! i = slots q ! i"
    by (cases buf) (auto simp: copy_in_def)
  have "slot_order (settled (copy_in buf len q)) = slot_order (settled q)"
    by (simp add: slot_order_def Size_def)
  moreover have "write_position q \<notin> set (slot_order (settled q))"
    using write_position_free [OF assms(1)] assms(2) by simp
  ultimately show "contents (settled (copy_in buf len q)) = contents (settled q)"
    by (cases buf) (auto simp: contents_def copy_in_def intro!: nth_list_update_neq)
qed

section \<open>One step keeps it\<close>

lemma writer_step_keeps:
  assumes "queue_inv (settled q)" "writer_ok q w" "writer_tests w \<Longrightarrow> read_position q < size_q q"
  shows "\<exists>w' q' ms. writer_step w q = Inr (w', q') \<and> queue_inv (settled q') \<and> writer_ok q' w'
     \<and> size_q q' = size_q q \<and> one_msg_size q' = one_msg_size q \<and> read_position q' = read_position q \<and> read_sem q' = read_sem q
     \<and> contents (settled q') = contents (settled q) @ ms \<and> list_all2 front_of (now_given w) ms
     \<and> (\<forall>r. reader_ok q r \<longrightarrow> reader_ok q' r)"
proof (cases w)
  case (W_test wait buf len)
  with assms(2,3) have "settled q = q\<lparr>read_sem := 1\<rparr>" by (simp add: settled_def)
  then have "Full (settled q) = Full q" by (simp add: Full_def)
  moreover have "settled (q\<lparr>write_sem := n\<rparr>) = (settled q)\<lparr>write_sem := n\<rparr>" for n by (simp add: settled_def)
  moreover have "queue_inv (settled q\<lparr>write_sem := n\<rparr>)" "contents (settled q\<lparr>write_sem := n\<rparr>) = contents (settled q)" for n
    using assms(1) by (simp_all add: queue_inv_def contents_same)
  moreover have "reader_ok q r \<Longrightarrow> reader_ok (q\<lparr>write_sem := n\<rparr>) r" for r n
    by (cases r) (auto simp: Empty_def wrapped_def)
  ultimately show ?thesis using assms W_test by (auto simp: call_fits_def)
next
  case (W_copy buf len)
  then have w: "write_position q < size_q q" "call_fits q buf len" "\<not> Full (settled q)" using assms(2) by simp_all
  note c = settled_copy [OF assms(1) w(1,2)]
  have "reader_ok (copy_in buf len q) r" if "reader_ok q r" for r
    using that w(1) c(4) [of "read_position q"] by (cases r) (auto simp: Empty_def wrapped_def)
  moreover have "\<not> Full (settled (copy_in buf len q))" using w(3) by (simp add: Full_def)
  ultimately show ?thesis using W_copy w(1) c(1-3) by simp
next
  case (W_inc buf len)
  then have w: "write_position q < size_q q" "\<not> Full (settled q)" "front_of (sent_part buf len) (slots q ! write_position q)"
    using assms(2) by simp_all
  note i = settled_inc_write [OF assms(1) w(1,2)]
  have "reader_ok (q\<lparr>write_position := write_position q + 1\<rparr>) r" if "reader_ok q r" for r
    using that i(3) by (cases r) auto
  with W_inc w i(1,2) show ?thesis by auto
next
  case (W_wrap len)
  let ?q = "if write_position q \<ge> size_q q then q\<lparr>write_position := 0\<rparr> else q"
  have s: "settled ?q = settled q" by (auto simp: settled_def wrapped_def)
  have "reader_ok ?q r" if "reader_ok q r" for r
    using that s by (cases r) auto
  moreover have "0 < size_q q" using assms(1) by (simp add: queue_inv_def)
  ultimately show ?thesis using W_wrap assms(1) s by (auto simp del: not_le)
qed (use assms in auto)

lemma reader_step_keeps:
  assumes "queue_inv (settled q)" "reader_ok q r" "reader_tests r \<Longrightarrow> write_position q < size_q q"
    and "read_sem q = (if inside r then 0 else n)" "n = 0 \<or> n = 1" "n = 1 \<Longrightarrow> \<not> inside r \<Longrightarrow> read_position q < size_q q"
  shows "\<exists>r' q'. reader_step r q = Inr (r', q') \<and> queue_inv (settled q') \<and> reader_ok q' r'
     \<and> size_q q' = size_q q \<and> one_msg_size q' = one_msg_size q \<and> write_position q' = write_position q
     \<and> read_sem q' + (if inside r' then 1 else 0) = read_sem q + (if inside r then 1 else 0)
     \<and> 0 \<le> read_sem q' \<and> (read_sem q' = 1 \<longrightarrow> read_position q' < size_q q')
     \<and> contents (settled q) = now_removed r q @ contents (settled q')
     \<and> (\<forall>w. writer_ok q w \<longrightarrow> writer_ok q' w)"
proof -
  have keep: "writer_ok q w \<Longrightarrow> writer_ok (q\<lparr>read_sem := k\<rparr>) w" for k w
    by (cases w) (simp_all add: call_fits_def)
  show ?thesis
  proof (cases r)
    case (R_wait op)
    with assms keep show ?thesis by (auto simp: sem_wait_def)
  next
    case (R_test op)
    with assms have "settled q = q\<lparr>read_sem := 1\<rparr>" by (simp add: settled_def)
    then have "Empty (settled q) = Empty q" by (simp add: Empty_def)
    with R_test assms show ?thesis by (cases op) auto
  next
    case R_copy
    with assms show ?thesis by auto
  next
    case (R_inc g)
    then have r: "read_position q < size_q q" "\<not> Empty (settled q)"
      "g = Copied (slots q ! read_position q) \<or> g = Slot (read_position q)" using assms(2) by simp_all
    note i = settled_inc_read [OF assms(1) r(1,2)]
    have "writer_ok (q\<lparr>read_position := read_position q + 1\<rparr>) w" if "writer_ok q w" for w
      using that i(3) by (cases w) (auto simp: call_fits_def)
    with R_inc r assms(4) i(1,2) show ?thesis by auto
  next
    case (R_wrap g)
    let ?q = "if read_position q \<ge> size_q q then q\<lparr>read_position := 0\<rparr> else q"
    have s: "settled ?q = settled q" by (auto simp: settled_def wrapped_def)
    have "writer_ok ?q w" if "writer_ok q w" for w
      using that s by (cases w) (auto simp: call_fits_def)
    moreover have "0 < size_q q" using assms(1) by (simp add: queue_inv_def)
    ultimately show ?thesis using R_wrap assms(1,4) s by (auto simp del: not_le)
  next
    case (R_post g)
    with assms keep show ?thesis by auto
  qed (use assms in auto)
qed

section \<open>Every order of the steps\<close>

text \<open>
  One writer, and at most one reader inside its call, the one that took \<^verbatim>\<open>read_sem_\<close>; what was there and
  what was given is what was removed and what the queue holds.
\<close>

definition system_ok :: "'a list list \<Rightarrow> nat \<Rightarrow> 'a queue_system \<Rightarrow> bool" where
  "system_ok first k s \<longleftrightarrow> queue_inv (settled (shared_q s)) \<and> one_msg_size (shared_q s) = k
     \<and> (\<exists>w. writers s = [w] \<and> writer_ok (shared_q s) w) \<and> (\<forall>r \<in> set (readers s). reader_ok (shared_q s) r)
     \<and> read_sem (shared_q s) + int (length (filter inside (readers s))) = 1 \<and> 0 \<le> read_sem (shared_q s)
     \<and> (read_sem (shared_q s) = 1 \<longrightarrow> read_position (shared_q s) < size_q (shared_q s))
     \<and> list_all2 front_of (first @ given s) (removed s @ contents (settled (shared_q s)))"

text \<open>A caller hands over as many cells as it says.\<close>

fun event_fits :: "nat \<Rightarrow> 'a event \<Rightarrow> bool" where
  "event_fits k (W_call i wait (Some b) len) \<longleftrightarrow> (if len = 0 \<or> len > k then k else len) \<le> length b"
| "event_fits k _ \<longleftrightarrow> True"

lemma none_counted: "length (filter P xs) = 0 \<Longrightarrow> x \<in> set xs \<Longrightarrow> \<not> P x"
  by (auto simp: filter_empty_conv)

lemma others_outside:
  assumes "i < length rs" "length (filter inside rs) \<le> 1" "inside (rs ! i)" "j < length rs" "j \<noteq> i"
  shows "\<not> inside (rs ! j)"
proof -
  have "length (filter inside (rs[i := R_out Nothing])) = 0"
    using count_update [OF assms(1), of inside "R_out Nothing"] assms(2,3) by (simp del: length_0_conv)
  moreover have "rs ! j \<in> set (rs[i := R_out Nothing])"
    using assms(4,5) by (metis length_list_update nth_list_update_neq nth_mem)
  ultimately show ?thesis by (rule none_counted)
qed

lemma writer_turn_ok:
  assumes "system_ok first k s" "\<not> looks_between (W_go i) s"
  shows "\<exists>s'. happens (W_go i) s = Inr s' \<and> system_ok first k s'"
proof (cases "i = 0")
  case True
  let ?q = "shared_q s"
  obtain w where w: "writers s = [w]" "writer_ok ?q w" and inv: "queue_inv (settled ?q)"
    using assms(1) by (auto simp: system_ok_def)
  have "writer_tests w \<Longrightarrow> read_position ?q < size_q ?q" using assms(2) w(1) True by simp
  from writer_step_keeps [OF inv w(2) this] obtain w' q' ms where st: "writer_step w ?q = Inr (w', q')"
    "queue_inv (settled q')" "writer_ok q' w'" "size_q q' = size_q ?q" "one_msg_size q' = one_msg_size ?q"
    "read_position q' = read_position ?q" "read_sem q' = read_sem ?q"
    "contents (settled q') = contents (settled ?q) @ ms" "list_all2 front_of (now_given w) ms"
    "\<forall>r. reader_ok ?q r \<longrightarrow> reader_ok q' r" by blast
  from assms(1) st(9) have "list_all2 front_of ((first @ given s) @ now_given w) ((removed s @ contents (settled ?q)) @ ms)"
    unfolding system_ok_def by (blast intro: list_all2_appendI)
  with assms(1) w(1) st True show ?thesis by (simp add: system_ok_def)
next
  case False
  with assms show ?thesis by (auto simp: system_ok_def)
qed

lemma reader_turn_ok:
  assumes "system_ok first k s" "\<not> looks_between (R_go i) s"
  shows "\<exists>s'. happens (R_go i) s = Inr s' \<and> system_ok first k s'"
proof (cases "i < length (readers s)")
  case True
  let ?q = "shared_q s" and ?r = "readers s ! i"
  have inv: "queue_inv (settled ?q)" and ok: "\<forall>r \<in> set (readers s). reader_ok ?q r"
    and sem: "read_sem ?q + int (length (filter inside (readers s))) = 1" "0 \<le> read_sem ?q"
      "read_sem ?q = 1 \<longrightarrow> read_position ?q < size_q ?q"
    and log: "list_all2 front_of (first @ given s) (removed s @ contents (settled ?q))"
    using assms(1) by (auto simp: system_ok_def)
  have i: "reader_ok ?q ?r" using ok True by simp
  have "inside ?r \<Longrightarrow> filter inside (readers s) \<noteq> []"
    using True nth_mem [OF True] by (auto simp: filter_empty_conv)
  then have in0: "inside ?r \<Longrightarrow> read_sem ?q = 0" using sem(1,2) by (cases "filter inside (readers s)") auto
  have tests: "reader_tests ?r \<Longrightarrow> write_position ?q < size_q ?q" using assms(2) True by simp
  have in1: "read_sem ?q = (if inside ?r then 0 else read_sem ?q)" using in0 by simp
  have bit: "read_sem ?q = 0 \<or> read_sem ?q = 1" using sem(1,2) by linarith
  have free: "read_sem ?q = 1 \<Longrightarrow> \<not> inside ?r \<Longrightarrow> read_position ?q < size_q ?q" using sem(3) by simp
  from reader_step_keeps [OF inv i tests in1 bit free] obtain r' q' where st: "reader_step ?r ?q = Inr (r', q')" "queue_inv (settled q')" "reader_ok q' r'"
    "size_q q' = size_q ?q" "one_msg_size q' = one_msg_size ?q" "write_position q' = write_position ?q"
    "read_sem q' + (if inside r' then 1 else 0) = read_sem ?q + (if inside ?r then 1 else 0)"
    "0 \<le> read_sem q'" "read_sem q' = 1 \<longrightarrow> read_position q' < size_q q'"
    "contents (settled ?q) = now_removed ?r ?q @ contents (settled q')" "\<forall>w. writer_ok ?q w \<longrightarrow> writer_ok q' w"
    by blast
  have count: "read_sem q' + int (length (filter inside ((readers s)[i := r']))) = 1"
    using count_update [OF True, of inside r'] sem(1) st(7) by (auto split: if_splits)
  have rest: "reader_ok q' r" if "r \<in> set ((readers s)[i := r'])" for r
  proof -
    obtain j where j: "j < length (readers s)" "r = (readers s)[i := r'] ! j"
      using \<open>r \<in> set ((readers s)[i := r'])\<close> by (metis in_set_conv_nth length_list_update)
    show ?thesis
    proof (cases "j = i")
      case True
      with j st(3) show ?thesis by simp
    next
      case False
      then have r: "r = readers s ! j" using j(2) by simp
      show ?thesis
      proof (cases "inside r")
        case in_r: True
        then have "\<not> inside ?r" "\<not> inside r'"
          using others_outside [of j "readers s" i] others_outside [of j "(readers s)[i := r']" i] sem count st(8) r j False True
          by auto
        then have "q' = ?q" using st(1,7) by (cases ?r) (auto split: option.splits)
        with ok r j show ?thesis by simp
      qed (simp add: reader_ok_outside)
    qed
  qed
  show ?thesis using assms(1) True st count rest log by (auto simp: system_ok_def)
next
  case False
  with assms(1) show ?thesis by simp
qed

lemma happens_keeps:
  assumes "system_ok first k s" "event_fits k e" "\<not> looks_between e s"
  shows "\<exists>s'. happens e s = Inr s' \<and> system_ok first k s'"
proof (cases e)
  case (W_call i wait buf len)
  let ?q = "shared_q s"
  obtain w where w: "writers s = [w]" "writer_ok ?q w" using assms(1) by (auto simp: system_ok_def)
  have "one_msg_size ?q = k" using assms(1) by (simp add: system_ok_def)
  with assms(2) W_call have "call_fits ?q buf (clip_len ?q len)"
    by (cases buf) (auto simp: call_fits_def clip_len_def)
  with w have "writer_outside w \<Longrightarrow> writer_ok ?q (W_test wait buf (clip_len ?q len))" by (cases w) simp_all
  with assms(1) W_call w(1) show ?thesis by (auto simp: system_ok_def)
next
  case (R_call i op)
  show ?thesis
  proof (cases "i < length (readers s) \<and> reader_outside (readers s ! i)")
    case True
    then have "\<not> inside (readers s ! i)" by (cases "readers s ! i") simp_all
    with True have "length (filter inside ((readers s)[i := R_wait op])) = length (filter inside (readers s))"
      using count_update [of i "readers s" inside "R_wait op"] by simp
    moreover have "\<forall>r \<in> set ((readers s)[i := R_wait op]). reader_ok (shared_q s) r"
      using assms(1) by (auto simp: system_ok_def dest: set_update_subset_insert [THEN subsetD])
    ultimately show ?thesis using True assms(1) R_call by (simp add: system_ok_def)
  qed (use assms(1) R_call in auto)
qed (use assms writer_turn_ok reader_turn_ok in blast)+

lemma turns_keep:
  "system_ok first k s \<Longrightarrow> \<forall>e \<in> set evs. event_fits k e \<Longrightarrow> never_between evs s \<Longrightarrow>
   \<exists>s'. turns evs s = Inr s' \<and> system_ok first k s'"
proof (induction evs arbitrary: s)
  case (Cons e evs)
  from Cons.prems happens_keeps [of first k s e] obtain s' where "happens e s = Inr s'" "system_ok first k s'" by auto
  with Cons.IH [of s'] Cons.prems show ?case by simp
qed simp

lemma settled_inv: "queue_inv q \<Longrightarrow> settled q = q"
  by (simp add: queue_inv_def settled_def)

lemma start_ok:
  assumes "queue_inv q"
  shows "system_ok (contents q) (one_msg_size q) (start_system q 1 n)"
proof -
  have "\<forall>m \<in> set (contents q). front_of m m" by (simp add: front_of_def)
  then have "list_all2 front_of (contents q) (contents q)" by (simp add: list_all2_same)
  with assms show ?thesis
    by (auto simp: system_ok_def start_system_def settled_inv queue_inv_def)
qed

text \<open>
  As long as the writing side has not reached the end of the array, nobody can look in between.
\<close>

fun under_way :: "'a writer \<Rightarrow> nat" where
  "under_way (W_out n) = 0"
| "under_way (W_wrap n) = 0"
| "under_way _ = 1"

fun writing_call :: "'a event \<Rightarrow> bool" where
  "writing_call (W_call i wait buf len) \<longleftrightarrow> True"
| "writing_call _ \<longleftrightarrow> False"

definition first_lap :: "nat \<Rightarrow> 'a queue_system \<Rightarrow> bool" where
  "first_lap c s \<longleftrightarrow> read_position (shared_q s) \<le> write_position (shared_q s)
     \<and> write_position (shared_q s) + sum_list (map under_way (writers s)) + c < size_q (shared_q s)"

lemma first_lap_writer:
  assumes "writer_step w q = Inr (w', q')" "write_position q + under_way w < size_q q"
  shows "write_position q' + under_way w' \<le> write_position q + under_way w" "write_position q \<le> write_position q'"
    "size_q q' = size_q q" "read_position q' = read_position q"
  using assms by (cases w; auto split: if_splits)+

lemma first_lap_reader:
  assumes "reader_step r q = Inr (r', q')" "reader_ok q r" "read_position q \<le> write_position q" "write_position q < size_q q"
  shows "read_position q' \<le> write_position q'" "write_position q' = write_position q" "size_q q' = size_q q"
  using assms by (cases r; auto simp: Empty_def split: if_splits option.splits)+

lemma first_lap_step:
  assumes "system_ok first k s" "first_lap (c + (if writing_call e then 1 else 0)) s" "happens e s = Inr s'"
  shows "first_lap c s'"
proof -
  obtain w where w: "writers s = [w]" using assms(1) by (auto simp: system_ok_def)
  have rs: "\<forall>r \<in> set (readers s). reader_ok (shared_q s) r" using assms(1) by (simp add: system_ok_def)
  show ?thesis
  proof (cases e)
    case (W_call i wait buf len)
    have "under_way w \<le> 1" by (cases w) simp_all
    with assms(2,3) w W_call show ?thesis by (cases w) (auto simp: first_lap_def split: if_splits)
  next
    case (W_go i)
    show ?thesis
    proof (cases "i = 0")
      case True
      with assms(3) w W_go obtain w' q where st: "writer_step w (shared_q s) = Inr (w', q)"
        "shared_q s' = q" "writers s' = [w']" by (auto simp: res_simps)
      have lap: "write_position (shared_q s) + under_way w < size_q (shared_q s)"
        using assms(2) w by (simp add: first_lap_def)
      from first_lap_writer [OF st(1) lap] assms(2) w st(2,3) W_go show ?thesis by (simp add: first_lap_def)
    qed (use assms(2,3) w W_go in auto)
  next
    case (R_call i op)
    with assms(2,3) show ?thesis by (auto simp: first_lap_def split: if_splits)
  next
    case (R_go i)
    show ?thesis
    proof (cases "i < length (readers s)")
      case True
      with assms(3) R_go obtain r q where st: "reader_step (readers s ! i) (shared_q s) = Inr (r, q)"
        "shared_q s' = q" "writers s' = writers s" by (auto simp: res_simps)
      have "reader_ok (shared_q s) (readers s ! i)" using rs True by simp
      from first_lap_reader [OF st(1) this] assms(2) st(2,3) R_go show ?thesis by (simp add: first_lap_def)
    qed (use assms(2,3) R_go in auto)
  qed
qed

lemma first_lap_never_between:
  "system_ok first k s \<Longrightarrow> \<forall>e \<in> set evs. event_fits k e \<Longrightarrow> first_lap (length (filter writing_call evs)) s \<Longrightarrow>
   never_between evs s"
proof (induction evs arbitrary: s)
  case (Cons e evs)
  have look: "\<not> looks_between e s"
    using Cons.prems(3) by (cases e) (auto simp: first_lap_def)
  from Cons.prems look happens_keeps [of first k s e] obtain s' where s': "happens e s = Inr s'" "system_ok first k s'" by auto
  have "first_lap (length (filter writing_call evs)) s'"
    using first_lap_step [OF Cons.prems(1) _ s'(1), of "length (filter writing_call evs)"] Cons.prems(3) by (auto split: if_splits)
  with Cons.IH [OF s'(2)] Cons.prems(2) s'(1) look show ?case by simp
qed simp

section \<open>What the queue promises its threads\<close>

text \<open>
  C12. One writer and any number of readers on one queue, their calls cut at every access to shared
  memory and taken in any order: no access falls outside the array, at most one reader is in its
  critical section, and what was queued at the start followed by what was written is what was taken
  out followed by what the queue holds, in order, every written message at the front of its slot.
  This holds as long as no test of \<^verbatim>\<open>Full\<close> or \<^verbatim>\<open>Empty\<close> looks at the other side's position between its
  increment and its reset.
\<close>

theorem queue_between_threads:
  assumes "queue_inv q" and "\<forall>e \<in> set evs. event_fits (one_msg_size q) e" and "never_between evs (start_system q 1 n)"
  shows "\<exists>s. turns evs (start_system q 1 n) = Inr s \<and> length (filter inside (readers s)) \<le> 1
     \<and> list_all2 front_of (contents q @ given s) (removed s @ contents (settled (shared_q s)))"
proof -
  obtain s where "turns evs (start_system q 1 n) = Inr s" "system_ok (contents q) (one_msg_size q) s"
    using turns_keep [OF start_ok [OF assms(1)] assms(2,3)] by blast
  then show ?thesis by (auto simp: system_ok_def)
qed

text \<open>On the first lap any order will do.\<close>

lemma first_lap_in_order:
  assumes "queue_inv q" and "\<forall>e \<in> set evs. event_fits (one_msg_size q) e"
    and "read_position q \<le> write_position q" and "write_position q + length (filter writing_call evs) < size_q q"
  shows "never_between evs (start_system q 1 n)"
  using first_lap_never_between [OF start_ok [OF assms(1)] assms(2), of n] assms(3,4)
  by (simp add: first_lap_def start_system_def)

text \<open>Two readers that take turns with a writer; the second waits until the first has posted.\<close>

definition sample_turns :: "nat event list" where
  "sample_turns = [W_call 0 False (Some [7, 8]) 0, W_go 0, W_go 0, R_call 0 Read_And_Delete, W_go 0, W_go 0, R_go 0, R_go 0,
     R_call 1 Read_And_Delete, R_go 1, W_call 0 True (Some [9]) 1, W_go 0, R_go 0, W_go 0, R_go 0, W_go 0, R_go 0, R_go 1, R_go 0,
     R_go 1, W_go 0, R_go 1, R_go 1]"

theorem queue_between_threads_witness:
  "\<exists>s. turns sample_turns (start_system (new_MsgQueue 4 2 0) 1 2) = Inr s \<and> length (filter inside (readers s)) \<le> 1
     \<and> list_all2 front_of (given s) (removed s @ contents (settled (shared_q s))) \<and> given s = [[7, 8], [9]] \<and> removed s = [[7, 8]]"
proof -
  let ?q = "new_MsgQueue 4 2 0 :: nat MsgQueue"
  have q: "queue_inv ?q" "contents ?q = []" using new_MsgQueue_inv [of 4 2 "0 :: nat"] by simp_all
  have fits: "\<forall>e \<in> set sample_turns. event_fits (one_msg_size ?q) e" by code_simp
  have "never_between sample_turns (start_system ?q 1 2)"
    by (rule first_lap_in_order [OF q(1) fits]) code_simp+
  from queue_between_threads [OF q(1) fits this] q(2) obtain s where
    s: "turns sample_turns (start_system ?q 1 2) = Inr s" "length (filter inside (readers s)) \<le> 1"
      "list_all2 front_of (given s) (removed s @ contents (settled (shared_q s)))" by auto
  have "map_sum id (\<lambda>s. (given s, removed s)) (turns sample_turns (start_system ?q 1 2)) = Inr ([[7, 8], [9]], [[7, 8]])"
    by code_simp
  with s show ?thesis by simp
qed

section \<open>What it does not promise\<close>

text \<open>The events of one undisturbed write and of one undisturbed read.\<close>

abbreviation one_write :: "nat \<Rightarrow> 'a list \<Rightarrow> 'a event list" where
  "one_write i b \<equiv> [W_call i False (Some b) 0, W_go i, W_go i, W_go i, W_go i]"

abbreviation one_read :: "'a event list" where
  "one_read \<equiv> [R_call 0 Read_And_Delete, R_go 0, R_go 0, R_go 0, R_go 0, R_go 0, R_go 0]"

text \<open>The two orders at the end of the array that break the queue.\<close>

lemma turns_append: "turns (es @ fs) s = bindE (turns es s) (turns fs)"
proof (induction es arbitrary: s)
  case (Cons e es)
  then show ?case by (cases "happens e s") simp_all
qed simp

lemma one_write_turns:
  assumes "writers s = [W_out n]" "\<not> Full (shared_q s)" "write_position (shared_q s) < length (slots (shared_q s))"
    and "size_q (shared_q s) = length (slots (shared_q s))" "length b = one_msg_size (shared_q s)"
    and "length (slots (shared_q s) ! write_position (shared_q s)) = one_msg_size (shared_q s)"
  shows "turns (one_write 0 b) s = Inr (s\<lparr>shared_q := (shared_q s)\<lparr>slots := (slots (shared_q s))[write_position (shared_q s) := b],
      write_position := advance (size_q (shared_q s)) (write_position (shared_q s))\<rparr>,
    writers := [W_out (one_msg_size (shared_q s))], given := given s @ [b]\<rparr>)"
  using assms by (simp add: clip_len_def copy_in_def sent_part_def advance_def)

lemma one_read_turns:
  assumes "readers s = [R_out g]" "\<not> Empty (shared_q s)" "read_position (shared_q s) < size_q (shared_q s)" "read_sem (shared_q s) = 1"
  shows "turns one_read s = Inr (s\<lparr>shared_q := (shared_q s)\<lparr>
      read_position := advance (size_q (shared_q s)) (read_position (shared_q s)), read_sem := 1\<rparr>,
    readers := [R_out (Copied (slots (shared_q s) ! read_position (shared_q s)))],
    removed := removed s @ [slots (shared_q s) ! read_position (shared_q s)]\<rparr>)"
  using assms by (simp add: Empty_def sem_wait_def advance_def)

lemma writer_seen_between:
  assumes "queue_inv q" "1 < size_q q" "length b = one_msg_size q" "Empty q" "write_position q = size_q q - 1"
  shows "\<exists>s. turns (take 4 (one_write 0 b) @ one_read @ one_read @ [W_go 0]) (start_system q 1 1) = Inr s
       \<and> given s = [b] \<and> removed s = [b, slots q ! 0] \<and> Full (shared_q s)"
proof -
  let ?w = "write_position q"
  let ?q = "q\<lparr>slots := (slots q)[?w := b], write_position := size_q q\<rparr>"
  have q: "?w < length (slots q)" "size_q q = length (slots q)" "length (slots q ! ?w) = one_msg_size q"
    "read_sem q = 1" "read_position q = ?w" "Suc ?w = size_q q" "\<not> Full q" "slots q \<noteq> []"
    using assms by (auto simp: queue_inv_def Empty_def Full_def mod_Suc split: if_splits)
  have w: "turns (take 4 (one_write 0 b)) (start_system q 1 1)
    = Inr (\<lparr>shared_q = ?q, writers = [W_wrap (one_msg_size q)], readers = [R_out Nothing], given = [b], removed = []\<rparr>)"
    using q(1-3,6,7) assms(3) by (simp add: start_system_def clip_len_def copy_in_def sent_part_def)
  let ?q1 = "?q\<lparr>read_position := 0, read_sem := 1\<rparr>"
  have r1: "turns one_read \<lparr>shared_q = ?q, writers = [W_wrap (one_msg_size q)], readers = [R_out Nothing], given = [b], removed = []\<rparr>
    = Inr \<lparr>shared_q = ?q1, writers = [W_wrap (one_msg_size q)], readers = [R_out (Copied b)], given = [b], removed = [b]\<rparr>"
    using q by (subst one_read_turns) (simp_all add: Empty_def advance_def)
  let ?q2 = "?q1\<lparr>read_position := 1\<rparr>"
  have r2: "turns one_read \<lparr>shared_q = ?q1, writers = [W_wrap (one_msg_size q)], readers = [R_out (Copied b)], given = [b], removed = [b]\<rparr>
    = Inr \<lparr>shared_q = ?q2, writers = [W_wrap (one_msg_size q)], readers = [R_out (Copied (slots q ! 0))], given = [b],
        removed = [b, slots q ! 0]\<rparr>"
    using q assms(2) by (subst one_read_turns) (simp_all add: Empty_def advance_def)
  have "turns [W_go 0] \<lparr>shared_q = ?q2, writers = [W_wrap (one_msg_size q)], readers = [R_out (Copied (slots q ! 0))], given = [b],
        removed = [b, slots q ! 0]\<rparr>
    = Inr \<lparr>shared_q = ?q2\<lparr>write_position := 0\<rparr>, writers = [W_out (one_msg_size q)], readers = [R_out (Copied (slots q ! 0))], given = [b],
        removed = [b, slots q ! 0]\<rparr>" by simp
  then show ?thesis
    unfolding turns_append w bindE.simps r1 r2 using assms(2) by (simp add: Full_def)
qed

lemma reader_seen_between:
  assumes "queue_inv q" "1 < size_q q" "length b = one_msg_size q" "length b' = one_msg_size q"
    and "Full q" "read_position q = size_q q - 1"
  shows "\<exists>s. turns (take 5 one_read @ one_write 0 b @ one_write 0 b' @ [R_go 0, R_go 0]) (start_system q 1 1) = Inr s
       \<and> given s = [b, b'] \<and> removed s = [slots q ! (size_q q - 1)] \<and> Empty (shared_q s)"
proof -
  have "size_q q = Suc (Suc (size_q q - 2))" using assms(2) by simp
  then obtain m where m: "size_q q = Suc (Suc m)" ..
  let ?m = "slots q ! Suc m"
  let ?q = "q\<lparr>read_position := size_q q, read_sem := 0\<rparr>"
  have w: "write_position q = m" using m assms(1,5,6) by (auto simp: queue_inv_def Full_def mod_Suc split: if_splits)
  have q: "length (slots q) = Suc (Suc m)" "length (slots q ! m) = one_msg_size q" "length ?m = one_msg_size q"
    "read_sem q = 1" "\<not> Empty q" "read_position q = Suc m"
    using assms(1,6) m w by (auto simp: queue_inv_def Empty_def)
  have r: "turns (take 5 one_read) (start_system q 1 1)
    = Inr \<lparr>shared_q = ?q, writers = [W_out 0], readers = [R_wrap (Copied ?m)], given = [], removed = [?m]\<rparr>"
    using q m by (simp add: start_system_def sem_wait_def Empty_def)
  let ?q1 = "?q\<lparr>slots := (slots q)[m := b], write_position := Suc m\<rparr>"
  have w1: "turns (one_write 0 b) \<lparr>shared_q = ?q, writers = [W_out 0], readers = [R_wrap (Copied ?m)], given = [], removed = [?m]\<rparr>
    = Inr \<lparr>shared_q = ?q1, writers = [W_out (one_msg_size q)], readers = [R_wrap (Copied ?m)], given = [b], removed = [?m]\<rparr>"
    using q m w assms(3) by (subst one_write_turns) (simp_all add: Full_def advance_def)
  let ?q2 = "?q1\<lparr>slots := (slots q)[m := b, Suc m := b'], write_position := 0\<rparr>"
  have w2: "turns (one_write 0 b') \<lparr>shared_q = ?q1, writers = [W_out (one_msg_size q)], readers = [R_wrap (Copied ?m)], given = [b], removed = [?m]\<rparr>
    = Inr \<lparr>shared_q = ?q2, writers = [W_out (one_msg_size q)], readers = [R_wrap (Copied ?m)], given = [b, b'], removed = [?m]\<rparr>"
    using q m w assms(4) by (subst one_write_turns) (simp_all add: Full_def advance_def)
  have "turns [R_go 0, R_go 0] \<lparr>shared_q = ?q2, writers = [W_out (one_msg_size q)], readers = [R_wrap (Copied ?m)], given = [b, b'], removed = [?m]\<rparr>
    = Inr \<lparr>shared_q = ?q2\<lparr>read_position := 0, read_sem := 1\<rparr>, writers = [W_out (one_msg_size q)], readers = [R_out (Copied ?m)],
        given = [b, b'], removed = [?m]\<rparr>" by simp
  then show ?thesis
    unfolding turns_append r bindE.simps w1 w2 using m by (simp add: Empty_def)
qed

text \<open>
  C19. Without that proviso the queue breaks at the end of its array.  A writer that has incremented its
  position to the size, and not yet reset it, lets a reader that empties the queue go on to a message
  that nobody wrote, after which the queue counts as full.  A reader in the same place lets a writer fill
  the queue once more than it has room, after which all of it counts as empty.
\<close>

theorem end_of_array_race:
  assumes "queue_inv q" and "1 < size_q q" and "length b = one_msg_size q" and "length b' = one_msg_size q"
  shows "(Empty q \<and> write_position q = size_q q - 1 \<longrightarrow>
     (\<exists>s. turns (take 4 (one_write 0 b) @ one_read @ one_read @ [W_go 0]) (start_system q 1 1) = Inr s
       \<and> given s = [b] \<and> removed s = [b, slots q ! 0] \<and> Full (shared_q s)))
   \<and> (Full q \<and> read_position q = size_q q - 1 \<longrightarrow>
     (\<exists>s. turns (take 5 one_read @ one_write 0 b @ one_write 0 b' @ [R_go 0, R_go 0]) (start_system q 1 1) = Inr s
       \<and> given s = [b, b'] \<and> removed s = [slots q ! (size_q q - 1)] \<and> Empty (shared_q s)))"
  using writer_seen_between [OF assms(1-3)] reader_seen_between [OF assms] by simp

text \<open>An empty queue at the end of its array, and a full one.\<close>

definition at_the_end :: "nat MsgQueue" where
  "at_the_end = (new_MsgQueue 4 1 0)\<lparr>write_position := 3, read_position := 3\<rparr>"

definition full_at_the_end :: "nat MsgQueue" where
  "full_at_the_end = at_the_end\<lparr>slots := [[1], [2], [3], [4]], write_position := 2\<rparr>"

theorem end_of_array_race_witness:
  "(\<exists>s. turns (take 4 (one_write 0 [5]) @ one_read @ one_read @ [W_go 0]) (start_system at_the_end 1 1) = Inr s
       \<and> given s = [[5]] \<and> removed s = [[5], [0]] \<and> Full (shared_q s))
   \<and> (\<exists>s. turns (take 5 one_read @ one_write 0 [5] @ one_write 0 [6] @ [R_go 0, R_go 0]) (start_system full_at_the_end 1 1) = Inr s
       \<and> given s = [[5], [6]] \<and> removed s = [[4]] \<and> Empty (shared_q s))"
proof -
  have a: "queue_inv at_the_end" "1 < size_q at_the_end" "one_msg_size at_the_end = 1" "slots at_the_end ! 0 = [0]"
    "Empty at_the_end \<and> write_position at_the_end = size_q at_the_end - 1" by code_simp+
  have b: "queue_inv full_at_the_end" "1 < size_q full_at_the_end" "one_msg_size full_at_the_end = 1"
    "slots full_at_the_end ! (size_q full_at_the_end - 1) = [4]"
    "Full full_at_the_end \<and> read_position full_at_the_end = size_q full_at_the_end - 1" by code_simp+
  show ?thesis
    using end_of_array_race [OF a(1,2), of "[5]" "[6]", THEN conjunct1, THEN mp, OF _ _ a(5)]
      end_of_array_race [OF b(1,2), of "[5]" "[6]", THEN conjunct2, THEN mp, OF _ _ b(5)] a(3,4) b(3,4) by simp
qed

text \<open>Both test, both copy, both advance.\<close>

definition two_writes :: "'a list \<Rightarrow> 'a list \<Rightarrow> 'a event list" where
  "two_writes b b' = [W_call 0 False (Some b) 0, W_call 1 False (Some b') 0, W_go 0, W_go 1, W_go 0, W_go 1,
     W_go 0, W_go 0, W_go 1, W_go 1]"

text \<open>
  C20. Two writers on one queue, two clients that attached to the same sender: both find room before
  either has copied, both calls return as if they had stored their message, and the queue then holds
  the second message and what happened to be in the next slot; the first message is lost.
\<close>

theorem two_writers_collide:
  assumes "queue_inv q" and "Empty q" and "write_position q + 2 < size_q q"
    and "length b = one_msg_size q" and "length b' = one_msg_size q"
  shows "\<exists>s. turns (two_writes b b') (start_system q 2 n) = Inr s
     \<and> writers s = [W_out (one_msg_size q), W_out (one_msg_size q)]
     \<and> contents (shared_q s) = [b', slots q ! (write_position q + 1)]"
proof -
  let ?w = "write_position q"
  have q: "read_position q = ?w" "length (slots q) = size_q q" "length (slots q ! ?w) = one_msg_size q"
    "(?w + 1) mod size_q q \<noteq> ?w"
    using assms(1-3) by (auto simp: queue_inv_def Empty_def)
  let ?q = "q\<lparr>slots := (slots q)[?w := b'], write_position := ?w + 2\<rparr>"
  have "turns (two_writes b b') (start_system q 2 n)
      = Inr \<lparr>shared_q = ?q, writers = [W_out (one_msg_size q), W_out (one_msg_size q)],
          readers = replicate n (R_out Nothing), given = [b, b'], removed = []\<rparr>"
    using q assms(3-5)
    by (simp add: two_writes_def start_system_def Full_def clip_len_def copy_in_def sent_part_def numeral_eq_Suc)
  moreover have "contents ?q = [b', slots q ! (?w + 1)]"
    using q(1,2) assms(3) by (simp add: contents_def slot_order_def Size_def numeral_eq_Suc)
  ultimately show ?thesis by simp
qed

theorem two_writers_collide_witness:
  "\<exists>s. turns (two_writes [5] [6]) (start_system (new_MsgQueue 4 1 (0 :: nat)) 2 1) = Inr s
     \<and> writers s = [W_out 1, W_out 1] \<and> contents (shared_q s) = [[6], [0]]"
proof -
  let ?q = "new_MsgQueue 4 1 0 :: nat MsgQueue"
  have "queue_inv ?q" "Empty ?q" "write_position ?q + 2 < size_q ?q" "one_msg_size ?q = 1"
    "slots ?q ! (write_position ?q + 1) = [0]" by code_simp+
  with two_writers_collide [of ?q "[5]" "[6]" 1] show ?thesis by simp
qed

end
