(* ===== verification/Trie_Index.thy ===== *)
theory Trie_Index
  imports Prelude "HOL-Library.AList"
begin

text \<open>
  \<^verbatim>\<open>include/Trie.h\<close> and \<^verbatim>\<open>include/MyType.h\<close>: the character trie behind every index.  A node owns its
  children, so the pointer tree is a datatype; \<^verbatim>\<open>char_map_\<close>, an \<^verbatim>\<open>unordered_map\<close>, is an
  association list whose order stands for the map's (unspecified) iteration order.  The template
  flag \<open>lowercase\<close> is an argument.  The locale \<open>multi_index\<close> is what the memory bulk and the
  global key index rely on; the trie is shown to provide it for both settings of the flag.
\<close>

section \<open>Nodes\<close>

datatype 'v TrieNode =
  TrieNode (node_c: char) (char_map: "(char \<times> 'v TrieNode) list") (value_list: "'v list")

definition fold_case :: "bool \<Rightarrow> char \<Rightarrow> char" where
  "fold_case lowercase c =
     (if lowercase \<and> CHR ''A'' \<le> c \<and> c \<le> CHR ''Z'' then char_of (of_char c + (32 :: nat)) else c)"

text \<open>The running node count \<^verbatim>\<open>size\<close> is passed by reference in the source: argument and result.\<close>

fun node_insert :: "bool \<Rightarrow> string \<Rightarrow> 'v \<Rightarrow> 'v TrieNode \<Rightarrow> nat \<Rightarrow> 'v TrieNode \<times> nat" where
  "node_insert lowercase [] v (TrieNode c m vs) sz = (TrieNode c m (vs @ [v]), sz)"
| "node_insert lowercase (w # word) v (TrieNode c m vs) sz =
     (let t = fold_case lowercase w
      in case map_of m t of
           None \<Rightarrow>
             (let (n, sz') = node_insert lowercase word v (TrieNode t [] []) (sz + 1)
              in (TrieNode c (AList.update t n m) vs, sz'))
         | Some child \<Rightarrow>
             (let (n, sz') = node_insert lowercase word v child sz
              in (TrieNode c (AList.update t n m) vs, sz')))"

fun node_search :: "string \<Rightarrow> 'v TrieNode \<Rightarrow> 'v TrieNode option" where
  "node_search [] n = Some n"
| "node_search (w # word) n =
     (case map_of (char_map n) w of None \<Rightarrow> None | Some child \<Rightarrow> node_search word child)"

text \<open>\<^verbatim>\<open>push_back\<close> on the list that a search returned a pointer to.\<close>

fun node_push :: "string \<Rightarrow> 'v \<Rightarrow> 'v TrieNode \<Rightarrow> 'v TrieNode" where
  "node_push [] v (TrieNode c m vs) = TrieNode c m (vs @ [v])"
| "node_push (w # word) v (TrieNode c m vs) =
     (case map_of m w of
        None \<Rightarrow> TrieNode c m vs
      | Some child \<Rightarrow> TrieNode c (AList.update w (node_push word v child) m) vs)"

section \<open>The trie object\<close>

record 'v Trie =
  root :: "'v TrieNode option"
  trie_size :: nat
  valid :: bool
  store_in_array :: bool
  read_only :: bool

definition Set_valid :: "'v Trie \<Rightarrow> 'v Trie" where
  "Set_valid t = t\<lparr>root := (case root t of None \<Rightarrow> Some (TrieNode CHR ''@'' [] []) | Some n \<Rightarrow> Some n), valid := True\<rparr>"

definition Set_unvalid :: "'v Trie \<Rightarrow> 'v Trie" where
  "Set_unvalid t = t\<lparr>valid := False\<rparr>"

definition SetReadOnly :: "'v Trie \<Rightarrow> 'v Trie" where
  "SetReadOnly t = t\<lparr>read_only := True\<rparr>"

definition new_Trie :: "'v Trie" where
  "new_Trie = Set_valid \<lparr>root = None, trie_size = 1, valid = False, store_in_array = False, read_only = False\<rparr>"

text \<open>A valid trie has a root (\<open>trie_ok\<close> below), so the null-root branch is never taken.\<close>

definition trie_insert :: "bool \<Rightarrow> string \<Rightarrow> 'v \<Rightarrow> 'v Trie \<Rightarrow> 'v Trie" where
  "trie_insert lowercase word v t =
     (if valid t \<and> \<not> read_only t
      then (case root t of
              None \<Rightarrow> t
            | Some n \<Rightarrow> (let (n', sz') = node_insert lowercase word v n (trie_size t)
                        in t\<lparr>root := Some n', trie_size := sz'\<rparr>))
      else t)"

definition trie_search :: "string \<Rightarrow> 'v Trie \<Rightarrow> 'v list option" where
  "trie_search word t =
     (if \<not> valid t then None
      else (case root t of
              None \<Rightarrow> None
            | Some n \<Rightarrow> map_option value_list (node_search word n)))"

definition trie_push :: "string \<Rightarrow> 'v \<Rightarrow> 'v Trie \<Rightarrow> 'v Trie" where
  "trie_push word v t = t\<lparr>root := map_option (node_push word v) (root t)\<rparr>"

definition Delete_tree :: "'v Trie \<Rightarrow> 'v Trie" where
  "Delete_tree t = (Set_unvalid t)\<lparr>root := None, store_in_array := False, trie_size := 1\<rparr>"

section \<open>Well-formed tries\<close>

text \<open>The keys of a \<^verbatim>\<open>char_map_\<close> are distinct and each child knows its own character.\<close>

fun node_wf :: "'v TrieNode \<Rightarrow> bool" where
  "node_wf (TrieNode c m vs) \<longleftrightarrow>
     distinct (map fst m) \<and> (\<forall>(k, n) \<in> set m. node_c n = k \<and> node_wf n)"

fun node_count :: "'v TrieNode \<Rightarrow> nat" where
  "node_count (TrieNode c m vs) = 1 + sum_list (map (\<lambda>(k, n). node_count n) m)"

definition trie_ok :: "'v Trie \<Rightarrow> bool" where
  "trie_ok t \<longleftrightarrow> (valid t \<longrightarrow> (\<exists>n. root t = Some n \<and> node_wf n \<and> trie_size t = node_count n))"

lemma node_insert_c [simp]: "node_c (fst (node_insert low w v n s)) = node_c n"
  by (induction low w v n s rule: node_insert.induct) (auto split: option.split prod.split simp: Let_def)

lemma node_wf_update:
  assumes "node_wf (TrieNode c m vs)" "node_wf n" "node_c n = k"
  shows "node_wf (TrieNode c (AList.update k n m) vs)"
proof -
  have d: "distinct (map fst (AList.update k n m))"
    using assms(1) by (simp add: distinct_update)
  have "node_c n' = k' \<and> node_wf n'" if "(k', n') \<in> set (AList.update k n m)" for k' n'
  proof -
    from that d have "map_of (AList.update k n m) k' = Some n'"
      by (rule map_of_is_SomeI [rotated])
    then have "((map_of m)(k \<mapsto> n)) k' = Some n'"
      by (simp only: update_conv')
    then have "k' = k \<and> n' = n \<or> (k', n') \<in> set m"
      by (metis fun_upd_apply map_of_SomeD option.sel)
    with assms show ?thesis by auto
  qed
  with d show ?thesis by auto
qed

lemma sum_list_update:
  "distinct (map fst m) \<Longrightarrow> sum_list (map (\<lambda>(k, n). f n) (AList.update k n m))
     + (case map_of m k of None \<Rightarrow> 0 | Some n' \<Rightarrow> f n') = sum_list (map (\<lambda>(k, n). f n) m) + (f n :: nat)"
  by (induction m) (auto split: option.splits)

lemma map_of_wf: "node_wf (TrieNode c m vs) \<Longrightarrow> map_of m k = Some n \<Longrightarrow> node_c n = k \<and> node_wf n"
  by (auto dest: map_of_SomeD)

lemma node_insert_wf:
  "node_wf n \<Longrightarrow> node_wf (fst (node_insert low w v n s))
     \<and> snd (node_insert low w v n s) + node_count n = s + node_count (fst (node_insert low w v n s))"
proof (induction low w v n s rule: node_insert.induct)
  case (2 low w word v c m vs s)
  let ?t = "fold_case low w"
  have m: "distinct (map fst m)" using "2.prems" by simp
  show ?case
  proof (cases "map_of m ?t")
    case None
    obtain n s' where n: "node_insert low word v (TrieNode ?t [] []) (s + 1) = (n, s')"
      by (cases "node_insert low word v (TrieNode ?t [] []) (s + 1)")
    have ih: "node_wf n" "s' + 1 = s + 1 + node_count n"
      using "2.IH"(1) [OF refl None] n by simp_all
    have "node_c n = ?t" using node_insert_c [of low word v "TrieNode ?t [] []" "s + 1"]
      by (simp only: n fst_conv TrieNode.sel)
    with node_wf_update [OF "2.prems" ih(1)] ih(2) sum_list_update [OF m, of node_count ?t n] None n
    show ?thesis by (simp add: Let_def)
  next
    case (Some ch)
    obtain n s' where n: "node_insert low word v ch s = (n, s')" by (cases "node_insert low word v ch s")
    have ch: "node_c ch = ?t" "node_wf ch" using map_of_wf [OF "2.prems" Some] by auto
    have ih: "node_wf n" "s' + node_count ch = s + node_count n"
      using "2.IH"(2) [OF refl Some ch(2)] n by simp_all
    have "node_c n = ?t" using node_insert_c [of low word v ch s] n ch by simp
    with node_wf_update [OF "2.prems" ih(1)] ih(2) sum_list_update [OF m, of node_count ?t n] Some n
    show ?thesis by (simp add: Let_def)
  qed
qed simp

lemma new_Trie_ok: "trie_ok new_Trie \<and> valid new_Trie \<and> \<not> read_only new_Trie"
  by (simp add: new_Trie_def Set_valid_def trie_ok_def)

lemma trie_insert_ok: "trie_ok t \<Longrightarrow> trie_ok (trie_insert low w v t)"
  using node_insert_wf [of "the (root t)" low w v "trie_size t"]
  by (auto simp: trie_ok_def trie_insert_def Let_def split: option.split prod.split)

lemma trie_insert_flags [simp]:
  "valid (trie_insert low w v t) = valid t" "read_only (trie_insert low w v t) = read_only t"
  by (auto simp: trie_insert_def Let_def split: option.split prod.split)

section \<open>Lookup after insertion\<close>

lemma node_search_leaf [simp]:
  "node_search q (TrieNode c [] vs) = (if q = [] then Some (TrieNode c [] vs) else None)"
  by (cases q) auto

lemma node_search_insert:
  "node_search q (fst (node_insert low w v n s)) = Some n1 \<longrightarrow>
   value_list n1 = (case node_search q n of None \<Rightarrow> [] | Some n0 \<Rightarrow> value_list n0)
      @ (if q = map (fold_case low) w then [v] else [])"
proof (induction low w v n s arbitrary: q n1 rule: node_insert.induct)
  case (1 low v c m vs s)
  then show ?case by (cases q) (auto split: option.split)
next
  case (2 low w word v c m vs s)
  show ?case
  proof (cases q)
    case Nil
    with "2" show ?thesis by (auto simp: Let_def split: option.split prod.split)
  next
    case (Cons a qs)
    show ?thesis
      using "2.IH"(1) [OF refl, of qs n1] "2.IH"(2) [OF refl, of _ qs n1] Cons
      by (cases "a = fold_case low w")
         (auto simp: Let_def update_conv' split: option.splits prod.splits if_splits)
  qed
qed

text \<open>A node exists after an insertion where one did before, and along the inserted word.\<close>

lemma node_search_insert_None:
  "node_search q (fst (node_insert low w v n s)) = None \<longleftrightarrow>
     node_search q n = None \<and> \<not> (\<exists>r. map (fold_case low) w = q @ r)"
proof (induction low w v n s arbitrary: q rule: node_insert.induct)
  case (1 low v c m vs s)
  then show ?case by (cases q) auto
next
  case (2 low w word v c m vs s)
  show ?case
  proof (cases q)
    case Nil
    then show ?thesis by (auto simp: Let_def split: option.split prod.split)
  next
    case (Cons a qs)
    show ?thesis
      using "2.IH"(1) [OF refl, of qs] "2.IH"(2) [OF refl, of _ qs] Cons
      by (cases "a = fold_case low w")
         (auto simp: Let_def update_conv' split: option.splits prod.splits if_splits)
  qed
qed

definition trie_list :: "'v Trie \<Rightarrow> string \<Rightarrow> 'v list" where
  "trie_list t q = (case trie_search q t of None \<Rightarrow> [] | Some vs \<Rightarrow> vs)"

definition index_inv :: "'v Trie \<Rightarrow> bool" where
  "index_inv t \<longleftrightarrow> trie_ok t \<and> valid t \<and> \<not> read_only t"

lemma trie_list_insert:
  assumes "index_inv t"
  shows "trie_list (trie_insert low w v t) q = trie_list t q @ (if map (fold_case low) w = q then [v] else [])"
proof -
  obtain n where n: "root t = Some n" using assms by (auto simp: index_inv_def trie_ok_def)
  obtain n' s' where i: "node_insert low w v n (trie_size t) = (n', s')" by force
  have "trie_insert low w v t = t\<lparr>root := Some n', trie_size := s'\<rparr>"
    using assms n i by (simp add: trie_insert_def index_inv_def)
  with assms n node_search_insert [of q low w v n "trie_size t"]
    node_search_insert_None [of q low w v n "trie_size t"] i
  show ?thesis
    by (cases "node_search q n'")
       (auto simp: trie_list_def trie_search_def index_inv_def split: option.split)
qed

lemma index_inv_new: "index_inv new_Trie"
  using new_Trie_ok by (simp add: index_inv_def)

lemma index_inv_insert: "index_inv t \<Longrightarrow> index_inv (trie_insert low w v t)"
  by (simp add: index_inv_def trie_insert_ok)

lemma trie_list_new [simp]: "trie_list new_Trie q = []"
  by (simp add: trie_list_def trie_search_def new_Trie_def Set_valid_def split: option.split)

section \<open>The index interface\<close>

locale multi_index =
  fixes inv :: "'m \<Rightarrow> bool"
    and ins :: "'k \<Rightarrow> 'v \<Rightarrow> 'm \<Rightarrow> 'm"
    and look :: "'m \<Rightarrow> 'k \<Rightarrow> 'v list"
    and norm :: "'k \<Rightarrow> 'k"
  assumes inv_ins: "inv m \<Longrightarrow> inv (ins k v m)"
    and look_ins: "inv m \<Longrightarrow> look (ins k v m) q = look m q @ (if norm k = q then [v] else [])"
begin

lemma inv_fold: "inv m \<Longrightarrow> inv (fold (\<lambda>(k, v). ins k v) kvs m)"
  by (induction kvs arbitrary: m) (auto simp: inv_ins)

lemma look_fold:
  "inv m \<Longrightarrow> look (fold (\<lambda>(k, v). ins k v) kvs m) q = look m q @ map snd (filter (\<lambda>(k, v). norm k = q) kvs)"
  by (induction kvs arbitrary: m) (auto simp: inv_ins look_ins)

end

interpretation key_index: multi_index index_inv "trie_insert False" trie_list "\<lambda>w. w"
proof unfold_locales
  fix t :: "'v Trie" and k v q
  assume "index_inv t"
  moreover have "map (fold_case False) w = w" for w by (induction w) (auto simp: fold_case_def)
  ultimately show "index_inv (trie_insert False k v t)"
    and "trie_list (trie_insert False k v t) q = trie_list t q @ (if k = q then [v] else [])"
    by (simp_all add: index_inv_insert trie_list_insert)
qed

interpretation word_index: multi_index index_inv "trie_insert True" trie_list "map (fold_case True)"
  by unfold_locales (simp_all add: index_inv_insert trie_list_insert)

text \<open>
  C26. The trie is a multimap: after any sequence of insertions a search returns exactly the values
  inserted under that word (under a word that folds to it, for the keyword trie), in insertion order;
  the node count the serializer writes is the number of nodes.
\<close>

theorem trie_inserts_lookup:
  "trie_list (fold (\<lambda>(w, v). trie_insert lowercase w v) wvs new_Trie) q
     = map snd (filter (\<lambda>(w, v). map (fold_case lowercase) w = q) wvs)
   \<and> trie_ok (fold (\<lambda>(w, v). trie_insert lowercase w v) wvs new_Trie)"
proof (cases lowercase)
  case True
  then show ?thesis
    using word_index.look_fold [OF index_inv_new, where kvs = wvs and q = q]
      word_index.inv_fold [OF index_inv_new, of wvs]
    by (simp add: index_inv_def)
next
  case False
  have "map (fold_case False) w = w" for w by (induction w) (auto simp: fold_case_def)
  with False show ?thesis
    using key_index.look_fold [OF index_inv_new, where kvs = wvs and q = q]
      key_index.inv_fold [OF index_inv_new, of wvs]
    by (simp add: index_inv_def)
qed

lemma fold_case_not_upper: "fold_case True c \<noteq> d" if "CHR ''A'' \<le> d" "d \<le> CHR ''Z''"
proof
  assume eq: "fold_case True c = d"
  show False
  proof (cases "CHR ''A'' \<le> c \<and> c \<le> CHR ''Z''")
    case True
    then have "65 \<le> (of_char c :: nat)" "(of_char c :: nat) \<le> 90" by (auto simp: less_eq_char_def)
    then have "(of_char (char_of (of_char c + (32 :: nat)) :: char) :: nat) = of_char c + 32"
      by (simp add: of_char_of take_bit_nat_eq_self mod_less) 
    with True eq \<open>65 \<le> _\<close> that(2) show False by (auto simp: fold_case_def less_eq_char_def)
  qed (use eq that in \<open>auto simp: fold_case_def\<close>)
qed

text \<open>
  \<^verbatim>\<open>Insert\<close> folds upper case to lower case in the keyword trie but \<^verbatim>\<open>Search\<close> does not: a
  search word with an upper-case letter finds nothing, whatever was inserted.
\<close>

lemma keyword_search_upper_case_misses:
  assumes "d \<in> set q" and "CHR ''A'' \<le> d" and "d \<le> CHR ''Z''"
  shows "trie_list (fold (\<lambda>(w, v). trie_insert True w v) wvs new_Trie) q = []"
proof -
  have "map (fold_case True) w \<noteq> q" for w
  proof
    assume "map (fold_case True) w = q"
    with assms(1) obtain c where "fold_case True c = d" by auto
    with fold_case_not_upper [OF assms(2,3)] show False by blast
  qed
  then show ?thesis
    using word_index.look_fold [OF index_inv_new, where kvs = wvs and q = q] by simp
qed

section \<open>Appending to the list of a word that is present\<close>

lemma node_push_c [simp]: "node_c (node_push w v n) = node_c n"
  by (induction w v n rule: node_push.induct) (auto split: option.split)

lemma node_push_wf: "node_wf n \<Longrightarrow> node_wf (node_push w v n) \<and> node_count (node_push w v n) = node_count n"
proof (induction w v n rule: node_push.induct)
  case (2 w word v c m vs)
  show ?case
  proof (cases "map_of m w")
    case (Some ch)
    with map_of_wf [OF "2.prems" Some] "2.IH" [OF Some] "2.prems"
      node_wf_update [OF "2.prems", of "node_push word v ch" w]
      sum_list_update [of m node_count w "node_push word v ch"]
    show ?thesis by simp
  qed (use "2.prems" in simp)
qed simp

lemma node_search_push:
  "node_search w n \<noteq> None \<Longrightarrow>
   map_option value_list (node_search q (node_push w v n))
   = map_option (\<lambda>n'. value_list n' @ (if q = w then [v] else [])) (node_search q n)"
proof (induction w v n arbitrary: q rule: node_push.induct)
  case (1 v c m vs)
  then show ?case by (cases q) (auto split: option.split)
next
  case (2 w word v c m vs)
  then obtain ch where "map_of m w = Some ch" "node_search word ch \<noteq> None"
    by (auto split: option.splits)
  with "2.IH" show ?case by (cases q) (auto simp: update_conv' split: option.split)
qed

lemma trie_push_ok: "trie_ok t \<Longrightarrow> trie_ok (trie_push w v t)"
  using node_push_wf by (fastforce simp: trie_ok_def trie_push_def)

lemma index_inv_push: "index_inv t \<Longrightarrow> index_inv (trie_push w v t)"
  using trie_push_ok by (auto simp: index_inv_def) (simp_all add: trie_push_def)

lemma trie_search_push:
  "index_inv t \<Longrightarrow> trie_search w t \<noteq> None \<Longrightarrow>
   trie_search q (trie_push w v t) = map_option (\<lambda>vs. vs @ (if q = w then [v] else [])) (trie_search q t)"
  using node_search_push
  by (fastforce simp: trie_search_def trie_push_def option.map_comp comp_def index_inv_def split: option.splits)

end
