(* ===== verification/Memory_Bulk.thy ===== *)
theory Memory_Bulk
  imports Prelude Config Trie_Index
begin

text \<open>
  The memory bulk of \<^verbatim>\<open>include/Data_manager.h\<close> and \<^verbatim>\<open>src/log_processor/data_manager.cpp\<close>: one
  append-only buffer of formatted log lines with its four in-memory indexes (key trie, keyword
  trie, line offsets, timestamps), the word splitter, the read-back of a line, and the multi-word
  join.  \<open>bulk_repr\<close> says which list of log entries a bulk stands for; every operation is shown
  to keep it.
\<close>

section \<open>Splitting text into words\<close>

definition delimiters :: string where
  "delimiters = '' ~`!@#$%^&*()+={}[]'' @ [CHR 0x22] @ '':;,.<>?/'' @ [CHR 0x5C, CHR 0x09, CHR 0x0A]"

definition is_delim :: "char \<Rightarrow> bool" where
  "is_delim c \<longleftrightarrow> c \<in> set delimiters"

text \<open>The next token and where \<^verbatim>\<open>saveptr\<close> is left, after the delimiter that was overwritten.\<close>

definition strtok_r :: "string \<Rightarrow> (string \<times> string) option" where
  "strtok_r s = (let t = dropWhile is_delim s
     in if t = [] then None
        else Some (takeWhile (\<lambda>c. \<not> is_delim c) t, drop 1 (dropWhile (\<lambda>c. \<not> is_delim c) t)))"

lemma strtok_r_shorter: "strtok_r s = Some (w, rest) \<Longrightarrow> length rest < length s"
proof -
  assume a: "strtok_r s = Some (w, rest)"
  define t where "t = dropWhile is_delim s"
  define u where "u = dropWhile (\<lambda>c. \<not> is_delim c) t"
  have "t \<noteq> []" "rest = drop 1 u"
    using a by (auto simp: strtok_r_def t_def u_def Let_def split: if_splits)
  moreover have "length u \<le> length t" "length t \<le> length s"
    by (simp_all add: t_def u_def length_dropWhile_le)
  ultimately show ?thesis by (cases t) simp_all
qed

function Split_key_word :: "string \<Rightarrow> string list" where
  "Split_key_word s = (case strtok_r s of None \<Rightarrow> [] | Some (word, saveptr) \<Rightarrow> word # Split_key_word saveptr)"
  by pat_completeness auto
termination
  by (relation "measure length") (auto dest: strtok_r_shorter)

declare Split_key_word.simps [simp del]

section \<open>The bulk\<close>

record BulkIndex =
  key_serial_trie :: "nat Trie"
  keyword_serial_trie :: "nat Trie"
  offset_list :: "nat list"
  timestamp_list :: "u64 list"

record MemoryBulk =
  start_serial :: u64
  mb_start_time :: u64
  mb_end_time :: u64
  mb_size :: nat
  mb_index :: BulkIndex
  mb_offset :: nat
  data :: "string option"

definition new_BulkIndex :: BulkIndex where
  "new_BulkIndex = \<lparr>key_serial_trie = new_Trie, keyword_serial_trie = new_Trie,
     offset_list = [], timestamp_list = []\<rparr>"

definition new_MemoryBulk :: "u64 \<Rightarrow> MemoryBulk" where
  "new_MemoryBulk serial = \<lparr>start_serial = serial, mb_start_time = 0, mb_end_time = 0, mb_size = 0,
     mb_index = new_BulkIndex, mb_offset = 0, data = None\<rparr>"

text \<open>\<open>None\<close> in the result is the \<^verbatim>\<open>-1\<close> of a bulk without room; a null \<^verbatim>\<open>data_\<close> is undefined behaviour.\<close>

definition mb_Append :: "string \<Rightarrow> nat \<Rightarrow> MemoryBulk \<Rightarrow> (nat option \<times> MemoryBulk) res" where
  "mb_Append str len b =
     (if mb_offset b + len + 1 \<ge> BULKSIZE then Inr (None, b)
      else (case data b of
              None \<Rightarrow> Inl UB
            | Some buf \<Rightarrow> Inr (Some (mb_offset b),
                b\<lparr>data := Some (buf_write (mb_offset b) (c_strncpy str len) buf),
                  mb_offset := mb_offset b + len\<rparr>)))"

definition earliest :: "u64 \<Rightarrow> u64 \<Rightarrow> u64" where
  "earliest start timestamp = (if start > timestamp \<or> start = 0 then timestamp else start)"

definition latest :: "u64 \<Rightarrow> u64 \<Rightarrow> u64" where
  "latest end_t timestamp = (if end_t < timestamp then timestamp else end_t)"

definition mb_Build_index :: "nat \<Rightarrow> string \<Rightarrow> string \<Rightarrow> u64 \<Rightarrow> MemoryBulk \<Rightarrow> MemoryBulk" where
  "mb_Build_index off content key timestamp b =
     (let ix = mb_index b; n = mb_size b
      in b\<lparr>mb_index := \<lparr>key_serial_trie = trie_insert False key n (key_serial_trie ix),
              keyword_serial_trie = fold (\<lambda>word. trie_insert True word n) (Split_key_word content) (keyword_serial_trie ix),
              offset_list = offset_list ix @ [off],
              timestamp_list = timestamp_list ix @ [timestamp]\<rparr>,
           mb_start_time := earliest (mb_start_time b) timestamp,
           mb_end_time := latest (mb_end_time b) timestamp,
           mb_size := n + 1\<rparr>)"

text \<open>\<open>None\<close> is the \<^verbatim>\<open>-1\<close> for a serial that is not in the bulk.\<close>

definition mb_Get_offset_by_serial :: "nat \<Rightarrow> MemoryBulk \<Rightarrow> nat option res" where
  "mb_Get_offset_by_serial serial b =
     (if serial \<ge> mb_size b then Inr None
      else if serial < length (offset_list (mb_index b)) then Inr (Some (offset_list (mb_index b) ! serial))
      else Inl UB)"

definition mb_Search_keyword :: "string \<Rightarrow> MemoryBulk \<Rightarrow> nat list option" where
  "mb_Search_keyword keyword b = trie_search keyword (keyword_serial_trie (mb_index b))"

definition mb_Search_key :: "string \<Rightarrow> MemoryBulk \<Rightarrow> nat list option" where
  "mb_Search_key key b = trie_search key (key_serial_trie (mb_index b))"

section \<open>Reading a line back\<close>

text \<open>The scan of the bulk buffer; behind the bytes written stand NULs.\<close>

fun find_in_log :: "string \<Rightarrow> char \<Rightarrow> nat option" where
  "find_in_log [] c = (if c = nul then Some 0 else None)"
| "find_in_log (x # xs) c =
     (if x = c then Some 0 else if x = nul \<or> x = newline then None
      else map_option Suc (find_in_log xs c))"

text \<open>
  \<^verbatim>\<open>Get_content_ref\<close>: the line from its offset on and its length.  A line without a newline ends
  the process; an offset of \<^verbatim>\<open>-1\<close> points before the buffer.
\<close>

definition content_ref :: "nat option \<Rightarrow> string \<Rightarrow> (string \<times> nat) res" where
  "content_ref off buf = (case off of
       None \<Rightarrow> Inl UB
     | Some o1 \<Rightarrow> (case find_in_log (drop o1 buf) newline of
           None \<Rightarrow> Inl Exited
         | Some len \<Rightarrow> Inr (drop o1 buf, len)))"

section \<open>The log entries a bulk stands for\<close>

record log_entry =
  le_key :: string
  le_time :: u64
  le_content :: string

definition format_line :: "string \<Rightarrow> u64 \<Rightarrow> string \<Rightarrow> string" where
  "format_line key t content =
     ''[key: '' @ key @ '', time: '' @ show_nat (unat t) @ ''] '' @ content @ [newline]"

definition line_of :: "log_entry \<Rightarrow> string" where
  "line_of e = format_line (le_key e) (le_time e) (le_content e)"

definition text_of :: "log_entry list \<Rightarrow> string" where
  "text_of ls = concat (map line_of ls)"

definition offsets :: "log_entry list \<Rightarrow> nat list" where
  "offsets ls = map (\<lambda>i. length (text_of (take i ls))) [0..<length ls]"

text \<open>Serials of the entries with a key, and, once per occurrence, of those whose text has a word.\<close>

definition serials_of_key :: "string \<Rightarrow> log_entry list \<Rightarrow> nat list" where
  "serials_of_key q ls = filter (\<lambda>i. le_key (ls ! i) = q) [0..<length ls]"

definition words_of :: "log_entry \<Rightarrow> string list" where
  "words_of e = map (map (fold_case True)) (Split_key_word (le_content e))"

definition serials_of_word :: "string \<Rightarrow> log_entry list \<Rightarrow> nat list" where
  "serials_of_word q ls = concat (map (\<lambda>i. replicate (count_list (words_of (ls ! i)) q) i) [0..<length ls])"

definition first_time :: "log_entry list \<Rightarrow> u64" where
  "first_time ls = fold (\<lambda>e t. earliest t (le_time e)) ls 0"

definition last_time :: "log_entry list \<Rightarrow> u64" where
  "last_time ls = fold (\<lambda>e t. latest t (le_time e)) ls 0"

definition index_repr :: "BulkIndex \<Rightarrow> log_entry list \<Rightarrow> bool" where
  "index_repr ix ls \<longleftrightarrow>
     index_inv (key_serial_trie ix) \<and> (\<forall>q. trie_list (key_serial_trie ix) q = serials_of_key q ls)
   \<and> index_inv (keyword_serial_trie ix) \<and> (\<forall>q. trie_list (keyword_serial_trie ix) q = serials_of_word q ls)
   \<and> offset_list ix = offsets ls \<and> timestamp_list ix = map le_time ls"

definition bulk_repr :: "MemoryBulk \<Rightarrow> log_entry list \<Rightarrow> bool" where
  "bulk_repr b ls \<longleftrightarrow> index_repr (mb_index b) ls \<and> data b = Some (text_of ls)
     \<and> mb_size b = length ls \<and> mb_offset b = length (text_of ls) \<and> length (text_of ls) + 1 < BULKSIZE
     \<and> mb_start_time b = first_time ls \<and> mb_end_time b = last_time ls"

text \<open>What the request parser guarantees of the strings: no NUL in them.\<close>

definition entry_ok :: "log_entry \<Rightarrow> bool" where
  "entry_ok e \<longleftrightarrow> nul_free (le_key e) \<and> nul_free (le_content e)"

text \<open>
  A line is read from its offset up to the first newline from there on.  An entry whose key or text holds a
  newline (\<^verbatim>\<open>%0A\<close> in the request) is stored as it is and read back only up to that newline.
\<close>

definition first_line :: "string \<Rightarrow> string" where
  "first_line l = takeWhile (\<lambda>c. c \<noteq> newline) l @ [newline]"

definition single_line :: "log_entry \<Rightarrow> bool" where
  "single_line e \<longleftrightarrow> newline \<notin> set (le_key e) \<and> newline \<notin> set (le_content e)"

lemma line_nul_free: "entry_ok e \<Longrightarrow> nul_free (line_of e)"
  by (simp add: line_of_def format_line_def entry_ok_def) (simp add: nul_def)

lemma text_of_snoc: "text_of (ls @ [e]) = text_of ls @ line_of e"
  by (simp add: text_of_def)

lemma offsets_snoc: "offsets (ls @ [e]) = offsets ls @ [length (text_of ls)]"
  by (simp add: offsets_def)

lemma serials_of_key_snoc:
  "serials_of_key q (ls @ [e]) = serials_of_key q ls @ (if le_key e = q then [length ls] else [])"
  by (auto simp: serials_of_key_def nth_append intro!: filter_cong)

lemma serials_of_word_snoc:
  "serials_of_word q (ls @ [e]) = serials_of_word q ls @ replicate (count_list (words_of e) q) (length ls)"
proof -
  have eq: "map (\<lambda>i. replicate (count_list (words_of ((ls @ [e]) ! i)) q) i) [0..<length ls]
      = map (\<lambda>i. replicate (count_list (words_of (ls ! i)) q) i) [0..<length ls]"
    by (rule map_cong) (simp_all add: nth_append)
  show ?thesis
    by (simp add: serials_of_word_def arg_cong [OF eq, of concat])
qed

lemma first_time_snoc: "first_time (ls @ [e]) = earliest (first_time ls) (le_time e)"
  by (simp add: first_time_def)

lemma last_time_snoc: "last_time (ls @ [e]) = latest (last_time ls) (le_time e)"
  by (simp add: last_time_def)

lemmas entry_snoc = text_of_snoc offsets_snoc serials_of_key_snoc serials_of_word_snoc
  first_time_snoc last_time_snoc

lemma trie_list_insert_words:
  assumes "index_inv t"
  shows "trie_list (fold (\<lambda>w. trie_insert True w n) ws t) q
       = trie_list t q @ replicate (count_list (map (map (fold_case True)) ws) q) n
   \<and> index_inv (fold (\<lambda>w. trie_insert True w n) ws t)"
  using assms
proof (induction ws arbitrary: t)
  case (Cons w ws)
  then show ?case by (simp add: word_index.inv_ins word_index.look_ins)
qed simp

section \<open>Appending an entry\<close>

lemma new_bulk_repr: "bulk_repr ((new_MemoryBulk serial)\<lparr>data := Some []\<rparr>) []"
  by (simp add: bulk_repr_def new_MemoryBulk_def new_BulkIndex_def index_repr_def index_inv_new
      serials_of_key_def serials_of_word_def offsets_def text_of_def first_time_def last_time_def config_defs)

lemma mb_Append_repr:
  assumes "bulk_repr b ls" "nul_free line" "length (text_of ls) + length line + 1 < BULKSIZE"
  shows "mb_Append line (length line) b = Inr (Some (length (text_of ls)),
           b\<lparr>data := Some (text_of ls @ line), mb_offset := length (text_of ls @ line)\<rparr>)"
  using assms by (simp add: mb_Append_def bulk_repr_def buf_write_def c_strncpy_exact)

lemma mb_Append_no_room:
  assumes "bulk_repr b ls" "\<not> length (text_of ls) + length line + 1 < BULKSIZE"
  shows "mb_Append line (length line) b = Inr (None, b)"
  using assms by (simp add: mb_Append_def bulk_repr_def)

lemma mb_Build_index_repr:
  assumes "index_repr (mb_index b) ls" "mb_size b = length ls"
  shows "index_repr (mb_index (mb_Build_index (length (text_of ls)) (le_content e) (le_key e) (le_time e) b)) (ls @ [e])"
  using assms trie_list_insert_words [of "keyword_serial_trie (mb_index b)" "length ls" "Split_key_word (le_content e)"]
  by (simp add: index_repr_def mb_Build_index_def Let_def key_index.inv_ins key_index.look_ins entry_snoc words_of_def)

text \<open>\<^verbatim>\<open>Append\<close> followed by \<^verbatim>\<open>Build_index\<close> with the offset it returned, as \<^verbatim>\<open>Append_log\<close> calls them.\<close>

lemma append_entry_repr:
  assumes "bulk_repr b ls" "entry_ok e" "length (text_of ls) + length (line_of e) + 1 < BULKSIZE"
  shows "\<exists>b1. mb_Append (line_of e) (length (line_of e)) b = Inr (Some (length (text_of ls)), b1)
     \<and> mb_size b1 = mb_size b \<and> start_serial b1 = start_serial b
     \<and> bulk_repr (mb_Build_index (length (text_of ls)) (le_content e) (le_key e) (le_time e) b1) (ls @ [e])"
proof -
  let ?b1 = "b\<lparr>data := Some (text_of ls @ line_of e), mb_offset := length (text_of ls @ line_of e)\<rparr>"
  have "index_repr (mb_index ?b1) ls" "mb_size ?b1 = length ls"
    using assms(1) by (simp_all add: bulk_repr_def)
  from mb_Build_index_repr [OF this, of e] mb_Append_repr [OF assms(1) line_nul_free [OF assms(2)] assms(3)]
  show ?thesis
    using assms(1,3) by (simp add: bulk_repr_def mb_Build_index_def Let_def entry_snoc)
qed

section \<open>Reading back what was appended\<close>

lemma find_in_log_hit:
  "nul_free p \<Longrightarrow> newline \<notin> set p \<Longrightarrow> find_in_log (p @ newline # rest) newline = Some (length p)"
  by (induction p) auto

lemma text_of_split:
  assumes "i < length ls"
  shows "drop (length (text_of (take i ls))) (text_of ls) = line_of (ls ! i) @ text_of (drop (Suc i) ls)"
proof -
  have "text_of ls = text_of (take i ls) @ line_of (ls ! i) @ text_of (drop (Suc i) ls)"
    using assms by (metis id_take_nth_drop concat_append text_of_def concat.simps(2) map_append list.simps(9))
  then show ?thesis by simp
qed

lemma first_line_prefix:
  assumes "newline \<in> set l"
  obtains r where "l = first_line l @ r"
proof -
  obtain p r where l: "l = p @ newline # r" and p: "newline \<notin> set p"
    using split_list_first [OF assms] by blast
  have "\<forall>c \<in> set p. c \<noteq> newline" using p by blast
  then have "takeWhile (\<lambda>c. c \<noteq> newline) (p @ newline # r) = p"
    by (subst takeWhile_append2) auto
  then have "l = first_line l @ r" by (simp add: first_line_def l)
  with that show ?thesis .
qed

lemma line_split: obtains p where "line_of e = p @ [newline]"
    "entry_ok e \<Longrightarrow> nul_free p" "single_line e \<Longrightarrow> newline \<notin> set p"
proof
  let ?p = "''[key: '' @ le_key e @ '', time: '' @ show_nat (unat (le_time e)) @ ''] '' @ le_content e"
  show "line_of e = ?p @ [newline]" by (simp add: line_of_def format_line_def)
  show "entry_ok e \<Longrightarrow> nul_free ?p" by (simp add: entry_ok_def) (simp add: nul_def)
  have "newline \<notin> set (show_nat (unat (le_time e)))"
    using show_nat_digits [of "unat (le_time e)"] by (auto simp: list_all_iff is_digit_iff newline_def)
  then show "single_line e \<Longrightarrow> newline \<notin> set ?p"
    by (simp add: single_line_def) (simp add: newline_def)
qed

lemma first_line_of:
  obtains p r where "line_of e = p @ newline # r" "first_line (line_of e) = p @ [newline]" "newline \<notin> set p"
    "entry_ok e \<Longrightarrow> nul_free p"
proof -
  let ?p = "takeWhile (\<lambda>c. c \<noteq> newline) (line_of e)"
  have "newline \<in> set (line_of e)" by (simp add: line_of_def format_line_def)
  then obtain r where "line_of e = first_line (line_of e) @ r" by (rule first_line_prefix)
  then have l: "line_of e = ?p @ newline # r" by (simp add: first_line_def)
  have "newline \<notin> set ?p" by (auto dest: set_takeWhileD)
  moreover have "nul_free ?p" if "entry_ok e"
  proof -
    have "nul_free (?p @ newline # r)" using line_nul_free [OF that] l by metis
    then show ?thesis by simp
  qed
  ultimately show ?thesis using that [OF l] by (simp add: first_line_def)
qed

lemma first_line_single: "single_line e \<Longrightarrow> first_line (line_of e) = line_of e"
proof -
  assume "single_line e"
  then obtain p where p: "line_of e = p @ [newline]" "newline \<notin> set p" using line_split [of e] by metis
  then have "\<forall>c \<in> set p. c \<noteq> newline" by blast
  then have "takeWhile (\<lambda>c. c \<noteq> newline) (p @ [newline]) = p" by (subst takeWhile_append2) auto
  then show ?thesis by (simp add: first_line_def p(1))
qed

definition read_entry :: "nat \<Rightarrow> MemoryBulk \<Rightarrow> (string \<times> nat) res" where
  "read_entry serial b = bindE (mb_Get_offset_by_serial serial b) (\<lambda>off.
     (case data b of None \<Rightarrow> Inl UB | Some buf \<Rightarrow> content_ref off buf))"

lemma content_ref_entry:
  assumes "i < length ls" "entry_ok (ls ! i)"
  shows "\<exists>rest. content_ref (Some (offsets ls ! i)) (text_of ls)
           = Inr (first_line (line_of (ls ! i)) @ rest, length (first_line (line_of (ls ! i))) - 1)"
proof -
  obtain p r where p: "line_of (ls ! i) = p @ newline # r" "first_line (line_of (ls ! i)) = p @ [newline]"
      "newline \<notin> set p" "nul_free p"
    using first_line_of [of "ls ! i"] assms(2) by metis
  have "offsets ls ! i = length (text_of (take i ls))" using assms(1) by (simp add: offsets_def)
  then have "drop (offsets ls ! i) (text_of ls) = p @ newline # r @ text_of (drop (Suc i) ls)"
    using text_of_split [OF assms(1)] p(1) by simp
  with find_in_log_hit [OF p(4,3)] p(2) show ?thesis
    by (simp add: content_ref_def)
qed

lemma read_entry_repr:
  assumes "bulk_repr b ls" "i < length ls" "entry_ok (ls ! i)"
  shows "\<exists>rest. read_entry i b = Inr (first_line (line_of (ls ! i)) @ rest, length (first_line (line_of (ls ! i))) - 1)"
proof -
  have "mb_Get_offset_by_serial i b = Inr (Some (offsets ls ! i))"
    using assms(1,2) by (simp add: mb_Get_offset_by_serial_def bulk_repr_def index_repr_def offsets_def)
  with content_ref_entry [OF assms(2-3)] assms(1) show ?thesis
    by (simp add: read_entry_def bulk_repr_def)
qed

section \<open>A bulk filled from a list of entries\<close>

text \<open>What \<^verbatim>\<open>Append_log\<close> does to the open bulk with one entry; \<open>None\<close>: the bulk has no room.\<close>

definition add_entry :: "log_entry \<Rightarrow> MemoryBulk \<Rightarrow> MemoryBulk option res" where
  "add_entry e b = bindE (mb_Append (line_of e) (length (line_of e)) b) (\<lambda>(off, b1).
     Inr (case off of None \<Rightarrow> None
          | Some o1 \<Rightarrow> Some (mb_Build_index o1 (le_content e) (le_key e) (le_time e) b1)))"

fun fill_bulk :: "log_entry list \<Rightarrow> MemoryBulk \<Rightarrow> MemoryBulk option res" where
  "fill_bulk [] b = Inr (Some b)"
| "fill_bulk (e # es) b = bindE (add_entry e b) (\<lambda>r. case r of None \<Rightarrow> Inr None | Some b1 \<Rightarrow> fill_bulk es b1)"

lemma add_entry_repr:
  assumes "bulk_repr b ls" "entry_ok e" "length (text_of ls) + length (line_of e) + 1 < BULKSIZE"
  shows "\<exists>b1. add_entry e b = Inr (Some b1) \<and> bulk_repr b1 (ls @ [e]) \<and> start_serial b1 = start_serial b"
  using append_entry_repr [OF assms] by (auto simp: add_entry_def mb_Build_index_def Let_def)

lemma text_of_append [simp]: "text_of (xs @ ys) = text_of xs @ text_of ys"
  by (simp add: text_of_def)

lemma fill_bulk_repr:
  assumes "bulk_repr b ls" "\<forall>e \<in> set es. entry_ok e" "length (text_of (ls @ es)) + 1 < BULKSIZE"
  shows "\<exists>b1. fill_bulk es b = Inr (Some b1) \<and> bulk_repr b1 (ls @ es) \<and> start_serial b1 = start_serial b"
  using assms
proof (induction es arbitrary: b ls)
  case (Cons e es)
  have "length (text_of ls) + length (line_of e) + 1 < BULKSIZE" "entry_ok e"
    using Cons.prems by (simp_all add: text_of_def)
  with add_entry_repr [OF Cons.prems(1)] obtain b1 where b1: "add_entry e b = Inr (Some b1)"
      "bulk_repr b1 (ls @ [e])" "start_serial b1 = start_serial b" by blast
  with Cons.IH [OF b1(2)] Cons.prems(2,3) show ?case by auto
qed simp

definition empty_bulk :: "u64 \<Rightarrow> MemoryBulk" where
  "empty_bulk serial = (new_MemoryBulk serial)\<lparr>data := Some []\<rparr>"

text \<open>
  Filling an empty bulk with entries that fit gives a bulk that stands for exactly these
  entries: both tries, the offsets, the timestamps, the text and the time bounds are the ones computed
  from the list; and the line at every serial reads back as it was formatted, up to its first newline.
\<close>

lemma filled_bulk_reads_back:
  assumes "\<forall>e \<in> set ls. entry_ok e" and "length (text_of ls) + 1 < BULKSIZE"
  shows "\<exists>b. fill_bulk ls (empty_bulk serial) = Inr (Some b) \<and> bulk_repr b ls
     \<and> (\<forall>i < length ls. \<exists>rest. read_entry i b
          = Inr (first_line (line_of (ls ! i)) @ rest, length (first_line (line_of (ls ! i))) - 1))"
proof -
  obtain b where "fill_bulk ls (empty_bulk serial) = Inr (Some b)" "bulk_repr b ls"
    using fill_bulk_repr [OF new_bulk_repr, of ls serial] assms by (auto simp: empty_bulk_def)
  with read_entry_repr assms(1) show ?thesis by (metis nth_mem)
qed

definition sample_log :: "log_entry list" where
  "sample_log = [\<lparr>le_key = ''k1'', le_time = 11, le_content = ''Red sun, red moon''\<rparr>,
     \<lparr>le_key = ''k2'', le_time = 12, le_content = ''red sky''\<rparr>,
     \<lparr>le_key = ''k1'', le_time = 15, le_content = ''moon over red sea''\<rparr>]"

lemma sample_log_ok: "\<forall>e \<in> set sample_log. entry_ok e \<and> single_line e" "length (text_of sample_log) + 1 < BULKSIZE"
  by (simp_all add: sample_log_def entry_ok_def single_line_def nul_def newline_def text_of_def line_of_def
      format_line_def show_nat.simps config_defs)

end
