(* ===== verification/Bulk_Search.thy ===== *)
theory Bulk_Search
  imports Memory_Bulk
begin

text \<open>
  The searches inside one memory bulk (\<^verbatim>\<open>src/log_processor/data_manager.cpp\<close>): the multi-way join
  of keyword lists and the binary searches by time.  An iterator into a serial list is the rest of
  the list; an array access outside the array is \<open>UB\<close>.
\<close>

section \<open>The multi-word join\<close>

text \<open>The scan keeps the index and value of the smallest head seen; ties keep the earlier one.\<close>

fun smallest_from :: "nat \<Rightarrow> nat \<Rightarrow> nat \<Rightarrow> nat list \<Rightarrow> nat" where
  "smallest_from i smallest v [] = smallest"
| "smallest_from i smallest v (x # xs) =
     (if x < v then smallest_from (i + 1) i x xs else smallest_from (i + 1) smallest v xs)"

definition Find_smallest_iterator :: "nat list list \<Rightarrow> nat" where
  "Find_smallest_iterator its = smallest_from 1 0 (hd (hd its)) (map hd (tl its))"

definition Are_the_iterator_serial_equal :: "nat list list \<Rightarrow> bool" where
  "Are_the_iterator_serial_equal its \<longleftrightarrow> list_all (\<lambda>it. hd it = hd (hd its)) its"

lemma smallest_from_spec:
  assumes "smallest < i" "heads ! smallest = v" "drop i heads = xs" "i \<le> length heads" "\<forall>k < i. v \<le> heads ! k"
  shows "smallest_from i smallest v xs < length heads
     \<and> (\<forall>k < length heads. heads ! (smallest_from i smallest v xs) \<le> heads ! k)"
  using assms
proof (induction i smallest v xs rule: smallest_from.induct)
  case (2 i s v x xs)
  then have i: "i < length heads" "heads ! i = x" "drop (i + 1) heads = xs"
    by (auto simp: drop_Suc nth_via_drop simp flip: tl_drop dest: drop_eq_Nil [THEN iffD2])
       (metis drop_eq_Nil linorder_not_le list.distinct(1))
  show ?case
  proof (cases "x < v")
    case True
    then have "\<forall>k < i + 1. x \<le> heads ! k"
      using "2.prems"(5) i(2) by (metis Suc_eq_plus1 less_Suc_eq less_le_trans order.strict_implies_order order.refl)
    with "2.IH"(1) [OF True] i True show ?thesis by simp
  next
    case False
    then have "\<forall>k < i + 1. v \<le> heads ! k"
      using "2.prems"(5) i(2) by (metis Suc_eq_plus1 less_Suc_eq not_less)
    with "2.IH"(2) [OF False] "2.prems" i False show ?thesis by simp
  qed
qed auto

lemma Find_smallest_spec:
  assumes "its \<noteq> []"
  shows "Find_smallest_iterator its < length its
     \<and> (\<forall>it \<in> set its. hd (its ! Find_smallest_iterator its) \<le> hd it)"
proof -
  have "hd (hd its) = map hd its ! 0" "map hd (tl its) = drop 1 (map hd its)"
    using assms by (cases its; simp)+
  moreover have "1 \<le> length (map hd its)" using assms by (cases its) auto
  ultimately have bound: "Find_smallest_iterator its < length (map hd its)"
    "\<forall>k < length (map hd its). map hd its ! Find_smallest_iterator its \<le> map hd its ! k"
    using smallest_from_spec [of 0 1 "map hd its" "hd (hd its)" "map hd (tl its)"]
    unfolding Find_smallest_iterator_def by auto
  then have j: "Find_smallest_iterator its < length its" by simp
  have "hd (its ! Find_smallest_iterator its) \<le> hd (its ! k)" if "k < length its" for k
    using bound(2) that unfolding nth_map [OF j] by (metis length_map nth_map)
  with j show ?thesis by (auto simp: in_set_conv_nth)
qed

lemma sum_lengths_tl: "its \<noteq> [] \<Longrightarrow> [] \<notin> set its \<Longrightarrow> sum_list (map (length \<circ> tl) its) < sum_list (map length its)"
proof (induction its)
  case (Cons it its)
  then have "length (tl it) < length it" by (cases it) auto
  moreover have "sum_list (map (length \<circ> tl) its) \<le> sum_list (map length its)"
    by (rule sum_list_mono) simp
  ultimately show ?case by (simp del: length_tl add: o_def)
qed simp

lemma sum_lengths_update:
  "j < length its \<Longrightarrow> its ! j \<noteq> [] \<Longrightarrow> sum_list (map length (its[j := tl (its ! j)])) < sum_list (map length its)"
proof (induction its arbitrary: j)
  case (Cons it its)
  then show ?case by (cases j) auto
qed simp

text \<open>The \<^verbatim>\<open>while(1)\<close> loop, on the rests of the lists; it is called with at least one list.\<close>

function join_loop :: "nat list list \<Rightarrow> nat list" where
  "join_loop its =
     (if its = [] \<or> [] \<in> set its then []
      else if Are_the_iterator_serial_equal its
      then hd (hd its) # join_loop (map tl its)
      else join_loop (its[Find_smallest_iterator its := tl (its ! Find_smallest_iterator its)]))"
  by pat_completeness auto
termination
proof (relation "measure (\<lambda>its. sum_list (map length its))", goal_cases)
  case (2 its)
  then show ?case using sum_lengths_tl [of its] by simp
next
  case (3 its)
  then show ?case
    using Find_smallest_spec [of its] sum_lengths_update [of "Find_smallest_iterator its" its]
    by (metis in_measure nth_mem)
qed simp

declare join_loop.simps [simp del]

definition mb_Join_search :: "string list \<Rightarrow> MemoryBulk \<Rightarrow> nat list res" where
  "mb_Join_search word_list b =
     (if word_list = [] then Inl UB
      else (case those (map (\<lambda>keyword. mb_Search_keyword keyword b) word_list) of
              None \<Rightarrow> Inr []
            | Some its \<Rightarrow> Inr (join_loop its)))"

section \<open>The join is the intersection of its lists\<close>

lemma count_tl: "it \<noteq> [] \<Longrightarrow> count_list it x = (if hd it = x then 1 else 0) + count_list (tl it) x"
  by (cases it) auto

lemma count_smaller: "sorted it \<Longrightarrow> it \<noteq> [] \<Longrightarrow> x < hd it \<Longrightarrow> count_list it x = 0"
  by (cases it) (auto simp: count_list_0_iff)

lemma sorted_rest: "sorted it \<Longrightarrow> sorted (tl it)"
  by (cases it) auto

lemma all_set_update:
  assumes "j < length xs" "P y \<longleftrightarrow> P (xs ! j)"
  shows "(\<forall>x \<in> set (xs[j := y]). P x) \<longleftrightarrow> (\<forall>x \<in> set xs. P x)"
  using assms by (force simp: all_set_conv_all_nth nth_list_update)

lemma sorted_hd_le: "sorted it \<Longrightarrow> y \<in> set (tl it) \<Longrightarrow> hd it \<le> (y :: nat)"
  by (cases it) auto

text \<open>\<open>n\<close> copies of a serial are in the result iff they are in every list.\<close>

lemma join_loop_count:
  "\<forall>it \<in> set its. sorted it \<Longrightarrow> its \<noteq> [] \<Longrightarrow>
   n \<le> count_list (join_loop its) x \<longleftrightarrow> (\<forall>it \<in> set its. n \<le> count_list it x)"
proof (induction its arbitrary: n rule: join_loop.induct)
  case (1 its)
  let ?j = "Find_smallest_iterator its"
  show ?case
  proof (cases "[] \<in> set its")
    case True
    then show ?thesis by (subst join_loop.simps) (cases n; force)
  next
    case False
    note ne = False
    show ?thesis
    proof (cases "Are_the_iterator_serial_equal its")
      case True
      let ?h = "hd (hd its)"
      have sorted: "\<forall>it \<in> set (map tl its). sorted it" using "1.prems"(1) sorted_rest by auto
      have h: "\<forall>it \<in> set its. it \<noteq> [] \<and> hd it = ?h"
        using True ne unfolding Are_the_iterator_serial_equal_def list_all_iff by blast
      have cnt: "\<forall>it \<in> set its. count_list it x = (if ?h = x then 1 else 0) + count_list (tl it) x"
        using h count_tl by metis
      have j: "join_loop its = ?h # join_loop (map tl its)"
        using ne "1.prems"(2) True by (subst join_loop.simps) simp
      have ih: "m \<le> count_list (join_loop (map tl its)) x \<longleftrightarrow> (\<forall>it \<in> set its. m \<le> count_list (tl it) x)" for m
        using "1.IH"(1) [of m] ne "1.prems"(2) True sorted by simp
      show ?thesis
        using ih [of n] ih [of "n - 1"] cnt "1.prems"(2)
        by (cases "?h = x"; cases n) (simp_all add: j)
    next
      case False
      let ?it = "its ! ?j"
      let ?its = "its[?j := tl ?it]"
      have j: "?j < length its" "\<forall>it \<in> set its. hd ?it \<le> hd it"
        using Find_smallest_spec "1.prems"(2) by auto
      have it: "?it \<in> set its" "?it \<noteq> []" using j(1) ne nth_mem by metis+
      have jl: "join_loop its = join_loop ?its"
        using ne "1.prems"(2) False by (subst join_loop.simps) simp
      have sub: "set ?its \<subseteq> insert (tl ?it) (set its)" by (rule set_update_subset_insert)
      have sorted: "\<forall>it \<in> set ?its. sorted it"
        using sub "1.prems"(1) it(1) sorted_rest by blast
      have "?its \<noteq> []" using "1.prems"(2) by simp
      with "1.IH"(2) [OF _ False] ne "1.prems"(2) sorted
      have ih: "n \<le> count_list (join_loop its) x \<longleftrightarrow> (\<forall>it \<in> set ?its. n \<le> count_list it x)"
        by (simp add: jl)
      show ?thesis
      proof (cases "hd ?it = x \<and> n \<noteq> 0")
        case False
        then have "n \<le> count_list (tl ?it) x \<longleftrightarrow> n \<le> count_list ?it x"
          using count_tl [OF it(2), of x] by auto
        then show ?thesis unfolding ih using all_set_update [OF j(1), of "\<lambda>i. n \<le> count_list i x"] by blast
      next
        case True
        obtain it' where it': "it' \<in> set its" "hd it' \<noteq> hd (hd its)"
          using False by (auto simp: Are_the_iterator_serial_equal_def list_all_iff)
        have "\<exists>i \<in> set its. hd i \<noteq> hd ?it"
          using it' "1.prems"(2) by (metis list.set_sel(1))
        then obtain i where i: "i \<in> set its" "hd ?it < hd i" using j(2) by fastforce
        have "i \<noteq> []" using i(1) ne by auto
        then have zero: "count_list i x = 0"
          using count_smaller [of i x] "1.prems"(1) i True by simp
        obtain k where k: "k < length its" "its ! k = i" using i(1) by (auto simp: in_set_conv_nth)
        have "k \<noteq> ?j" using i(2) k(2) by auto
        then have "i \<in> set ?its" using k by (metis length_list_update nth_list_update_neq nth_mem)
        moreover have "\<not> n \<le> count_list i x" using zero True by simp
        ultimately show ?thesis unfolding ih using i(1) by blast
      qed
    qed
  qed
qed

lemma join_loop_sorted_lower:
  "\<forall>it \<in> set its. sorted it \<Longrightarrow> \<forall>it \<in> set its. \<forall>y \<in> set it. m \<le> y \<Longrightarrow>
   sorted (join_loop its) \<and> (\<forall>y \<in> set (join_loop its). m \<le> y)"
proof (induction its arbitrary: m rule: join_loop.induct)
  case (1 its)
  let ?j = "Find_smallest_iterator its"
  show ?case
  proof (cases "its = [] \<or> [] \<in> set its")
    case True
    then have "join_loop its = []" by (subst join_loop.simps) simp
    then show ?thesis by simp
  next
    case ne: False
    show ?thesis
    proof (cases "Are_the_iterator_serial_equal its")
      case True
      let ?h = "hd (hd its)"
      have h: "\<forall>it \<in> set its. it \<noteq> [] \<and> hd it = ?h"
        using True ne unfolding Are_the_iterator_serial_equal_def list_all_iff by blast
      have low: "\<forall>it \<in> set (map tl its). \<forall>y \<in> set it. ?h \<le> y"
      proof (clarsimp)
        fix it y
        assume it: "it \<in> set its" and y: "y \<in> set (tl it)"
        have "sorted it" "hd it = ?h" using it h "1.prems"(1) by blast+
        with sorted_hd_le [OF _ y] show "?h \<le> y" by simp
      qed
      have "\<forall>it \<in> set (map tl its). sorted it" using "1.prems"(1) sorted_rest by auto
      with "1.IH"(1) [of ?h] ne True low
      have ih: "sorted (join_loop (map tl its))" "\<forall>y \<in> set (join_loop (map tl its)). ?h \<le> y"
        by blast+
      have "m \<le> ?h" using "1.prems"(2) ne by (metis list.set_sel(1))
      moreover have "join_loop its = ?h # join_loop (map tl its)"
        using ne True by (subst join_loop.simps) simp
      ultimately show ?thesis using ih by fastforce
    next
      case False
      let ?its = "its[?j := tl (its ! ?j)]"
      have j: "its ! ?j \<in> set its" using Find_smallest_spec [of its] ne by simp
      have sub: "set ?its \<subseteq> insert (tl (its ! ?j)) (set its)" by (rule set_update_subset_insert)
      have "\<forall>it \<in> set ?its. sorted it" using sub "1.prems"(1) j sorted_rest by blast
      moreover have "\<forall>y \<in> set (tl (its ! ?j)). m \<le> y"
        using "1.prems"(2) j by (cases "its ! ?j") auto
      then have "\<forall>it \<in> set ?its. \<forall>y \<in> set it. m \<le> y" using sub "1.prems"(2) by blast
      moreover have "join_loop its = join_loop ?its"
        using ne False by (subst join_loop.simps) simp
      ultimately show ?thesis using "1.IH"(2) [OF ne False, of m] by simp
    qed
  qed
qed

text \<open>A serial is in the join exactly as often as in the list it occurs in least.\<close>

lemma join_loop_spec:
  assumes "\<forall>it \<in> set its. sorted it" "its \<noteq> []"
  shows "sorted (join_loop its)"
    and "n \<le> count_list (join_loop its) x \<longleftrightarrow> (\<forall>it \<in> set its. n \<le> count_list it x)"
  using join_loop_sorted_lower [OF assms(1), of 0] join_loop_count [OF assms] by auto

lemma those_trie_lists:
  "those (map (\<lambda>w. mb_Search_keyword w b) ws) = Some its \<Longrightarrow>
   its = map (trie_list (keyword_serial_trie (mb_index b))) ws"
  by (induction ws arbitrary: its)
     (auto simp: trie_list_def mb_Search_keyword_def split: option.splits)

lemma those_None: "those (map (\<lambda>w. mb_Search_keyword w b) ws) = None \<Longrightarrow>
   \<exists>w \<in> set ws. trie_list (keyword_serial_trie (mb_index b)) w = []"
  by (induction ws) (auto simp: trie_list_def mb_Search_keyword_def split: option.splits)

lemma count_serials_of_word:
  "count_list (serials_of_word w ls) i = (if i < length ls then count_list (words_of (ls ! i)) w else 0)"
proof -
  have rep: "count_list (replicate k (j :: nat)) i = (if j = i then k else 0)" for j k
    by (induction k) auto
  have "count_list (concat (map (\<lambda>j. replicate (f j) j) [0..<n])) i = (if i < n then f i else 0)" for f n
    by (induction n) (auto simp: count_list_append rep)
  from this [of "\<lambda>i. count_list (words_of (ls ! i)) w"] show ?thesis
    by (simp add: serials_of_word_def)
qed

lemma sorted_serials_of_word: "sorted (serials_of_word w ls)"
proof -
  have "sorted (concat (map (\<lambda>j. replicate (f j) j) [0..<n]))" for f n
    by (induction n) (auto simp: sorted_append)
  then show ?thesis by (simp add: serials_of_word_def)
qed

lemma count_list_pos: "0 < count_list xs x \<longleftrightarrow> x \<in> set xs"
  using count_list_0_iff [of xs x] by auto

lemma Join_search_lists:
  assumes lists: "\<And>w. trie_list (keyword_serial_trie (mb_index b)) w = serials_of_word w ls" and "ws \<noteq> []"
  shows "\<exists>r. mb_Join_search ws b = Inr r \<and> sorted r \<and> set r \<subseteq> {..<length ls}
     \<and> (\<forall>i < length ls. \<forall>n. n \<le> count_list r i \<longleftrightarrow> (\<forall>w \<in> set ws. n \<le> count_list (words_of (ls ! i)) w))"
proof (cases "those (map (\<lambda>keyword. mb_Search_keyword keyword b) ws)")
  case None
  obtain w where w: "w \<in> set ws" "serials_of_word w ls = []"
    using those_None [OF None] by (auto simp: lists)
  have "count_list (words_of (ls ! i)) w = 0" if "i < length ls" for i
    using count_serials_of_word [of w ls i] w(2) that by simp
  with None assms(2) w(1) show ?thesis
    by (auto simp: mb_Join_search_def)
next
  case (Some its)
  have its: "its = map (\<lambda>w. serials_of_word w ls) ws"
    using those_trie_lists [OF Some] by (simp add: lists)
  have spec: "sorted (join_loop its)"
    "n \<le> count_list (join_loop its) i \<longleftrightarrow> (\<forall>w \<in> set ws. n \<le> count_list (serials_of_word w ls) i)" for n i
    using join_loop_spec(1) [of its] join_loop_spec(2) [of its n i] assms(2) by (auto simp: its sorted_serials_of_word)
  have "i < length ls" if "i \<in> set (join_loop its)" for i
  proof -
    have "Suc 0 \<le> count_list (join_loop its) i" using that count_list_pos [of "join_loop its" i] by simp
    then have "Suc 0 \<le> count_list (serials_of_word (hd ws) ls) i" using spec(2) assms(2) by simp
    then show ?thesis by (simp add: count_serials_of_word split: if_splits)
  qed
  with spec Some assms(2) show ?thesis
    by (auto simp: mb_Join_search_def count_serials_of_word)
qed

text \<open>
  C23. A multi-word search of a bulk finds exactly the entries that contain every word: its result is
  sorted, and a serial is in it at least \<open>n\<close> times iff the text of that entry contains each of the
  words, as the keyword index folds them, at least \<open>n\<close> times.
\<close>

theorem Join_search_finds_all:
  assumes "bulk_repr b ls" and "ws \<noteq> []"
  shows "\<exists>r. mb_Join_search ws b = Inr r \<and> sorted r \<and> set r \<subseteq> {..<length ls}
     \<and> (\<forall>i < length ls. \<forall>n. n \<le> count_list r i \<longleftrightarrow> (\<forall>w \<in> set ws. n \<le> count_list (words_of (ls ! i)) w))"
  using Join_search_lists [OF _ assms(2), of b ls] assms(1) by (simp add: bulk_repr_def index_repr_def)

text \<open>On the sample log: entries 0 and 2 contain both words, entry 0 the first one twice.\<close>

theorem Join_search_finds_all_witness:
  "\<exists>b r. fill_bulk sample_log (empty_bulk 0) = Inr (Some b)
     \<and> mb_Join_search [''red'', ''moon''] b = Inr r \<and> count_list r 0 = 1 \<and> count_list r 1 = 0 \<and> count_list r 2 = 1"
proof -
  obtain b where b: "fill_bulk sample_log (empty_bulk 0) = Inr (Some b)" "bulk_repr b sample_log"
    using fill_bulk_repr [OF new_bulk_repr, of sample_log 0] sample_log_ok by (auto simp: empty_bulk_def)
  obtain r where r: "mb_Join_search [''red'', ''moon''] b = Inr r"
    "\<forall>i < length sample_log. \<forall>n. n \<le> count_list r i
       \<longleftrightarrow> (\<forall>w \<in> set [''red'', ''moon'']. n \<le> count_list (words_of (sample_log ! i)) w)"
    using Join_search_finds_all [OF b(2), of "[''red'', ''moon'']"] by blast
  have words: "words_of (sample_log ! 0) = [''red'', ''sun'', ''red'', ''moon'']"
    "words_of (sample_log ! 1) = [''red'', ''sky'']"
    "words_of (sample_log ! 2) = [''moon'', ''over'', ''red'', ''sea'']"
    by code_simp+
  have "length sample_log = 3" by (simp add: sample_log_def)
  then have "n \<le> count_list r 0 \<longleftrightarrow> n \<le> 1" "n \<le> count_list r 1 \<longleftrightarrow> n \<le> 0"
    "n \<le> count_list r 2 \<longleftrightarrow> n \<le> 1" for n
    using r(2) by (auto simp: words words(2) [unfolded One_nat_def])
  then have "count_list r 0 = 1" "count_list r 1 = 0" "count_list r 2 = 1"
    by (metis order.antisym order.refl)+
  with b(1) r(1) show ?thesis by blast
qed

section \<open>Binary search\<close>

text \<open>\<open>vec_at\<close> is \<^verbatim>\<open>operator[]\<close> with an \<^verbatim>\<open>int\<close> subscript.\<close>

definition vec_at :: "'a list \<Rightarrow> int \<Rightarrow> 'a res" where
  "vec_at xs i = (if 0 \<le> i \<and> i < int (length xs) then Inr (xs ! nat i) else Inl UB)"

text \<open>The loop the three searches share: \<open>p\<close> is the condition tested at \<^verbatim>\<open>mid\<close>.\<close>

function search_loop :: "(int \<Rightarrow> bool res) \<Rightarrow> int \<Rightarrow> int \<Rightarrow> (int \<times> int) res" where
  "search_loop p left right =
     (if left \<le> right
      then let mid = left + (right - left) div 2
           in bindE (p mid) (\<lambda>b. if b then search_loop p left (mid - 1) else search_loop p (mid + 1) right)
      else Inr (left, right))"
  by pat_completeness auto
termination
  by (relation "measure (\<lambda>(p, left, right). nat (right - left + 1))") auto

declare search_loop.simps [simp del]

definition time_at :: "nat list \<Rightarrow> u64 list \<Rightarrow> int \<Rightarrow> u64 res" where
  "time_at array stamps i = bindE (vec_at array i) (\<lambda>s. vec_at stamps (int s))"

definition Find_start_time_serial :: "u64 \<Rightarrow> nat list \<Rightarrow> u64 list \<Rightarrow> int res" where
  "Find_start_time_serial start_time serials stamps =
     (let t = time_at serials stamps; n = int (length serials)
      in if n = 0 then Inr (- 1)
         else bindE (t 0) (\<lambda>first. if first \<ge> start_time then Inr 0
         else bindE (t (n - 1)) (\<lambda>final. if final < start_time then Inr (- 1)
         else bindE (search_loop (\<lambda>mid. bindE (t mid) (\<lambda>x. Inr (x \<ge> start_time))) 0 (n - 1))
                (\<lambda>(left, right). Inr left))))"

definition Find_end_time_serial :: "u64 \<Rightarrow> nat list \<Rightarrow> u64 list \<Rightarrow> int res" where
  "Find_end_time_serial end_time serials stamps =
     (let t = time_at serials stamps; n = int (length serials)
      in if n = 0 then Inr (- 1)
         else bindE (t 0) (\<lambda>first. if first > end_time then Inr (- 1)
         else bindE (t (n - 1)) (\<lambda>final. if final \<le> end_time then Inr (n - 1)
         else bindE (search_loop (\<lambda>mid. bindE (t mid) (\<lambda>x. Inr (x > end_time))) 0 (n - 1))
                (\<lambda>(left, right). Inr right))))"

text \<open>The ends of the bulks of a key, newest last.\<close>

definition Find_start_time_bulkhandler :: "u64 \<Rightarrow> u64 list \<Rightarrow> int res" where
  "Find_start_time_bulkhandler start_time end_times =
     (let t = vec_at end_times; n = int (length end_times)
      in if n = 0 then Inr (- 1)
         else bindE (t 0) (\<lambda>first. if first > start_time then Inr 0
         else bindE (t (n - 1)) (\<lambda>final. if final < start_time then Inr (n - 1)
         else bindE (search_loop (\<lambda>mid. bindE (t mid) (\<lambda>x. Inr (x > start_time))) 0 (n - 1))
                (\<lambda>(left, right). Inr right))))"

text \<open>
  \<^verbatim>\<open>end_search\<close> is a reference argument: argument and result.  \<open>None\<close> is the null pointer; the two
  index variables are only read when the list is not null.
\<close>

definition mb_Search_time_key ::
  "u64 \<Rightarrow> u64 \<Rightarrow> string \<Rightarrow> bool \<Rightarrow> MemoryBulk \<Rightarrow> (bool \<times> (nat list \<times> int \<times> int) option) res" where
  "mb_Search_time_key start end_t key end_search b =
     (if start > mb_end_time b then Inr (True, None)
      else if end_t < mb_start_time b then Inr (end_search, None)
      else (case mb_Search_key key b of
              None \<Rightarrow> Inr (end_search, None)
            | Some serials \<Rightarrow>
                bindE (Find_start_time_serial start serials (timestamp_list (mb_index b))) (\<lambda>start_index.
                bindE (Find_end_time_serial end_t serials (timestamp_list (mb_index b))) (\<lambda>end_index.
                Inr (end_search,
                  if start_index = - 1 \<or> end_index = - 1 then None
                  else if start_index > end_index then None
                  else Some (serials, start_index, end_index))))))"

text \<open>For a test that is monotone over the array the loop ends on the boundary.\<close>

lemma search_loop_spec:
  assumes "\<And>i. left \<le> i \<Longrightarrow> i \<le> right \<Longrightarrow> p i = Inr (P i)"
    and "\<And>i j. left \<le> i \<Longrightarrow> i \<le> j \<Longrightarrow> j \<le> right \<Longrightarrow> P i \<Longrightarrow> P j" and "left \<le> right + 1"
  shows "\<exists>l. search_loop p left right = Inr (l, l - 1) \<and> left \<le> l \<and> l \<le> right + 1
     \<and> (\<forall>i. left \<le> i \<and> i < l \<longrightarrow> \<not> P i) \<and> (\<forall>i. l \<le> i \<and> i \<le> right \<longrightarrow> P i)"
  using assms
proof (induction p left right rule: search_loop.induct)
  case (1 p left right)
  show ?case
  proof (cases "left \<le> right")
    case False
    with "1.prems"(3) show ?thesis by (subst search_loop.simps) auto
  next
    case True
    define mid where "mid = left + (right - left) div 2"
    have mid: "left \<le> mid" "mid \<le> right" using True by (auto simp: mid_def)
    have p: "p mid = Inr (P mid)" using "1.prems"(1) mid by blast
    show ?thesis
    proof (cases "P mid")
      case P: True
      have "\<exists>l. search_loop p left (mid - 1) = Inr (l, l - 1) \<and> left \<le> l \<and> l \<le> mid - 1 + 1
         \<and> (\<forall>i. left \<le> i \<and> i < l \<longrightarrow> \<not> P i) \<and> (\<forall>i. l \<le> i \<and> i \<le> mid - 1 \<longrightarrow> P i)"
      proof (rule "1.IH"(1) [OF True mid_def p P])
        show "p i = Inr (P i)" if "left \<le> i" "i \<le> mid - 1" for i using "1.prems"(1) that mid by simp
        show "P j" if "left \<le> i" "i \<le> j" "j \<le> mid - 1" "P i" for i j
          using "1.prems"(2) [of i j] that mid by simp
      qed (use mid in simp)
      moreover have "P i" if "mid \<le> i" "i \<le> right" for i using "1.prems"(2) [of mid i] mid that P by blast
      moreover have "search_loop p left right = search_loop p left (mid - 1)"
        using True p P by (subst search_loop.simps) (simp add: mid_def Let_def)
      ultimately show ?thesis using mid by (smt (verit))
    next
      case P: False
      have "\<exists>l. search_loop p (mid + 1) right = Inr (l, l - 1) \<and> mid + 1 \<le> l \<and> l \<le> right + 1
         \<and> (\<forall>i. mid + 1 \<le> i \<and> i < l \<longrightarrow> \<not> P i) \<and> (\<forall>i. l \<le> i \<and> i \<le> right \<longrightarrow> P i)"
      proof (rule "1.IH"(2) [OF True mid_def p P])
        show "p i = Inr (P i)" if "mid + 1 \<le> i" "i \<le> right" for i using "1.prems"(1) that mid by simp
        show "P j" if "mid + 1 \<le> i" "i \<le> j" "j \<le> right" "P i" for i j
          using "1.prems"(2) [of i j] that mid by simp
      qed (use mid in simp)
      moreover have "\<not> P i" if "left \<le> i" "i \<le> mid" for i using "1.prems"(2) [of i mid] mid that P by blast
      moreover have "search_loop p left right = search_loop p (mid + 1) right"
        using True p P by (subst search_loop.simps) (simp add: mid_def Let_def)
      ultimately show ?thesis using mid by (smt (verit))
    qed
  qed
qed

text \<open>The serials of a list point into the timestamps, whose values at them are ascending.\<close>

definition times_sorted :: "nat list \<Rightarrow> u64 list \<Rightarrow> bool" where
  "times_sorted serials stamps \<longleftrightarrow> (\<forall>s \<in> set serials. s < length stamps)
     \<and> sorted (map (\<lambda>s. stamps ! s) serials)"

lemma time_at_in: "times_sorted serials stamps \<Longrightarrow> 0 \<le> i \<Longrightarrow> i < int (length serials) \<Longrightarrow>
    time_at serials stamps i = Inr (stamps ! (serials ! nat i))"
  by (auto simp: time_at_def vec_at_def times_sorted_def nat_less_iff)

lemma time_mono: "times_sorted serials stamps \<Longrightarrow> 0 \<le> i \<Longrightarrow> i \<le> j \<Longrightarrow> j < int (length serials) \<Longrightarrow>
    stamps ! (serials ! nat i) \<le> stamps ! (serials ! nat j)"
  using sorted_nth_mono [of "map (\<lambda>s. stamps ! s) serials" "nat i" "nat j"]
  by (auto simp: times_sorted_def nat_less_iff)

lemma search_boundary:
  assumes "\<And>i. 0 \<le> i \<Longrightarrow> i < int n \<Longrightarrow> f i = Inr (T (nat i))"
    and "\<And>i j. i \<le> j \<Longrightarrow> j < n \<Longrightarrow> T i \<le> (T j :: u64)"
    and "\<And>x y. P x \<Longrightarrow> x \<le> y \<Longrightarrow> P y"
  shows "\<exists>l. search_loop (\<lambda>mid. bindE (f mid) (\<lambda>x. Inr (P x))) 0 (int n - 1) = Inr (l, l - 1)
     \<and> 0 \<le> l \<and> l \<le> int n \<and> (\<forall>k < n. P (T k) \<longleftrightarrow> nat l \<le> k)"
proof -
  have "\<exists>l. search_loop (\<lambda>mid. bindE (f mid) (\<lambda>x. Inr (P x))) 0 (int n - 1) = Inr (l, l - 1)
     \<and> 0 \<le> l \<and> l \<le> int n - 1 + 1 \<and> (\<forall>i. 0 \<le> i \<and> i < l \<longrightarrow> \<not> P (T (nat i)))
     \<and> (\<forall>i. l \<le> i \<and> i \<le> int n - 1 \<longrightarrow> P (T (nat i)))"
  proof (rule search_loop_spec)
    show "bindE (f i) (\<lambda>x. Inr (P x)) = Inr (P (T (nat i)))" if "0 \<le> i" "i \<le> int n - 1" for i
      using assms(1) that by simp
    show "P (T (nat j))" if ij: "0 \<le> i" "i \<le> j" "j \<le> int n - 1" and P: "P (T (nat i))" for i j
    proof (rule assms(3) [OF P assms(2)])
      show "nat i \<le> nat j" "nat j < n" using ij by auto
    qed
  qed simp
  then obtain l where l: "search_loop (\<lambda>mid. bindE (f mid) (\<lambda>x. Inr (P x))) 0 (int n - 1) = Inr (l, l - 1)"
    "0 \<le> l" "l \<le> int n" "\<And>i. 0 \<le> i \<Longrightarrow> i < l \<Longrightarrow> \<not> P (T (nat i))"
    "\<And>i. l \<le> i \<Longrightarrow> i \<le> int n - 1 \<Longrightarrow> P (T (nat i))" by force
  have "P (T k) \<longleftrightarrow> nat l \<le> k" if "k < n" for k
    using l(4) [of "int k"] l(5) [of "int k"] that by (cases "nat l \<le> k") (simp_all add: nat_le_iff)
  with l(1-3) show ?thesis by blast
qed

lemma serial_boundary:
  assumes "times_sorted serials stamps" and "\<And>x y. P x \<Longrightarrow> x \<le> y \<Longrightarrow> P y"
  shows "\<exists>l. search_loop (\<lambda>mid. bindE (time_at serials stamps mid) (\<lambda>x. Inr (P x))) 0 (int (length serials) - 1) = Inr (l, l - 1)
     \<and> 0 \<le> l \<and> l \<le> int (length serials) \<and> (\<forall>k < length serials. P (stamps ! (serials ! k)) \<longleftrightarrow> nat l \<le> k)"
proof (rule search_boundary)
  show "time_at serials stamps i = Inr (stamps ! (serials ! nat i))" if "0 \<le> i" "i < int (length serials)" for i
    using time_at_in [OF assms(1) that] .
  show "stamps ! (serials ! i) \<le> stamps ! (serials ! j)" if "i \<le> j" "j < length serials" for i j
    using time_mono [OF assms(1), of "int i" "int j"] that by simp
qed (rule assms(2))

text \<open>The boundaries the two timestamp searches return.\<close>

lemma Find_start_time_serial_spec:
  assumes "times_sorted serials stamps"
  shows "\<exists>r. Find_start_time_serial t serials stamps = Inr r \<and> - 1 \<le> r \<and> r < int (length serials)
     \<and> (r = - 1 \<longrightarrow> (\<forall>k < length serials. \<not> t \<le> stamps ! (serials ! k)))
     \<and> (0 \<le> r \<longrightarrow> (\<forall>k < length serials. t \<le> stamps ! (serials ! k) \<longleftrightarrow> nat r \<le> k))"
proof -
  let ?n = "length serials"
  let ?T = "\<lambda>k. stamps ! (serials ! k)"
  have at: "time_at serials stamps i = Inr (?T (nat i))" if "0 \<le> i" "i < int ?n" for i
    using time_at_in [OF assms that] .
  have mono: "?T i \<le> ?T j" if "i \<le> j" "j < ?n" for i j
    using time_mono [OF assms, of "int i" "int j"] that by simp
  obtain l where l: "search_loop (\<lambda>mid. bindE (time_at serials stamps mid) (\<lambda>x. Inr (x \<ge> t))) 0 (int ?n - 1) = Inr (l, l - 1)"
    "0 \<le> l" "l \<le> int ?n" "\<forall>k < ?n. t \<le> ?T k \<longleftrightarrow> nat l \<le> k"
    using serial_boundary [OF assms, of "\<lambda>x. t \<le> x"] by (meson order_trans)
  show ?thesis
  proof (cases "serials = []")
    case False
    then have n: "0 < ?n" by simp
    have "nat (int ?n - 1) = ?n - 1" by linarith
    with n have at0: "time_at serials stamps 0 = Inr (?T 0)"
      "time_at serials stamps (int ?n - 1) = Inr (?T (?n - 1))" using at [of 0] at [of "int ?n - 1"] by simp_all
    show ?thesis
    proof (cases "t \<le> ?T 0")
      case True
      have "t \<le> ?T k" if "k < ?n" for k using mono [of 0 k] that True by (meson le0 order_trans)
      with True n at0 show ?thesis by (simp add: Find_start_time_serial_def Let_def)
    next
      case low: False
      show ?thesis
      proof (cases "?T (?n - 1) < t")
        case True
        have "\<not> t \<le> ?T k" if "k < ?n" for k
          using order_le_less_trans [OF mono [of k "?n - 1"] True] that by (auto simp: not_le)
        with low True n at0 show ?thesis by (simp add: Find_start_time_serial_def Let_def)
      next
        case False
        then have "nat l \<le> ?n - 1" using l(4) [rule_format, of "?n - 1"] n by (simp add: not_less)
        with low False n at0 l show ?thesis by (auto simp: Find_start_time_serial_def Let_def)
      qed
    qed
  qed (simp add: Find_start_time_serial_def)
qed

lemma Find_end_time_serial_spec:
  assumes "times_sorted serials stamps"
  shows "\<exists>r. Find_end_time_serial t serials stamps = Inr r \<and> - 1 \<le> r \<and> r < int (length serials)
     \<and> (r = - 1 \<longrightarrow> (\<forall>k < length serials. \<not> stamps ! (serials ! k) \<le> t))
     \<and> (0 \<le> r \<longrightarrow> (\<forall>k < length serials. stamps ! (serials ! k) \<le> t \<longleftrightarrow> k \<le> nat r))"
proof -
  let ?n = "length serials"
  let ?T = "\<lambda>k. stamps ! (serials ! k)"
  have at: "time_at serials stamps i = Inr (?T (nat i))" if "0 \<le> i" "i < int ?n" for i
    using time_at_in [OF assms that] .
  have mono: "?T i \<le> ?T j" if "i \<le> j" "j < ?n" for i j
    using time_mono [OF assms, of "int i" "int j"] that by simp
  obtain l where l: "search_loop (\<lambda>mid. bindE (time_at serials stamps mid) (\<lambda>x. Inr (x > t))) 0 (int ?n - 1) = Inr (l, l - 1)"
    "0 \<le> l" "l \<le> int ?n" "\<forall>k < ?n. t < ?T k \<longleftrightarrow> nat l \<le> k"
    using serial_boundary [OF assms, of "\<lambda>x. t < x"] by (meson order_less_le_trans)
  show ?thesis
  proof (cases "serials = []")
    case False
    then have n: "0 < ?n" by simp
    have "nat (int ?n - 1) = ?n - 1" by linarith
    with n have at0: "time_at serials stamps 0 = Inr (?T 0)"
      "time_at serials stamps (int ?n - 1) = Inr (?T (?n - 1))" using at [of 0] at [of "int ?n - 1"] by simp_all
    show ?thesis
    proof (cases "t < ?T 0")
      case True
      have "\<not> ?T k \<le> t" if "k < ?n" for k using mono [of 0 k] that True by (meson le0 order_less_le_trans leD)
      with True n at0 show ?thesis by (simp add: Find_end_time_serial_def Let_def)
    next
      case low: False
      show ?thesis
      proof (cases "?T (?n - 1) \<le> t")
        case True
        have "?T k \<le> t" if "k < ?n" for k
          using order_trans [OF mono [of k "?n - 1"] True] that by simp
        with low True n at0 show ?thesis by (auto simp: Find_end_time_serial_def Let_def)
      next
        case False
        have "0 < nat l" using l(4) n low by auto
        then have "k \<le> nat (l - 1) \<longleftrightarrow> \<not> nat l \<le> k" for k by linarith
        with low False n at0 l \<open>0 < nat l\<close> show ?thesis
          by (auto simp: Find_end_time_serial_def Let_def not_less)
      qed
    qed
  qed (simp add: Find_end_time_serial_def)
qed

lemma filter_interval:
  assumes "j \<le> length xs" "\<forall>k < length xs. P (xs ! k) \<longleftrightarrow> i \<le> k \<and> k < j"
  shows "filter P xs = take (j - i) (drop i xs)"
  using assms
proof (induction xs arbitrary: i j)
  case (Cons x xs)
  have x: "P x \<longleftrightarrow> i = 0 \<and> 0 < j" using Cons.prems(2) by force
  have tl: "\<forall>k < length xs. P (xs ! k) \<longleftrightarrow> i \<le> Suc k \<and> Suc k < j" using Cons.prems(2) by force
  have "filter P xs = take ((j - 1) - (i - 1)) (drop (i - 1) xs)"
  proof (rule Cons.IH)
    show "\<forall>k < length xs. P (xs ! k) \<longleftrightarrow> i - 1 \<le> k \<and> k < j - 1" using tl by auto
  qed (use Cons.prems(1) in simp)
  with x show ?case by (cases i; cases j) auto
qed simp

text \<open>The serials a time search selects: those from \<^verbatim>\<open>start_index\<close> to \<^verbatim>\<open>end_index\<close>.\<close>

fun selected :: "(nat list \<times> int \<times> int) option \<Rightarrow> nat list" where
  "selected None = []"
| "selected (Some (serials, i, j)) = take (nat (j - i + 1)) (drop (nat i) serials)"

lemma earliest_lower: "t \<noteq> 0 \<Longrightarrow> s \<noteq> 0 \<longrightarrow> m \<le> s \<Longrightarrow> m \<le> t \<Longrightarrow> m \<le> earliest s t \<and> earliest s t \<noteq> (0 :: u64)"
  by (auto simp: earliest_def)

lemma time_bounds:
  "\<forall>e \<in> set ls. le_time e \<noteq> 0 \<Longrightarrow> e \<in> set ls \<Longrightarrow> first_time ls \<le> le_time e \<and> le_time e \<le> last_time ls"
proof (induction ls rule: rev_induct)
  case (snoc x ls)
  have nz: "first_time ls \<noteq> 0 \<or> ls = []" using snoc.prems(1)
  proof (induction ls rule: rev_induct)
    case (snoc y ys)
    then show ?case by (simp add: first_time_snoc earliest_def)
  qed simp
  have "first_time ls \<noteq> 0" if "e \<in> set ls" using nz that by auto
  with snoc show ?case
    by (auto simp: first_time_snoc last_time_snoc earliest_def latest_def)
qed simp

lemma Search_time_key_lists:
  assumes b: "timestamp_list (mb_index b) = map le_time ls" "mb_end_time b = last_time ls"
      "mb_start_time b = first_time ls" "trie_list (key_serial_trie (mb_index b)) key = serials_of_key key ls"
    and st:  "sorted (map (\<lambda>i. le_time (ls ! i)) (serials_of_key key ls))"
    and nz: "\<forall>e \<in> set ls. le_time e \<noteq> 0"
  shows "\<exists>r. mb_Search_time_key t0 t1 key flag b = Inr (flag \<or> last_time ls < t0, r)
     \<and> selected r = filter (\<lambda>i. t0 \<le> le_time (ls ! i) \<and> le_time (ls ! i) \<le> t1) (serials_of_key key ls)"
proof -
  let ?P = "\<lambda>i. t0 \<le> le_time (ls ! i) \<and> le_time (ls ! i) \<le> t1"
  let ?s = "serials_of_key key ls"
  let ?ts = "timestamp_list (mb_index b)"
  have in_ls: "\<forall>i \<in> set ?s. i < length ls" by (simp add: serials_of_key_def)
  have "map ((!) ?ts) ?s = map (\<lambda>i. le_time (ls ! i)) ?s" using in_ls b(1) by (intro map_cong) auto
  then have "sorted (map ((!) ?ts) ?s)" using st by (simp only:)
  then have ts: "times_sorted ?s ?ts" using in_ls by (simp add: times_sorted_def b(1))
  have T: "?ts ! (?s ! k) = le_time (ls ! (?s ! k))" if "k < length ?s" for k
    using in_ls nth_mem [OF that] b(1) by simp
  show ?thesis
  proof (cases "last_time ls < t0 \<or> t1 < first_time ls")
    case True
    have "\<not> ?P i" if "i \<in> set ?s" for i
      using time_bounds [OF nz, of "ls ! i"] in_ls that True nth_mem by fastforce
    then have "filter ?P ?s = []" by (simp add: filter_empty_conv)
    with True show ?thesis by (auto simp: mb_Search_time_key_def b)
  next
    case window: False
    show ?thesis
    proof (cases "mb_Search_key key b")
      case None
      then have "?s = []" using b(4) by (simp add: trie_list_def mb_Search_key_def)
      with None window show ?thesis by (auto simp: mb_Search_time_key_def b)
    next
      case (Some l)
      then have l: "l = ?s" using b(4) by (simp add: trie_list_def mb_Search_key_def)
      obtain i where i: "Find_start_time_serial t0 ?s ?ts = Inr i" "- 1 \<le> i" "i < int (length ?s)"
        "i = - 1 \<longrightarrow> (\<forall>k < length ?s. \<not> t0 \<le> ?ts ! (?s ! k))"
        "0 \<le> i \<longrightarrow> (\<forall>k < length ?s. t0 \<le> ?ts ! (?s ! k) \<longleftrightarrow> nat i \<le> k)"
        using Find_start_time_serial_spec [OF ts] by metis
      obtain j where j: "Find_end_time_serial t1 ?s ?ts = Inr j" "- 1 \<le> j" "j < int (length ?s)"
        "j = - 1 \<longrightarrow> (\<forall>k < length ?s. \<not> ?ts ! (?s ! k) \<le> t1)"
        "0 \<le> j \<longrightarrow> (\<forall>k < length ?s. ?ts ! (?s ! k) \<le> t1 \<longleftrightarrow> k \<le> nat j)"
        using Find_end_time_serial_spec [OF ts] by metis
      define r where "r = (if i = - 1 \<or> j = - 1 then None else if i > j then None else Some (?s, i, j))"
      have r: "mb_Search_time_key t0 t1 key flag b = Inr (flag, r)"
        using window Some i(1) j(1) l by (simp add: mb_Search_time_key_def b(2,3) r_def)
      have "selected r = filter ?P ?s"
      proof (cases "i = - 1 \<or> j = - 1")
        case True
        then have "\<not> ?P (?s ! k)" if "k < length ?s" for k using i(4) j(4) T [OF that] that by auto
        then have "filter ?P ?s = []" by (auto simp: filter_empty_conv in_set_conv_nth)
        with True show ?thesis by (simp add: r_def)
      next
        case False
        then have ij: "0 \<le> i" "0 \<le> j" using i(2) j(2) by auto
        have "filter ?P ?s = take (Suc (nat j) - nat i) (drop (nat i) ?s)"
        proof (rule filter_interval)
          show "Suc (nat j) \<le> length ?s" using j(3) ij by linarith
          show "\<forall>k < length ?s. ?P (?s ! k) \<longleftrightarrow> nat i \<le> k \<and> k < Suc (nat j)"
            using i(5) j(5) ij T by auto
        qed
        moreover have "Suc (nat j) - nat i = nat (j - i + 1)" using ij by linarith
        ultimately show ?thesis using False by (auto simp: r_def)
      qed
      with r window show ?thesis by auto
    qed
  qed
qed

text \<open>
  A time search of one key in a bulk selects exactly the entries of that key whose time lies in
  the window, in order, whenever the times of the key ascend and no time is zero (zero is the
  code's mark for ``no time yet''); the flag \<^verbatim>\<open>end_search\<close> is raised iff the window starts after
  the bulk's last entry.
\<close>

lemma Search_time_key_exact:
  assumes "bulk_repr b ls" and "sorted (map (\<lambda>i. le_time (ls ! i)) (serials_of_key key ls))"
    and "\<forall>e \<in> set ls. le_time e \<noteq> 0"
  shows "\<exists>r. mb_Search_time_key t0 t1 key flag b = Inr (flag \<or> last_time ls < t0, r)
     \<and> selected r = filter (\<lambda>i. t0 \<le> le_time (ls ! i) \<and> le_time (ls ! i) \<le> t1) (serials_of_key key ls)"
  using Search_time_key_lists [of b ls key t0 t1 flag] assms by (simp add: bulk_repr_def index_repr_def)

text \<open>Only bulks that end no later than the start of the window are skipped.\<close>

lemma Find_start_time_bulkhandler_spec:
  assumes "sorted ends" "ends \<noteq> []"
  shows "\<exists>r. Find_start_time_bulkhandler t ends = Inr r \<and> 0 \<le> r \<and> r < int (length ends)
     \<and> (\<forall>k < nat r. ends ! k \<le> t) \<and> (\<forall>k < length ends. nat r < k \<longrightarrow> t < ends ! k)
     \<and> (ends ! 0 \<le> t \<longrightarrow> ends ! nat r \<le> t)"
proof -
  let ?n = "length ends"
  have at: "vec_at ends i = Inr (ends ! nat i)" if "0 \<le> i" "i < int ?n" for i
    using that by (simp add: vec_at_def)
  have mono: "ends ! i \<le> ends ! j" if "i \<le> j" "j < ?n" for i j
    using sorted_nth_mono [OF assms(1) that] .
  obtain l where l: "search_loop (\<lambda>mid. bindE (vec_at ends mid) (\<lambda>x. Inr (x > t))) 0 (int ?n - 1) = Inr (l, l - 1)"
    "0 \<le> l" "l \<le> int ?n" "\<forall>k < ?n. t < ends ! k \<longleftrightarrow> nat l \<le> k"
    using search_boundary [of ?n "vec_at ends" "(!) ends" "\<lambda>x. t < x", OF at mono] order_less_le_trans by blast
  have n: "0 < ?n" using assms(2) by simp
  have "nat (int ?n - 1) = ?n - 1" by linarith
  with n have at0: "vec_at ends 0 = Inr (ends ! 0)" "vec_at ends (int ?n - 1) = Inr (ends ! (?n - 1))"
    using at [of 0] at [of "int ?n - 1"] by simp_all
  show ?thesis
  proof (cases "t < ends ! 0")
    case True
    have "t < ends ! k" if "k < ?n" for k using order_less_le_trans [OF True mono [of 0 k]] that by simp
    with True n at0 show ?thesis using assms(2) by (simp add: Find_start_time_bulkhandler_def Let_def)
  next
    case low: False
    show ?thesis
    proof (cases "ends ! (?n - 1) < t")
      case True
      have "ends ! k \<le> t" if "k < ?n" for k
        using order_le_less_trans [OF mono [of k "?n - 1"] True] that by (simp add: less_imp_le)
      with low True n at0 show ?thesis using assms(2) \<open>nat (int ?n - 1) = ?n - 1\<close>
        by (auto simp: Find_start_time_bulkhandler_def Let_def less_imp_le)
    next
      case False
      have "0 < nat l" using l(4) n low by auto
      then have idx: "k < nat (l - 1) \<longrightarrow> \<not> nat l \<le> k \<and> k < ?n" "nat (l - 1) < k \<longleftrightarrow> nat l \<le> k" for k
        using l(3) by linarith+
      have "ends ! k \<le> t" if "k < nat (l - 1)" for k
        using idx(1) that l(4) by (meson not_le)
      moreover have "nat (l - 1) < ?n" "\<not> nat l \<le> nat (l - 1)" using l(3) \<open>0 < nat l\<close> by linarith+
      then have "ends ! nat (l - 1) \<le> t" using l(4) by (meson not_le)
      ultimately show ?thesis using low False n at0 l idx(2) \<open>0 < nat l\<close> assms(2)
        by (auto simp: Find_start_time_bulkhandler_def Let_def not_less)
    qed
  qed
qed

end
