(* ===== verification/Text_Stream.thy ===== *)
theory Text_Stream
  imports Prelude
begin

text \<open>
  Formatted input and output as the file classes use it: \<^verbatim>\<open><<\<close> appends text, \<^verbatim>\<open>>>\<close> skips white
  space and reads one number or one character.  An input stream is what is left to read, \<open>None\<close>
  once its fail bit is set; a read from a failed stream leaves its variable as it was.  A variable
  that was never initialised is \<open>None\<close>, and using it is undefined behaviour.
\<close>

type_synonym istream = "string option"

definition INT_MAX :: int where
  "INT_MAX = 2147483647"

definition INT_MIN :: int where
  "INT_MIN = - 2147483648"

definition UINT64_MAX :: nat where
  "UINT64_MAX = 18446744073709551615"

text \<open>The number at the front of a text: sign, digits, rest.\<close>

definition scan_number :: "string \<Rightarrow> bool \<times> string \<times> string" where
  "scan_number s =
     (let (neg, t) = (case s of c # cs \<Rightarrow> if c = CHR ''-'' then (True, cs) else if c = CHR ''+'' then (False, cs) else (False, s)
                      | [] \<Rightarrow> (False, []))
      in (neg, takeWhile is_digit t, dropWhile is_digit t))"

text \<open>
  \<^verbatim>\<open>>> int\<close>.  At the end of the text nothing is stored; a text that is no number stores zero, a
  number out of range the nearest limit; each of these sets the fail bit.
\<close>

definition in_int :: "int option \<Rightarrow> istream \<Rightarrow> int option \<times> istream" where
  "in_int old st = (case st of
       None \<Rightarrow> (old, None)
     | Some s \<Rightarrow>
         (let t = dropWhile c_isspace s; (neg, ds, rest) = scan_number t;
              v = (if neg then - int (digits_val ds) else int (digits_val ds))
          in if t = [] then (old, None)
             else if ds = [] then (Some 0, None)
             else if v > INT_MAX then (Some INT_MAX, None)
             else if v < INT_MIN then (Some INT_MIN, None)
             else (Some v, Some rest)))"

text \<open>\<^verbatim>\<open>>> uint64_t\<close>: a minus sign is accepted and negates modulo \<open>2 ^ 64\<close>.\<close>

definition in_uint64 :: "u64 option \<Rightarrow> istream \<Rightarrow> u64 option \<times> istream" where
  "in_uint64 old st = (case st of
       None \<Rightarrow> (old, None)
     | Some s \<Rightarrow>
         (let t = dropWhile c_isspace s; (neg, ds, rest) = scan_number t
          in if t = [] then (old, None)
             else if ds = [] then (Some 0, None)
             else if digits_val ds > UINT64_MAX then (Some (- 1), None)
             else (Some (if neg then - of_nat (digits_val ds) else of_nat (digits_val ds)), Some rest)))"

definition in_char :: "char option \<Rightarrow> istream \<Rightarrow> char option \<times> istream" where
  "in_char old st = (case st of
       None \<Rightarrow> (old, None)
     | Some s \<Rightarrow> (case dropWhile c_isspace s of [] \<Rightarrow> (old, None) | c # t \<Rightarrow> (Some c, Some t)))"

definition use_var :: "'a option \<Rightarrow> 'a res" where
  "use_var v = (case v of None \<Rightarrow> Inl UB | Some x \<Rightarrow> Inr x)"

named_theorems stream_simps

lemma use_var_Some [stream_simps]: "use_var (Some x) = Inr x"
  by (simp add: use_var_def)

section \<open>Reading back what was printed\<close>

definition gap :: "string \<Rightarrow> bool" where
  "gap ws \<longleftrightarrow> list_all c_isspace ws"

definition stops :: "string \<Rightarrow> bool" where
  "stops rest \<longleftrightarrow> rest = [] \<or> \<not> is_digit (hd rest)"

lemma gap_simps [simp]: "gap []" "gap [blank]" "gap [newline]" "gap [blank, newline]"
  by (simp_all add: gap_def c_isspace_def blank_def newline_def)

lemma stops_simps [simp]: "stops []" "stops (blank # t)" "stops (newline # t)"
  by (simp_all add: stops_def is_digit_iff blank_def newline_def)

lemma skip_gap: "gap ws \<Longrightarrow> t \<noteq> [] \<Longrightarrow> \<not> c_isspace (hd t) \<Longrightarrow> dropWhile c_isspace (ws @ t) = t"
  by (induction ws) (auto simp: gap_def neq_Nil_conv)

lemma digit_not_space: "is_digit d \<Longrightarrow> \<not> c_isspace d \<and> d \<noteq> CHR ''-'' \<and> d \<noteq> CHR ''+''"
  by (auto simp: is_digit_iff c_isspace_def)

lemma show_nat_head: "\<not> c_isspace (hd (show_nat n @ rest))"
  using show_nat_Cons [of n] digit_not_space by (metis append_Cons list.sel(1))

lemma scan_show_nat: "stops rest \<Longrightarrow> scan_number (show_nat n @ rest) = (False, show_nat n, rest)"
proof -
  assume "stops rest"
  then have "takeWhile is_digit (show_nat n @ rest) = show_nat n" "dropWhile is_digit (show_nat n @ rest) = rest"
    unfolding stops_def by (simp_all add: takeWhile_show_nat dropWhile_show_nat)
  moreover obtain d ds where "show_nat n = d # ds" "is_digit d" using show_nat_Cons .
  ultimately show ?thesis using digit_not_space [of d] by (simp add: scan_number_def)
qed

lemma in_int_show_nat [stream_simps]:
  "gap ws \<Longrightarrow> stops rest \<Longrightarrow> int n \<le> INT_MAX \<Longrightarrow> in_int old (Some (ws @ show_nat n @ rest)) = (Some (int n), Some rest)"
  using skip_gap [of ws "show_nat n @ rest"] show_nat_head [of n rest]
  by (simp add: in_int_def Let_def scan_show_nat digits_val_show_nat INT_MAX_def INT_MIN_def)

lemma in_int_minus_one [stream_simps]:
  "gap ws \<Longrightarrow> stops rest \<Longrightarrow> in_int old (Some (ws @ show_int (- 1) @ rest)) = (Some (- 1), Some rest)"
proof -
  assume ws: "gap ws" "stops rest"
  have t: "show_int (- 1) = CHR ''-'' # show_nat 1" by (simp add: show_int_def)
  have "takeWhile is_digit (show_nat 1 @ rest) = show_nat 1" "dropWhile is_digit (show_nat 1 @ rest) = rest"
    using ws(2) unfolding stops_def by (simp_all add: takeWhile_show_nat dropWhile_show_nat)
  then have "scan_number (show_int (- 1) @ rest) = (True, show_nat 1, rest)"
    by (simp add: t scan_number_def)
  moreover have "dropWhile c_isspace (ws @ show_int (- 1) @ rest) = show_int (- 1) @ rest"
    using ws(1) by (intro skip_gap) (auto simp: t c_isspace_def)
  ultimately show ?thesis
    using digits_val_show_nat [of 1] by (simp add: in_int_def Let_def INT_MAX_def INT_MIN_def t)
qed

lemma in_uint64_show_nat [stream_simps]:
  "gap ws \<Longrightarrow> stops rest \<Longrightarrow> in_uint64 old (Some (ws @ show_nat (unat w) @ rest)) = (Some w, Some rest)"
proof -
  assume "gap ws" "stops rest"
  moreover have "unat w < 2 ^ 64" by (rule order_less_le_trans [OF unsigned_less]) simp
  then have "unat w \<le> UINT64_MAX" by (simp add: UINT64_MAX_def)
  ultimately show ?thesis
    using skip_gap [of ws "show_nat (unat w) @ rest"] show_nat_head [of "unat w" rest]
    by (simp add: in_uint64_def Let_def scan_show_nat digits_val_show_nat)
qed

lemma in_char_plain [stream_simps]:
  "gap ws \<Longrightarrow> \<not> c_isspace c \<Longrightarrow> in_char old (Some (ws @ c # rest)) = (Some c, Some rest)"
  using skip_gap [of ws "c # rest"] by (simp add: in_char_def)

end
