(* ===== verification/Log_File.thy ===== *)
theory Log_File
  imports Text_Stream Config Trie_Index
begin

text \<open>
  \<^verbatim>\<open>include/LogFile.h\<close> and \<^verbatim>\<open>src/log_processor/LogFile.cpp\<close>: the five files of a bulk (log text,
  offsets, timestamps and the two tries), written and read as text.  The disk is a map from path to
  contents.  A trie is written in breadth-first order, one node a line, and read back into an array
  of nodes; \<open>to_tree\<close> turns the array into the tree it stands for.
\<close>

section \<open>Names and the disk\<close>

type_synonym disk = "string \<Rightarrow> string option"

definition log_directory :: string where
  "log_directory = ''./logs''"

text \<open>\<^verbatim>\<open>%020d\<close>: zero-padded to twenty characters, the sign among them.\<close>

definition pad20 :: "int \<Rightarrow> string" where
  "pad20 n = (let ds = show_nat (nat \<bar>n\<bar>)
     in if n < 0 then CHR ''-'' # replicate (19 - length ds) CHR ''0'' @ ds
        else replicate (20 - length ds) CHR ''0'' @ ds)"

datatype file_kind = Content | Index | TimeStamp | KeyTrie | WordTrie

fun extension :: "file_kind \<Rightarrow> string" where
  "extension Content = ''.log''"
| "extension Index = ''.index''"
| "extension TimeStamp = ''.ts''"
| "extension KeyTrie = ''.keyt''"
| "extension WordTrie = ''.wordt''"

definition file_name :: "file_kind \<Rightarrow> int \<Rightarrow> string" where
  "file_name k num = take (FILE_NAME_LEN - 1) (pad20 num @ extension k)"

definition path :: "file_kind \<Rightarrow> int \<Rightarrow> string" where
  "path k num = log_directory @ ''/'' @ file_name k num"

text \<open>
  Opening for writing truncates and creates (the directory too); a directory or file that cannot be
  made ends the process and is not modelled.  Opening a file that is not there ends the process.
\<close>

definition New_file :: "file_kind \<Rightarrow> int \<Rightarrow> disk \<Rightarrow> disk" where
  "New_file k num d = d(path k num \<mapsto> [])"

definition Open_existing_file :: "file_kind \<Rightarrow> int \<Rightarrow> disk \<Rightarrow> string res" where
  "Open_existing_file k num d = (case d (path k num) of None \<Rightarrow> Inl Exited | Some s \<Rightarrow> Inr s)"

definition put :: "file_kind \<Rightarrow> int \<Rightarrow> string \<Rightarrow> disk \<Rightarrow> disk" where
  "put k num s d = d(path k num := map_option (\<lambda>old. old @ s) (d (path k num)))"

section \<open>Log text\<close>

text \<open>\<^verbatim>\<open>file_ << buffer_\<close> writes the C string; reading fills the buffer from its start.\<close>

definition Save_log_content_file :: "int \<Rightarrow> string option \<Rightarrow> disk \<Rightarrow> disk res" where
  "Save_log_content_file num data d = (case data of
       None \<Rightarrow> Inl UB
     | Some buffer \<Rightarrow> Inr (put Content num (cstr buffer) (New_file Content num d)))"

definition Read_log_content_file :: "int \<Rightarrow> string \<Rightarrow> disk \<Rightarrow> string res" where
  "Read_log_content_file num buffer d =
     bindE (Open_existing_file Content num d) (\<lambda>s. Inr (buf_write 0 (take BULKSIZE s) buffer))"

section \<open>Offsets and timestamps\<close>

fun numbered_lines :: "nat \<Rightarrow> ('a \<Rightarrow> string) \<Rightarrow> 'a list \<Rightarrow> string" where
  "numbered_lines i sh [] = []"
| "numbered_lines i sh (x # xs) = show_nat i @ '' '' @ sh x @ [newline] @ numbered_lines (i + 1) sh xs"

definition Save_index_file :: "int \<Rightarrow> nat list \<Rightarrow> disk \<Rightarrow> disk" where
  "Save_index_file num offset_list d =
     put Index num (show_nat (length offset_list) @ [newline] @ numbered_lines 0 show_nat offset_list) (New_file Index num d)"

definition Save_timestamp_file :: "int \<Rightarrow> u64 list \<Rightarrow> disk \<Rightarrow> disk" where
  "Save_timestamp_file num timestamp_list d =
     put TimeStamp num (show_nat (length timestamp_list) @ [newline]
       @ numbered_lines 0 (\<lambda>t. show_nat (unat t)) timestamp_list) (New_file TimeStamp num d)"

text \<open>\<open>n\<close> pairs; each element starts as \<open>z\<close> and keeps it when the stream has failed.\<close>

fun read_pairs :: "('a option \<Rightarrow> istream \<Rightarrow> 'a option \<times> istream) \<Rightarrow> 'a \<Rightarrow> nat \<Rightarrow> int option \<Rightarrow> istream \<Rightarrow> 'a list" where
  "read_pairs get z 0 index st = []"
| "read_pairs get z (Suc n) index st =
     (let (index', st1) = in_int index st; (v, st2) = get (Some z) st1
      in (case v of None \<Rightarrow> z | Some x \<Rightarrow> x) # read_pairs get z n index' st2)"

text \<open>A negative length makes the \<^verbatim>\<open>vector\<close> constructor throw, which ends the process.\<close>

definition Read_index_file :: "int \<Rightarrow> disk \<Rightarrow> nat list res" where
  "Read_index_file num d = bindE (Open_existing_file Index num d) (\<lambda>s.
     let (len, st) = in_int (Some 0) (Some s)
     in bindE (use_var len) (\<lambda>n. if n < 0 then Inl Exited else Inr (map nat (read_pairs in_int 0 (nat n) None st))))"

definition Read_timestamp_file :: "int \<Rightarrow> disk \<Rightarrow> u64 list res" where
  "Read_timestamp_file num d = bindE (Open_existing_file TimeStamp num d) (\<lambda>s.
     let (len, st) = in_int (Some 0) (Some s)
     in bindE (use_var len) (\<lambda>n. if n < 0 then Inl Exited else Inr (read_pairs in_uint64 0 (nat n) None st)))"

section \<open>Tries\<close>

fun forest_count :: "('v TrieNode \<times> int) list \<Rightarrow> nat" where
  "forest_count q = sum_list (map (\<lambda>(n, f). node_count n) q)"

text \<open>The breadth-first loop: the units (node, father's number) in the order they leave the queue.\<close>

function bfs :: "('v TrieNode \<times> int) list \<Rightarrow> int \<Rightarrow> ('v TrieNode \<times> int) list" where
  "bfs [] count = []"
| "bfs ((n, father) # q) count =
     (n, father) # bfs (q @ map (\<lambda>(k, child). (child, count)) (char_map n)) (count + 1)"
  by pat_completeness auto
termination
proof (relation "measure (\<lambda>(q, c). forest_count q)", goal_cases)
  case (2 n father q count)
  have "sum_list (map (\<lambda>(n, f). node_count n) (map (\<lambda>(k, child). (child, count)) (char_map n)))
      = sum_list (map (\<lambda>(k, n). node_count n) (char_map n))"
    by (simp add: comp_def case_prod_unfold)
  then show ?case by (cases n) simp
qed simp

fun node_line :: "nat TrieNode \<times> int \<Rightarrow> string" where
  "node_line (n, father) = show_int father @ '' '' @ [node_c n] @ '' '' @ show_nat (length (value_list n)) @ '' ''
     @ concat (map (\<lambda>v. show_nat v @ '' '') (value_list n)) @ [newline]"

definition trie_text :: "nat \<Rightarrow> nat TrieNode \<Rightarrow> string" where
  "trie_text sz r = show_nat sz @ [newline] @ concat (map node_line (bfs [(r, - 1)] 0))"

text \<open>The trie is emptied and made read-only behind the write; a trie without root is dereferenced.\<close>

definition Save_trie_file :: "file_kind \<Rightarrow> int \<Rightarrow> nat Trie \<Rightarrow> disk \<Rightarrow> (nat Trie \<times> disk) res" where
  "Save_trie_file k num t d = (case root t of
       None \<Rightarrow> Inl UB
     | Some r \<Rightarrow> Inr (SetReadOnly (Delete_tree t), put k num (trie_text (trie_size t) r) (New_file k num d)))"

text \<open>
  An array cell: character, children by index, values.  A value is a serial and is kept as a
  \<open>nat\<close>; a negative number, which no file the program wrote contains, is read as zero.
\<close>

type_synonym cell = "char \<times> (char \<times> nat) list \<times> nat list"

fun read_values :: "nat \<Rightarrow> istream \<Rightarrow> nat list \<times> istream" where
  "read_values 0 st = ([], st)"
| "read_values (Suc n) st =
     (let (v, st1) = in_int (Some 0) st; (vs, st2) = read_values n st1
      in ((case v of None \<Rightarrow> 0 | Some x \<Rightarrow> nat x) # vs, st2))"

text \<open>
  \<^verbatim>\<open>char_map_.insert\<close> on the father's cell keeps an existing entry; a father outside the cells built
  so far is undefined behaviour.
\<close>

definition link_cell :: "int \<Rightarrow> char \<Rightarrow> cell list \<Rightarrow> cell list res" where
  "link_cell father c arr =
     (if 0 \<le> father \<and> father < int (length arr)
      then (let (fc, kids, vs) = arr ! nat father
            in Inr (arr[nat father := (fc, if c \<in> fst ` set kids then kids else kids @ [(c, length arr - 1)], vs)]))
      else Inl UB)"

text \<open>
  The nodes after the root; \<open>i\<close> of them are left to read.  The three variables live across the
  iterations.  The new cell is there before its father is looked up.
\<close>

fun read_nodes :: "nat \<Rightarrow> int option \<Rightarrow> char option \<Rightarrow> int option \<Rightarrow> istream \<Rightarrow> cell list \<Rightarrow> cell list res" where
  "read_nodes 0 father c len st arr = Inr arr"
| "read_nodes (Suc i) father c len st arr =
     (let (father', st1) = in_int father st; (c', st2) = in_char c st1; (len', st3) = in_int len st2
      in bindE (use_var father') (\<lambda>f. bindE (use_var c') (\<lambda>ch. bindE (use_var len') (\<lambda>n.
         bindE (link_cell f ch (arr @ [(ch, [], [])])) (\<lambda>arr1.
         if n < 0 then Inl Exited
         else (let (vs, st4) = read_values (nat n) st3; (xc, kids, _) = arr1 ! length arr
               in read_nodes i father' c' len' st4 (arr1[length arr := (xc, kids, vs)])))))))"

function to_tree :: "cell list \<Rightarrow> nat \<Rightarrow> nat TrieNode" where
  "to_tree arr i =
     (if i < length arr
      then (let (c, kids, vs) = arr ! i
            in TrieNode c (map (\<lambda>(k, j). (k, if i < j then to_tree arr j else TrieNode k [] [])) kids) vs)
      else TrieNode nul [] [])"
  by pat_completeness auto
termination
  by (relation "measure (\<lambda>(arr, i). length arr - i)") auto

declare to_tree.simps [simp del]

text \<open>
  The whole read: node count, root line, the other lines.  A root whose father is not \<open>-1\<close> or that
  has values ends the process.
\<close>

definition Read_trie_file :: "file_kind \<Rightarrow> int \<Rightarrow> disk \<Rightarrow> nat Trie \<Rightarrow> nat Trie res" where
  "Read_trie_file k num d t = bindE (Open_existing_file k num d) (\<lambda>s.
     let (node_num, st) = in_int None (Some s);
         (father, st1) = in_int None st; (c, st2) = in_char None st1; (len, st3) = in_int None st2
     in bindE (use_var node_num) (\<lambda>n. bindE (use_var father) (\<lambda>f. bindE (use_var c) (\<lambda>ch. bindE (use_var len) (\<lambda>l.
        if n < 1 then Inl UB
        else if f \<noteq> - 1 then Inl Exited
        else if l \<noteq> 0 then Inl Exited
        else bindE (read_nodes (nat n - 1) father c len st3 [(ch, [], [])]) (\<lambda>arr.
          Inr ((Set_valid (t\<lparr>root := Some (to_tree arr 0)\<rparr>))\<lparr>trie_size := nat n, store_in_array := True\<rparr>)))))))"

text \<open>\<^verbatim>\<open>LogWordTrieFile\<close> writes and reads the trie of the words in the same way.\<close>

definition Save_word_trie_file :: "int \<Rightarrow> nat Trie \<Rightarrow> disk \<Rightarrow> (nat Trie \<times> disk) res" where
  [simp]: "Save_word_trie_file num t d = Save_trie_file WordTrie num t d"

definition Read_word_trie_file :: "int \<Rightarrow> disk \<Rightarrow> nat Trie \<Rightarrow> nat Trie res" where
  [simp]: "Read_word_trie_file num d t = Read_trie_file WordTrie num d t"

section \<open>Names are told apart\<close>

lemma length_pad20_parts: "\<bar>n\<bar> < 10 ^ 19 \<Longrightarrow> length (show_nat (nat \<bar>n\<bar>)) \<le> 19"
  using length_show_nat [of "nat \<bar>n\<bar>" 18] by (simp add: nat_less_iff)

lemma length_pad20: "\<bar>n\<bar> < 10 ^ 19 \<Longrightarrow> length (pad20 n) = 20"
  using length_pad20_parts [of n] by (simp add: pad20_def Let_def)

lemma digits_val_zeros: "digits_val (replicate k CHR ''0'' @ ds) = digits_val ds"
proof -
  have "foldl (\<lambda>a c. 10 * a + digit_val c) 0 (replicate k CHR ''0'') = 0"
    by (induction k) (simp_all add: digit_val_def)
  then show ?thesis by (simp add: digits_val_def)
qed

lemma pad20_inj: "pad20 m = pad20 n \<Longrightarrow> m = n"
proof -
  assume eq: "pad20 m = pad20 n"
  have nonneg: "hd (pad20 k) \<noteq> CHR ''-''" if "0 \<le> k" for k
  proof (cases "20 - length (show_nat (nat \<bar>k\<bar>))")
    case 0
    obtain d ds where "show_nat (nat \<bar>k\<bar>) = d # ds" "is_digit d" using show_nat_Cons .
    with 0 that digit_not_space [of d] show ?thesis by (simp add: pad20_def Let_def)
  qed (use that in \<open>simp add: pad20_def Let_def\<close>)
  have "hd (pad20 k) = CHR ''-'' \<longleftrightarrow> k < 0" for k
    using nonneg [of k] by (cases "k < 0") (simp_all add: pad20_def Let_def)
  from this [of m] this [of n] have sign: "m < 0 \<longleftrightarrow> n < 0" by (simp add: eq)
  have val: "digits_val (if k < 0 then tl (pad20 k) else pad20 k) = nat \<bar>k\<bar>" for k
    by (simp add: pad20_def Let_def digits_val_zeros digits_val_show_nat)
  have "nat \<bar>m\<bar> = nat \<bar>n\<bar>" using val [of m] val [of n] by (simp only: eq sign)
  with sign show "m = n" by linarith
qed

lemma file_name_inj:
  assumes "\<bar>m\<bar> < 10 ^ 19" "\<bar>n\<bar> < 10 ^ 19" "path k m = path j n"
  shows "k = j \<and> m = n"
proof -
  have "length (extension i) \<le> 11" for i by (cases i) simp_all
  then have whole: "file_name i l = pad20 l @ extension i" if "\<bar>l\<bar> < 10 ^ 19" for i l
    using length_pad20 [OF that] by (simp add: file_name_def FILE_NAME_LEN_def le_diff_conv)
  have eq: "pad20 m @ extension k = pad20 n @ extension j"
    using assms whole by (simp add: path_def)
  then have "pad20 m = pad20 n" "extension k = extension j"
    using length_pad20 assms(1,2) by (metis append_eq_append_conv)+
  then show ?thesis using pad20_inj by (cases k; cases j) auto
qed

section \<open>Number lists read back as written\<close>

text \<open>What the list files rely on: a value is read back from its text, up to the next separator.\<close>

locale codec =
  fixes get :: "'b option \<Rightarrow> istream \<Rightarrow> 'b option \<times> istream"
    and sh :: "'a \<Rightarrow> string"
    and ok :: "'a \<Rightarrow> bool"
    and val :: "'a \<Rightarrow> 'b"
  assumes reads: "ok x \<Longrightarrow> gap ws \<Longrightarrow> stops rest \<Longrightarrow> get old (Some (ws @ sh x @ rest)) = (Some (val x), Some rest)"
begin

lemma read_lines:
  "list_all ok xs \<Longrightarrow> int (i + length xs) \<le> INT_MAX \<Longrightarrow>
   read_pairs get z (length xs) index (Some ([newline] @ numbered_lines i sh xs)) = map val xs"
proof (induction xs arbitrary: i index)
  case (Cons x xs)
  have "in_int index (Some ([newline] @ show_nat i @ '' '' @ sh x @ [newline] @ numbered_lines (i + 1) sh xs))
      = (Some (int i), Some ('' '' @ sh x @ [newline] @ numbered_lines (i + 1) sh xs))"
    using Cons.prems(2) by (intro in_int_show_nat) (simp_all add: stops_def is_digit_iff)
  moreover have "get (Some z) (Some ('' '' @ sh x @ [newline] @ numbered_lines (i + 1) sh xs))
      = (Some (val x), Some ([newline] @ numbered_lines (i + 1) sh xs))"
    using Cons.prems(1) by (intro reads) (simp_all add: gap_def c_isspace_def)
  ultimately show ?case using Cons.IH [of "i + 1" "Some (int i)"] Cons.prems by simp
qed simp

end

interpretation int_codec: codec in_int show_nat "\<lambda>n. int n \<le> INT_MAX" int
  by unfold_locales (rule in_int_show_nat)

interpretation u64_codec: codec in_uint64 "\<lambda>t. show_nat (unat t)" "\<lambda>_. True" "\<lambda>t. t"
  by unfold_locales (rule in_uint64_show_nat)

lemma put_new: "put k num s (New_file k num d) (path k num) = Some s"
  by (simp add: put_def New_file_def)

lemma put_new_other: "p \<noteq> path k num \<Longrightarrow> put k num s (New_file k num d) p = d p"
  by (simp add: put_def New_file_def)

lemma read_len: "int n \<le> INT_MAX \<Longrightarrow>
    in_int (Some 0) (Some (show_nat n @ newline # rest)) = (Some (int n), Some ([newline] @ rest))"
  using in_int_show_nat [of "[]" "newline # rest" n] by simp

lemma Read_index_Save:
  assumes "list_all (\<lambda>n. int n \<le> INT_MAX) os" "int (length os) \<le> INT_MAX" "d (path Index num) = Save_index_file num os d' (path Index num)"
  shows "Read_index_file num d = Inr os"
proof -
  have "read_pairs in_int 0 (length os) None (Some ([newline] @ numbered_lines 0 show_nat os)) = map int os"
    using assms(1,2) by (intro int_codec.read_lines) simp_all
  with assms(2,3) show ?thesis
    by (simp add: Read_index_file_def Open_existing_file_def Save_index_file_def put_new read_len use_var_def comp_def)
qed

lemma Read_timestamp_Save:
  assumes "int (length ts) \<le> INT_MAX" "d (path TimeStamp num) = Save_timestamp_file num ts d' (path TimeStamp num)"
  shows "Read_timestamp_file num d = Inr ts"
proof -
  have "read_pairs in_uint64 0 (length ts) None (Some ([newline] @ numbered_lines 0 (\<lambda>t. show_nat (unat t)) ts)) = map (\<lambda>t. t) ts"
    using assms(1) by (intro u64_codec.read_lines) (simp_all add: list_all_iff)
  with assms show ?thesis
    by (simp add: Read_timestamp_file_def Open_existing_file_def Save_timestamp_file_def put_new read_len use_var_def)
qed

lemma Read_content_Save:
  assumes "nul_free s" "length s \<le> BULKSIZE" "Save_log_content_file num (Some (s @ t)) d0 = Inr d1"
    "t = [] \<or> hd t = nul" "d (path Content num) = d1 (path Content num)"
  shows "Read_log_content_file num [] d = Inr s"
proof -
  have "cstr (s @ t) = s" using assms(1,4) by (cases t) (auto simp: cstr_append cstr_nul_free cstr_nul_Cons)
  then have "d1 = put Content num s (New_file Content num d0)"
    using assms(3) by (simp add: Save_log_content_file_def)
  with assms(2,5) show ?thesis
    by (simp add: Read_log_content_file_def Open_existing_file_def put_new buf_write_def)
qed

section \<open>The breadth-first listing\<close>

definition kids_of :: "int \<Rightarrow> 'v TrieNode \<Rightarrow> ('v TrieNode \<times> int) list" where
  "kids_of i n = map (\<lambda>(k, child). (child, i)) (char_map n)"

text \<open>The listing is the queue followed by the children of every listed node, in order.\<close>

lemma bfs_unfold:
  "bfs q k = q @ concat (map (\<lambda>i. kids_of (k + int i) (fst (bfs q k ! i))) [0..<length (bfs q k)])"
proof (induction q k rule: bfs.induct)
  case (2 n f q k)
  let ?L = "bfs (q @ kids_of k n) (k + 1)"
  have L: "bfs ((n, f) # q) k = (n, f) # ?L" by (simp add: kids_of_def)
  have "[0..<length (bfs ((n, f) # q) k)] = 0 # map Suc [0..<length ?L]"
    unfolding L by (simp only: length_Cons upt_conv_Cons zero_less_Suc map_Suc_upt)
  then have "concat (map (\<lambda>i. kids_of (k + int i) (fst (bfs ((n, f) # q) k ! i))) [0..<length (bfs ((n, f) # q) k)])
      = kids_of k n @ concat (map (\<lambda>i. kids_of (k + 1 + int i) (fst (?L ! i))) [0..<length ?L])"
    by (simp add: L comp_def algebra_simps del: bfs.simps)
  moreover have "?L = (q @ kids_of k n) @ concat (map (\<lambda>i. kids_of (k + 1 + int i) (fst (?L ! i))) [0..<length ?L])"
    using 2 by (simp only: kids_of_def)
  ultimately show ?case using L by simp
qed simp

lemma bfs_father_before:
  "\<forall>(n, f) \<in> set q. f < k \<Longrightarrow> j < length (bfs q k) \<Longrightarrow> snd (bfs q k ! j) < k + int j"
proof (induction q k arbitrary: j rule: bfs.induct)
  case (2 n f q k)
  have "\<forall>(n', f') \<in> set (q @ map (\<lambda>(c, child). (child, k)) (char_map n)). f' < k + 1"
    using 2(2) by fastforce
  with 2 show ?case by (cases j) force+
qed simp

lemma bfs_all:
  assumes step: "\<And>n k c. Q n \<Longrightarrow> (k, c) \<in> set (char_map n) \<Longrightarrow> Q c"
  shows "\<forall>(n, f) \<in> set q. Q n \<Longrightarrow> \<forall>(n, f) \<in> set (bfs q k). Q n"
proof (induction q k rule: bfs.induct)
  case (2 n f q k)
  have "\<forall>(n', f') \<in> set (q @ map (\<lambda>(c, child). (child, k)) (char_map n)). Q n'"
    using 2(2) step by fastforce
  with 2 show ?case by simp
qed simp

lemma length_bfs: "length (bfs q k) = forest_count q"
proof (induction q k rule: bfs.induct)
  case (2 n f q k)
  have "sum_list (map (\<lambda>(n, f). node_count n) (map (\<lambda>(c, child). (child, k)) (char_map n)))
      = sum_list (map (\<lambda>(k, n). node_count n) (char_map n))"
    by (simp add: comp_def case_prod_unfold)
  then show ?case using 2 by (cases n) simp
qed simp

lemma filter_concat_index:
  "\<forall>i < n. \<forall>u \<in> set (g i). h u = int i \<Longrightarrow> j < n \<Longrightarrow> filter (\<lambda>u. h u = int j) (concat (map g [0..<n])) = g j"
proof (induction n)
  case (Suc n)
  show ?case
  proof (cases "j = n")
    case True
    have "h u \<noteq> int j" if "u \<in> set (concat (map g [0..<n]))" for u
    proof -
      from that obtain i where "i < n" "u \<in> set (g i)" by auto
      with Suc.prems(1) have "h u = int i" by simp
      with \<open>i < n\<close> True show ?thesis by simp
    qed
    then have "filter (\<lambda>u. h u = int j) (concat (map g [0..<n])) = []" by (intro filter_False) blast
    moreover have "filter (\<lambda>u. h u = int j) (g n) = g n"
      using Suc.prems(1) True by (intro filter_True) blast
    ultimately show ?thesis using True by simp
  next
    case False
    have "filter (\<lambda>u. h u = int j) (g n) = []" using Suc.prems(1) False by (force simp: filter_empty_conv)
    with False Suc show ?thesis by simp
  qed
qed simp

definition child_ids :: "('v TrieNode \<times> int) list \<Rightarrow> nat \<Rightarrow> nat \<Rightarrow> nat list" where
  "child_ids L m i = filter (\<lambda>j. snd (L ! j) = int i) [0..<m]"

text \<open>The facts about the listing of a whole tree that reading it back needs.\<close>

lemma listing_facts:
  assumes "L = bfs [(r, - 1)] 0"
  shows "0 < length L" "L ! 0 = (r, - 1)" "length L = node_count r"
    "j < length L \<Longrightarrow> snd (L ! j) < int j" "0 < j \<Longrightarrow> j < length L \<Longrightarrow> 0 \<le> snd (L ! j)"
    "i < length L \<Longrightarrow> map (\<lambda>j. fst (L ! j)) (child_ids L (length L) i) = map snd (char_map (fst (L ! i)))"
proof -
  let ?rest = "concat (map (\<lambda>i. kids_of (int i) (fst (L ! i))) [0..<length L])"
  have L: "L = (r, - 1) # ?rest" using bfs_unfold [of "[(r, - 1)]" 0] assms by simp
  show "length L = node_count r" using length_bfs [of "[(r, - 1)]" 0] assms by simp
  show len: "0 < length L" by (subst L) simp
  show "L ! 0 = (r, - 1)" by (subst L) simp
  show "j < length L \<Longrightarrow> snd (L ! j) < int j"
    using bfs_father_before [of "[(r, - 1)]" 0 j] assms by simp
  have rest: "\<forall>u \<in> set ?rest. 0 \<le> snd u" by (auto simp: kids_of_def)
  have "length L = Suc (length ?rest)" using arg_cong [OF L, of length] by simp
  moreover have "L ! j = ?rest ! (j - 1)" if "0 < j" using arg_cong [OF L, of "\<lambda>xs. xs ! j"] that by simp
  ultimately show "0 < j \<Longrightarrow> j < length L \<Longrightarrow> 0 \<le> snd (L ! j)"
    using rest [rule_format, OF nth_mem, of "j - 1"] by simp
  assume i: "i < length L"
  have "filter (\<lambda>u. snd u = int i) ?rest = kids_of (int i) (fst (L ! i))"
    by (rule filter_concat_index) (use i in \<open>auto simp: kids_of_def\<close>)
  then have "filter (\<lambda>u. snd u = int i) L = kids_of (int i) (fst (L ! i))" using arg_cong [OF L, of "filter (\<lambda>u. snd u = int i)"] by simp
  moreover have "map ((!) L) (child_ids L (length L) i) = filter (\<lambda>u. snd u = int i) (map ((!) L) [0..<length L])"
    by (simp add: child_ids_def filter_map comp_def)
  ultimately have "map ((!) L) (child_ids L (length L) i) = kids_of (int i) (fst (L ! i))" by (simp add: map_nth)
  then have "map fst (map ((!) L) (child_ids L (length L) i)) = map fst (kids_of (int i) (fst (L ! i)))" by simp
  then show "map (\<lambda>j. fst (L ! j)) (child_ids L (length L) i) = map snd (char_map (fst (L ! i)))"
    by (simp add: kids_of_def comp_def case_prod_unfold)
qed

section \<open>Reading the listing back\<close>

text \<open>What a node must satisfy to be read back: a visible character and numbers in \<^verbatim>\<open>int\<close> range.\<close>

definition cell_ok :: "nat TrieNode \<Rightarrow> bool" where
  "cell_ok n \<longleftrightarrow> \<not> c_isspace (node_c n) \<and> int (length (value_list n)) \<le> INT_MAX
     \<and> list_all (\<lambda>v. int v \<le> INT_MAX) (value_list n)"

fun tree_ok :: "nat TrieNode \<Rightarrow> bool" where
  "tree_ok (TrieNode c m vs) \<longleftrightarrow> cell_ok (TrieNode c m vs) \<and> (\<forall>(k, n) \<in> set m. tree_ok n)"

lemma read_values_text:
  "list_all (\<lambda>v. int v \<le> INT_MAX) vs \<Longrightarrow>
   read_values (length vs) (Some ('' '' @ concat (map (\<lambda>v. show_nat v @ '' '') vs) @ rest)) = (vs, Some ('' '' @ rest))"
proof (induction vs)
  case (Cons v vs)
  have "in_int (Some 0) (Some ('' '' @ show_nat v @ '' '' @ concat (map (\<lambda>v. show_nat v @ '' '') vs) @ rest))
      = (Some (int v), Some ('' '' @ concat (map (\<lambda>v. show_nat v @ '' '') vs) @ rest))"
    using Cons.prems by (intro in_int_show_nat) (simp_all add: gap_def c_isspace_def stops_def is_digit_iff)
  with Cons show ?case by simp
qed simp

lemma node_line_read:
  assumes "gap ws" "cell_ok n" "f = - 1 \<or> (0 \<le> f \<and> f \<le> INT_MAX)"
  shows "\<exists>st1 st2. in_int fo (Some (ws @ node_line (n, f) @ rest)) = (Some f, st1)
     \<and> in_char co st1 = (Some (node_c n), st2)
     \<and> in_int lo st2 = (Some (int (length (value_list n))),
          Some ('' '' @ concat (map (\<lambda>v. show_nat v @ '' '') (value_list n)) @ [newline] @ rest))"
proof -
  let ?vals = "'' '' @ concat (map (\<lambda>v. show_nat v @ '' '') (value_list n)) @ [newline] @ rest"
  let ?len = "'' '' @ show_nat (length (value_list n)) @ ?vals"
  let ?char = "'' '' @ node_c n # ?len"
  have stops: "stops (CHR '' '' # t)" for t by (simp add: stops_def is_digit_iff)
  have gap1: "gap '' ''" by (simp add: gap_def c_isspace_def)
  have "in_int fo (Some (ws @ show_int f @ ?char)) = (Some f, Some ?char)"
    using assms(1,3) in_int_show_nat [of ws ?char "nat f"] in_int_minus_one [of ws ?char] stops
    by (auto simp: show_int_def)
  moreover have "in_char co (Some ?char) = (Some (node_c n), Some ?len)"
    using assms(2) gap1 by (intro in_char_plain) (simp_all add: cell_ok_def)
  moreover have "in_int lo (Some ?len) = (Some (int (length (value_list n))), Some ?vals)"
    using assms(2) gap1 stops by (intro in_int_show_nat) (simp_all add: cell_ok_def)
  ultimately show ?thesis by simp
qed

definition cells :: "(nat TrieNode \<times> int) list \<Rightarrow> nat \<Rightarrow> cell list" where
  "cells L m = map (\<lambda>i. (node_c (fst (L ! i)), map (\<lambda>j. (node_c (fst (L ! j)), j)) (child_ids L m i),
     value_list (fst (L ! i)))) [0..<m]"

lemma child_ids_Suc: "child_ids L (Suc m) i = child_ids L m i @ (if snd (L ! m) = int i then [m] else [])"
  by (simp add: child_ids_def)

lemma child_ids_future: "(\<forall>j < m. snd (L ! j) < int j) \<Longrightarrow> m \<le> Suc i \<Longrightarrow> child_ids L m i = []"
  by (force simp: child_ids_def filter_empty_conv)

text \<open>One more line: its cell is appended and linked into its father's.\<close>

lemma link_next:
  assumes "m < n" "\<forall>j < n. snd (L ! j) < int j" "0 \<le> snd (L ! m)"
    and "\<forall>i < n. distinct (map (\<lambda>j. node_c (fst (L ! j))) (child_ids L n i))"
  shows "\<exists>arr. link_cell (snd (L ! m)) (node_c (fst (L ! m))) (cells L m @ [(node_c (fst (L ! m)), [], [])]) = Inr arr
     \<and> length arr = Suc m \<and> arr ! m = (node_c (fst (L ! m)), [], [])
     \<and> arr[m := (node_c (fst (L ! m)), [], value_list (fst (L ! m)))] = cells L (Suc m)"
proof -
  let ?c = "node_c (fst (L ! m))"
  define f where "f = nat (snd (L ! m))"
  have f: "snd (L ! m) = int f" "f < m" using assms(1-3) by (auto simp: f_def)
  let ?arr = "cells L m @ [(?c, [], [])]"
  let ?kids = "map (\<lambda>j. (node_c (fst (L ! j)), j)) (child_ids L m f)"
  have cell: "?arr ! f = (node_c (fst (L ! f)), ?kids, value_list (fst (L ! f)))" "length ?arr = Suc m"
    using f(2) by (simp_all add: cells_def nth_append)
  have "[0..<n] = [0..<Suc m] @ [Suc m..<n]"
    using assms(1) by (metis Suc_leI less_eq_nat.simps(1) upt_add_eq_append le_add_diff_inverse)
  then have "child_ids L n f = child_ids L (Suc m) f @ filter (\<lambda>j. snd (L ! j) = int f) [Suc m..<n]"
    by (simp add: child_ids_def)
  moreover have "distinct (map (\<lambda>j. node_c (fst (L ! j))) (child_ids L n f))" using assms(1,4) f(2) by auto
  ultimately have "distinct (map (\<lambda>j. node_c (fst (L ! j))) (child_ids L m f @ [m]))"
    using f(1) by (simp add: child_ids_Suc)
  then have new: "?c \<notin> fst ` set ?kids" by (force simp: image_comp comp_def)
  let ?arr1 = "?arr[f := (node_c (fst (L ! f)), ?kids @ [(?c, m)], value_list (fst (L ! f)))]"
  have link: "link_cell (snd (L ! m)) ?c ?arr = Inr ?arr1"
    using new f cell by (simp add: link_cell_def del: set_map)
  have "?arr1[m := (?c, [], value_list (fst (L ! m)))] = cells L (Suc m)"
  proof (rule nth_equalityI)
    fix i assume "i < length (?arr1[m := (?c, [], value_list (fst (L ! m)))])"
    then have i: "i < Suc m" using cell(2) by simp
    have "child_ids L (Suc m) m = []" using assms(1,2) by (intro child_ids_future) auto
    with i f cell(2) show "?arr1[m := (?c, [], value_list (fst (L ! m)))] ! i = cells L (Suc m) ! i"
      by (auto simp: cells_def nth_append nth_list_update child_ids_Suc less_Suc_eq)
  qed (use cell(2) in \<open>simp add: cells_def\<close>)
  with link f cell(2) show ?thesis by (auto simp: nth_append cells_def)
qed

lemma read_nodes_listing:
  assumes "\<forall>j < length L. snd (L ! j) < int j" "\<forall>j < length L. 0 < j \<longrightarrow> 0 \<le> snd (L ! j)"
    and "\<forall>i < length L. distinct (map (\<lambda>j. node_c (fst (L ! j))) (child_ids L (length L) i))"
    and "\<forall>(n, f) \<in> set L. cell_ok n" and "int (length L) \<le> INT_MAX"
  shows "m + d = length L \<Longrightarrow> 0 < m \<Longrightarrow> gap ws \<Longrightarrow>
     read_nodes d fo co lo (Some (ws @ concat (map node_line (drop m L)))) (cells L m) = Inr (cells L (length L))"
proof (induction d arbitrary: m ws fo co lo)
  case (Suc d)
  then have m: "m < length L" by simp
  obtain n f where nf: "L ! m = (n, f)" by (cases "L ! m")
  have ok: "cell_ok n" using assms(4) m nf nth_mem by fastforce
  have f: "0 \<le> f" "f < int m" using assms(1,2) m nf Suc.prems(2) by auto
  let ?rest = "concat (map node_line (drop (Suc m) L))"
  have lines: "concat (map node_line (drop m L)) = node_line (n, f) @ ?rest"
    using m nf by (simp flip: Cons_nth_drop_Suc)
  obtain st1 st2 where r: "in_int fo (Some (ws @ node_line (n, f) @ ?rest)) = (Some f, st1)"
    "in_char co st1 = (Some (node_c n), st2)"
    "in_int lo st2 = (Some (int (length (value_list n))),
       Some ('' '' @ concat (map (\<lambda>v. show_nat v @ '' '') (value_list n)) @ [newline] @ ?rest))"
    using node_line_read [OF Suc.prems(3) ok, of f fo ?rest co lo] f m assms(5) by auto
  have vals: "read_values (length (value_list n)) (Some ('' '' @ concat (map (\<lambda>v. show_nat v @ '' '') (value_list n)) @ [newline] @ ?rest))
      = (value_list n, Some ('' '' @ [newline] @ ?rest))"
    using ok by (intro read_values_text) (simp add: cell_ok_def)
  obtain arr where arr: "link_cell f (node_c n) (cells L m @ [(node_c n, [], [])]) = Inr arr"
    "length arr = Suc m" "arr ! m = (node_c n, [], [])"
    "arr[m := (node_c n, [], value_list n)] = cells L (Suc m)"
    using link_next [of m "length L" L] m assms(1,3) f nf by auto
  have len: "length (cells L m) = m" by (simp add: cells_def)
  have ih: "read_nodes d fo' co' lo' (Some ('' '' @ [newline] @ ?rest)) (cells L (Suc m)) = Inr (cells L (length L))" for fo' co' lo'
    using Suc.IH [of "Suc m" "'' '' @ [newline]" fo' co' lo'] Suc.prems(1)
    by (simp add: gap_def c_isspace_def newline_def)
  show ?case
    unfolding lines by (simp only: read_nodes.simps r Let_def prod.case use_var_Some bindE.simps arr(1) vals len arr(3)
        nat_int of_nat_less_0_iff if_False arr(4) ih)
qed simp

lemma to_tree_cells:
  assumes "\<forall>j < length L. snd (L ! j) < int j"
    and "\<forall>i < length L. map (\<lambda>j. fst (L ! j)) (child_ids L (length L) i) = map snd (char_map (fst (L ! i)))"
    and "\<forall>(n, f) \<in> set L. node_wf n"
  shows "i < length L \<Longrightarrow> to_tree (cells L (length L)) i = fst (L ! i)"
proof (induction "length L - i" arbitrary: i rule: less_induct)
  case less
  let ?n = "fst (L ! i)"
  have sub: "to_tree (cells L (length L)) j = fst (L ! j) \<and> i < j" if "j \<in> set (child_ids L (length L) i)" for j
  proof -
    have j: "j < length L" "snd (L ! j) = int i" using that by (auto simp: child_ids_def)
    with assms(1) have "i < j" by fastforce
    with less j show ?thesis by simp
  qed
  have wf: "node_wf ?n" using assms(3) less.prems nth_mem by fastforce
  have "map (\<lambda>(k, j). (k, if i < j then to_tree (cells L (length L)) j else TrieNode k [] []))
       (map (\<lambda>j. (node_c (fst (L ! j)), j)) (child_ids L (length L) i))
      = map (\<lambda>n. (node_c n, n)) (map (\<lambda>j. fst (L ! j)) (child_ids L (length L) i))"
    using sub by simp
  also have "\<dots> = map (\<lambda>(k, n). (node_c n, n)) (char_map ?n)"
    using assms(2) less.prems by (simp add: comp_def case_prod_unfold)
  also have "\<dots> = char_map ?n"
    using wf by (cases ?n) (auto intro!: map_idI)
  finally show ?case
    using less.prems by (subst to_tree.simps) (simp add: cells_def)
qed

lemma tree_ok_cell: "tree_ok n \<Longrightarrow> cell_ok n"
  by (cases n) simp

lemma Read_trie_Save_text:
  assumes "node_wf r" "tree_ok r" "value_list r = []" "sz = node_count r" "int sz \<le> INT_MAX"
    and "d (path k num) = Some (trie_text sz r)"
  shows "Read_trie_file k num d t
     = Inr ((Set_valid (t\<lparr>root := Some r\<rparr>))\<lparr>trie_size := sz, store_in_array := True\<rparr>)"
proof -
  define L where "L = bfs [(r, - 1)] 0"
  note facts = listing_facts [OF L_def]
  have wf: "\<forall>(n, f) \<in> set L. node_wf n"
    unfolding L_def
  proof (rule bfs_all)
    show "node_wf c" if "node_wf n" "(k, c) \<in> set (char_map n)" for n k and c :: "nat TrieNode"
      using that by (cases n) auto
  qed (use assms(1) in simp)
  have ok: "\<forall>(n, f) \<in> set L. tree_ok n"
    unfolding L_def
  proof (rule bfs_all)
    show "tree_ok c" if "tree_ok n" "(k, c) \<in> set (char_map n)" for n k c
      using that by (cases n) auto
  qed (use assms(2) in simp)
  then have cell: "\<forall>(n, f) \<in> set L. cell_ok n" using tree_ok_cell by fastforce
  have dist: "\<forall>i < length L. distinct (map (\<lambda>j. node_c (fst (L ! j))) (child_ids L (length L) i))"
  proof (intro allI impI)
    fix i assume i: "i < length L"
    have n: "node_wf (fst (L ! i))" using wf i nth_mem by fastforce
    have "map (\<lambda>j. node_c (fst (L ! j))) (child_ids L (length L) i) = map node_c (map snd (char_map (fst (L ! i))))"
      using arg_cong [OF facts(6) [OF i], of "map node_c"] by (simp add: comp_def)
    also have "\<dots> = map fst (char_map (fst (L ! i)))" using n by (cases "fst (L ! i)") auto
    finally show "distinct (map (\<lambda>j. node_c (fst (L ! j))) (child_ids L (length L) i))"
      using n by (cases "fst (L ! i)") simp
  qed
  have len: "length L = sz" using facts(3) assms(4) by simp
  let ?rest = "concat (map node_line (drop (Suc 0) L))"
  have lines: "trie_text sz r = show_nat sz @ [newline] @ node_line (r, - 1) @ ?rest"
    using facts(1,2) by (cases L) (simp_all add: trie_text_def L_def [symmetric] del: bfs.simps)
  have n1: "in_int None (Some (trie_text sz r)) = (Some (int sz), Some ([newline] @ node_line (r, - 1) @ ?rest))"
    unfolding lines using in_int_show_nat [of "[]" "[newline] @ node_line (r, - 1) @ ?rest" sz None] assms(5) by simp
  obtain st1 st2 where r: "in_int None (Some ([newline] @ node_line (r, - 1) @ ?rest)) = (Some (- 1), st1)"
    "in_char None st1 = (Some (node_c r), st2)"
    "in_int None st2 = (Some 0, Some (('' '' @ [newline]) @ ?rest))"
    using node_line_read [OF _ tree_ok_cell [OF assms(2)], of "[newline]" "- 1" None ?rest None None] assms(3) by auto
  have c1: "cells L 1 = [(node_c r, [], [])]"
    using facts(2) assms(3) by (simp add: cells_def child_ids_def)
  have "read_nodes (nat (int sz) - 1) (Some (- 1)) (Some (node_c r)) (Some 0) (Some (('' '' @ [newline]) @ ?rest)) (cells L 1)
      = Inr (cells L (length L))"
    using facts(1,4,5) dist cell assms(5) len read_nodes_listing [of L 1 "sz - 1" "'' '' @ [newline]" "Some (- 1)" "Some (node_c r)" "Some 0"]
    by (simp add: gap_def c_isspace_def newline_def)
  moreover have "to_tree (cells L (length L)) 0 = r"
    using to_tree_cells [of L 0] facts(1,2,4,6) wf by simp
  moreover have "\<not> int sz < 1" using facts(1) len by simp
  ultimately show ?thesis
    using assms(6) n1 r by (simp add: Read_trie_file_def Open_existing_file_def use_var_Some c1 [unfolded One_nat_def])
qed

section \<open>Tries survive the disk\<close>

definition savable :: "nat Trie \<Rightarrow> bool" where
  "savable t \<longleftrightarrow> trie_ok t \<and> valid t \<and> int (trie_size t) \<le> INT_MAX
     \<and> (case root t of None \<Rightarrow> False | Some r \<Rightarrow> tree_ok r \<and> value_list r = [])"

lemma trie_roundtrip:
  assumes "savable t"
  shows "\<exists>t1 d1. Save_trie_file k num t d = Inr (t1, d1) \<and> \<not> valid t1
     \<and> (\<forall>p. p \<noteq> path k num \<longrightarrow> d1 p = d p)
     \<and> (\<forall>d2 t0. d2 (path k num) = d1 (path k num) \<longrightarrow>
          (\<exists>t2. Read_trie_file k num d2 t0 = Inr t2 \<and> (\<forall>q. trie_search q t2 = trie_search q t)
             \<and> savable t2 \<and> read_only t2 = read_only t0)) \<and> read_only t1"
proof -
  obtain r where r: "root t = Some r" "tree_ok r" "value_list r = []" "node_wf r" "trie_size t = node_count r"
    "int (trie_size t) \<le> INT_MAX" "valid t"
    using assms by (auto simp: savable_def trie_ok_def split: option.splits)
  let ?t1 = "SetReadOnly (Delete_tree t)"
  let ?d1 = "put k num (trie_text (trie_size t) r) (New_file k num d)"
  have save: "Save_trie_file k num t d = Inr (?t1, ?d1)" using r(1) by (simp add: Save_trie_file_def)
  have "\<exists>t2. Read_trie_file k num d2 t0 = Inr t2 \<and> (\<forall>q. trie_search q t2 = trie_search q t)
        \<and> savable t2 \<and> read_only t2 = read_only t0" if "d2 (path k num) = ?d1 (path k num)" for d2 t0
    using Read_trie_Save_text [OF r(4,2,3,5,6), of d2 k num t0] that r
    by (simp add: put_new Set_valid_def trie_search_def trie_ok_def savable_def)
  with save show ?thesis
    by (simp add: put_new_other) (simp add: SetReadOnly_def Delete_tree_def Set_unvalid_def)
qed

text \<open>
  C21. Writing a trie to its file and reading it back, whatever else was written to the disk in
  between, gives a trie that answers every search as before; it is read-only and still well formed.
  The characters of the words must be visible ones, no word empty, and the numbers \<^verbatim>\<open>int\<close>s.
\<close>

theorem trie_file_roundtrip:
  assumes "savable t"
  shows "\<exists>t1 d1. Save_trie_file k num t d = Inr (t1, d1) \<and> \<not> valid t1
     \<and> (\<forall>d2. d2 (path k num) = d1 (path k num) \<longrightarrow>
          (\<exists>t2. Read_trie_file k num d2 t1 = Inr t2 \<and> (\<forall>q. trie_search q t2 = trie_search q t)
             \<and> trie_ok t2 \<and> valid t2 \<and> read_only t2))"
proof -
  obtain t1 d1 where s: "Save_trie_file k num t d = Inr (t1, d1)" "\<not> valid t1" "read_only t1"
    "\<And>d2 t0. d2 (path k num) = d1 (path k num) \<Longrightarrow>
      \<exists>t2. Read_trie_file k num d2 t0 = Inr t2 \<and> (\<forall>q. trie_search q t2 = trie_search q t)
         \<and> savable t2 \<and> read_only t2 = read_only t0"
    using trie_roundtrip [OF assms, of k num d] by auto
  have "\<exists>t2. Read_trie_file k num d2 t1 = Inr t2 \<and> (\<forall>q. trie_search q t2 = trie_search q t)
      \<and> trie_ok t2 \<and> valid t2 \<and> read_only t2" if "d2 (path k num) = d1 (path k num)" for d2
    using s(4) [of d2 t1] that s(3) by (auto simp: savable_def)
  with s(1,2) show ?thesis by blast
qed

definition sample_trie :: "nat Trie" where
  "sample_trie = fold (\<lambda>(w, v). trie_insert False w v) [(''k1'', 0), (''k2'', 1), (''k1'', 2)] new_Trie"

lemma sample_trie_savable: "savable sample_trie"
proof -
  have "trie_ok sample_trie"
    using key_index.inv_fold [OF index_inv_new, of "[(''k1'', 0 :: nat), (''k2'', 1), (''k1'', 2)]"]
    by (simp add: sample_trie_def index_inv_def)
  moreover have "valid sample_trie \<and> int (trie_size sample_trie) \<le> INT_MAX
      \<and> (case root sample_trie of None \<Rightarrow> False | Some r \<Rightarrow> tree_ok r \<and> value_list r = [])"
    by code_simp
  ultimately show ?thesis by (simp add: savable_def)
qed

theorem trie_file_roundtrip_witness:
  "\<exists>t1 d1 t2. Save_trie_file KeyTrie 7 sample_trie Map.empty = Inr (t1, d1)
     \<and> Read_trie_file KeyTrie 7 d1 t1 = Inr t2 \<and> trie_search ''k1'' t2 = Some [0, 2]"
proof -
  have "trie_search ''k1'' sample_trie = Some [0, 2]" by code_simp
  with trie_file_roundtrip [OF sample_trie_savable, of KeyTrie 7 Map.empty] show ?thesis by metis
qed

text \<open>
  A bulk's offset and timestamp files read back as the lists that were written.
\<close>

lemma list_files_roundtrip:
  assumes "list_all (\<lambda>n. int n \<le> INT_MAX) os" and "int (length os) \<le> INT_MAX" and "int (length ts) \<le> INT_MAX"
  shows "Read_index_file num (Save_index_file num os d) = Inr os
     \<and> Read_timestamp_file num (Save_timestamp_file num ts d) = Inr ts"
  using Read_index_Save [OF assms(1,2), where d = "Save_index_file num os d" and d' = d]
    Read_timestamp_Save [OF assms(3), where d = "Save_timestamp_file num ts d" and d' = d] by blast

text \<open>
  A trie that holds the empty word is written to a file that ends the process when it is read
  back; only the check of \<^verbatim>\<open>Append_log\<close> for an empty key keeps the key trie from this.
\<close>

lemma empty_word_unreadable:
  assumes "root t = Some r" and "cell_ok r" and "value_list r \<noteq> []" and "int (trie_size t) \<le> INT_MAX" and "0 < trie_size t"
  shows "\<exists>t1 d1. Save_trie_file k num t d = Inr (t1, d1) \<and> Read_trie_file k num d1 t1 = Inl Exited"
proof -
  let ?d1 = "put k num (trie_text (trie_size t) r) (New_file k num d)"
  let ?rest = "concat (map node_line (drop (Suc 0) (bfs [(r, - 1)] 0)))"
  have lines: "trie_text (trie_size t) r = show_nat (trie_size t) @ [newline] @ node_line (r, - 1) @ ?rest"
    by (simp add: trie_text_def del: node_line.simps)
  have n1: "in_int None (Some (trie_text (trie_size t) r)) = (Some (int (trie_size t)), Some ([newline] @ node_line (r, - 1) @ ?rest))"
    unfolding lines using in_int_show_nat [of "[]" "[newline] @ node_line (r, - 1) @ ?rest" "trie_size t" None] assms(4) by simp
  obtain st1 st2 st3 where r: "in_int None (Some ([newline] @ node_line (r, - 1) @ ?rest)) = (Some (- 1), st1)"
    "in_char None st1 = (Some (node_c r), st2)" "in_int None st2 = (Some (int (length (value_list r))), st3)"
    using node_line_read [OF _ assms(2), of "[newline]" "- 1" None ?rest None None] by auto
  have "Read_trie_file k num ?d1 (SetReadOnly (Delete_tree t)) = Inl Exited"
    using n1 r assms(3,5) by (simp add: Read_trie_file_def Open_existing_file_def put_new use_var_Some del: node_line.simps bfs.simps)
  with assms(1) show ?thesis by (simp add: Save_trie_file_def)
qed

section \<open>Words with white space\<close>

text \<open>No edge of a trie that was read stands for white space: \<^verbatim>\<open>>> c\<close> never gives any.\<close>

definition seen_chars :: "char option \<Rightarrow> bool" where
  "seen_chars c \<longleftrightarrow> (case c of None \<Rightarrow> True | Some x \<Rightarrow> \<not> c_isspace x)"

definition edges_visible :: "cell list \<Rightarrow> bool" where
  "edges_visible arr \<longleftrightarrow> (\<forall>(c, kids, vs) \<in> set arr. \<forall>k \<in> fst ` set kids. \<not> c_isspace k)"

lemma in_char_visible: "in_char old st = (new, st') \<Longrightarrow> seen_chars old \<Longrightarrow> seen_chars new"
proof (cases st)
  case (Some s)
  moreover assume "in_char old st = (new, st')" "seen_chars old"
  ultimately show ?thesis using hd_dropWhile [of c_isspace s]
    by (cases "dropWhile c_isspace s") (auto simp: in_char_def seen_chars_def)
qed (auto simp: in_char_def)

lemma edges_visible_update:
  "edges_visible arr \<Longrightarrow> \<forall>k \<in> fst ` set (fst (snd cell)). \<not> c_isspace k \<Longrightarrow> edges_visible (arr[i := cell])"
  unfolding edges_visible_def by (auto simp: case_prod_unfold dest!: set_update_subset_insert [THEN subsetD])

lemma edges_visible_nth:
  "edges_visible arr \<Longrightarrow> i < length arr \<Longrightarrow> arr ! i = (c, kids, vs) \<Longrightarrow> \<forall>k \<in> fst ` set kids. \<not> c_isspace k"
  unfolding edges_visible_def by (metis (no_types, lifting) case_prodD nth_mem)

lemma link_cell_visible:
  assumes "link_cell f ch arr = Inr arr'" "edges_visible arr" "\<not> c_isspace ch"
  shows "edges_visible arr' \<and> length arr' = length arr"
proof -
  have f: "nat f < length arr" using assms(1) by (auto simp: link_cell_def split: if_splits)
  obtain fc kids vs where c: "arr ! nat f = (fc, kids, vs)" by (cases "arr ! nat f") auto
  have "arr' = arr[nat f := (fc, if ch \<in> fst ` set kids then kids else kids @ [(ch, length arr - 1)], vs)]"
    using assms(1) c by (simp add: link_cell_def split: if_splits)
  moreover have "\<forall>k \<in> fst ` set (if ch \<in> fst ` set kids then kids else kids @ [(ch, length arr - 1)]). \<not> c_isspace k"
    using edges_visible_nth [OF assms(2) f c] assms(3) by auto
  ultimately show ?thesis using edges_visible_update [OF assms(2)] by simp
qed

lemma read_nodes_visible:
  "read_nodes i father c len st arr = Inr arr' \<Longrightarrow> edges_visible arr \<Longrightarrow> seen_chars c \<Longrightarrow> edges_visible arr'"
proof (induction i arbitrary: father c len st arr)
  case (Suc i)
  obtain f' st1 where r1: "in_int father st = (f', st1)" by (cases "in_int father st")
  obtain c' st2 where r2: "in_char c st1 = (c', st2)" by (cases "in_char c st1")
  obtain l' st3 where r3: "in_int len st2 = (l', st3)" by (cases "in_int len st2")
  have c': "seen_chars c'" by (rule in_char_visible [OF r2 Suc.prems(3)])
  obtain fv ch n arr1 where v: "use_var f' = Inr fv" "use_var c' = Inr ch" "use_var l' = Inr n"
    "link_cell fv ch (arr @ [(ch, [], [])]) = Inr arr1" "\<not> n < 0"
    using Suc.prems(1) by (auto simp: r1 r2 r3 bindE_eq_Inr split: if_splits)
  obtain vs st4 where r4: "read_values (nat n) st3 = (vs, st4)" by (cases "read_values (nat n) st3")
  obtain xc kids ws where cell: "arr1 ! length arr = (xc, kids, ws)" by (cases "arr1 ! length arr") auto
  have rest: "read_nodes i f' c' l' st4 (arr1[length arr := (xc, kids, vs)]) = Inr arr'"
    using Suc.prems(1) by (simp add: r1 r2 r3 v r4 cell)
  have "c' = Some ch" using v(2) by (simp add: use_var_def split: option.splits)
  with c' have ch: "\<not> c_isspace ch" by (simp add: seen_chars_def)
  have "edges_visible (arr @ [(ch, [], [])])" using Suc.prems(2) by (auto simp: edges_visible_def)
  from link_cell_visible [OF v(4) this ch] have a1: "edges_visible arr1" "length arr1 = length arr + 1" by simp_all
  have "\<forall>k \<in> fst ` set kids. \<not> c_isspace k" using edges_visible_nth [OF a1(1) _ cell] a1(2) by simp
  then have "edges_visible (arr1[length arr := (xc, kids, vs)])" using edges_visible_update [OF a1(1)] by simp
  from Suc.IH [OF rest this c'] show ?case .
qed simp

lemma to_tree_visible:
  "edges_visible arr \<Longrightarrow> node_search q (to_tree arr i) = Some n \<Longrightarrow> list_all (\<lambda>c. \<not> c_isspace c) q"
proof (induction q arbitrary: i)
  case (Cons w q)
  have i: "i < length arr" using Cons.prems(2) by (auto simp: to_tree.simps [of arr i] split: if_splits)
  obtain c kids vs where cell: "arr ! i = (c, kids, vs)" by (cases "arr ! i") auto
  obtain child where child: "map_of (map (\<lambda>(k, j). (k, if i < j then to_tree arr j else TrieNode k [] [])) kids) w = Some child"
    "node_search q child = Some n"
    using Cons.prems(2) i cell by (simp add: to_tree.simps [of arr i] split: option.splits)
  then obtain j where j: "(w, j) \<in> set kids" "child = (if i < j then to_tree arr j else TrieNode w [] [])"
    by (auto dest!: map_of_SomeD)
  have "\<not> c_isspace w" using edges_visible_nth [OF Cons.prems(1) i cell] j(1) by force
  moreover have "list_all (\<lambda>c. \<not> c_isspace c) q"
  proof (cases "i < j")
    case True
    with Cons.IH [OF Cons.prems(1)] child(2) j(2) show ?thesis by simp
  next
    case False
    with child(2) j(2) show ?thesis by (cases q) simp_all
  qed
  ultimately show ?case by simp
qed simp

lemma read_trie_visible:
  assumes "Read_trie_file k num d t0 = Inr t2" "trie_search q t2 \<noteq> None"
  shows "list_all (\<lambda>c. \<not> c_isspace c) q"
proof -
  obtain s where s: "Open_existing_file k num d = Inr s" using assms(1) by (auto simp: Read_trie_file_def bindE_eq_Inr)
  obtain nn st where r0: "in_int None (Some s) = (nn, st)" by (cases "in_int None (Some s)")
  obtain fa st1 where r1: "in_int None st = (fa, st1)" by (cases "in_int None st")
  obtain c st2 where r2: "in_char None st1 = (c, st2)" by (cases "in_char None st1")
  obtain len st3 where r3: "in_int None st2 = (len, st3)" by (cases "in_int None st2")
  obtain n ch arr where v: "use_var c = Inr ch" "read_nodes (nat n - 1) fa c len st3 [(ch, [], [])] = Inr arr"
    "t2 = (Set_valid (t0\<lparr>root := Some (to_tree arr 0)\<rparr>))\<lparr>trie_size := nat n, store_in_array := True\<rparr>"
    using assms(1) by (auto simp: Read_trie_file_def s r0 r1 r2 r3 bindE_eq_Inr split: if_splits)
  have "seen_chars c" using in_char_visible [OF r2] by (simp add: seen_chars_def)
  with read_nodes_visible [OF v(2)] have "edges_visible arr" by (simp add: edges_visible_def)
  moreover obtain m where "node_search q (to_tree arr 0) = Some m"
    using assms(2) v(3) by (auto simp: trie_search_def Set_valid_def split: if_splits)
  ultimately show ?thesis by (rule to_tree_visible)
qed

text \<open>
  C29. A key with white space does not survive the disk.  Let a trie of any kind of file find such a word,
  with whatever numbers.  Saving the trie succeeds and empties it, so that no word is found; and
  after any read of a trie from the disk - from this file or from any other contents, into any trie -
  the word is not found: \<^verbatim>\<open>>> c\<close> skips the blank that a node stands for and takes the next character of
  the file instead.  (The key \<^verbatim>\<open>a%20b\<close> of a request is such a key, and the code appends it.)
\<close>

theorem blank_key_lost:
  assumes "trie_search q t = Some vs" and "list_ex c_isspace q"
  shows "\<exists>t1 d1. Save_trie_file k num t d = Inr (t1, d1) \<and> trie_search q t1 = None
     \<and> (\<forall>d2 t0 t2. Read_trie_file k num d2 t0 = Inr t2 \<longrightarrow> trie_search q t2 = None)"
proof -
  obtain r where "root t = Some r" using assms(1) by (auto simp: trie_search_def split: if_splits option.splits)
  moreover have "\<not> list_all (\<lambda>c. \<not> c_isspace c) q" using assms(2) by (auto simp: list_ex_iff list_all_iff)
  then have "Read_trie_file k num d2 t0 = Inr t2 \<Longrightarrow> trie_search q t2 = None" for d2 t0 t2
    using read_trie_visible by blast
  moreover have "trie_search q (SetReadOnly (Delete_tree t)) = None"
    by (simp add: trie_search_def SetReadOnly_def Delete_tree_def Set_unvalid_def)
  ultimately show ?thesis by (simp add: Save_trie_file_def)
qed

text \<open>With the key \<^verbatim>\<open>a b\<close> the file is read to its end, without an error, and the key is gone.\<close>

theorem blank_key_lost_witness:
  "\<exists>t1 d1 t2. trie_search ''a b'' (trie_insert False ''a b'' (5 :: nat) new_Trie) = Some [5]
     \<and> Save_trie_file KeyTrie 7 (trie_insert False ''a b'' 5 new_Trie) Map.empty = Inr (t1, d1)
     \<and> Read_trie_file KeyTrie 7 d1 t1 = Inr t2 \<and> trie_search ''a b'' t2 = None"
proof -
  let ?t = "trie_insert False ''a b'' 5 (new_Trie :: nat Trie)"
  have f: "trie_search ''a b'' ?t = Some [5]" by code_simp
  have e: "(case Save_trie_file KeyTrie 7 ?t Map.empty of Inl e \<Rightarrow> False | Inr (t1, d1) \<Rightarrow>
      (case Read_trie_file KeyTrie 7 d1 t1 of Inl e \<Rightarrow> False | Inr t2 \<Rightarrow> True))"
    by code_simp
  have "list_ex c_isspace ''a b''" by code_simp
  from blank_key_lost [OF f this, of KeyTrie 7 Map.empty] obtain t1 d1 where
    s: "Save_trie_file KeyTrie 7 ?t Map.empty = Inr (t1, d1)"
      "\<forall>t2. Read_trie_file KeyTrie 7 d1 t1 = Inr t2 \<longrightarrow> trie_search ''a b'' t2 = None" by blast
  with e f show ?thesis by (cases "Read_trie_file KeyTrie 7 d1 t1") simp_all
qed

end
