(* ===== verification/Bulk_Storage.thy ===== *)
theory Bulk_Storage
  imports Bulk_Search Log_File
begin

text \<open>
  Which bulks can be written to disk and read back.  A trie is \<open>grown_from\<close> a list of words when its
  nodes lie along these words; then the characters, the number of nodes and the lengths of the value
  lists are bounded by the words, so the tries of a bulk of storable entries meet what the file
  format needs.
\<close>

section \<open>Tries grown from words\<close>

definition grown_from :: "'v Trie \<Rightarrow> string list \<Rightarrow> bool" where
  "grown_from t ws \<longleftrightarrow> (\<exists>r. root t = Some r \<and> node_c r = CHR ''@''
     \<and> (\<forall>q. node_search q r \<noteq> None \<longrightarrow> q = [] \<or> (\<exists>w \<in> set ws. \<exists>rest. w = q @ rest))
     \<and> trie_size t \<le> 1 + sum_list (map length ws))"

lemma node_insert_size: "snd (node_insert low w v n s) \<le> s + length w"
proof (induction low w v n s rule: node_insert.induct)
  case (2 low w word v c m vs s)
  show ?case
  proof (cases "map_of m (fold_case low w)")
    case None
    with 2(1) [OF refl None] show ?thesis by (simp add: Let_def split_beta)
  next
    case (Some ch)
    with 2(2) [OF refl Some] show ?thesis by (simp add: Let_def split_beta)
  qed
qed simp

lemma grown_from_new: "grown_from new_Trie []"
  by (simp add: grown_from_def new_Trie_def Set_valid_def)

lemma grown_from_insert:
  assumes "index_inv t" "grown_from t ws"
  shows "grown_from (trie_insert low w v t) (ws @ [map (fold_case low) w])"
proof -
  obtain r where r: "root t = Some r" "node_c r = CHR ''@''" "trie_size t \<le> 1 + sum_list (map length ws)"
    "\<And>q. node_search q r \<noteq> None \<Longrightarrow> q = [] \<or> (\<exists>w \<in> set ws. \<exists>rest. w = q @ rest)"
    using assms(2) by (auto simp: grown_from_def)
  obtain r' s' where i: "node_insert low w v r (trie_size t) = (r', s')" by force
  have t: "trie_insert low w v t = t\<lparr>root := Some r', trie_size := s'\<rparr>"
    using assms(1) r(1) i by (simp add: trie_insert_def index_inv_def)
  have "node_c r' = CHR ''@''" using node_insert_c [of low w v r "trie_size t"] i r(2) by simp
  moreover have "q = [] \<or> (\<exists>x \<in> set (ws @ [map (fold_case low) w]). \<exists>rest. x = q @ rest)"
    if "node_search q r' \<noteq> None" for q
    using node_search_insert_None [of q low w v r "trie_size t"] i that r(4) [of q] by auto
  moreover have "s' \<le> 1 + sum_list (map length (ws @ [map (fold_case low) w]))"
    using node_insert_size [of low w v r "trie_size t"] i r(3) by simp
  ultimately show ?thesis by (simp add: t grown_from_def)
qed

lemma grown_from_words:
  "index_inv t \<Longrightarrow> grown_from t ws \<Longrightarrow>
   grown_from (fold (\<lambda>w. trie_insert True w v) xs t) (ws @ map (map (fold_case True)) xs)"
proof (induction xs arbitrary: t ws)
  case (Cons x xs)
  from Cons.IH [OF index_inv_insert [OF Cons.prems(1)] grown_from_insert [OF Cons.prems, of True x v]]
  show ?case by simp
qed simp

text \<open>A well-formed tree meets a condition on nodes when every node found along a path does.\<close>

lemma tree_ok_search:
  "node_wf r \<Longrightarrow> (\<And>q n. node_search q r = Some n \<Longrightarrow> cell_ok n) \<Longrightarrow> tree_ok r"
proof (induction r)
  case (TrieNode c m vs)
  have "tree_ok n" if kn: "(k, n) \<in> set m" for k n
  proof -
    have look: "map_of m k = Some n" using TrieNode.prems(1) kn by simp
    have "node_wf n" using TrieNode.prems(1) kn by auto
    moreover have "cell_ok n'" if "node_search q n = Some n'" for q n'
      using TrieNode.prems(2) [of "k # q" n'] that look by simp
    ultimately show ?thesis using TrieNode.IH kn by (metis snds.intros prod_set_simps(2) insertI1 snd_conv)
  qed
  moreover have "cell_ok (TrieNode c m vs)" using TrieNode.prems(2) [of "[]"] by simp
  ultimately show ?case by auto
qed

lemma node_search_c:
  "node_wf n \<Longrightarrow> node_search (q @ [c]) n = Some n1 \<Longrightarrow> node_c n1 = c"
proof (induction q arbitrary: n)
  case Nil
  obtain d m vs where n: "n = TrieNode d m vs" by (cases n)
  with Nil show ?case using map_of_wf [of d m vs c n1] by (auto split: option.splits)
next
  case (Cons a q)
  obtain d m vs where n: "n = TrieNode d m vs" by (cases n)
  from Cons.prems(2) n obtain ch where "map_of m a = Some ch" "node_search (q @ [c]) ch = Some n1"
    by (auto split: option.splits)
  with Cons n map_of_wf [of d m vs a ch] show ?case by auto
qed

definition visible :: "string \<Rightarrow> bool" where
  "visible w \<longleftrightarrow> list_all (\<lambda>c. \<not> c_isspace c) w"

lemma grown_savable:
  assumes "index_inv t" "grown_from t ws" "\<forall>w \<in> set ws. visible w"
    and "\<And>q. list_all (\<lambda>v. int v \<le> INT_MAX) (trie_list t q) \<and> int (length (trie_list t q)) \<le> INT_MAX"
    and "trie_list t [] = []" "int (1 + sum_list (map length ws)) \<le> INT_MAX"
  shows "savable t"
proof -
  obtain r where r: "root t = Some r" "node_c r = CHR ''@''" "trie_size t \<le> 1 + sum_list (map length ws)"
    "\<And>q. node_search q r \<noteq> None \<Longrightarrow> q = [] \<or> (\<exists>w \<in> set ws. \<exists>rest. w = q @ rest)"
    using assms(2) by (auto simp: grown_from_def)
  have wf: "node_wf r" using assms(1) r(1) by (simp add: index_inv_def trie_ok_def)
  have list: "value_list n = trie_list t q" if "node_search q r = Some n" for q n
    using that r(1) assms(1) by (simp add: trie_list_def trie_search_def index_inv_def)
  have vis: "\<not> c_isspace (node_c n)" if n: "node_search q r = Some n" for q n
  proof (cases q rule: rev_cases)
    case Nil
    with n r(2) show ?thesis by (simp add: c_isspace_def)
  next
    case (snoc p c)
    then obtain w rest where "w \<in> set ws" "w = (p @ [c]) @ rest" using r(4) [of q] n by auto
    moreover have "node_c n = c" using node_search_c [OF wf] n snoc by blast
    ultimately show ?thesis using assms(3) by (auto simp: visible_def)
  qed
  have "tree_ok r"
  proof (rule tree_ok_search [OF wf])
    fix q n assume n: "node_search q r = Some n"
    from vis [OF n] list [OF n] assms(4) [of q] show "cell_ok n" by (simp add: cell_ok_def)
  qed
  moreover have "value_list r = []" using list [of "[]" r] assms(5) by simp
  ultimately show ?thesis
    using assms(1,6) r(1,3) by (simp add: savable_def index_inv_def)
qed

section \<open>Storable entries\<close>

text \<open>
  A storable entry has a non-empty key of visible characters and no carriage return, vertical tab or
  form feed in its text: these are white space for \<^verbatim>\<open>>> c\<close> but no word delimiters.
\<close>

definition storable :: "log_entry \<Rightarrow> bool" where
  "storable e \<longleftrightarrow> entry_ok e \<and> le_key e \<noteq> [] \<and> visible (le_key e)
     \<and> list_all (\<lambda>c. c_isspace c \<longrightarrow> is_delim c) (le_content e)"

lemma Split_words: "w \<in> set (Split_key_word s) \<Longrightarrow> w \<noteq> [] \<and> list_all (\<lambda>c. \<not> is_delim c) w \<and> set w \<subseteq> set s"
proof (induction s rule: Split_key_word.induct)
  case (1 s)
  show ?case
  proof (cases "strtok_r s")
    case None
    with 1(2) show ?thesis by (subst (asm) Split_key_word.simps) simp
  next
    case (Some p)
    obtain x rest where p: "p = (x, rest)" by force
    define t where "t = dropWhile is_delim s"
    have t: "t \<noteq> []" "x = takeWhile (\<lambda>c. \<not> is_delim c) t" "rest = drop 1 (dropWhile (\<lambda>c. \<not> is_delim c) t)"
      using Some p by (auto simp: strtok_r_def t_def Let_def split: if_splits)
    have "set t \<subseteq> set s" unfolding t_def by (rule set_dropWhileD [THEN subsetI])
    moreover have "set rest \<subseteq> set t" unfolding t(3) by (auto dest: in_set_dropD set_dropWhileD)
    moreover have "set x \<subseteq> set t" unfolding t(2) by (auto dest: set_takeWhileD)
    moreover have "\<not> is_delim (hd t)" using hd_dropWhile t(1) unfolding t_def by blast
    then have "x \<noteq> []" using t(1,2) by (cases t) auto
    moreover have "list_all (\<lambda>c. \<not> is_delim c) x" unfolding t(2) by (auto simp: list_all_iff dest: set_takeWhileD)
    moreover have "w = x \<or> w \<in> set (Split_key_word rest)"
      using 1(2) Some p by (subst (asm) Split_key_word.simps) simp
    ultimately show ?thesis using 1(1) [OF Some p [symmetric]] by blast
  qed
qed

lemma isspace_code: "c_isspace c \<Longrightarrow> (of_char c :: nat) \<le> 32"
  by (auto simp: c_isspace_def)

lemma fold_case_space: "c_isspace (fold_case low c) = c_isspace c"
proof (cases "low \<and> CHR ''A'' \<le> c \<and> c \<le> CHR ''Z''")
  case True
  then have "65 \<le> (of_char c :: nat)" "(of_char c :: nat) \<le> 90" by (auto simp: less_eq_char_def)
  moreover have "fold_case low c = char_of (of_char c + (32 :: nat))" using True by (simp add: fold_case_def)
  moreover have "(of_char (char_of (of_char c + (32 :: nat)) :: char) :: nat) = of_char c + 32"
    using calculation(2) by (simp add: of_char_of take_bit_nat_eq_self mod_less)
  ultimately have "\<not> (of_char (fold_case low c) :: nat) \<le> 32" "\<not> (of_char c :: nat) \<le> 32" by simp_all
  with isspace_code show ?thesis by blast
qed (auto simp: fold_case_def)

lemma storable_words:
  assumes "storable e" "w \<in> set (words_of e)"
  shows "visible w \<and> w \<noteq> []"
proof -
  obtain x where x: "x \<in> set (Split_key_word (le_content e))" "w = map (fold_case True) x"
    using assms(2) by (auto simp: words_of_def)
  with Split_words [OF x(1)] assms(1) show ?thesis
    by (auto simp: visible_def storable_def list_all_iff fold_case_space)
qed

section \<open>The tries of a bulk\<close>

definition bulk_grown :: "MemoryBulk \<Rightarrow> log_entry list \<Rightarrow> bool" where
  "bulk_grown b ls \<longleftrightarrow> grown_from (key_serial_trie (mb_index b)) (map le_key ls)
     \<and> grown_from (keyword_serial_trie (mb_index b)) (concat (map words_of ls))"

lemma bulk_grown_new: "bulk_grown ((new_MemoryBulk serial)\<lparr>data := d\<rparr>) []"
  by (simp add: bulk_grown_def new_MemoryBulk_def new_BulkIndex_def grown_from_new)

lemma bulk_grown_Build_index:
  assumes "bulk_repr b ls" "bulk_grown b ls"
  shows "bulk_grown (mb_Build_index off (le_content e) (le_key e) (le_time e) b) (ls @ [e])"
proof -
  have inv: "index_inv (key_serial_trie (mb_index b))" "index_inv (keyword_serial_trie (mb_index b))"
    using assms(1) by (simp_all add: bulk_repr_def index_repr_def)
  have id: "map (fold_case False) w = w" for w by (induction w) (auto simp: fold_case_def)
  show ?thesis
    using grown_from_insert [OF inv(1), of "map le_key ls" False "le_key e" "mb_size b"]
      grown_from_words [OF inv(2), of "concat (map words_of ls)" "mb_size b" "Split_key_word (le_content e)"] assms(2)
    by (simp add: bulk_grown_def mb_Build_index_def Let_def id words_of_def)
qed

lemma Split_total: "sum_list (map length (Split_key_word s)) \<le> length s"
proof (induction s rule: Split_key_word.induct)
  case (1 s)
  show ?case
  proof (cases "strtok_r s")
    case None
    then show ?thesis by (subst Split_key_word.simps) simp
  next
    case (Some p)
    obtain x rest where p: "p = (x, rest)" by force
    define t where "t = dropWhile is_delim s"
    have "x = takeWhile (\<lambda>c. \<not> is_delim c) t" "rest = drop 1 (dropWhile (\<lambda>c. \<not> is_delim c) t)"
      using Some p by (auto simp: strtok_r_def t_def Let_def split: if_splits)
    moreover have "length (takeWhile (\<lambda>c. \<not> is_delim c) t) + length (dropWhile (\<lambda>c. \<not> is_delim c) t) = length t"
      by (metis length_append takeWhile_dropWhile_id)
    ultimately have "length x + length rest \<le> length t" by simp
    moreover have "length t \<le> length s" unfolding t_def by (rule length_dropWhile_le)
    ultimately show ?thesis using 1 [OF Some p [symmetric]] Some p by (subst Split_key_word.simps) simp
  qed
qed

lemma line_length: "length (le_key e) + length (le_content e) + 1 \<le> length (line_of e)"
  by (simp add: line_of_def format_line_def)

lemma sum_le_text:
  "(\<And>e. f e \<le> length (line_of e)) \<Longrightarrow> sum_list (map f ls) \<le> length (text_of ls)"
  by (induction ls) (auto simp: text_of_def add_mono)

lemma keys_total: "sum_list (map length (map le_key ls)) \<le> length (text_of ls)"
proof -
  have "length (le_key e) \<le> length (line_of e)" for e using line_length [of e] by linarith
  then show ?thesis using sum_le_text [of "\<lambda>e. length (le_key e)" ls] by (simp add: comp_def)
qed

lemma words_total: "sum_list (map length (concat (map words_of ls))) \<le> length (text_of ls)"
proof -
  have "sum_list (map length (concat (map words_of ls))) = sum_list (map (\<lambda>e. sum_list (map length (words_of e))) ls)"
    by (induction ls) auto
  also have "\<dots> \<le> length (text_of ls)"
  proof (rule sum_le_text)
    fix e show "sum_list (map length (words_of e)) \<le> length (line_of e)"
      using Split_total [of "le_content e"] line_length [of e] by (simp add: words_of_def comp_def)
  qed
  finally show ?thesis .
qed

lemma entries_le_text: "length ls \<le> length (text_of ls)"
proof -
  have "1 \<le> length (line_of e)" for e using line_length [of e] by linarith
  then show ?thesis using sum_le_text [of "\<lambda>_. 1" ls] by (simp add: sum_list_triv)
qed

lemma length_serials_of_word: "\<forall>e \<in> set ls. storable e \<Longrightarrow> length (serials_of_word q ls) \<le> length (text_of ls)"
proof -
  assume st: "\<forall>e \<in> set ls. storable e"
  have "length (serials_of_word q ls) = sum_list (map (\<lambda>i. count_list (words_of (ls ! i)) q) [0..<length ls])"
    by (simp add: serials_of_word_def length_concat comp_def)
  also have "\<dots> = sum_list (map (\<lambda>e. count_list (words_of e) q) (map ((!) ls) [0..<length ls]))"
    by (simp add: comp_def)
  also have "\<dots> = sum_list (map (\<lambda>e. count_list (words_of e) q) ls)" by (simp only: map_nth)
  also have "\<dots> \<le> sum_list (map (\<lambda>e. sum_list (map length (words_of e))) ls)"
  proof (rule sum_list_mono)
    fix e assume e: "e \<in> set ls"
    have "count_list ws q \<le> sum_list (map length ws)" if "\<forall>w \<in> set ws. w \<noteq> []" for ws :: "string list"
      using that
    proof (induction ws)
      case (Cons w ws)
      then have "1 \<le> length w" by (simp add: Suc_le_eq)
      moreover have "count_list ws q \<le> sum_list (map length ws)" using Cons by simp
      ultimately show ?case by (cases "w = q") simp_all
    qed simp
    then show "count_list (words_of e) q \<le> sum_list (map length (words_of e))"
      using st e storable_words by blast
  qed
  also have "\<dots> = sum_list (map length (concat (map words_of ls)))" by (induction ls) auto
  finally show ?thesis using words_total [of ls] by simp
qed

lemma bulk_tries_savable:
  assumes "bulk_repr b ls" "bulk_grown b ls" "\<forall>e \<in> set ls. storable e"
  shows "savable (key_serial_trie (mb_index b))" "savable (keyword_serial_trie (mb_index b))"
proof -
  note ix = assms(1) [unfolded bulk_repr_def index_repr_def]
  have room: "length (text_of ls) < 2 ^ 21" using assms(1) by (simp add: bulk_repr_def BULKSIZE_def)
  have n: "length ls < 2 ^ 21" using entries_le_text [of ls] room by linarith
  show "savable (key_serial_trie (mb_index b))"
  proof (rule grown_savable)
    show "grown_from (key_serial_trie (mb_index b)) (map le_key ls)" using assms(2) by (simp add: bulk_grown_def)
    show "\<forall>w \<in> set (map le_key ls). visible w" using assms(3) by (simp add: storable_def)
    show "int (1 + sum_list (map length (map le_key ls))) \<le> INT_MAX"
      using keys_total [of ls] room by (simp add: INT_MAX_def)
    have "serials_of_key [] ls = []" using assms(3) by (auto simp: serials_of_key_def filter_empty_conv storable_def)
    then show "trie_list (key_serial_trie (mb_index b)) [] = []" using ix by simp
    show "list_all (\<lambda>v. int v \<le> INT_MAX) (trie_list (key_serial_trie (mb_index b)) q)
      \<and> int (length (trie_list (key_serial_trie (mb_index b)) q)) \<le> INT_MAX" for q
    proof -
      have "length (serials_of_key q ls) \<le> length ls"
        unfolding serials_of_key_def by (metis length_filter_le length_upt minus_nat.diff_0)
      with ix n show ?thesis by (auto simp: list_all_iff serials_of_key_def INT_MAX_def)
    qed
  qed (use ix in simp)
  show "savable (keyword_serial_trie (mb_index b))"
  proof (rule grown_savable)
    show "grown_from (keyword_serial_trie (mb_index b)) (concat (map words_of ls))" using assms(2) by (simp add: bulk_grown_def)
    show "\<forall>w \<in> set (concat (map words_of ls)). visible w" using assms(3) storable_words by auto
    show "int (1 + sum_list (map length (concat (map words_of ls)))) \<le> INT_MAX"
      using words_total [of ls] room by (simp add: INT_MAX_def)
    have "serials_of_word [] ls = []"
      using assms(3) storable_words by (force simp: serials_of_word_def count_list_0_iff)
    then show "trie_list (keyword_serial_trie (mb_index b)) [] = []" using ix by simp
    show "list_all (\<lambda>v. int v \<le> INT_MAX) (trie_list (keyword_serial_trie (mb_index b)) q)
      \<and> int (length (trie_list (keyword_serial_trie (mb_index b)) q)) \<le> INT_MAX" for q
    proof -
      have "length (serials_of_word q ls) < 2 ^ 21" using length_serials_of_word [OF assms(3), of q] room by linarith
      with ix n show ?thesis by (auto simp: list_all_iff serials_of_word_def INT_MAX_def)
    qed
  qed (use ix in simp)
qed

end
