(* ===== verification/Timer_Wheel.thy ===== *)
theory Timer_Wheel
  imports Prelude Config "HOL-Library.Multiset"
begin

text \<open>
  \<^verbatim>\<open>include/TimerWheel.h\<close>: three linked wheels of twenty slots, of 100 ms, 2 s and 40 s a slot.  A
  slot is the list of its timer units, head first; a unit is known by a number (its address), its
  \<^verbatim>\<open>location_\<close> is the wheel and slot it stands in, and \<open>timer_unit\<close> is the back pointer every
  member keeps.  No \<^verbatim>\<open>Act\<close> of the program touches a wheel, so \<open>Tick\<close> returns the units it
  fires, in the order in which it calls them.
\<close>

section \<open>Units, slots and wheels\<close>

record 'm TimerUnit =
  uid :: nat
  tu_member :: 'm
  tu_time :: int
  past_time :: int
  location :: "(nat \<times> nat) option"

record 'm TimerWheel =
  slot_list :: "'m TimerUnit list list"
  current_index :: nat
  interval :: int

record 'm TimerWheelSet =
  wheels :: "'m TimerWheel list"
  timer_unit :: "'m \<Rightarrow> nat option"
  next_uid :: nat

definition N_SLOTS :: nat where
  "N_SLOTS = 20"

definition new_TimerWheel :: "int \<Rightarrow> 'm TimerWheel" where
  "new_TimerWheel i = \<lparr>slot_list = replicate N_SLOTS [], current_index = 0, interval = i\<rparr>"

definition new_TimerWheelSet :: "'m TimerWheelSet" where
  "new_TimerWheelSet = \<lparr>wheels = [new_TimerWheel PERSISTENCE_SLEEP_TIME,
       new_TimerWheel (PERSISTENCE_SLEEP_TIME * 20), new_TimerWheel (PERSISTENCE_SLEEP_TIME * 20 * 20)],
     timer_unit = (\<lambda>_. None), next_uid = 0\<rparr>"

text \<open>\<open>int\<close> division of a negative rest truncates in the source; either way the offset is then one.\<close>

definition slot_offset :: "int \<Rightarrow> int \<Rightarrow> nat" where
  "slot_offset rest i =
     (let o1 = rest div i in if o1 \<ge> int N_SLOTS then N_SLOTS - 1 else if o1 < 1 then 1 else nat o1)"

definition slot_Insert :: "nat \<Rightarrow> nat \<Rightarrow> 'm TimerUnit \<Rightarrow> 'm TimerWheel list \<Rightarrow> 'm TimerWheel list" where
  "slot_Insert k i u ws =
     ws[k := (ws ! k)\<lparr>slot_list := (slot_list (ws ! k))[i := u\<lparr>location := Some (k, i)\<rparr> # slot_list (ws ! k) ! i]\<rparr>]"

text \<open>Wheel \<open>k\<close> is linked to wheel \<open>k + 1\<close> by \<^verbatim>\<open>next_timer_wheel_\<close>; the last has none.\<close>

function AddTimer_unit :: "nat \<Rightarrow> 'm TimerUnit \<Rightarrow> 'm TimerWheel list \<Rightarrow> 'm TimerWheel list" where
  "AddTimer_unit k u ws =
     (let w = ws ! k; rest = tu_time u - past_time u
      in if rest < int N_SLOTS * interval w \<or> \<not> k + 1 < length ws
         then let off = slot_offset rest (interval w);
                  insert_index = (current_index w + off) mod N_SLOTS
              in slot_Insert k insert_index (u\<lparr>past_time := past_time u + (int off - 1) * interval w\<rparr>) ws
         else AddTimer_unit (k + 1)
                (u\<lparr>past_time := past_time u + (int N_SLOTS - int (current_index w)) * interval w\<rparr>) ws)"
  by pat_completeness auto
termination
  by (relation "measure (\<lambda>(k, u, ws). length ws - k)") auto

declare AddTimer_unit.simps [simp del]

definition AddTimer :: "'m \<Rightarrow> int \<Rightarrow> 'm TimerWheelSet \<Rightarrow> 'm TimerWheelSet" where
  "AddTimer obj t s =
     (if t \<le> 0 then s
      else let u = \<lparr>uid = next_uid s, tu_member = obj, tu_time = t, past_time = 0, location = None\<rparr>;
               w = wheels s ! 0
           in s\<lparr>wheels :=
                 (if t < int N_SLOTS * interval w
                  then slot_Insert 0 ((current_index w + slot_offset t (interval w)) mod N_SLOTS) u (wheels s)
                  else AddTimer_unit 1
                         (u\<lparr>past_time := (int N_SLOTS - int (current_index w)) * interval w\<rparr>) (wheels s)),
                timer_unit := (timer_unit s)(obj := Some (next_uid s)),
                next_uid := next_uid s + 1\<rparr>)"

definition units :: "'m TimerWheel list \<Rightarrow> 'm TimerUnit list" where
  "units ws = concat (map (\<lambda>w. concat (slot_list w)) ws)"

text \<open>
  \<^verbatim>\<open>location_->Delete(unit)\<close> unlinks the unit and frees it, which resets its member's back pointer.
\<close>

definition DelTimer :: "'m \<Rightarrow> 'm TimerWheelSet \<Rightarrow> 'm TimerWheelSet" where
  "DelTimer obj s =
     (case timer_unit s obj of
        None \<Rightarrow> s
      | Some n \<Rightarrow>
          (case find (\<lambda>u. uid u = n) (units (wheels s)) of
             None \<Rightarrow> s
           | Some u \<Rightarrow>
               (case location u of
                  None \<Rightarrow> s
                | Some (k, i) \<Rightarrow>
                    s\<lparr>wheels := (wheels s)[k := (wheels s ! k)\<lparr>slot_list :=
                          (slot_list (wheels s ! k))[i := filter (\<lambda>x. uid x \<noteq> n) (slot_list (wheels s ! k) ! i)]\<rparr>],
                      timer_unit := (timer_unit s)(tu_member u := None)\<rparr>)))"

text \<open>
  A unit popped from an outer wheel fires when it is due and goes to the wheel before otherwise.
  The new slot is never the slot being emptied (\<open>slot_offset\<close> is between 1 and 19), so the loop
  empties the slot as it was found.
\<close>

fun move_units :: "nat \<Rightarrow> 'm TimerUnit list \<Rightarrow> 'm TimerWheel list \<Rightarrow> 'm TimerUnit list \<times> 'm TimerWheel list" where
  "move_units k [] ws = ([], ws)"
| "move_units k (u # us) ws =
     (let rest = tu_time u - past_time u
      in if rest \<le> 0 \<or> rest mod (int N_SLOTS * interval (ws ! k)) = 0
         then let (fired, ws') = move_units k us ws in (u # fired, ws')
         else move_units k us (AddTimer_unit (k - 1) u ws))"

definition pop_slot :: "nat \<Rightarrow> nat \<Rightarrow> 'm TimerWheel list \<Rightarrow> 'm TimerUnit list \<times> 'm TimerWheel list" where
  "pop_slot k c ws =
     (map (\<lambda>u. u\<lparr>location := None\<rparr>) (slot_list (ws ! k) ! c),
      ws[k := (ws ! k)\<lparr>current_index := c, slot_list := (slot_list (ws ! k))[c := []]\<rparr>])"

lemma length_AddTimer_unit [simp]: "length (AddTimer_unit k u ws) = length ws"
  by (induction k u ws rule: AddTimer_unit.induct)
     (subst AddTimer_unit.simps, auto simp: Let_def slot_Insert_def)

lemma length_move_units: "length (snd (move_units k us ws)) = length ws"
  by (induction k us ws rule: move_units.induct) (auto simp: Let_def split: prod.split)

definition turn_wheel :: "nat \<Rightarrow> nat \<Rightarrow> 'm TimerWheel list \<Rightarrow> 'm TimerUnit list \<times> 'm TimerWheel list" where
  "turn_wheel k c ws = (let (us, ws1) = pop_slot k c ws in if k = 0 then (us, ws1) else move_units k us ws1)"

lemma length_turn_wheel: "length (snd (turn_wheel k c ws)) = length ws"
  by (simp add: turn_wheel_def pop_slot_def length_move_units)

function tick_wheel :: "nat \<Rightarrow> 'm TimerWheel list \<Rightarrow> 'm TimerUnit list \<times> 'm TimerWheel list" where
  "tick_wheel k ws =
     (let c = (current_index (ws ! k) + 1) mod N_SLOTS;
          (fired, ws') = turn_wheel k c ws
      in if c = 0 \<and> k + 1 < length ws
         then let (fired', ws'') = tick_wheel (k + 1) ws' in (fired @ fired', ws'')
         else (fired, ws'))"
  by pat_completeness auto
termination
proof (relation "measure (\<lambda>(k, ws). length ws - k)", goal_cases)
  case (2 k ws c p fired ws')
  then have "length ws' = length ws" using length_turn_wheel [of k c ws] by (metis snd_conv)
  with 2 show ?case by auto
qed simp

declare tick_wheel.simps [simp del]

lemma tick_wheel_step:
  assumes "c = (current_index (ws ! k) + 1) mod N_SLOTS" "turn_wheel k c ws = (fired, ws')"
  shows "tick_wheel k ws = (if c = 0 \<and> k + 1 < length ws
     then (fired @ fst (tick_wheel (k + 1) ws'), snd (tick_wheel (k + 1) ws')) else (fired, ws'))"
  using assms by (subst tick_wheel.simps) (simp add: Let_def split: prod.split)

definition Tick :: "'m TimerWheelSet \<Rightarrow> 'm TimerUnit list \<times> 'm TimerWheelSet" where
  "Tick s = (let (fired, ws) = tick_wheel 0 (wheels s)
     in (fired, s\<lparr>wheels := ws, timer_unit := fold (\<lambda>u f. f(tu_member u := None)) fired (timer_unit s)\<rparr>))"

section \<open>Well-formed wheels\<close>

definition slots_of :: "nat \<Rightarrow> nat \<Rightarrow> 'm TimerWheel list \<Rightarrow> 'm TimerUnit list" where
  "slots_of k i ws = slot_list (ws ! k) ! i"

definition wheels_wf :: "'m TimerWheel list \<Rightarrow> bool" where
  "wheels_wf ws \<longleftrightarrow> map interval ws = [100, 2000, 40000]
     \<and> (\<forall>w \<in> set ws. length (slot_list w) = N_SLOTS \<and> current_index w < N_SLOTS)"

lemma wheels_wfD:
  assumes "wheels_wf ws"
  shows "length ws = 3" "interval (ws ! 0) = 100" "interval (ws ! 1) = 2000" "interval (ws ! 2) = 40000"
    "k < 3 \<Longrightarrow> length (slot_list (ws ! k)) = N_SLOTS \<and> current_index (ws ! k) < N_SLOTS"
proof -
  have m: "map interval ws = [100, 2000, 40000]" using assms by (simp add: wheels_wf_def)
  then show len: "length ws = 3" by (metis length_map list.size(3,4) numeral_3_eq_3 One_nat_def add_Suc_right add_0_right)
  show "interval (ws ! 0) = 100" "interval (ws ! 1) = 2000" "interval (ws ! 2) = 40000"
    using m len nth_map [of 0 ws interval] nth_map [of 1 ws interval] nth_map [of 2 ws interval] by simp_all
  show "k < 3 \<Longrightarrow> length (slot_list (ws ! k)) = N_SLOTS \<and> current_index (ws ! k) < N_SLOTS"
    using assms len by (simp add: wheels_wf_def)
qed

lemma new_wheels_wf: "wheels_wf (wheels new_TimerWheelSet)"
  by (simp add: new_TimerWheelSet_def new_TimerWheel_def wheels_wf_def N_SLOTS_def config_defs)

lemma wheels_wf_update:
  assumes "wheels_wf ws" "k < 3" "interval w = interval (ws ! k)" "length (slot_list w) = N_SLOTS" "current_index w < N_SLOTS"
  shows "wheels_wf (ws[k := w])"
proof -
  have "map interval (ws[k := w]) = map interval ws"
    using assms(2,3) wheels_wfD(1) [OF assms(1)] by (simp add: map_update list_update_same_conv)
  moreover have "\<forall>v \<in> set (ws[k := w]). length (slot_list v) = N_SLOTS \<and> current_index v < N_SLOTS"
    using assms set_update_subset_insert [of ws k w] by (auto simp: wheels_wf_def)
  ultimately show ?thesis using assms(1) by (simp add: wheels_wf_def)
qed

lemma slot_offset_range: "1 \<le> slot_offset r i \<and> slot_offset r i < N_SLOTS"
  by (auto simp: slot_offset_def N_SLOTS_def Let_def)

lemma slot_Insert_wf:
  assumes "wheels_wf ws" "k < 3"
  shows "wheels_wf (slot_Insert k i u ws)"
  unfolding slot_Insert_def using assms wheels_wfD(5) [OF assms] by (intro wheels_wf_update) auto

lemma AddTimer_unit_wf: "wheels_wf ws \<Longrightarrow> k < 3 \<Longrightarrow> wheels_wf (AddTimer_unit k u ws)"
proof (induction k u ws rule: AddTimer_unit.induct)
  case (1 k u ws)
  then show ?case using wheels_wfD(1) [OF 1(2)]
    by (subst AddTimer_unit.simps) (auto simp: Let_def slot_Insert_wf)
qed

lemma move_units_wf: "wheels_wf ws \<Longrightarrow> k < 3 \<Longrightarrow> wheels_wf (snd (move_units k us ws))"
  by (induction k us ws rule: move_units.induct) (auto simp: Let_def AddTimer_unit_wf split: prod.split)

lemma pop_slot_wf: "wheels_wf ws \<Longrightarrow> k < 3 \<Longrightarrow> c < N_SLOTS \<Longrightarrow> wheels_wf (snd (pop_slot k c ws))"
  unfolding pop_slot_def using wheels_wfD(5) [of ws k] by (auto intro!: wheels_wf_update)

lemma turn_wheel_wf: "wheels_wf ws \<Longrightarrow> k < 3 \<Longrightarrow> c < N_SLOTS \<Longrightarrow> wheels_wf (snd (turn_wheel k c ws))"
  using pop_slot_wf [of ws k c] by (auto simp: turn_wheel_def move_units_wf split: prod.split)

lemma next_slot_less: "(i + 1) mod N_SLOTS < N_SLOTS"
  by (simp add: N_SLOTS_def)

lemma tick_wheel_wf: "wheels_wf ws \<Longrightarrow> k < 3 \<Longrightarrow> wheels_wf (snd (tick_wheel k ws))"
proof (induction k ws rule: tick_wheel.induct)
  case (1 k ws)
  define c where "c = (current_index (ws ! k) + 1) mod N_SLOTS"
  obtain fired ws' where t: "turn_wheel k c ws = (fired, ws')" by force
  have w': "wheels_wf ws'"
    using turn_wheel_wf [OF 1(2,3), of c] t next_slot_less by (simp add: c_def)
  show ?case
  proof (cases "c = 0 \<and> k + 1 < length ws")
    case True
    then have "k + 1 < 3" using wheels_wfD(1) [OF 1(2)] by simp
    with 1(1) [OF c_def t [symmetric] refl True w'] show ?thesis
      using True by (simp add: tick_wheel_step [OF c_def t])
  qed (use w' in \<open>auto simp: tick_wheel_step [OF c_def t]\<close>)
qed

section \<open>No timer is lost or duplicated\<close>

abbreviation uids :: "'m TimerUnit list \<Rightarrow> nat multiset" where
  "uids us \<equiv> image_mset uid (mset us)"

lemma units_update:
  assumes "k < length ws"
  shows "uids (units (ws[k := w])) + uids (concat (slot_list (ws ! k))) = uids (units ws) + uids (concat (slot_list w))"
proof -
  have "units ws = units (take k ws @ ws ! k # drop (Suc k) ws)"
    using id_take_nth_drop [OF assms] by (rule arg_cong)
  then have "units ws = units (take k ws) @ concat (slot_list (ws ! k)) @ units (drop (Suc k) ws)"
    by (simp only: units_def map_append list.map concat_append concat.simps)
  moreover have "units (ws[k := w]) = units (take k ws) @ concat (slot_list w) @ units (drop (Suc k) ws)"
    using assms by (simp add: upd_conv_take_nth_drop units_def)
  ultimately show ?thesis by simp
qed

lemma concat_update:
  assumes "i < length ss"
  shows "uids (concat (ss[i := s])) + uids (ss ! i) = uids (concat ss) + uids s"
proof -
  have "concat ss = concat (take i ss) @ ss ! i @ concat (drop (Suc i) ss)"
    using arg_cong [OF id_take_nth_drop [OF assms], of concat] by (simp only: concat_append concat.simps)
  moreover have "concat (ss[i := s]) = concat (take i ss) @ s @ concat (drop (Suc i) ss)"
    using assms by (simp add: upd_conv_take_nth_drop)
  ultimately show ?thesis by simp
qed

lemma slot_update_uids:
  assumes "k < length ws" "i < length (slot_list (ws ! k))" "slot_list w = (slot_list (ws ! k))[i := s]"
  shows "uids (units (ws[k := w])) + uids (slot_list (ws ! k) ! i) = uids (units ws) + uids s"
proof -
  have "uids (units (ws[k := w])) + uids (concat (slot_list (ws ! k))) + uids (slot_list (ws ! k) ! i)
      = uids (units ws) + (uids (concat (slot_list w)) + uids (slot_list (ws ! k) ! i))"
    using arg_cong [OF units_update [OF assms(1), of w], of "\<lambda>m. m + uids (slot_list (ws ! k) ! i)"]
    by (simp only: add.assoc)
  also have "\<dots> = uids (units ws) + (uids (concat (slot_list (ws ! k))) + uids s)"
    using concat_update [OF assms(2), of s] assms(3) by simp
  finally show ?thesis by (simp add: algebra_simps)
qed

lemma slot_Insert_uids:
  assumes "wheels_wf ws" "k < 3" "i < N_SLOTS"
  shows "uids (units (slot_Insert k i u ws)) = add_mset (uid u) (uids (units ws))"
  unfolding slot_Insert_def
  using slot_update_uids [where k = k and ws = ws and i = i and s = "u\<lparr>location := Some (k, i)\<rparr> # slot_list (ws ! k) ! i"
      and w = "(ws ! k)\<lparr>slot_list := (slot_list (ws ! k))[i := u\<lparr>location := Some (k, i)\<rparr> # slot_list (ws ! k) ! i]\<rparr>"]
    wheels_wfD(1) [OF assms(1)] wheels_wfD(5) [OF assms(1,2)] assms(2,3) by simp

lemma slot_mod_less: "n mod N_SLOTS < N_SLOTS"
  by (simp add: N_SLOTS_def)

lemma AddTimer_unit_uids:
  "wheels_wf ws \<Longrightarrow> k < 3 \<Longrightarrow> uids (units (AddTimer_unit k u ws)) = add_mset (uid u) (uids (units ws))"
proof (induction k u ws rule: AddTimer_unit.induct)
  case (1 k u ws)
  then show ?case using wheels_wfD(1) [OF 1(2)]
    by (subst AddTimer_unit.simps) (auto simp: Let_def slot_Insert_uids slot_mod_less)
qed

lemma move_units_uids:
  "wheels_wf ws \<Longrightarrow> k < 3 \<Longrightarrow>
   uids (fst (move_units k us ws)) + uids (units (snd (move_units k us ws))) = uids us + uids (units ws)"
proof (induction k us ws rule: move_units.induct)
  case (2 k u us ws)
  show ?case
  proof (cases "tu_time u - past_time u \<le> 0 \<or> (tu_time u - past_time u) mod (int N_SLOTS * interval (ws ! k)) = 0")
    case True
    with 2(1) [OF refl] 2(3,4) show ?thesis by (auto simp: Let_def split: prod.split)
  next
    case False
    have "wheels_wf (AddTimer_unit (k - 1) u ws)" using AddTimer_unit_wf [OF 2(3), of "k - 1"] 2(4) by simp
    with 2(2) [OF refl False] 2(4) False AddTimer_unit_uids [OF 2(3), of "k - 1" u] show ?thesis
      by (simp add: Let_def)
  qed
qed simp

lemma turn_wheel_uids:
  assumes "wheels_wf ws" "k < 3" "c < N_SLOTS"
  shows "uids (fst (turn_wheel k c ws)) + uids (units (snd (turn_wheel k c ws))) = uids (units ws)"
proof -
  obtain us ws1 where p: "pop_slot k c ws = (us, ws1)" by force
  have "uids (units ws1) + uids (slot_list (ws ! k) ! c) = uids (units ws)"
    using p slot_update_uids [of k ws c "(ws ! k)\<lparr>current_index := c, slot_list := (slot_list (ws ! k))[c := []]\<rparr>" "[]"]
      wheels_wfD(1,5) [OF assms(1)] assms(2,3) by (auto simp: pop_slot_def)
  moreover have "uids us = uids (slot_list (ws ! k) ! c)" using p by (auto simp: pop_slot_def multiset.map_comp comp_def)
  moreover have "wheels_wf ws1" using pop_slot_wf [OF assms] p by simp
  ultimately show ?thesis using move_units_uids [of ws1 k us] assms(2) p
    by (cases "k = 0") (simp_all add: turn_wheel_def add.commute)
qed

lemma tick_wheel_uids:
  "wheels_wf ws \<Longrightarrow> k < 3 \<Longrightarrow>
   uids (fst (tick_wheel k ws)) + uids (units (snd (tick_wheel k ws))) = uids (units ws)"
proof (induction k ws rule: tick_wheel.induct)
  case (1 k ws)
  define c where "c = (current_index (ws ! k) + 1) mod N_SLOTS"
  obtain fired ws' where t: "turn_wheel k c ws = (fired, ws')" by force
  have c: "c < N_SLOTS" using next_slot_less by (simp add: c_def)
  have w': "wheels_wf ws'" "uids fired + uids (units ws') = uids (units ws)"
    using turn_wheel_wf [OF 1(2,3) c] turn_wheel_uids [OF 1(2,3) c] t by simp_all
  show ?case
  proof (cases "c = 0 \<and> k + 1 < length ws")
    case True
    then have "k + 1 < 3" using wheels_wfD(1) [OF 1(2)] by simp
    with 1(1) [OF c_def t [symmetric] refl True w'(1)] w'(2) show ?thesis
      using True by (simp add: tick_wheel_step [OF c_def t] add.assoc)
  qed (use w' in \<open>auto simp: tick_wheel_step [OF c_def t]\<close>)
qed

section \<open>Whose timers are in the wheels\<close>

definition held :: "'m TimerWheel list \<Rightarrow> 'm set" where
  "held ws = tu_member ` set (units ws)"

lemma held_update:
  assumes "tu_member ` set (concat (slot_list w)) \<subseteq> M" "held ws \<subseteq> M"
  shows "held (ws[k := w]) \<subseteq> M"
proof
  fix m
  assume "m \<in> held (ws[k := w])"
  then obtain v u where v: "v \<in> set (ws[k := w])" "u \<in> set (concat (slot_list v))" "m = tu_member u"
    by (auto simp: held_def units_def)
  show "m \<in> M"
  proof (cases "v = w")
    case False
    then have "v \<in> set ws" using v(1) set_update_subset_insert [of ws k w] by blast
    with v(2,3) have "m \<in> held ws" by (auto simp: held_def units_def)
    with assms(2) show ?thesis by blast
  qed (use v(2,3) assms(1) in blast)
qed

lemma held_slot: "k < length ws \<Longrightarrow> s \<in> set (slot_list (ws ! k)) \<Longrightarrow> tu_member ` set s \<subseteq> held ws"
proof -
  assume "k < length ws" and s: "s \<in> set (slot_list (ws ! k))"
  then have w: "ws ! k \<in> set ws" by simp
  have "set s \<subseteq> set (units ws)" unfolding units_def using w s by auto
  then show ?thesis unfolding held_def by (rule image_mono)
qed

lemma held_slots:
  assumes "k < length ws" "held ws \<subseteq> M" "tu_member ` set s \<subseteq> M"
  shows "tu_member ` set (concat ((slot_list (ws ! k))[i := s])) \<subseteq> M"
proof -
  have "set ((slot_list (ws ! k))[i := s]) \<subseteq> insert s (set (slot_list (ws ! k)))" by (rule set_update_subset_insert)
  moreover have "tu_member ` set t \<subseteq> M" if "t \<in> set (slot_list (ws ! k))" for t
    using held_slot [OF assms(1) that] assms(2) by (rule subset_trans)
  ultimately show ?thesis using assms(3) by (auto simp: image_subset_iff)
qed

lemma slot_Insert_held:
  assumes "wheels_wf ws" "k < 3" "i < N_SLOTS" "held ws \<subseteq> M" "tu_member u \<in> M"
  shows "held (slot_Insert k i u ws) \<subseteq> M"
proof -
  have k: "k < length ws" "slot_list (ws ! k) ! i \<in> set (slot_list (ws ! k))"
    using wheels_wfD(1,5) [OF assms(1)] assms(2,3) by simp_all
  have "tu_member ` set (u\<lparr>location := Some (k, i)\<rparr> # slot_list (ws ! k) ! i) \<subseteq> M"
    using held_slot [OF k] assms(4,5) by simp
  from held_slots [OF k(1) assms(4) this] show ?thesis
    unfolding slot_Insert_def by (intro held_update) (simp_all add: assms(4))
qed

lemma AddTimer_unit_held:
  "wheels_wf ws \<Longrightarrow> k < 3 \<Longrightarrow> held ws \<subseteq> M \<Longrightarrow> tu_member u \<in> M \<Longrightarrow> held (AddTimer_unit k u ws) \<subseteq> M"
proof (induction k u ws rule: AddTimer_unit.induct)
  case (1 k u ws)
  then show ?case using wheels_wfD(1) [OF 1(2)]
    by (subst AddTimer_unit.simps) (auto simp: Let_def slot_Insert_held slot_mod_less)
qed

lemma AddTimer_held:
  assumes "wheels_wf (wheels s)" "held (wheels s) \<subseteq> M" "m \<in> M"
  shows "held (wheels (AddTimer m t s)) \<subseteq> M"
  using assms by (simp add: AddTimer_def Let_def slot_Insert_held AddTimer_unit_held slot_mod_less)

lemma move_units_held:
  "wheels_wf ws \<Longrightarrow> k < 3 \<Longrightarrow> held ws \<subseteq> M \<Longrightarrow> tu_member ` set us \<subseteq> M \<Longrightarrow>
   tu_member ` set (fst (move_units k us ws)) \<subseteq> M \<and> held (snd (move_units k us ws)) \<subseteq> M"
proof (induction k us ws rule: move_units.induct)
  case (2 k u us ws)
  show ?case
  proof (cases "tu_time u - past_time u \<le> 0 \<or> (tu_time u - past_time u) mod (int N_SLOTS * interval (ws ! k)) = 0")
    case True
    with 2(1) [OF refl] 2(3-6) show ?thesis by (auto simp: Let_def split: prod.split)
  next
    case False
    have "wheels_wf (AddTimer_unit (k - 1) u ws)" "held (AddTimer_unit (k - 1) u ws) \<subseteq> M"
      using AddTimer_unit_wf [OF 2(3), of "k - 1"] AddTimer_unit_held [OF 2(3), of "k - 1"] 2(4-6) by simp_all
    with 2(2) [OF refl False] 2(4,6) False show ?thesis by (simp add: Let_def)
  qed
qed simp

lemma turn_wheel_held:
  assumes "wheels_wf ws" "k < 3" "c < N_SLOTS" "held ws \<subseteq> M"
  shows "tu_member ` set (fst (turn_wheel k c ws)) \<subseteq> M \<and> held (snd (turn_wheel k c ws)) \<subseteq> M"
proof -
  obtain us ws1 where p: "pop_slot k c ws = (us, ws1)" by force
  have k: "k < length ws" "slot_list (ws ! k) ! c \<in> set (slot_list (ws ! k))"
    using wheels_wfD(1,5) [OF assms(1)] assms(2,3) by simp_all
  have "tu_member ` set us \<subseteq> M"
    using p held_slot [OF k] assms(4) by (auto simp: pop_slot_def image_subset_iff subset_iff)
  moreover have "held (ws[k := (ws ! k)\<lparr>current_index := c, slot_list := (slot_list (ws ! k))[c := []]\<rparr>]) \<subseteq> M"
    using held_slots [OF k(1) assms(4), of "[]" c] by (intro held_update assms(4)) simp
  then have "held ws1 \<subseteq> M" using p by (simp add: pop_slot_def)
  moreover have "wheels_wf ws1" using pop_slot_wf [OF assms(1-3)] p by simp
  ultimately show ?thesis using move_units_held [of ws1 k M us] assms(2) p by (simp add: turn_wheel_def)
qed

lemma tick_wheel_held:
  "wheels_wf ws \<Longrightarrow> k < 3 \<Longrightarrow> held ws \<subseteq> M \<Longrightarrow>
   tu_member ` set (fst (tick_wheel k ws)) \<subseteq> M \<and> held (snd (tick_wheel k ws)) \<subseteq> M"
proof (induction k ws rule: tick_wheel.induct)
  case (1 k ws)
  define c where "c = (current_index (ws ! k) + 1) mod N_SLOTS"
  obtain fired ws' where t: "turn_wheel k c ws = (fired, ws')" by force
  have c: "c < N_SLOTS" using next_slot_less by (simp add: c_def)
  have w': "wheels_wf ws'" "tu_member ` set fired \<subseteq> M" "held ws' \<subseteq> M"
    using turn_wheel_wf [OF 1(2,3) c] turn_wheel_held [OF 1(2,3) c 1(4)] t by simp_all
  show ?case
  proof (cases "c = 0 \<and> k + 1 < length ws")
    case True
    then have "k + 1 < 3" using wheels_wfD(1) [OF 1(2)] by simp
    with 1(1) [OF c_def t [symmetric] refl True w'(1)] w'(2,3) show ?thesis
      using True by (simp add: tick_wheel_step [OF c_def t] image_Un)
  qed (use w' in \<open>auto simp: tick_wheel_step [OF c_def t]\<close>)
qed

text \<open>Deleting changes one slot, to a part of what it held.\<close>

lemma DelTimer_cases:
  obtains "wheels (DelTimer m s) = wheels s \<and> next_uid (DelTimer m s) = next_uid s"
  | k i n where "k < length (wheels s)" "i < length (slot_list (wheels s ! k))" "next_uid (DelTimer m s) = next_uid s"
      "wheels (DelTimer m s) = (wheels s)[k := (wheels s ! k)\<lparr>slot_list :=
         (slot_list (wheels s ! k))[i := filter (\<lambda>x. uid x \<noteq> n) (slot_list (wheels s ! k) ! i)]\<rparr>]"
proof (cases "wheels (DelTimer m s) = wheels s")
  case True
  moreover have "next_uid (DelTimer m s) = next_uid s" by (auto simp: DelTimer_def split: option.split)
  ultimately show ?thesis using that(1) by blast
next
  case False
  then obtain k i n where w: "wheels (DelTimer m s) = (wheels s)[k := (wheels s ! k)\<lparr>slot_list :=
         (slot_list (wheels s ! k))[i := filter (\<lambda>x. uid x \<noteq> n) (slot_list (wheels s ! k) ! i)]\<rparr>]"
    "next_uid (DelTimer m s) = next_uid s"
    by (auto simp: DelTimer_def split: option.splits prod.splits)
  have k: "k < length (wheels s)" using False w(1) list_update_beyond [of "wheels s" k] by (metis not_less)
  have "i < length (slot_list (wheels s ! k))"
  proof (rule ccontr)
    assume "\<not> i < length (slot_list (wheels s ! k))"
    then have "(slot_list (wheels s ! k))[i := l] = slot_list (wheels s ! k)" for l by (simp add: list_update_beyond)
    then have "wheels (DelTimer m s) = (wheels s)[k := (wheels s ! k)\<lparr>slot_list := slot_list (wheels s ! k)\<rparr>]"
      using w(1) by simp
    with False show False by simp
  qed
  with k w that(2) show ?thesis by blast
qed

lemma DelTimer_held:
  assumes "held (wheels s) \<subseteq> M"
  shows "held (wheels (DelTimer m s)) \<subseteq> M"
proof (cases m s rule: DelTimer_cases)
  case (2 k i n)
  have "tu_member ` set (slot_list (wheels s ! k) ! i) \<subseteq> M"
    using held_slot [OF 2(1) nth_mem [OF 2(2)]] assms by (rule subset_trans)
  then have "tu_member ` set (filter (\<lambda>x. uid x \<noteq> n) (slot_list (wheels s ! k) ! i)) \<subseteq> M" by auto
  from held_slots [OF 2(1) assms this] show ?thesis unfolding 2(4) by (intro held_update assms) simp
qed (use assms in simp)

section \<open>When a timer fires\<close>

text \<open>Insertions leave the indexes alone and only add units to slots; outer wheels leave inner ones alone.\<close>

definition grows_below :: "nat \<Rightarrow> 'm TimerWheel list \<Rightarrow> 'm TimerWheel list \<Rightarrow> bool" where
  "grows_below n ws ws' \<longleftrightarrow> (\<forall>k < n. current_index (ws' ! k) = current_index (ws ! k)
     \<and> (\<forall>i < N_SLOTS. set (slots_of k i ws) \<subseteq> set (slots_of k i ws')))"

lemma grows_refl: "grows_below n ws ws"
  by (simp add: grows_below_def)

lemma grows_trans: "grows_below n ws ws1 \<Longrightarrow> grows_below n ws1 ws2 \<Longrightarrow> grows_below n ws ws2"
  unfolding grows_below_def by (metis subset_trans)

lemma grows_le: "grows_below n ws ws' \<Longrightarrow> m \<le> n \<Longrightarrow> grows_below m ws ws'"
  by (simp add: grows_below_def)

lemma grows_trans_le: "grows_below n ws ws1 \<Longrightarrow> grows_below m ws1 ws2 \<Longrightarrow> n \<le> m \<Longrightarrow> grows_below n ws ws2"
  by (blast intro: grows_trans grows_le)

lemma slot_Insert_grows:
  assumes "wheels_wf ws" "k < 3" "i < N_SLOTS"
  shows "grows_below 3 ws (slot_Insert k i u ws)"
    and "u\<lparr>location := Some (k, i)\<rparr> \<in> set (slots_of k i (slot_Insert k i u ws))"
  using wheels_wfD(1) [OF assms(1)] wheels_wfD(5) [OF assms(1,2)] assms(2,3)
  by (auto simp: grows_below_def slot_Insert_def slots_of_def nth_list_update)

lemma AddTimer_unit_grows: "wheels_wf ws \<Longrightarrow> k < 3 \<Longrightarrow> grows_below 3 ws (AddTimer_unit k u ws)"
proof (induction k u ws rule: AddTimer_unit.induct)
  case (1 k u ws)
  then show ?case using wheels_wfD(1) [OF 1(2)]
    by (subst AddTimer_unit.simps) (auto simp: Let_def slot_Insert_grows(1) slot_mod_less)
qed

lemma move_units_grows: "wheels_wf ws \<Longrightarrow> k < 3 \<Longrightarrow> grows_below 3 ws (snd (move_units k us ws))"
proof (induction k us ws rule: move_units.induct)
  case (2 k u us ws)
  show ?case
  proof (cases "tu_time u - past_time u \<le> 0 \<or> (tu_time u - past_time u) mod (int N_SLOTS * interval (ws ! k)) = 0")
    case True
    with 2(1) [OF refl] 2(3,4) show ?thesis by (auto simp: Let_def split: prod.split)
  next
    case False
    have "k - 1 < 3" using 2(4) by simp
    note a = AddTimer_unit_wf [OF 2(3) this] AddTimer_unit_grows [OF 2(3) this]
    from 2(2) [OF refl False a(1) 2(4)] False a(2) show ?thesis
      by (auto simp: Let_def intro: grows_trans)
  qed
qed (simp add: grows_refl)

lemma pop_slot_grows: "k < length ws \<Longrightarrow> grows_below k ws (snd (pop_slot k c ws))"
  by (simp add: grows_below_def pop_slot_def slots_of_def)

lemma turn_wheel_grows: "wheels_wf ws \<Longrightarrow> k < 3 \<Longrightarrow> c < N_SLOTS \<Longrightarrow> grows_below k ws (snd (turn_wheel k c ws))"
  using pop_slot_grows [of k ws c] pop_slot_wf [of ws k c] wheels_wfD(1) [of ws]
    move_units_grows [of "snd (pop_slot k c ws)" k "fst (pop_slot k c ws)"]
  by (auto simp: turn_wheel_def intro: grows_trans_le split: prod.split)

lemma tick_wheel_grows: "wheels_wf ws \<Longrightarrow> k < 3 \<Longrightarrow> grows_below k ws (snd (tick_wheel k ws))"
proof (induction k ws rule: tick_wheel.induct)
  case (1 k ws)
  define c where "c = (current_index (ws ! k) + 1) mod N_SLOTS"
  obtain fired ws' where t: "turn_wheel k c ws = (fired, ws')" by force
  have c: "c < N_SLOTS" using next_slot_less by (simp add: c_def)
  have w': "wheels_wf ws'" "grows_below k ws ws'"
    using turn_wheel_wf [OF 1(2,3) c] turn_wheel_grows [OF 1(2,3) c] t by simp_all
  show ?case
  proof (cases "c = 0 \<and> k + 1 < length ws")
    case True
    then have "k + 1 < 3" using wheels_wfD(1) [OF 1(2)] by simp
    with 1(1) [OF c_def t [symmetric] refl True w'(1)] w'(2) show ?thesis
      using True by (auto simp: tick_wheel_step [OF c_def t] intro: grows_trans_le)
  qed (use w' in \<open>auto simp: tick_wheel_step [OF c_def t]\<close>)
qed

text \<open>
  A unit fires in \<open>n\<close> ticks: it stands \<open>n\<close> slots ahead in the inner wheel, or in the middle wheel,
  with a rest that is worked off in the inner one once the wheel has reached it.
\<close>

definition scheduled :: "nat \<Rightarrow> nat \<Rightarrow> 'm TimerWheel list \<Rightarrow> bool" where
  "scheduled x n ws \<longleftrightarrow>
     (1 \<le> n \<and> n < N_SLOTS \<and> (\<exists>u \<in> set (slots_of 0 ((current_index (ws ! 0) + n) mod N_SLOTS) ws). uid u = x))
   \<or> (\<exists>d r. 1 \<le> d \<and> d < N_SLOTS \<and> r < 400 \<and> n + current_index (ws ! 0) = N_SLOTS * d + r
        \<and> (\<exists>u \<in> set (slots_of 1 ((current_index (ws ! 1) + d) mod N_SLOTS) ws).
             uid u = x \<and> tu_time u - past_time u = 100 * int r))"

lemma scheduled_grows: "scheduled x n ws \<Longrightarrow> grows_below 2 ws ws' \<Longrightarrow> scheduled x n ws'"
proof -
  assume s: "scheduled x n ws" and g: "grows_below 2 ws ws'"
  have c: "current_index (ws' ! 0) = current_index (ws ! 0)" "current_index (ws' ! 1) = current_index (ws ! 1)"
    using g by (simp_all add: grows_below_def)
  have sub: "set (slots_of k (i mod N_SLOTS) ws) \<subseteq> set (slots_of k (i mod N_SLOTS) ws')" if "k < 2" for k i
    using g that slot_mod_less by (simp add: grows_below_def)
  have "set (slots_of 0 (i mod N_SLOTS) ws) \<subseteq> set (slots_of 0 (i mod N_SLOTS) ws')"
    "set (slots_of 1 (i mod N_SLOTS) ws) \<subseteq> set (slots_of 1 (i mod N_SLOTS) ws')" for i
    using sub [of 0] sub [of 1] by simp_all
  with s show ?thesis unfolding scheduled_def c by blast
qed

lemma AddTimer_unit_middle:
  assumes "wheels_wf ws" "tu_time u - past_time u = 100 * int m" "m < 400"
  shows "\<exists>d r. 1 \<le> d \<and> d < N_SLOTS \<and> r < 400 \<and> N_SLOTS + m = N_SLOTS * d + r
     \<and> (\<exists>v \<in> set (slots_of 1 ((current_index (ws ! 1) + d) mod N_SLOTS) (AddTimer_unit 1 u ws)).
          uid v = uid u \<and> tu_time v - past_time v = 100 * int r)"
proof -
  note wf = wheels_wfD [OF assms(1)]
  define d where "d = (if m < 20 then 1 else m div 20)"
  have d: "1 \<le> d" "d < N_SLOTS" "20 * (d - 1) \<le> m" using assms(3) by (auto simp: d_def N_SLOTS_def)
  have off: "slot_offset (100 * int m) 2000 = d"
    using assms(3) by (auto simp: slot_offset_def d_def N_SLOTS_def Let_def)
  let ?u = "u\<lparr>past_time := past_time u + (int d - 1) * 2000\<rparr>"
  let ?i = "(current_index (ws ! 1) + d) mod N_SLOTS"
  have "AddTimer_unit 1 u ws = slot_Insert 1 ?i ?u ws"
    using assms(2,3) wf off by (subst AddTimer_unit.simps) (simp add: Let_def N_SLOTS_def)
  with slot_Insert_grows(2) [OF assms(1), of 1 ?i ?u] slot_mod_less
  have "?u\<lparr>location := Some (1, ?i)\<rparr> \<in> set (slots_of 1 ?i (AddTimer_unit 1 u ws))" by simp
  moreover have "tu_time u - (past_time u + (int d - 1) * 2000) = 100 * int (m - 20 * (d - 1))"
    using assms(2) d by (simp add: of_nat_diff algebra_simps)
  moreover have "N_SLOTS + m = N_SLOTS * d + (m - 20 * (d - 1))" using d by (cases d) (auto simp: N_SLOTS_def)
  moreover have "m - 20 * (d - 1) < 400" using assms(3) by simp
  ultimately show ?thesis using d(1,2)
    by (intro exI [of _ d] exI [of _ "m - 20 * (d - 1)"] conjI bexI [of _ "?u\<lparr>location := Some (1, ?i)\<rparr>"]) simp_all
qed

lemma scheduled_inner:
  assumes "wheels_wf ws" "1 \<le> n" "n < 20"
  shows "scheduled (uid u) n (slot_Insert 0 ((current_index (ws ! 0) + n) mod N_SLOTS) u ws)"
proof -
  let ?i = "(current_index (ws ! 0) + n) mod N_SLOTS"
  let ?ws = "slot_Insert 0 ?i u ws"
  have "current_index (?ws ! 0) = current_index (ws ! 0)"
    using slot_Insert_grows(1) [OF assms(1), of 0 ?i u] slot_mod_less by (simp add: grows_below_def)
  with slot_Insert_grows(2) [OF assms(1), of 0 ?i u] slot_mod_less assms(2,3)
  show ?thesis by (auto simp: scheduled_def N_SLOTS_def intro!: bexI [of _ "u\<lparr>location := Some (0, ?i)\<rparr>"])
qed

lemma scheduled_middle:
  assumes "wheels_wf ws" "tu_time u - past_time u = 100 * int m" "m < 400" "n + current_index (ws ! 0) = N_SLOTS + m"
  shows "scheduled (uid u) n (AddTimer_unit 1 u ws)"
proof -
  have "current_index (AddTimer_unit 1 u ws ! 0) = current_index (ws ! 0)"
    "current_index (AddTimer_unit 1 u ws ! 1) = current_index (ws ! 1)"
    using AddTimer_unit_grows [OF assms(1), of 1 u] by (simp_all add: grows_below_def)
  with AddTimer_unit_middle [OF assms(1-3)] assms(4) show ?thesis by (simp add: scheduled_def)
qed

lemma AddTimer_unit_scheduled:
  assumes "wheels_wf ws" "tu_time u - past_time u = 100 * int n" "1 \<le> n" "n < 400"
  shows "scheduled (uid u) n (AddTimer_unit 0 u ws)"
proof -
  note wf = wheels_wfD [OF assms(1)]
  let ?c = "current_index (ws ! 0)"
  show ?thesis
  proof (cases "n < 20")
    case True
    have "slot_offset (100 * int n) 100 = n"
      using True assms(3) by (auto simp: slot_offset_def N_SLOTS_def Let_def)
    then have "AddTimer_unit 0 u ws = slot_Insert 0 ((?c + n) mod N_SLOTS) (u\<lparr>past_time := past_time u + (int n - 1) * 100\<rparr>) ws"
      using assms(2) True wf by (subst AddTimer_unit.simps) (simp add: Let_def N_SLOTS_def)
    with scheduled_inner [OF assms(1,3) True, of "u\<lparr>past_time := past_time u + (int n - 1) * 100\<rparr>"]
    show ?thesis by simp
  next
    case False
    have c: "?c < 20" using wf(5) [of 0] by (simp add: N_SLOTS_def)
    let ?u = "u\<lparr>past_time := past_time u + (20 - int ?c) * 100\<rparr>"
    have "AddTimer_unit 0 u ws = AddTimer_unit 1 ?u ws"
      using assms(2) False wf by (subst AddTimer_unit.simps) (simp add: Let_def N_SLOTS_def)
    moreover have "tu_time ?u - past_time ?u = 100 * int (n + ?c - 20)"
      using assms(2) False by (simp add: of_nat_diff algebra_simps)
    moreover have "n + ?c - 20 < 400" "n + ?c = N_SLOTS + (n + ?c - 20)"
      using assms(4) c False by (simp_all add: N_SLOTS_def)
    ultimately show ?thesis using scheduled_middle [OF assms(1), of ?u "n + ?c - 20" n] by simp
  qed
qed

lemma move_units_scheduled:
  "wheels_wf ws \<Longrightarrow> u \<in> set us \<Longrightarrow> tu_time u - past_time u = 100 * int r \<Longrightarrow> r < 400 \<Longrightarrow>
   if r = 0 then uid u \<in> uid ` set (fst (move_units 1 us ws)) else scheduled (uid u) r (snd (move_units 1 us ws))"
proof (induction us arbitrary: ws)
  case (Cons v us)
  note wf = wheels_wfD [OF Cons.prems(1)]
  let ?rest = "tu_time v - past_time v"
  define due where "due \<longleftrightarrow> ?rest \<le> 0 \<or> ?rest mod (int N_SLOTS * interval (ws ! 1)) = 0"
  define ws1 where "ws1 = (if due then ws else AddTimer_unit 0 v ws)"
  have step: "move_units 1 (v # us) ws = (if due then (v # fst (move_units 1 us ws1), snd (move_units 1 us ws1))
      else move_units 1 us ws1)"
    by (simp add: due_def ws1_def Let_def split: prod.split)
  have w1: "wheels_wf ws1" using AddTimer_unit_wf [OF Cons.prems(1), of 0 v] Cons.prems(1) by (simp add: ws1_def)
  show ?case
  proof (cases "u \<in> set us")
    case True
    with Cons.IH [OF w1 True Cons.prems(3,4)] show ?thesis unfolding step by auto
  next
    case False
    then have u: "u = v" using Cons.prems(2) by simp
    have due: "due \<longleftrightarrow> r = 0" using Cons.prems(3,4) wf(3) u by (auto simp: due_def N_SLOTS_def)
    show ?thesis
    proof (cases "r = 0")
      case True
      with due u show ?thesis unfolding step by simp
    next
      case False
      then have "scheduled (uid u) r ws1"
        using AddTimer_unit_scheduled [OF Cons.prems(1), of u r] Cons.prems(3,4) due u by (simp add: ws1_def)
      with scheduled_grows [OF this grows_le [OF move_units_grows [OF w1, of 1 us], of 2]] False due
      show ?thesis unfolding step by simp
    qed
  qed
qed simp

lemma pop_slot_facts:
  assumes "wheels_wf ws" "k < 3" "c < N_SLOTS" "pop_slot k c ws = (us, ws1)"
  shows "current_index (ws1 ! k) = c" "j \<noteq> k \<Longrightarrow> ws1 ! j = ws ! j"
    "i \<noteq> c \<Longrightarrow> slots_of k i ws1 = slots_of k i ws"
    "us = map (\<lambda>u. u\<lparr>location := None\<rparr>) (slots_of k c ws)" "wheels_wf ws1"
  using assms wheels_wfD(1) [OF assms(1)] pop_slot_wf [OF assms(1-3)]
  by (auto simp: pop_slot_def slots_of_def nth_list_update)

lemma slot_neq: "1 < d \<Longrightarrow> d < N_SLOTS \<Longrightarrow> (i + d) mod N_SLOTS \<noteq> (i + 1) mod N_SLOTS"
proof
  assume d: "1 < d" "d < N_SLOTS" and eq: "(i + d) mod N_SLOTS = (i + 1) mod N_SLOTS"
  obtain q where "i + d = i + 1 + N_SLOTS * q" using mod_eq_nat1E [OF eq] d(1) by auto
  with d show False by (cases q) auto
qed

lemma slot_shift: "1 \<le> d \<Longrightarrow> (i + d) mod N_SLOTS = ((i + 1) mod N_SLOTS + (d - 1)) mod N_SLOTS"
  by (simp only: mod_add_left_eq) simp

lemma next_slot: "i < N_SLOTS \<Longrightarrow> (i + 1) mod N_SLOTS = (if i = N_SLOTS - 1 then 0 else i + 1)"
  by (auto simp: N_SLOTS_def mod_if)

text \<open>One tick brings every scheduled unit one tick closer, and fires it at one.\<close>

lemma tick_middle:
  assumes wf: "wheels_wf ws" and d: "1 \<le> d" "d < N_SLOTS" "r < 400"
    and u: "u \<in> set (slots_of 1 ((current_index (ws ! 1) + d) mod N_SLOTS) ws)" "tu_time u - past_time u = 100 * int r"
    and c0: "current_index (ws ! 0) = 0"
  shows "if d = 1 \<and> r = 0 then uid u \<in> uid ` set (fst (tick_wheel 1 ws))
     else scheduled (uid u) (N_SLOTS * (d - 1) + r) (snd (tick_wheel 1 ws))"
proof -
  define c where "c = (current_index (ws ! 1) + 1) mod N_SLOTS"
  have c: "c < N_SLOTS" using next_slot_less by (simp add: c_def)
  obtain us ws1 where p: "pop_slot 1 c ws = (us, ws1)" by force
  obtain fired ws2 where m: "move_units 1 us ws1 = (fired, ws2)" by force
  have t: "turn_wheel 1 c ws = (fired, ws2)" using p m by (simp add: turn_wheel_def)
  note pf = pop_slot_facts [OF wf _ c p, simplified]
  have g: "grows_below 3 ws1 ws2" using move_units_grows [OF pf(5), of 1 us] m by simp
  have w2: "wheels_wf ws2" using move_units_wf [OF pf(5), of 1 us] m by simp
  have main: "if d = 1 \<and> r = 0 then uid u \<in> uid ` set fired else scheduled (uid u) (N_SLOTS * (d - 1) + r) ws2"
  proof (cases "d = 1")
    case True
    then have "u\<lparr>location := None\<rparr> \<in> set us" using u(1) pf(4) by (auto simp: c_def)
    with move_units_scheduled [OF pf(5) this, of r] u(2) d(3) m True show ?thesis by (simp split: if_splits)
  next
    case False
    have "(current_index (ws ! 1) + d) mod N_SLOTS \<noteq> c"
      using slot_neq [of d] False d(1,2) by (simp add: c_def)
    then have "u \<in> set (slots_of 1 ((current_index (ws ! 1) + d) mod N_SLOTS) ws1)" using u(1) pf(3) by simp
    moreover have "(current_index (ws ! 1) + d) mod N_SLOTS = (c + (d - 1)) mod N_SLOTS"
      using slot_shift [OF d(1)] by (simp add: c_def)
    ultimately have "u \<in> set (slots_of 1 ((current_index (ws1 ! 1) + (d - 1)) mod N_SLOTS) ws1)"
      using pf(1) by simp
    moreover have "current_index (ws1 ! 0) = 0" using pf(2) [of 0] c0 by simp
    moreover have "1 \<le> d - 1" "d - 1 < N_SLOTS" using False d by simp_all
    ultimately have "scheduled (uid u) (N_SLOTS * (d - 1) + r) ws1"
      using u(2) d(3) unfolding scheduled_def by (intro disjI2 exI [of _ "d - 1"] exI [of _ r] conjI bexI [of _ u]) simp_all
    with scheduled_grows grows_le [OF g, of 2] False show ?thesis by auto
  qed
  have tw: "tick_wheel 1 ws = (if c = 0 then (fired @ fst (tick_wheel 2 ws2), snd (tick_wheel 2 ws2)) else (fired, ws2))"
    using wheels_wfD(1) [OF wf] tick_wheel_step [OF c_def t] by (simp add: numeral_2_eq_2)
  show ?thesis
  proof (cases "c = 0")
    case True
    have "grows_below 2 ws2 (snd (tick_wheel 2 ws2))" using tick_wheel_grows [OF w2, of 2] by simp
    with main True scheduled_grows [of "uid u" _ ws2] show ?thesis unfolding tw by auto
  next
    case False
    then have "tick_wheel 1 ws = (fired, ws2)" using tw by simp
    with main show ?thesis by (simp only: fst_conv snd_conv)
  qed
qed

lemma tick_scheduled:
  assumes wf: "wheels_wf ws" and s: "scheduled x n ws"
  shows "if n = 1 then x \<in> uid ` set (fst (tick_wheel 0 ws)) else scheduled x (n - 1) (snd (tick_wheel 0 ws))"
proof -
  let ?c0 = "current_index (ws ! 0)"
  define c where "c = (?c0 + 1) mod N_SLOTS"
  have c: "c < N_SLOTS" using next_slot_less by (simp add: c_def)
  have c0: "?c0 < N_SLOTS" using wheels_wfD(5) [OF wf, of 0] by simp
  obtain us ws1 where p: "pop_slot 0 c ws = (us, ws1)" by force
  have t: "turn_wheel 0 c ws = (us, ws1)" using p by (simp add: turn_wheel_def)
  note pf = pop_slot_facts [OF wf _ c p, simplified]
  have tick: "tick_wheel 0 ws = (if c = 0 then (us @ fst (tick_wheel 1 ws1), snd (tick_wheel 1 ws1)) else (us, ws1))"
    using wheels_wfD(1) [OF wf] by (simp add: tick_wheel_step [OF c_def t])
  have g: "grows_below 1 ws1 (snd (tick_wheel 0 ws))"
    using tick_wheel_grows [OF pf(5), of 1] by (simp add: tick grows_refl)
  from s consider (inner) u where "1 \<le> n" "n < N_SLOTS" "u \<in> set (slots_of 0 ((?c0 + n) mod N_SLOTS) ws)" "uid u = x"
    | (middle) d r u where "1 \<le> d" "d < N_SLOTS" "r < 400" "n + ?c0 = N_SLOTS * d + r"
      "u \<in> set (slots_of 1 ((current_index (ws ! 1) + d) mod N_SLOTS) ws)" "uid u = x" "tu_time u - past_time u = 100 * int r"
    unfolding scheduled_def by blast
  then show ?thesis
  proof cases
    case inner
    show ?thesis
    proof (cases "n = 1")
      case True
      then have "u\<lparr>location := None\<rparr> \<in> set us" using inner(3) pf(4) by (simp add: c_def)
      then have "uid (u\<lparr>location := None\<rparr>) \<in> uid ` set us" by (rule imageI)
      then have "x \<in> uid ` set us" using inner(4) by simp
      with True show ?thesis by (auto simp: tick)
    next
      case False
      have "(?c0 + n) mod N_SLOTS \<noteq> c" using slot_neq [of n] False inner(1,2) by (simp add: c_def)
      then have "u \<in> set (slots_of 0 ((?c0 + n) mod N_SLOTS) ws1)" using inner(3) pf(3) by simp
      moreover have "(?c0 + n) mod N_SLOTS = (c + (n - 1)) mod N_SLOTS"
        using slot_shift [OF inner(1)] by (simp add: c_def)
      ultimately have "u \<in> set (slots_of 0 ((c + (n - 1)) mod N_SLOTS) (snd (tick_wheel 0 ws)))"
        "current_index (snd (tick_wheel 0 ws) ! 0) = c"
        using g pf(1) slot_mod_less unfolding grows_below_def by auto
      with False inner show ?thesis unfolding scheduled_def by auto
    qed
  next
    case middle
    have slots: "slots_of 1 i ws1 = slots_of 1 i ws" "current_index (ws1 ! 1) = current_index (ws ! 1)" for i
      using pf(2) [of 1] by (simp_all add: slots_of_def)
    show ?thesis
    proof (cases "c = 0")
      case False
      then have "?c0 + 1 = c" using next_slot [OF c0] by (simp add: c_def split: if_splits)
      then have "scheduled x (n - 1) ws1"
        unfolding scheduled_def using middle pf(1) slots c0
        by (intro disjI2 exI [of _ d] exI [of _ r]) (auto simp: N_SLOTS_def)
      moreover have "n \<noteq> 1" using middle(1,4) \<open>?c0 + 1 = c\<close> c by (auto simp: N_SLOTS_def)
      ultimately show ?thesis using False by (simp add: tick)
    next
      case True
      then have n: "n = N_SLOTS * (d - 1) + r + 1"
        using next_slot [OF c0] middle(1,4) by (cases d) (auto simp: c_def N_SLOTS_def split: if_splits)
      have "if d = 1 \<and> r = 0 then uid u \<in> uid ` set (fst (tick_wheel 1 ws1))
         else scheduled (uid u) (N_SLOTS * (d - 1) + r) (snd (tick_wheel 1 ws1))"
        by (rule tick_middle [OF pf(5) middle(1-3)]) (use middle(5,7) slots pf(1) True in simp_all)
      with True n middle(1,6) show ?thesis by (auto simp: tick N_SLOTS_def split: if_splits)
    qed
  qed
qed

section \<open>The wheel set\<close>

fun ticks :: "nat \<Rightarrow> 'm TimerWheelSet \<Rightarrow> 'm TimerUnit list list \<times> 'm TimerWheelSet" where
  "ticks 0 s = ([], s)"
| "ticks (Suc n) s = (let (fired, s1) = Tick s; (rest, s2) = ticks n s1 in (fired # rest, s2))"

definition set_wf :: "'m TimerWheelSet \<Rightarrow> bool" where
  "set_wf s \<longleftrightarrow> wheels_wf (wheels s) \<and> distinct (map uid (units (wheels s)))
     \<and> (\<forall>u \<in> set (units (wheels s)). uid u < next_uid s)"

lemma distinct_uids: "distinct (map uid us) \<longleftrightarrow> (\<forall>x. count (uids us) x \<le> 1)"
  by (metis distinct_count_atmost_1 count_greater_eq_one_iff count_eq_zero_iff le_antisym mset_map not_gr_zero set_mset_mset order.refl zero_le)

lemma in_uids: "x \<in># uids us \<longleftrightarrow> x \<in> uid ` set us"
  by auto

lemma set_wf_iff: "set_wf s \<longleftrightarrow> wheels_wf (wheels s) \<and> (\<forall>x. count (uids (units (wheels s))) x \<le> (if x < next_uid s then 1 else 0))"
proof -
  have "(\<forall>u \<in> set us. uid u < n) \<longleftrightarrow> (\<forall>x. \<not> x < n \<longrightarrow> count (uids us) x = 0)" for us :: "'a TimerUnit list" and n
    unfolding count_eq_zero_iff in_uids by auto
  then have bound: "(\<forall>u \<in> set (units (wheels s)). uid u < next_uid s)
      \<longleftrightarrow> (\<forall>x. \<not> x < next_uid s \<longrightarrow> count (uids (units (wheels s))) x = 0)" .
  show ?thesis unfolding set_wf_def distinct_uids bound by (auto split: if_splits) (case_tac "x < next_uid s"; force)
qed

lemma Tick_uids:
  assumes "wheels_wf (wheels s)" "Tick s = (fired, s1)"
  shows "wheels_wf (wheels s1)" "uids fired + uids (units (wheels s1)) = uids (units (wheels s))"
    "next_uid s1 = next_uid s"
  using assms tick_wheel_wf [OF assms(1), of 0] tick_wheel_uids [OF assms(1), of 0]
  by (auto simp: Tick_def split: prod.splits)

lemma Tick_wf: "set_wf s \<Longrightarrow> Tick s = (fired, s1) \<Longrightarrow> set_wf s1"
proof -
  assume s: "set_wf s" and t: "Tick s = (fired, s1)"
  note facts = Tick_uids [OF _ t]
  have wf: "wheels_wf (wheels s)" "\<And>x. count (uids (units (wheels s))) x \<le> (if x < next_uid s then 1 else 0)"
    using s unfolding set_wf_iff by blast+
  have "count (uids (units (wheels s1))) x \<le> (if x < next_uid s then 1 else 0)" for x
    using facts(2) [OF wf(1)] wf(2) [of x] by (metis count_union le_add2 order_trans)
  with facts [OF wf(1)] show ?thesis unfolding set_wf_iff by simp
qed

lemma Tick_scheduled:
  assumes "set_wf s" "scheduled x n (wheels s)" "Tick s = (fired, s1)"
  shows "if n = 1 then x \<in> uid ` set fired else scheduled x (n - 1) (wheels s1)"
  using tick_scheduled [of "wheels s" x n] assms
  by (auto simp: set_wf_def Tick_def split: prod.splits if_splits)

text \<open>A scheduled unit is in a wheel, hence not among the units just fired.\<close>

lemma slots_units:
  assumes "wheels_wf ws" "k < 3" "i < N_SLOTS" "u \<in> set (slots_of k i ws)"
  shows "u \<in> set (units ws)"
proof -
  have "slot_list (ws ! k) ! i \<in> set (slot_list (ws ! k))" "ws ! k \<in> set ws"
    using wheels_wfD(1,5) [OF assms(1)] assms(2,3) by simp_all
  with assms(4) show ?thesis by (auto simp: units_def slots_of_def)
qed

lemma scheduled_present: "wheels_wf ws \<Longrightarrow> scheduled x n ws \<Longrightarrow> x \<in> uid ` set (units ws)"
proof -
  assume wf: "wheels_wf ws" and "scheduled x n ws"
  then obtain k i u where "k < 3" "i < N_SLOTS" "u \<in> set (slots_of k i ws)" "uid u = x"
  proof (cases "\<exists>i u. i < N_SLOTS \<and> u \<in> set (slots_of 0 i ws) \<and> uid u = x")
    case False
    with \<open>scheduled x n ws\<close> obtain d u where
      "u \<in> set (slots_of 1 ((current_index (ws ! 1) + d) mod N_SLOTS) ws)" "uid u = x"
      unfolding scheduled_def using slot_mod_less by blast
    with that [OF _ slot_mod_less this] show ?thesis by simp
  qed (use that [of 0] in auto)
  with slots_units [OF wf] show ?thesis by blast
qed

lemma ticks_scheduled:
  "set_wf s \<Longrightarrow> scheduled x n (wheels s) \<Longrightarrow> 1 \<le> n \<Longrightarrow>
   length (fst (ticks n s)) = n \<and> (\<forall>j < n. x \<in> uid ` set (fst (ticks n s) ! j) \<longleftrightarrow> j = n - 1)"
proof (induction n arbitrary: s)
  case (Suc n)
  obtain fired s1 where t: "Tick s = (fired, s1)" by force
  have s1: "set_wf s1" using Tick_wf [OF Suc.prems(1) t] .
  show ?case
  proof (cases "n = 0")
    case True
    then show ?thesis using Tick_scheduled [OF Suc.prems(1,2) t] t by simp
  next
    case False
    then have sch: "scheduled x n (wheels s1)" using Tick_scheduled [OF Suc.prems(1,2) t] by simp
    then have "x \<in># uids (units (wheels s1))"
      using scheduled_present s1 unfolding set_wf_def in_uids by blast
    then have "1 \<le> count (uids (units (wheels s1))) x" by (simp only: count_greater_eq_one_iff)
    moreover have "count (uids fired) x + count (uids (units (wheels s1))) x \<le> 1"
    proof -
      have "count (uids (units (wheels s))) x \<le> 1"
        using Suc.prems(1) unfolding set_wf_iff by (metis le_zero_eq linear)
      then show ?thesis using Tick_uids(2) [OF _ t] Suc.prems(1) unfolding set_wf_def by (metis count_union)
    qed
    ultimately have "count (uids fired) x = 0" by linarith
    then have "x \<notin># uids fired" by (rule count_eq_zero_iff [THEN iffD1])
    then have "x \<notin> uid ` set fired" using in_uids [of x fired] by blast
    moreover have "fst (ticks (Suc n) s) = fired # fst (ticks n s1)" using t by (simp split: prod.split)
    moreover have "length (fst (ticks n s1)) = n"
      "\<forall>j < n. x \<in> uid ` set (fst (ticks n s1) ! j) \<longleftrightarrow> j = n - 1"
      using Suc.IH [OF s1 sch] False by auto
    ultimately show ?thesis using False by (auto simp: less_Suc_eq_0_disj simp del: ticks.simps)
  qed
qed simp

lemma set_wf_new: "set_wf new_TimerWheelSet"
  using new_wheels_wf by (simp add: set_wf_def) (simp add: new_TimerWheelSet_def new_TimerWheel_def units_def)

lemma AddTimer_facts:
  assumes "set_wf s" "1 \<le> n" "n < 400"
  shows "scheduled (next_uid s) n (wheels (AddTimer m (100 * int n) s))"
    and "wheels_wf (wheels (AddTimer m (100 * int n) s))"
    and "uids (units (wheels (AddTimer m (100 * int n) s))) = add_mset (next_uid s) (uids (units (wheels s)))"
proof -
  let ?ws = "wheels s"
  let ?c = "current_index (?ws ! 0)"
  let ?u = "\<lparr>uid = next_uid s, tu_member = m, tu_time = 100 * int n, past_time = 0, location = None\<rparr>"
  have wf: "wheels_wf ?ws" using assms(1) by (simp add: set_wf_def)
  note w = wheels_wfD [OF wf]
  show "scheduled (next_uid s) n (wheels (AddTimer m (100 * int n) s))"
    and "wheels_wf (wheels (AddTimer m (100 * int n) s))"
    and "uids (units (wheels (AddTimer m (100 * int n) s))) = add_mset (next_uid s) (uids (units ?ws))"
  proof (atomize (full), cases "n < 20")
    case True
    have "slot_offset (100 * int n) 100 = n"
      using True assms(2) by (auto simp: slot_offset_def N_SLOTS_def Let_def)
    then have "wheels (AddTimer m (100 * int n) s) = slot_Insert 0 ((?c + n) mod N_SLOTS) ?u ?ws"
      using True assms(2) w by (simp add: AddTimer_def Let_def N_SLOTS_def)
    with scheduled_inner [OF wf assms(2) True, of ?u] slot_Insert_wf [OF wf] slot_Insert_uids [OF wf] slot_mod_less
    show "scheduled (next_uid s) n (wheels (AddTimer m (100 * int n) s)) \<and> wheels_wf (wheels (AddTimer m (100 * int n) s))
      \<and> uids (units (wheels (AddTimer m (100 * int n) s))) = add_mset (next_uid s) (uids (units ?ws))" by simp
  next
    case False
    have c: "?c < 20" using w(5) [of 0] by (simp add: N_SLOTS_def)
    let ?v = "?u\<lparr>past_time := (int N_SLOTS - int ?c) * 100\<rparr>"
    have a: "wheels (AddTimer m (100 * int n) s) = AddTimer_unit 1 ?v ?ws"
      using False assms(2) w by (simp add: AddTimer_def Let_def N_SLOTS_def)
    have "tu_time ?v - past_time ?v = 100 * int (n + ?c - 20)"
      using False by (simp add: of_nat_diff algebra_simps N_SLOTS_def)
    moreover have "n + ?c - 20 < 400" "n + ?c = N_SLOTS + (n + ?c - 20)"
      using assms(3) c False by (simp_all add: N_SLOTS_def)
    ultimately have "scheduled (uid ?v) n (AddTimer_unit 1 ?v ?ws)" by (rule scheduled_middle [OF wf])
    with a AddTimer_unit_wf [OF wf, of 1 ?v] AddTimer_unit_uids [OF wf, of 1 ?v]
    show "scheduled (next_uid s) n (wheels (AddTimer m (100 * int n) s)) \<and> wheels_wf (wheels (AddTimer m (100 * int n) s))
      \<and> uids (units (wheels (AddTimer m (100 * int n) s))) = add_mset (next_uid s) (uids (units ?ws))" by simp
  qed
qed

lemma AddTimer_next_uid: "0 < t \<Longrightarrow> next_uid (AddTimer m t s) = next_uid s + 1"
  by (simp add: AddTimer_def Let_def)

lemma AddTimer_wf: "set_wf s \<Longrightarrow> 1 \<le> n \<Longrightarrow> n < 400 \<Longrightarrow> set_wf (AddTimer m (100 * int n) s)"
proof -
  assume s: "set_wf s" and n: "1 \<le> n" "n < 400"
  let ?s = "AddTimer m (100 * int n) s"
  have bound: "count (uids (units (wheels s))) x \<le> (if x < next_uid s then 1 else 0)" for x
    using s unfolding set_wf_iff by blast
  have "count (uids (units (wheels ?s))) x = (if next_uid s = x then 1 else 0) + count (uids (units (wheels s))) x" for x
    using AddTimer_facts(3) [OF s n, of m] by (simp only: count_add_mset) simp
  moreover have "next_uid ?s = next_uid s + 1" using AddTimer_next_uid n by force
  ultimately have "count (uids (units (wheels ?s))) x \<le> (if x < next_uid ?s then 1 else 0)" for x
    using bound [of x] by (cases "x = next_uid s"; cases "x < next_uid s") simp_all
  with AddTimer_facts(2) [OF s n, of m] show ?thesis unfolding set_wf_iff by blast
qed

lemma DelTimer_wf:
  assumes "set_wf s"
  shows "set_wf (DelTimer m s)"
proof (cases m s rule: DelTimer_cases)
  case (2 k i n)
  have wf: "wheels_wf (wheels s)" and c: "\<And>x. count (uids (units (wheels s))) x \<le> (if x < next_uid s then 1 else 0)"
    using assms unfolding set_wf_iff by blast+
  have k: "k < 3" using 2(1) wheels_wfD(1) [OF wf] by simp
  let ?l = "filter (\<lambda>x. uid x \<noteq> n) (slot_list (wheels s ! k) ! i)"
  let ?w = "(wheels s ! k)\<lparr>slot_list := (slot_list (wheels s ! k))[i := ?l]\<rparr>"
  have "uids (units (wheels (DelTimer m s))) + uids (slot_list (wheels s ! k) ! i) = uids (units (wheels s)) + uids ?l"
    using slot_update_uids [OF 2(1,2), of ?w ?l] 2(4) by simp
  moreover have "uids ?l \<subseteq># uids (slot_list (wheels s ! k) ! i)"
    by (intro image_mset_subseteq_mono) (simp add: mset_filter)
  ultimately have "uids (units (wheels (DelTimer m s))) \<subseteq># uids (units (wheels s))"
    by (metis add_le_cancel_right subset_mset.add_left_mono subset_mset.add_le_cancel_right)
  then have "count (uids (units (wheels (DelTimer m s)))) x \<le> (if x < next_uid s then 1 else 0)" for x
    using c [of x] by (meson mset_subset_eq_count order_trans)
  moreover have "wheels_wf (wheels (DelTimer m s))"
    unfolding 2(4) using wheels_wfD(5) [OF wf k] by (intro wheels_wf_update [OF wf k]) simp_all
  ultimately show ?thesis unfolding set_wf_iff 2(3) by blast
qed (use assms in \<open>simp add: set_wf_def\<close>)

lemma Tick_held:
  assumes "set_wf s" "held (wheels s) \<subseteq> M" "Tick s = (fired, s1)"
  shows "tu_member ` set fired \<subseteq> M \<and> held (wheels s1) \<subseteq> M"
  using assms tick_wheel_held [of "wheels s" 0 M] by (auto simp: set_wf_def Tick_def split: prod.splits)

text \<open>
  C17. A timer fires exactly when it is due: added at any moment to any well-formed wheel set, with
  any other timers pending, a timer of \<open>n\<close> times 100 ms (below 40 s, so also the 12 s and 30 s the
  program uses) fires at the \<open>n\<close>-th tick and at no earlier one.
\<close>

theorem timer_fires_exactly:
  assumes "set_wf s" and "1 \<le> n" and "n < 400"
  shows "length (fst (ticks n (AddTimer m (100 * int n) s))) = n
     \<and> (\<forall>j < n. next_uid s \<in> uid ` set (fst (ticks n (AddTimer m (100 * int n) s)) ! j) \<longleftrightarrow> j = n - 1)"
  by (rule ticks_scheduled [OF AddTimer_wf [OF assms] AddTimer_facts(1) [OF assms] assms(2)])

theorem timer_fires_exactly_witness:
  "let s = AddTimer ''a'' (100 * int 7) new_TimerWheelSet; fired = fst (ticks 120 (AddTimer ''b'' (100 * int 120) s))
   in next_uid s \<in> uid ` set (fired ! 119) \<and> next_uid s \<notin> uid ` set (fired ! 118) \<and> next_uid s \<notin> uid ` set (fired ! 6)"
  unfolding Let_def
  using timer_fires_exactly [OF AddTimer_wf [OF set_wf_new], of 7 120 "''b''" "''a''"] by simp

text \<open>
  Ticking neither loses nor duplicates a timer: the units fired by a tick together with those
  still in the wheels are the units that were in the wheels, and the wheels stay well formed.
\<close>

lemma Tick_conserves:
  assumes "set_wf s"
  shows "mset (map uid (fst (Tick s))) + mset (map uid (units (wheels (snd (Tick s)))))
       = mset (map uid (units (wheels s))) \<and> set_wf (snd (Tick s))"
proof -
  obtain fired s1 where t: "Tick s = (fired, s1)" by force
  have "wheels_wf (wheels s)" using assms by (simp add: set_wf_def)
  from Tick_uids(2) [OF this t] Tick_wf [OF assms t] t show ?thesis by simp
qed

end
