(* ===== verification/Bulk_Handler.thy ===== *)
theory Bulk_Handler
  imports Bulk_Storage Timer_Wheel Msg_Queue
begin

text \<open>
  \<^verbatim>\<open>MemoryBulkHandler\<close> of \<^verbatim>\<open>include/Data_manager.h\<close>, \<^verbatim>\<open>src/log_processor/MemoryBulkHandler.cpp\<close> and
  the two handler operations of \<^verbatim>\<open>data_manager.cpp\<close>: a bulk with its life cycle (appending, full,
  saved, back in memory), the lazy reads of its files and its timers.  A handler is known by a
  number (its address).  The calls are the ones made under the handler's lock; the locks
  themselves are the subject of \<open>RW_Lock\<close>, and \<open>Append_Race\<close> cuts an append where it holds none.
\<close>

section \<open>The handler and what it shares\<close>

datatype MemoryBulkState = Init | Appending | InQueue | InMemory | Saved

text \<open>
  \<open>unit_slot\<close> is the slot of the bulk-data queue \<^verbatim>\<open>data_\<close> points into, \<open>None\<close> for a buffer from the
  heap; the buffer's bytes are the bulk's \<open>data\<close>.  The constructor gives every file the start serial
  as its number, converted to \<^verbatim>\<open>int\<close>.
\<close>

record MemoryBulkHandler =
  hid :: nat
  bh_state :: MemoryBulkState
  offset_read :: bool
  timestamp_read :: bool
  key_read :: bool
  word_read :: bool
  bulk :: MemoryBulk
  file_num :: int
  unit_slot :: "nat option"
  bh_start_time :: u64
  bh_end_time :: u64

text \<open>A unit of the queue is one cell: the handler its \<^verbatim>\<open>bulk_handler_\<close> points to.\<close>

record world =
  files :: disk
  bulk_data_queue :: "nat option MsgQueue"
  bulk_data_timer_wheel :: "nat TimerWheelSet"
  bulk_auto_persistence_timer_wheel :: "nat TimerWheelSet"

type_synonym 'a step = "('a \<times> MemoryBulkHandler \<times> world) res"

definition set_unit_handler :: "nat \<Rightarrow> nat option \<Rightarrow> world \<Rightarrow> world" where
  "set_unit_handler p h w = w\<lparr>bulk_data_queue := (bulk_data_queue w)\<lparr>slots := (slots (bulk_data_queue w))[p := [h]]\<rparr>\<rparr>"

text \<open>
  \<^verbatim>\<open>New_BulkData_init\<close> asks the queue for a zeroed unit until it gets one; \<open>None\<close>: no unit is free,
  and the loop waits for the persistence thread.
\<close>

definition New_BulkData_init :: "MemoryBulkHandler \<Rightarrow> world \<Rightarrow> (MemoryBulkHandler \<times> world) option" where
  "New_BulkData_init h w =
     (let (p, q) = Get_Unit None (bulk_data_queue w)
      in case p of
           None \<Rightarrow> None
         | Some slot \<Rightarrow>
             Some (h\<lparr>bulk := (bulk h)\<lparr>data := Some []\<rparr>, unit_slot := Some slot,
                     bh_state := (if bh_state h = Init then Appending else bh_state h)\<rparr>,
                   set_unit_handler slot (Some (hid h)) (w\<lparr>bulk_data_queue := q\<rparr>)))"

definition new_MemoryBulkHandler :: "nat \<Rightarrow> MemoryBulk \<Rightarrow> world \<Rightarrow> (MemoryBulkHandler \<times> world) option" where
  "new_MemoryBulkHandler n b w =
     New_BulkData_init \<lparr>hid = n, bh_state = Init, offset_read = True, timestamp_read = True, key_read = True,
       word_read = True, bulk = b, file_num = to_int32 (start_serial b), unit_slot = None,
       bh_start_time = 0, bh_end_time = 0\<rparr> w"

definition New_BulkData :: "MemoryBulkHandler \<Rightarrow> MemoryBulkHandler" where
  "New_BulkData h = h\<lparr>bulk := (bulk h)\<lparr>data := Some []\<rparr>, unit_slot := None\<rparr>"

section \<open>Timers\<close>

definition Set_timer :: "MemoryBulkHandler \<Rightarrow> world \<Rightarrow> world" where
  "Set_timer h w =
     (if bh_state h = Appending \<or> bh_state h = InQueue then w
      else w\<lparr>bulk_data_timer_wheel := AddTimer (hid h) RELEASE_TIME (DelTimer (hid h) (bulk_data_timer_wheel w))\<rparr>)"

definition Set_auto_persistence_timer :: "MemoryBulkHandler \<Rightarrow> world \<Rightarrow> world" where
  "Set_auto_persistence_timer h w =
     (if bh_state h \<noteq> Appending then w
      else w\<lparr>bulk_auto_persistence_timer_wheel :=
             AddTimer (hid h) AUTOSAVE_TIME (DelTimer (hid h) (bulk_auto_persistence_timer_wheel w))\<rparr>)"

definition Delete_auto_persistence_timer :: "MemoryBulkHandler \<Rightarrow> world \<Rightarrow> world" where
  "Delete_auto_persistence_timer h w =
     w\<lparr>bulk_auto_persistence_timer_wheel := DelTimer (hid h) (bulk_auto_persistence_timer_wheel w)\<rparr>"

section \<open>Appending\<close>

text \<open>\<open>None\<close> in the result is \<^verbatim>\<open>-1\<close>.\<close>

definition bh_Append :: "string \<Rightarrow> nat \<Rightarrow> MemoryBulkHandler \<Rightarrow> world \<Rightarrow> nat option step" where
  "bh_Append str len h w =
     (if bh_state h = Appending
      then bindE (mb_Append str len (bulk h)) (\<lambda>(ret, b).
             let h1 = (if ret = None then h\<lparr>bulk := b, bh_state := InQueue\<rparr> else h\<lparr>bulk := b\<rparr>)
             in Inr (ret, h1, Set_auto_persistence_timer h1 w))
      else Inr (None, h, w))"

definition bh_Build_index :: "nat \<Rightarrow> string \<Rightarrow> string \<Rightarrow> u64 \<Rightarrow> MemoryBulkHandler \<Rightarrow> MemoryBulkHandler" where
  "bh_Build_index off content key timestamp h =
     (if bh_state h \<noteq> Appending then h
      else h\<lparr>bh_start_time := earliest (bh_start_time h) timestamp,
             bh_end_time := latest (bh_end_time h) timestamp,
             bulk := mb_Build_index off content key timestamp (bulk h)\<rparr>)"

section \<open>Saving, reading and dropping the parts\<close>

abbreviation set_index :: "BulkIndex \<Rightarrow> MemoryBulkHandler \<Rightarrow> MemoryBulkHandler" where
  "set_index ix h \<equiv> h\<lparr>bulk := (bulk h)\<lparr>mb_index := ix\<rparr>\<rparr>"

definition Save_Content :: "MemoryBulkHandler \<Rightarrow> world \<Rightarrow> (MemoryBulkHandler \<times> world) res" where
  "Save_Content h w =
     bindE (Save_log_content_file (file_num h) (data (bulk h)) (files w)) (\<lambda>d.
       Inr (h\<lparr>bh_state := Saved\<rparr>, w\<lparr>files := d\<rparr>))"

definition Read_Content :: "MemoryBulkHandler \<Rightarrow> world \<Rightarrow> MemoryBulkHandler res" where
  "Read_Content h w =
     (let h1 = (if data (bulk h) = None then New_BulkData h else h)
      in case data (bulk h1) of
           None \<Rightarrow> Inl UB
         | Some buffer \<Rightarrow>
             bindE (Read_log_content_file (file_num h1) buffer (files w)) (\<lambda>buffer'.
               Inr (h1\<lparr>bulk := (bulk h1)\<lparr>data := Some buffer'\<rparr>, bh_state := InMemory\<rparr>)))"

definition Get_data :: "MemoryBulkHandler \<Rightarrow> world \<Rightarrow> string step" where
  "Get_data h w =
     bindE (if bh_state h = Saved
            then bindE (Read_Content h w) (\<lambda>h1.
                   let h2 = h1\<lparr>bh_state := InMemory\<rparr> in Inr (h2, Set_timer h2 w))
            else Inr (h, w)) (\<lambda>(h1, w1).
       case data (bulk h1) of None \<Rightarrow> Inl UB | Some buffer \<Rightarrow> Inr (buffer, h1, w1))"

definition Save_index :: "MemoryBulkHandler \<Rightarrow> world \<Rightarrow> MemoryBulkHandler \<times> world" where
  "Save_index h w =
     (if \<not> offset_read h then (h, w)
      else (let ix = mb_index (bulk h)
            in ((set_index (ix\<lparr>offset_list := []\<rparr>) h)\<lparr>offset_read := False\<rparr>,
                w\<lparr>files := Save_index_file (file_num h) (offset_list ix) (files w)\<rparr>)))"

definition Read_index :: "MemoryBulkHandler \<Rightarrow> world \<Rightarrow> MemoryBulkHandler res" where
  "Read_index h w = bindE (Read_index_file (file_num h) (files w)) (\<lambda>os.
     Inr ((set_index ((mb_index (bulk h))\<lparr>offset_list := os\<rparr>) h)\<lparr>offset_read := True\<rparr>))"

definition Save_timestamp :: "MemoryBulkHandler \<Rightarrow> world \<Rightarrow> MemoryBulkHandler \<times> world" where
  "Save_timestamp h w =
     (if \<not> timestamp_read h then (h, w)
      else (let ix = mb_index (bulk h)
            in ((set_index (ix\<lparr>timestamp_list := []\<rparr>) h)\<lparr>timestamp_read := False\<rparr>,
                w\<lparr>files := Save_timestamp_file (file_num h) (timestamp_list ix) (files w)\<rparr>)))"

definition Read_timestamp :: "MemoryBulkHandler \<Rightarrow> world \<Rightarrow> MemoryBulkHandler res" where
  "Read_timestamp h w = bindE (Read_timestamp_file (file_num h) (files w)) (\<lambda>ts.
     Inr ((set_index ((mb_index (bulk h))\<lparr>timestamp_list := ts\<rparr>) h)\<lparr>timestamp_read := True\<rparr>))"

definition Save_key_trie :: "MemoryBulkHandler \<Rightarrow> world \<Rightarrow> (MemoryBulkHandler \<times> world) res" where
  "Save_key_trie h w =
     (if \<not> key_read h then Inr (h, w)
      else bindE (Save_trie_file KeyTrie (file_num h) (key_serial_trie (mb_index (bulk h))) (files w)) (\<lambda>(t, d).
        Inr ((set_index ((mb_index (bulk h))\<lparr>key_serial_trie := t\<rparr>) h)\<lparr>key_read := False\<rparr>, w\<lparr>files := d\<rparr>)))"

definition Read_key_trie :: "MemoryBulkHandler \<Rightarrow> world \<Rightarrow> MemoryBulkHandler res" where
  "Read_key_trie h w =
     bindE (Read_trie_file KeyTrie (file_num h) (files w) (key_serial_trie (mb_index (bulk h)))) (\<lambda>t.
       Inr ((set_index ((mb_index (bulk h))\<lparr>key_serial_trie := t\<rparr>) h)\<lparr>key_read := True\<rparr>))"

definition Save_word_trie :: "MemoryBulkHandler \<Rightarrow> world \<Rightarrow> (MemoryBulkHandler \<times> world) res" where
  "Save_word_trie h w =
     (if \<not> word_read h then Inr (h, w)
      else bindE (Save_word_trie_file (file_num h) (keyword_serial_trie (mb_index (bulk h))) (files w)) (\<lambda>(t, d).
        Inr ((set_index ((mb_index (bulk h))\<lparr>keyword_serial_trie := t\<rparr>) h)\<lparr>word_read := False\<rparr>, w\<lparr>files := d\<rparr>)))"

definition Read_word_trie :: "MemoryBulkHandler \<Rightarrow> world \<Rightarrow> MemoryBulkHandler res" where
  "Read_word_trie h w =
     bindE (Read_word_trie_file (file_num h) (files w) (keyword_serial_trie (mb_index (bulk h)))) (\<lambda>t.
       Inr ((set_index ((mb_index (bulk h))\<lparr>keyword_serial_trie := t\<rparr>) h)\<lparr>word_read := True\<rparr>))"

text \<open>\<^verbatim>\<open>delete\<close> of a buffer inside the queue's memory is undefined behaviour.\<close>

definition Delete_Content :: "MemoryBulkHandler \<Rightarrow> MemoryBulkHandler res" where
  "Delete_Content h =
     (let h1 = (if bh_state h = Appending then h\<lparr>bulk := (bulk h)\<lparr>data := None\<rparr>\<rparr> else h)
      in if bh_state h1 \<noteq> Saved \<and> data (bulk h1) \<noteq> None
         then (if unit_slot h1 \<noteq> None then Inl UB
               else Inr (h1\<lparr>bulk := (bulk h1)\<lparr>data := None\<rparr>, bh_state := Saved\<rparr>))
         else Inr (h1\<lparr>bh_state := Saved\<rparr>))"

definition Delete_index :: "MemoryBulkHandler \<Rightarrow> MemoryBulkHandler" where
  "Delete_index h =
     (if offset_read h then set_index ((mb_index (bulk h))\<lparr>offset_list := []\<rparr>) h else h)\<lparr>offset_read := False\<rparr>"

definition Delete_timestamp :: "MemoryBulkHandler \<Rightarrow> MemoryBulkHandler" where
  "Delete_timestamp h =
     (if timestamp_read h then set_index ((mb_index (bulk h))\<lparr>timestamp_list := []\<rparr>) h else h)\<lparr>timestamp_read := False\<rparr>"

definition Delete_key_trie :: "MemoryBulkHandler \<Rightarrow> MemoryBulkHandler" where
  "Delete_key_trie h =
     (if key_read h then set_index ((mb_index (bulk h))\<lparr>key_serial_trie := Delete_tree (key_serial_trie (mb_index (bulk h)))\<rparr>) h
      else h)\<lparr>key_read := False\<rparr>"

definition Delete_word_trie :: "MemoryBulkHandler \<Rightarrow> MemoryBulkHandler" where
  "Delete_word_trie h =
     (if word_read h then set_index ((mb_index (bulk h))\<lparr>keyword_serial_trie := Delete_tree (keyword_serial_trie (mb_index (bulk h)))\<rparr>) h
      else h)\<lparr>word_read := False\<rparr>"

definition Release_space :: "MemoryBulkHandler \<Rightarrow> MemoryBulkHandler res" where
  "Release_space h = bindE (Delete_Content h) (\<lambda>h1.
     Inr (Delete_word_trie (Delete_key_trie (Delete_timestamp (Delete_index h1)))))"

section \<open>Persistence\<close>

text \<open>The result is false for the \<^verbatim>\<open>-1\<close> of a bulk that is saved already.\<close>

definition Persistence :: "MemoryBulkHandler \<Rightarrow> world \<Rightarrow> bool step" where
  "Persistence h w =
     (if bh_state h \<noteq> InMemory \<and> bh_state h \<noteq> InQueue \<and> bh_state h \<noteq> Appending then Inr (False, h, w)
      else bindE (Save_Content (h\<lparr>bh_state := Saved\<rparr>) w) (\<lambda>(h1, w1).
        let (h2, w2) = Save_index h1 w1; (h3, w3) = Save_timestamp h2 w2
        in bindE (Save_key_trie h3 w3) (\<lambda>(h4, w4).
           bindE (Save_word_trie h4 w4) (\<lambda>(h5, w5).
           let w6 = (case unit_slot h5 of
                       Some p \<Rightarrow> if data (bulk h5) \<noteq> None then set_unit_handler p None w5 else w5
                     | None \<Rightarrow> w5)
           in Inr (True, h5\<lparr>bulk := (bulk h5)\<lparr>data := None\<rparr>, unit_slot := None\<rparr>, w6)))))"

section \<open>Queries, which read back what is not in memory\<close>

definition bh_Get_offset_by_serial :: "nat \<Rightarrow> MemoryBulkHandler \<Rightarrow> world \<Rightarrow> nat option step" where
  "bh_Get_offset_by_serial serial h w =
     bindE (if \<not> offset_read h then Read_index h w else Inr h) (\<lambda>h1.
     bindE (mb_Get_offset_by_serial serial (bulk h1)) (\<lambda>ret. Inr (ret, h1, w)))"

definition bh_Search_key :: "string \<Rightarrow> MemoryBulkHandler \<Rightarrow> world \<Rightarrow> nat list option step" where
  "bh_Search_key key h w =
     bindE (if \<not> key_read h then Read_key_trie h w else Inr h) (\<lambda>h1.
       Inr (mb_Search_key key (bulk h1), h1, Set_timer h1 w))"

definition bh_Search_keyword :: "string \<Rightarrow> MemoryBulkHandler \<Rightarrow> world \<Rightarrow> nat list option step" where
  "bh_Search_keyword keyword h w =
     bindE (if \<not> word_read h then Read_word_trie h w else Inr h) (\<lambda>h1.
       Inr (mb_Search_keyword keyword (bulk h1), h1, Set_timer h1 w))"

definition bh_Join_search :: "string list \<Rightarrow> MemoryBulkHandler \<Rightarrow> world \<Rightarrow> nat list step" where
  "bh_Join_search word_list h w =
     bindE (if \<not> word_read h then Read_word_trie h w else Inr h) (\<lambda>h1.
     bindE (mb_Join_search word_list (bulk h1)) (\<lambda>ret. Inr (ret, h1, Set_timer h1 w)))"

definition bh_Search_time_key ::
  "u64 \<Rightarrow> u64 \<Rightarrow> string \<Rightarrow> bool \<Rightarrow> MemoryBulkHandler \<Rightarrow> world \<Rightarrow> (bool \<times> (nat list \<times> int \<times> int) option) step" where
  "bh_Search_time_key start end_t key end_search h w =
     (if start > bh_end_time h then Inr ((True, None), h, w)
      else if end_t < bh_start_time h then Inr ((end_search, None), h, w)
      else bindE (if \<not> key_read h then Read_key_trie h w else Inr h) (\<lambda>h1.
           bindE (if \<not> timestamp_read h1 then Read_timestamp h1 w else Inr h1) (\<lambda>h2.
           bindE (mb_Search_time_key start end_t key end_search (bulk h2)) (\<lambda>ret.
           Inr (ret, h2, Set_timer h2 w)))))"

text \<open>\<^verbatim>\<open>LogHandler\<close>: the offset of an entry, then its line in the bulk's data.\<close>

definition Get_content_ref :: "nat \<Rightarrow> MemoryBulkHandler \<Rightarrow> world \<Rightarrow> (string \<times> nat) step" where
  "Get_content_ref serial h w =
     bindE (bh_Get_offset_by_serial serial h w) (\<lambda>(off, h1, w1).
     bindE (Get_data h1 w1) (\<lambda>(buffer, h2, w2).
     bindE (content_ref off buffer) (\<lambda>ret. Inr (ret, h2, w2))))"

section \<open>Which entries a handler stands for\<close>

definition trie_saved :: "file_kind \<Rightarrow> int \<Rightarrow> disk \<Rightarrow> (string \<Rightarrow> nat list) \<Rightarrow> bool" where
  "trie_saved k n d f \<longleftrightarrow> (\<forall>t. \<exists>t1. Read_trie_file k n d t = Inr t1 \<and> savable t1 \<and> (\<forall>q. trie_list t1 q = f q))"

definition saved_index :: "disk \<Rightarrow> int \<Rightarrow> log_entry list \<Rightarrow> bool" where
  "saved_index d n ls \<longleftrightarrow> Read_index_file n d = Inr (offsets ls) \<and> Read_timestamp_file n d = Inr (map le_time ls)
     \<and> trie_saved KeyTrie n d (\<lambda>q. serials_of_key q ls) \<and> trie_saved WordTrie n d (\<lambda>q. serials_of_word q ls)"

definition saved_files :: "disk \<Rightarrow> int \<Rightarrow> log_entry list \<Rightarrow> bool" where
  "saved_files d n ls \<longleftrightarrow> d (path Content n) = Some (text_of ls) \<and> saved_index d n ls"

text \<open>The parts that are in memory are right; a part that is not is read from a file that is.\<close>

definition parts_ok :: "MemoryBulkHandler \<Rightarrow> log_entry list \<Rightarrow> bool" where
  "parts_ok h ls \<longleftrightarrow> (let ix = mb_index (bulk h) in
       (offset_read h \<longrightarrow> offset_list ix = offsets ls)
     \<and> (timestamp_read h \<longrightarrow> timestamp_list ix = map le_time ls)
     \<and> (key_read h \<longrightarrow> savable (key_serial_trie ix) \<and> (\<forall>q. trie_list (key_serial_trie ix) q = serials_of_key q ls))
     \<and> (word_read h \<longrightarrow> savable (keyword_serial_trie ix) \<and> (\<forall>q. trie_list (keyword_serial_trie ix) q = serials_of_word q ls)))"

definition header_ok :: "MemoryBulkHandler \<Rightarrow> log_entry list \<Rightarrow> bool" where
  "header_ok h ls \<longleftrightarrow> file_num h = to_int32 (start_serial (bulk h)) \<and> mb_size (bulk h) = length ls
     \<and> mb_start_time (bulk h) = first_time ls \<and> mb_end_time (bulk h) = last_time ls
     \<and> bh_start_time h = first_time ls \<and> bh_end_time h = last_time ls
     \<and> length (text_of ls) + 1 < BULKSIZE \<and> (\<forall>e \<in> set ls. storable e)"

definition handler_repr :: "MemoryBulkHandler \<Rightarrow> disk \<Rightarrow> log_entry list \<Rightarrow> bool" where
  "handler_repr h d ls \<longleftrightarrow> header_ok h ls \<and>
     (case bh_state h of
        Init \<Rightarrow> False
      | Appending \<Rightarrow> bulk_repr (bulk h) ls \<and> bulk_grown (bulk h) ls \<and> unit_slot h \<noteq> None
          \<and> offset_read h \<and> timestamp_read h \<and> key_read h \<and> word_read h
      | InQueue \<Rightarrow> bulk_repr (bulk h) ls \<and> bulk_grown (bulk h) ls \<and> unit_slot h \<noteq> None
          \<and> offset_read h \<and> timestamp_read h \<and> key_read h \<and> word_read h
      | InMemory \<Rightarrow> saved_files d (file_num h) ls \<and> parts_ok h ls \<and> unit_slot h = None \<and> data (bulk h) = Some (text_of ls)
      | Saved \<Rightarrow> saved_files d (file_num h) ls \<and> parts_ok h ls \<and> unit_slot h = None \<and> data (bulk h) = None)"

text \<open>Only a handler's own files matter to it, and it writes no others.\<close>

definition own_paths :: "int \<Rightarrow> string set" where
  "own_paths n = {path k n | k. True}"

lemma to_int32_bound: "\<bar>to_int32 x\<bar> < 10 ^ 19"
proof -
  have "- (2 ^ 31) \<le> to_int32 x" "to_int32 x < 2 ^ 31"
    using sint_greater_eq [of "ucast x :: 32 word"] sint_less [of "ucast x :: 32 word"]
    by (simp_all add: to_int32_def)
  then show ?thesis by (simp add: abs_less_iff)
qed

lemma path_neq: "k \<noteq> j \<Longrightarrow> path k (to_int32 x) \<noteq> path j (to_int32 x)"
  using file_name_inj [OF to_int32_bound to_int32_bound] by blast

lemma trie_saved_cong: "d1 (path k n) = d2 (path k n) \<Longrightarrow> trie_saved k n d1 f = trie_saved k n d2 f"
  by (simp add: trie_saved_def Read_trie_file_def Open_existing_file_def)

lemma saved_files_cong:
  "(\<And>k. d1 (path k n) = d2 (path k n)) \<Longrightarrow> saved_files d1 n ls = saved_files d2 n ls"
  using trie_saved_cong [of d1 _ n d2]
  by (simp add: saved_files_def saved_index_def Read_index_file_def Read_timestamp_file_def Open_existing_file_def)

lemma handler_repr_cong:
  "(\<And>k. d1 (path k (file_num h)) = d2 (path k (file_num h))) \<Longrightarrow> handler_repr h d1 ls = handler_repr h d2 ls"
  using saved_files_cong [of d1 "file_num h" d2 ls]
  by (cases "bh_state h") (simp_all add: handler_repr_def)

section \<open>Persistence writes everything\<close>

lemma text_nul_free: "\<forall>e \<in> set ls. entry_ok e \<Longrightarrow> nul_free (text_of ls)"
  by (induction ls) (auto simp: text_of_def line_nul_free)

lemma bulk_repr_parts:
  assumes "bulk_repr (bulk h) ls" "bulk_grown (bulk h) ls" "\<forall>e \<in> set ls. storable e"
  shows "parts_ok h ls"
  using bulk_tries_savable [OF assms] assms(1) by (simp add: parts_ok_def bulk_repr_def index_repr_def Let_def)

lemma Save_trie_saved:
  assumes "savable t" "\<forall>q. trie_list t q = f q" "Save_trie_file k n t d = Inr (t1, d1)"
  shows "trie_saved k n d1 f" "p \<noteq> path k n \<Longrightarrow> d1 p = d p"
proof -
  obtain t1' d1' where s: "Save_trie_file k n t d = Inr (t1', d1')" "\<forall>p. p \<noteq> path k n \<longrightarrow> d1' p = d p"
    "\<forall>d2 t0. d2 (path k n) = d1' (path k n) \<longrightarrow>
       (\<exists>t2. Read_trie_file k n d2 t0 = Inr t2 \<and> (\<forall>q. trie_search q t2 = trie_search q t)
          \<and> savable t2 \<and> read_only t2 = read_only t0)"
    using trie_roundtrip [OF assms(1), of k n d] by (elim exE conjE) (rule that)
  with assms(3) have "d1' = d1" by simp
  have "\<exists>t2. Read_trie_file k n d1 t0 = Inr t2 \<and> savable t2 \<and> (\<forall>q. trie_list t2 q = f q)" for t0
  proof -
    obtain t2 where "Read_trie_file k n d1 t0 = Inr t2" "\<forall>q. trie_search q t2 = trie_search q t" "savable t2"
      using s(3) [rule_format, of d1 t0] \<open>d1' = d1\<close> by auto
    moreover from this(2) assms(2) have "\<forall>q. trie_list t2 q = f q" by (simp add: trie_list_def)
    ultimately show ?thesis by blast
  qed
  then show "trie_saved k n d1 f" by (simp add: trie_saved_def)
  show "p \<noteq> path k n \<Longrightarrow> d1 p = d p" using s(2) \<open>d1' = d1\<close> by simp
qed

lemma Save_trie_total: "savable t \<Longrightarrow> \<exists>t1 d1. Save_trie_file k n t d = Inr (t1, d1)"
  using trie_roundtrip by blast

lemma offsets_small: "length (text_of ls) + 1 < BULKSIZE \<Longrightarrow> list_all (\<lambda>n. int n \<le> INT_MAX) (offsets ls) \<and> int (length ls) \<le> INT_MAX"
proof -
  assume room: "length (text_of ls) + 1 < BULKSIZE"
  have "length (text_of (take i ls)) \<le> length (text_of ls)" for i
    by (metis append_take_drop_id le_add1 length_append text_of_append)
  moreover have small: "int n \<le> INT_MAX" if "n \<le> length (text_of ls)" for n
    using that room by (simp add: INT_MAX_def BULKSIZE_def)
  ultimately show ?thesis using small [OF entries_le_text]
    by (auto simp: offsets_def list_all_iff)
qed

text \<open>What the parts' operations leave alone: all but the index, the read flags and the files.\<close>

definition keeps :: "MemoryBulkHandler \<Rightarrow> MemoryBulkHandler \<Rightarrow> bool" where
  "keeps h h' \<longleftrightarrow> hid h' = hid h \<and> bh_state h' = bh_state h \<and> file_num h' = file_num h \<and> unit_slot h' = unit_slot h
     \<and> bh_start_time h' = bh_start_time h \<and> bh_end_time h' = bh_end_time h
     \<and> start_serial (bulk h') = start_serial (bulk h) \<and> mb_size (bulk h') = mb_size (bulk h)
     \<and> mb_start_time (bulk h') = mb_start_time (bulk h) \<and> mb_end_time (bulk h') = mb_end_time (bulk h)
     \<and> mb_offset (bulk h') = mb_offset (bulk h) \<and> data (bulk h') = data (bulk h)"

lemma keeps_refl: "keeps h h"
  by (simp add: keeps_def)

lemma keeps_trans: "keeps h h1 \<Longrightarrow> keeps h1 h2 \<Longrightarrow> keeps h h2"
  by (simp add: keeps_def)

lemma keeps_header: "keeps h h' \<Longrightarrow> header_ok h' ls = header_ok h ls"
  by (simp add: keeps_def header_ok_def)

definition only_file :: "file_kind \<Rightarrow> int \<Rightarrow> world \<Rightarrow> world \<Rightarrow> bool" where
  "only_file k n w w' \<longleftrightarrow> (\<forall>p. p \<noteq> path k n \<longrightarrow> files w' p = files w p) \<and> w' = w\<lparr>files := files w'\<rparr>"

lemma Save_index_step:
  assumes "parts_ok h ls" "length (text_of ls) + 1 < BULKSIZE"
    and "\<not> offset_read h \<longrightarrow> Read_index_file (file_num h) (files w) = Inr (offsets ls)"
  shows "\<exists>h' w'. Save_index h w = (h', w') \<and> keeps h h' \<and> parts_ok h' ls \<and> \<not> offset_read h'
     \<and> timestamp_read h' = timestamp_read h \<and> key_read h' = key_read h \<and> word_read h' = word_read h
     \<and> Read_index_file (file_num h) (files w') = Inr (offsets ls) \<and> only_file Index (file_num h) w w'"
proof (cases "offset_read h")
  case True
  then have o1: "offset_list (mb_index (bulk h)) = offsets ls" using assms(1) by (simp add: parts_ok_def Let_def)
  have "Read_index_file (file_num h) (Save_index_file (file_num h) (offsets ls) (files w)) = Inr (offsets ls)"
    using offsets_small [OF assms(2)]
      Read_index_Save [where os = "offsets ls" and num = "file_num h" and d' = "files w"
        and d = "Save_index_file (file_num h) (offsets ls) (files w)"] by (simp add: offsets_def)
  with True assms(1) o1 show ?thesis
    by (simp add: Save_index_def Let_def keeps_def parts_ok_def only_file_def Save_index_file_def put_new_other)
qed (use assms in \<open>simp add: Save_index_def keeps_refl only_file_def\<close>)

lemma Save_timestamp_step:
  assumes "parts_ok h ls" "length (text_of ls) + 1 < BULKSIZE"
    and "\<not> timestamp_read h \<longrightarrow> Read_timestamp_file (file_num h) (files w) = Inr (map le_time ls)"
  shows "\<exists>h' w'. Save_timestamp h w = (h', w') \<and> keeps h h' \<and> parts_ok h' ls \<and> \<not> timestamp_read h'
     \<and> offset_read h' = offset_read h \<and> key_read h' = key_read h \<and> word_read h' = word_read h
     \<and> Read_timestamp_file (file_num h) (files w') = Inr (map le_time ls) \<and> only_file TimeStamp (file_num h) w w'"
proof (cases "timestamp_read h")
  case True
  then have o1: "timestamp_list (mb_index (bulk h)) = map le_time ls" using assms(1) by (simp add: parts_ok_def Let_def)
  have "Read_timestamp_file (file_num h) (Save_timestamp_file (file_num h) (map le_time ls) (files w)) = Inr (map le_time ls)"
    using offsets_small [OF assms(2)]
      Read_timestamp_Save [where ts = "map le_time ls" and num = "file_num h" and d' = "files w"
        and d = "Save_timestamp_file (file_num h) (map le_time ls) (files w)"] by simp
  with True assms(1) o1 show ?thesis
    by (simp add: Save_timestamp_def Let_def keeps_def parts_ok_def only_file_def Save_timestamp_file_def put_new_other)
qed (use assms in \<open>simp add: Save_timestamp_def keeps_refl only_file_def\<close>)

lemma Save_key_trie_step:
  assumes "parts_ok h ls"
    and "\<not> key_read h \<longrightarrow> trie_saved KeyTrie (file_num h) (files w) (\<lambda>q. serials_of_key q ls)"
  shows "\<exists>h' w'. Save_key_trie h w = Inr (h', w') \<and> keeps h h' \<and> parts_ok h' ls \<and> \<not> key_read h'
     \<and> offset_read h' = offset_read h \<and> timestamp_read h' = timestamp_read h \<and> word_read h' = word_read h
     \<and> trie_saved KeyTrie (file_num h) (files w') (\<lambda>q. serials_of_key q ls) \<and> only_file KeyTrie (file_num h) w w'"
proof (cases "key_read h")
  case True
  then have t: "savable (key_serial_trie (mb_index (bulk h)))"
    "\<forall>q. trie_list (key_serial_trie (mb_index (bulk h))) q = serials_of_key q ls"
    using assms(1) by (simp_all add: parts_ok_def Let_def)
  obtain t1 d1 where s: "Save_trie_file KeyTrie (file_num h) (key_serial_trie (mb_index (bulk h))) (files w) = Inr (t1, d1)"
    using Save_trie_total [OF t(1)] by blast
  with Save_trie_saved [OF t s] True assms(1) show ?thesis
    by (simp add: Save_key_trie_def keeps_def parts_ok_def Let_def only_file_def)
qed (use assms in \<open>simp add: Save_key_trie_def keeps_refl only_file_def\<close>)

lemma Save_word_trie_step:
  assumes "parts_ok h ls"
    and "\<not> word_read h \<longrightarrow> trie_saved WordTrie (file_num h) (files w) (\<lambda>q. serials_of_word q ls)"
  shows "\<exists>h' w'. Save_word_trie h w = Inr (h', w') \<and> keeps h h' \<and> parts_ok h' ls \<and> \<not> word_read h'
     \<and> offset_read h' = offset_read h \<and> timestamp_read h' = timestamp_read h \<and> key_read h' = key_read h
     \<and> trie_saved WordTrie (file_num h) (files w') (\<lambda>q. serials_of_word q ls) \<and> only_file WordTrie (file_num h) w w'"
proof (cases "word_read h")
  case True
  then have t: "savable (keyword_serial_trie (mb_index (bulk h)))"
    "\<forall>q. trie_list (keyword_serial_trie (mb_index (bulk h))) q = serials_of_word q ls"
    using assms(1) by (simp_all add: parts_ok_def Let_def)
  obtain t1 d1 where s: "Save_trie_file WordTrie (file_num h) (keyword_serial_trie (mb_index (bulk h))) (files w) = Inr (t1, d1)"
    using Save_trie_total [OF t(1)] by blast
  with Save_trie_saved [OF t s] True assms(1) show ?thesis
    by (simp add: Save_word_trie_def keeps_def parts_ok_def Let_def only_file_def)
qed (use assms in \<open>simp add: Save_word_trie_def keeps_refl only_file_def\<close>)

text \<open>The state a persisted bulk is in, and what it needs before.\<close>

definition unread_saved_parts :: "MemoryBulkHandler \<Rightarrow> disk \<Rightarrow> log_entry list \<Rightarrow> bool" where
  "unread_saved_parts h d ls \<longleftrightarrow> (let n = file_num h in
       (\<not> offset_read h \<longrightarrow> Read_index_file n d = Inr (offsets ls))
     \<and> (\<not> timestamp_read h \<longrightarrow> Read_timestamp_file n d = Inr (map le_time ls))
     \<and> (\<not> key_read h \<longrightarrow> trie_saved KeyTrie n d (\<lambda>q. serials_of_key q ls))
     \<and> (\<not> word_read h \<longrightarrow> trie_saved WordTrie n d (\<lambda>q. serials_of_word q ls)))"

lemma handler_repr_live:
  assumes "handler_repr h d ls" "bh_state h \<noteq> Saved"
  shows "parts_ok h ls" "data (bulk h) = Some (text_of ls)" "bh_state h \<in> {InMemory, InQueue, Appending}"
    "unread_saved_parts h d ls"
proof -
  have st: "\<forall>e \<in> set ls. storable e" using assms(1) by (simp add: handler_repr_def header_ok_def)
  show "parts_ok h ls" "data (bulk h) = Some (text_of ls)" "bh_state h \<in> {InMemory, InQueue, Appending}"
    using assms bulk_repr_parts [OF _ _ st]
    by (auto simp: handler_repr_def bulk_repr_def split: MemoryBulkState.splits)
  show "unread_saved_parts h d ls"
    using assms by (auto simp: unread_saved_parts_def Let_def handler_repr_def saved_files_def saved_index_def
        split: MemoryBulkState.splits)
qed

lemma only_file_path: "only_file k n w w' \<Longrightarrow> path j n \<noteq> path k n \<Longrightarrow> files w' (path j n) = files w (path j n)"
  by (simp add: only_file_def)

lemma Save_Content_live:
  assumes "data (bulk h) = Some T" "nul_free T"
  shows "\<exists>d. Save_Content h w = Inr (h\<lparr>bh_state := Saved\<rparr>, w\<lparr>files := d\<rparr>)
     \<and> d (path Content (file_num h)) = Some T \<and> only_file Content (file_num h) w (w\<lparr>files := d\<rparr>)"
  using cstr_nul_free [OF assms(2)] assms(1)
  by (intro exI [of _ "put Content (file_num h) T (New_file Content (file_num h) (files w))"])
     (simp add: Save_Content_def Save_log_content_file_def only_file_def put_new put_new_other)

text \<open>
  What \<^verbatim>\<open>Persistence\<close> writes: the text in the buffer, whatever it is, and the index of the entries the
  parts stand for.  That the text is the text of these entries is not needed.
\<close>

lemma Persistence_writes:
  assumes st: "bh_state h \<in> {InMemory, InQueue, Appending}" and T: "data (bulk h) = Some T" "nul_free T"
    and n: "file_num h = to_int32 (start_serial (bulk h))" and room: "length (text_of ls) + 1 < BULKSIZE"
    and parts: "parts_ok h ls" and unread: "unread_saved_parts h (files w) ls"
  shows "\<exists>h' w'. Persistence h w = Inr (True, h', w')
     \<and> keeps (h\<lparr>bh_state := Saved, bulk := (bulk h)\<lparr>data := None\<rparr>, unit_slot := None\<rparr>) h'
     \<and> parts_ok h' ls \<and> files w' (path Content (file_num h)) = Some T \<and> saved_index (files w') (file_num h) ls
     \<and> (\<forall>p. p \<notin> own_paths (file_num h) \<longrightarrow> files w' p = files w p)
     \<and> bulk_data_timer_wheel w' = bulk_data_timer_wheel w
     \<and> bulk_auto_persistence_timer_wheel w' = bulk_auto_persistence_timer_wheel w
     \<and> bulk_data_queue w' = (case unit_slot h of None \<Rightarrow> bulk_data_queue w
          | Some p \<Rightarrow> (bulk_data_queue w)\<lparr>slots := (slots (bulk_data_queue w))[p := [None]]\<rparr>)"
proof -
  note live = unread [unfolded unread_saved_parts_def Let_def]
  have neq: "path k (file_num h) \<noteq> path j (file_num h)" if "k \<noteq> j" for k j unfolding n using path_neq [OF that] .
  let ?n = "file_num h" and ?h0 = "h\<lparr>bh_state := Saved\<rparr>"
  obtain d where c: "Save_Content ?h0 w = Inr (?h0, w\<lparr>files := d\<rparr>)" "d (path Content ?n) = Some T"
    "only_file Content ?n w (w\<lparr>files := d\<rparr>)"
    using Save_Content_live [of ?h0 T w] T by auto
  let ?w1 = "w\<lparr>files := d\<rparr>"
  have p0: "parts_ok ?h0 ls" using parts by (simp add: parts_ok_def)
  have "Read_index_file ?n d = Read_index_file ?n (files w)" "Read_timestamp_file ?n d = Read_timestamp_file ?n (files w)"
    "trie_saved KeyTrie ?n d f = trie_saved KeyTrie ?n (files w) f" "trie_saved WordTrie ?n d f = trie_saved WordTrie ?n (files w) f" for f
    using c(3) neq by (auto simp: only_file_def Read_index_file_def Read_timestamp_file_def Open_existing_file_def intro!: trie_saved_cong)
  note d_same = this
  obtain h1 w1 where s1: "Save_index ?h0 ?w1 = (h1, w1)" "keeps ?h0 h1" "parts_ok h1 ls" "\<not> offset_read h1"
    "timestamp_read h1 = timestamp_read h" "key_read h1 = key_read h" "word_read h1 = word_read h"
    "Read_index_file ?n (files w1) = Inr (offsets ls)" "only_file Index ?n ?w1 w1"
    using Save_index_step [OF p0 room, of ?w1] live d_same by auto
  have n1: "file_num h1 = ?n" using s1(2) by (simp add: keeps_def)
  have t1: "Read_timestamp_file ?n (files w1) = Read_timestamp_file ?n d"
    using s1(9) neq by (simp add: only_file_def Read_timestamp_file_def Open_existing_file_def)
  obtain h2 w2 where s2: "Save_timestamp h1 w1 = (h2, w2)" "keeps h1 h2" "parts_ok h2 ls" "\<not> timestamp_read h2"
    "offset_read h2 = offset_read h1" "key_read h2 = key_read h1" "word_read h2 = word_read h1"
    "Read_timestamp_file ?n (files w2) = Inr (map le_time ls)" "only_file TimeStamp ?n w1 w2"
    using Save_timestamp_step [OF s1(3) room, of w1] live d_same t1 n1 s1(5) by auto
  have n2: "file_num h2 = ?n" using s2(2) n1 by (simp add: keeps_def)
  have "files w2 (path KeyTrie ?n) = d (path KeyTrie ?n)" "files w2 (path WordTrie ?n) = d (path WordTrie ?n)"
    using s1(9) s2(9) neq by (simp_all add: only_file_def)
  then have k2: "trie_saved KeyTrie ?n (files w2) f = trie_saved KeyTrie ?n d f"
    "trie_saved WordTrie ?n (files w2) f = trie_saved WordTrie ?n d f" for f
    by (auto intro!: trie_saved_cong)
  obtain h3 w3 where s3: "Save_key_trie h2 w2 = Inr (h3, w3)" "keeps h2 h3" "parts_ok h3 ls" "\<not> key_read h3"
    "offset_read h3 = offset_read h2" "timestamp_read h3 = timestamp_read h2" "word_read h3 = word_read h2"
    "trie_saved KeyTrie ?n (files w3) (\<lambda>q. serials_of_key q ls)" "only_file KeyTrie ?n w2 w3"
    using Save_key_trie_step [OF s2(3), of w2] live d_same k2 n2 s2(6) s1(6) by auto
  have n3: "file_num h3 = ?n" using s3(2) n2 by (simp add: keeps_def)
  have "files w3 (path WordTrie ?n) = files w2 (path WordTrie ?n)"
    using s3(9) neq by (simp add: only_file_def)
  then have k3: "trie_saved WordTrie ?n (files w3) f = trie_saved WordTrie ?n (files w2) f" for f
    by (auto intro!: trie_saved_cong)
  obtain h4 w4 where s4: "Save_word_trie h3 w3 = Inr (h4, w4)" "keeps h3 h4" "parts_ok h4 ls" "\<not> word_read h4"
    "offset_read h4 = offset_read h3" "timestamp_read h4 = timestamp_read h3" "key_read h4 = key_read h3"
    "trie_saved WordTrie ?n (files w4) (\<lambda>q. serials_of_word q ls)" "only_file WordTrie ?n w3 w4"
    using Save_word_trie_step [OF s3(3), of w3] live d_same k2 k3 n3 s1(7) s2(7) s3(7) by auto
  have k: "keeps ?h0 h4" using s1(2) s2(2) s3(2) s4(2) keeps_trans by blast
  have same: "files w4 (path Content ?n) = Some T"
    "files w4 (path Index ?n) = files w1 (path Index ?n)" "files w4 (path TimeStamp ?n) = files w2 (path TimeStamp ?n)"
    "files w4 (path KeyTrie ?n) = files w3 (path KeyTrie ?n)"
    using s1(9) s2(9) s3(9) s4(9) c(2) neq by (simp_all add: only_file_def)
  have saved: "saved_index (files w4) ?n ls"
    unfolding saved_index_def
  proof (intro conjI)
    show "trie_saved KeyTrie ?n (files w4) (\<lambda>q. serials_of_key q ls)"
      using s3(8) trie_saved_cong [of "files w4" KeyTrie ?n "files w3"] same(4) by simp
  qed (use same s1(8) s2(8) s4(8) in \<open>simp_all add: Read_index_file_def Read_timestamp_file_def Open_existing_file_def\<close>)
  define w5 where "w5 = (case unit_slot h4 of Some p \<Rightarrow> if data (bulk h4) \<noteq> None then set_unit_handler p None w4 else w4 | None \<Rightarrow> w4)"
  define h5 where "h5 = h4\<lparr>bulk := (bulk h4)\<lparr>data := None\<rparr>, unit_slot := None\<rparr>"
  have run: "Persistence h w = Inr (True, h5, w5)"
    using st c(1) s1(1) s2(1) s3(1) s4(1) by (auto simp: Persistence_def Let_def w5_def h5_def)
  have f5: "files w5 = files w4" "bulk_data_timer_wheel w5 = bulk_data_timer_wheel w4"
    "bulk_auto_persistence_timer_wheel w5 = bulk_auto_persistence_timer_wheel w4"
    by (simp_all add: w5_def set_unit_handler_def split: option.split)
  have "\<forall>p. p \<notin> own_paths ?n \<longrightarrow> files w5 p = files w p"
    using c(3) s1(9) s2(9) s3(9) s4(9) f5(1) by (auto simp: only_file_def own_paths_def)
  moreover have "bulk_data_timer_wheel w4 = bulk_data_timer_wheel w" "bulk_data_queue w4 = bulk_data_queue w"
    "bulk_auto_persistence_timer_wheel w4 = bulk_auto_persistence_timer_wheel w"
    using s1(9) s2(9) s3(9) s4(9) unfolding only_file_def by (metis world.ext_inject world.surjective world.update_convs(1))+
  moreover have "unit_slot h4 = unit_slot h" "data (bulk h4) \<noteq> None" using k T(1) by (simp_all add: keeps_def)
  then have "bulk_data_queue w5 = (case unit_slot h of None \<Rightarrow> bulk_data_queue w4
      | Some p \<Rightarrow> (bulk_data_queue w4)\<lparr>slots := (slots (bulk_data_queue w4))[p := [None]]\<rparr>)"
    by (cases "unit_slot h") (simp_all add: w5_def set_unit_handler_def)
  moreover have "keeps (h\<lparr>bh_state := Saved, bulk := (bulk h)\<lparr>data := None\<rparr>, unit_slot := None\<rparr>) h5" "parts_ok h5 ls"
    using k s4(3) by (simp_all add: h5_def keeps_def parts_ok_def)
  ultimately show ?thesis using run saved same(1) f5 by (intro exI [of _ h5] exI [of _ w5]) (simp split: option.split)
qed

lemma Persistence_repr:
  assumes repr: "handler_repr h (files w) ls" and live: "bh_state h \<noteq> Saved"
  shows "\<exists>h' w'. Persistence h w = Inr (True, h', w') \<and> handler_repr h' (files w') ls \<and> bh_state h' = Saved
     \<and> hid h' = hid h \<and> file_num h' = file_num h \<and> start_serial (bulk h') = start_serial (bulk h)
     \<and> (\<forall>p. p \<notin> own_paths (file_num h) \<longrightarrow> files w' p = files w p)
     \<and> bulk_data_timer_wheel w' = bulk_data_timer_wheel w
     \<and> bulk_auto_persistence_timer_wheel w' = bulk_auto_persistence_timer_wheel w
     \<and> bulk_data_queue w' = (case unit_slot h of None \<Rightarrow> bulk_data_queue w
          | Some p \<Rightarrow> (bulk_data_queue w)\<lparr>slots := (slots (bulk_data_queue w))[p := [None]]\<rparr>)"
proof -
  note live = handler_repr_live [OF repr live]
  have hd: "header_ok h ls" using repr by (simp add: handler_repr_def)
  then have n: "file_num h = to_int32 (start_serial (bulk h))" and room: "length (text_of ls) + 1 < BULKSIZE"
    and ok: "\<forall>e \<in> set ls. entry_ok e" by (auto simp: header_ok_def storable_def)
  obtain h' w' where p: "Persistence h w = Inr (True, h', w')"
    "keeps (h\<lparr>bh_state := Saved, bulk := (bulk h)\<lparr>data := None\<rparr>, unit_slot := None\<rparr>) h'" "parts_ok h' ls"
    "files w' (path Content (file_num h)) = Some (text_of ls)" "saved_index (files w') (file_num h) ls"
    and same: "\<forall>p. p \<notin> own_paths (file_num h) \<longrightarrow> files w' p = files w p"
      "bulk_data_timer_wheel w' = bulk_data_timer_wheel w"
      "bulk_auto_persistence_timer_wheel w' = bulk_auto_persistence_timer_wheel w"
      "bulk_data_queue w' = (case unit_slot h of None \<Rightarrow> bulk_data_queue w
          | Some p \<Rightarrow> (bulk_data_queue w)\<lparr>slots := (slots (bulk_data_queue w))[p := [None]]\<rparr>)"
    using Persistence_writes [OF live(3) live(2) text_nul_free [OF ok] n room live(1,4)] by blast
  have "handler_repr h' (files w') ls"
    using keeps_header [OF p(2), of ls] hd p by (simp add: handler_repr_def header_ok_def keeps_def saved_files_def)
  with p(1,2) same show ?thesis by (simp add: keeps_def)
qed

section \<open>Queries see the same entries wherever the bulk is\<close>

text \<open>
  A query keeps what the handler stands for and the files; it may bring parts back into memory.
\<close>

definition query_keeps :: "MemoryBulkHandler \<Rightarrow> world \<Rightarrow> MemoryBulkHandler \<Rightarrow> world \<Rightarrow> log_entry list \<Rightarrow> bool" where
  "query_keeps h w h' w' ls \<longleftrightarrow> handler_repr h' (files w) ls \<and> files w' = files w
     \<and> bulk_data_queue w' = bulk_data_queue w
     \<and> bulk_auto_persistence_timer_wheel w' = bulk_auto_persistence_timer_wheel w
     \<and> hid h' = hid h \<and> file_num h' = file_num h \<and> start_serial (bulk h') = start_serial (bulk h)
     \<and> (bh_state h' = bh_state h \<or> (bh_state h = Saved \<and> bh_state h' = InMemory)) \<and> unit_slot h' = unit_slot h"

lemma query_keeps_refl: "handler_repr h (files w) ls \<Longrightarrow> query_keeps h w h w ls"
  by (simp add: query_keeps_def)

lemma query_keeps_trans: "query_keeps h w h1 w1 ls \<Longrightarrow> query_keeps h1 w1 h2 w2 ls \<Longrightarrow> query_keeps h w h2 w2 ls"
  by (auto simp: query_keeps_def)

lemma Set_timer_keeps: "query_keeps h w h1 w1 ls \<Longrightarrow> query_keeps h w h1 (Set_timer h1 w1) ls"
  by (simp add: query_keeps_def Set_timer_def)

text \<open>A part that is not in memory belongs to a saved bulk.\<close>

lemma unread_saved:
  assumes "handler_repr h d ls" "\<not> offset_read h \<or> \<not> timestamp_read h \<or> \<not> key_read h \<or> \<not> word_read h \<or> bh_state h = Saved"
  shows "saved_files d (file_num h) ls" "parts_ok h ls" "bh_state h = InMemory \<or> bh_state h = Saved"
  using assms by (auto simp: handler_repr_def split: MemoryBulkState.splits)

lemma handler_parts: "handler_repr h d ls \<Longrightarrow> parts_ok h ls"
  using handler_repr_live(1) [of h d ls] by (cases "bh_state h = Saved") (auto simp: handler_repr_def)

lemma Read_index_keeps:
  assumes "handler_repr h (files w) ls"
  shows "\<exists>h1. (if \<not> offset_read h then Read_index h w else Inr h) = Inr h1 \<and> query_keeps h w h1 w ls \<and> offset_read h1
     \<and> (timestamp_read h1 = timestamp_read h \<and> key_read h1 = key_read h \<and> word_read h1 = word_read h)"
proof (cases "offset_read h")
  case False
  with unread_saved [OF assms] assms show ?thesis
    by (auto simp: Read_index_def saved_files_def saved_index_def query_keeps_def handler_repr_def header_ok_def parts_ok_def Let_def)
qed (use assms query_keeps_refl in auto)

lemma Read_timestamp_keeps:
  assumes "handler_repr h (files w) ls"
  shows "\<exists>h1. (if \<not> timestamp_read h then Read_timestamp h w else Inr h) = Inr h1 \<and> query_keeps h w h1 w ls \<and> timestamp_read h1
     \<and> (offset_read h1 = offset_read h \<and> key_read h1 = key_read h \<and> word_read h1 = word_read h)"
proof (cases "timestamp_read h")
  case False
  with unread_saved [OF assms] assms show ?thesis
    by (auto simp: Read_timestamp_def saved_files_def saved_index_def query_keeps_def handler_repr_def header_ok_def parts_ok_def Let_def)
qed (use assms query_keeps_refl in auto)

lemma Read_key_trie_keeps:
  assumes "handler_repr h (files w) ls"
  shows "\<exists>h1. (if \<not> key_read h then Read_key_trie h w else Inr h) = Inr h1 \<and> query_keeps h w h1 w ls \<and> key_read h1
     \<and> (offset_read h1 = offset_read h \<and> timestamp_read h1 = timestamp_read h \<and> word_read h1 = word_read h)"
proof (cases "key_read h")
  case False
  note f = unread_saved [OF assms]
  have "trie_saved KeyTrie (file_num h) (files w) (\<lambda>q. serials_of_key q ls)" using f(1) False by (simp add: saved_files_def saved_index_def)
  then obtain t where "Read_trie_file KeyTrie (file_num h) (files w) (key_serial_trie (mb_index (bulk h))) = Inr t"
    "savable t" "\<forall>q. trie_list t q = serials_of_key q ls"
    unfolding trie_saved_def by blast
  with f False assms show ?thesis
    by (auto simp: Read_key_trie_def query_keeps_def handler_repr_def header_ok_def parts_ok_def Let_def)
qed (use assms query_keeps_refl in auto)

lemma Read_word_trie_keeps:
  assumes "handler_repr h (files w) ls"
  shows "\<exists>h1. (if \<not> word_read h then Read_word_trie h w else Inr h) = Inr h1 \<and> query_keeps h w h1 w ls \<and> word_read h1
     \<and> (offset_read h1 = offset_read h \<and> timestamp_read h1 = timestamp_read h \<and> key_read h1 = key_read h)"
proof (cases "word_read h")
  case False
  note f = unread_saved [OF assms]
  have "trie_saved WordTrie (file_num h) (files w) (\<lambda>q. serials_of_word q ls)" using f(1) False by (simp add: saved_files_def saved_index_def)
  then obtain t where "Read_trie_file WordTrie (file_num h) (files w) (keyword_serial_trie (mb_index (bulk h))) = Inr t"
    "savable t" "\<forall>q. trie_list t q = serials_of_word q ls"
    unfolding trie_saved_def by blast
  with f False assms show ?thesis
    by (auto simp: Read_word_trie_def query_keeps_def handler_repr_def header_ok_def parts_ok_def Let_def)
qed (use assms query_keeps_refl in auto)

lemma Get_data_keeps:
  assumes "handler_repr h (files w) ls"
  shows "\<exists>h1 w1. Get_data h w = Inr (text_of ls, h1, w1) \<and> query_keeps h w h1 w1 ls"
proof (cases "bh_state h = Saved")
  case True
  have hd: "header_ok h ls" "data (bulk h) = None" "saved_files (files w) (file_num h) ls" "parts_ok h ls" "unit_slot h = None"
    using assms True by (simp_all add: handler_repr_def)
  have "length (text_of ls) \<le> BULKSIZE" using hd(1) by (simp add: header_ok_def)
  then have "Read_log_content_file (file_num h) [] (files w) = Inr (text_of ls)"
    using hd(3) by (simp add: Read_log_content_file_def Open_existing_file_def saved_files_def buf_write_def)
  then have rc: "Read_Content h w = Inr (h\<lparr>bulk := (bulk h)\<lparr>data := Some (text_of ls)\<rparr>, unit_slot := None, bh_state := InMemory\<rparr>)"
    using hd(2) by (simp add: Read_Content_def New_BulkData_def Let_def)
  have "handler_repr (h\<lparr>bulk := (bulk h)\<lparr>data := Some (text_of ls)\<rparr>, unit_slot := None, bh_state := InMemory\<rparr>) (files w) ls"
    using hd by (simp add: handler_repr_def header_ok_def parts_ok_def)
  with rc True hd(5) show ?thesis by (auto simp: Get_data_def Let_def query_keeps_def Set_timer_def)
next
  case False
  with handler_repr_live(2) [OF assms False] query_keeps_refl [OF assms] show ?thesis by (simp add: Get_data_def)
qed

lemma Get_content_ref_repr:
  assumes "handler_repr h (files w) ls" "i < length ls"
  shows "\<exists>rest h' w'. Get_content_ref i h w
       = Inr ((first_line (line_of (ls ! i)) @ rest, length (first_line (line_of (ls ! i))) - 1), h', w')
     \<and> query_keeps h w h' w' ls"
proof -
  obtain h1 where h1: "(if \<not> offset_read h then Read_index h w else Inr h) = Inr h1" "query_keeps h w h1 w ls" "offset_read h1"
    using Read_index_keeps [OF assms(1)] by auto
  have r1: "handler_repr h1 (files w) ls" using h1(2) by (simp add: query_keeps_def)
  then have "mb_size (bulk h1) = length ls" "offset_list (mb_index (bulk h1)) = offsets ls"
    using handler_parts [OF r1] h1(3) by (simp_all add: handler_repr_def header_ok_def parts_ok_def Let_def)
  then have off: "mb_Get_offset_by_serial i (bulk h1) = Inr (Some (offsets ls ! i))"
    using assms(2) by (simp add: mb_Get_offset_by_serial_def offsets_def)
  obtain h2 w2 where h2: "Get_data h1 w = Inr (text_of ls, h2, w2)" "query_keeps h1 w h2 w2 ls"
    using Get_data_keeps [OF r1] by blast
  have "entry_ok (ls ! i)" using assms(1,2) by (simp add: handler_repr_def header_ok_def storable_def)
  from content_ref_entry [OF assms(2) this] obtain rest where "content_ref (Some (offsets ls ! i)) (text_of ls)
      = Inr (first_line (line_of (ls ! i)) @ rest, length (first_line (line_of (ls ! i))) - 1)" by blast
  with h1(1) off h2(1) query_keeps_trans [OF h1(2) h2(2)] show ?thesis
    by (simp add: Get_content_ref_def bh_Get_offset_by_serial_def)
qed

abbreviation as_list :: "'a list option \<Rightarrow> 'a list" where
  "as_list v \<equiv> (case v of None \<Rightarrow> [] | Some l \<Rightarrow> l)"

lemma Search_key_repr:
  assumes "handler_repr h (files w) ls"
  shows "\<exists>r h' w'. bh_Search_key key h w = Inr (r, h', w') \<and> as_list r = serials_of_key key ls \<and> query_keeps h w h' w' ls"
proof -
  obtain h1 where h1: "(if \<not> key_read h then Read_key_trie h w else Inr h) = Inr h1" "query_keeps h w h1 w ls" "key_read h1"
    using Read_key_trie_keeps [OF assms] by auto
  have "parts_ok h1 ls" using h1(2) handler_parts by (auto simp: query_keeps_def)
  then have "as_list (mb_Search_key key (bulk h1)) = serials_of_key key ls"
    using h1(3) by (simp add: parts_ok_def Let_def trie_list_def mb_Search_key_def)
  with h1(1) Set_timer_keeps [OF h1(2)] show ?thesis by (simp add: bh_Search_key_def)
qed

lemma Search_keyword_repr:
  assumes "handler_repr h (files w) ls"
  shows "\<exists>r h' w'. bh_Search_keyword q h w = Inr (r, h', w') \<and> as_list r = serials_of_word q ls \<and> query_keeps h w h' w' ls"
proof -
  obtain h1 where h1: "(if \<not> word_read h then Read_word_trie h w else Inr h) = Inr h1" "query_keeps h w h1 w ls" "word_read h1"
    using Read_word_trie_keeps [OF assms] by auto
  have "parts_ok h1 ls" using h1(2) handler_parts by (auto simp: query_keeps_def)
  then have "as_list (mb_Search_keyword q (bulk h1)) = serials_of_word q ls"
    using h1(3) by (simp add: parts_ok_def Let_def trie_list_def mb_Search_keyword_def)
  with h1(1) Set_timer_keeps [OF h1(2)] show ?thesis by (simp add: bh_Search_keyword_def)
qed

lemma Join_search_repr:
  assumes "handler_repr h (files w) ls" "ws \<noteq> []"
  shows "\<exists>r h' w'. bh_Join_search ws h w = Inr (r, h', w') \<and> query_keeps h w h' w' ls \<and> sorted r \<and> set r \<subseteq> {..<length ls}
     \<and> (\<forall>i < length ls. \<forall>n. n \<le> count_list r i \<longleftrightarrow> (\<forall>q \<in> set ws. n \<le> count_list (words_of (ls ! i)) q))"
proof -
  obtain h1 where h1: "(if \<not> word_read h then Read_word_trie h w else Inr h) = Inr h1" "query_keeps h w h1 w ls" "word_read h1"
    using Read_word_trie_keeps [OF assms(1)] by auto
  have "parts_ok h1 ls" using h1(2) handler_parts by (auto simp: query_keeps_def)
  then have "trie_list (keyword_serial_trie (mb_index (bulk h1))) q = serials_of_word q ls" for q
    using h1(3) by (simp add: parts_ok_def Let_def)
  from Join_search_lists [OF this assms(2)] h1(1) Set_timer_keeps [OF h1(2)] show ?thesis
    by (auto simp: bh_Join_search_def)
qed

lemma Search_time_key_repr:
  assumes "handler_repr h (files w) ls" "sorted (map (\<lambda>i. le_time (ls ! i)) (serials_of_key key ls))"
    and nz: "\<forall>e \<in> set ls. le_time e \<noteq> 0"
  shows "\<exists>r h' w'. bh_Search_time_key t0 t1 key flag h w = Inr ((flag \<or> last_time ls < t0, r), h', w')
     \<and> query_keeps h w h' w' ls
     \<and> selected r = filter (\<lambda>i. t0 \<le> le_time (ls ! i) \<and> le_time (ls ! i) \<le> t1) (serials_of_key key ls)"
proof -
  have bounds: "bh_end_time h = last_time ls" "bh_start_time h = first_time ls"
    using assms(1) by (simp_all add: handler_repr_def header_ok_def)
  show ?thesis
  proof (cases "last_time ls < t0 \<or> t1 < first_time ls")
    case True
    have "\<not> (t0 \<le> le_time (ls ! i) \<and> le_time (ls ! i) \<le> t1)" if "i \<in> set (serials_of_key key ls)" for i
    proof -
      have "i < length ls" using that by (simp add: serials_of_key_def)
      with time_bounds [OF nz, of "ls ! i"] True show ?thesis by (meson leD le_less_trans nth_mem order_less_le_trans)
    qed
    then have "filter (\<lambda>i. t0 \<le> le_time (ls ! i) \<and> le_time (ls ! i) \<le> t1) (serials_of_key key ls) = []"
      by (simp add: filter_empty_conv)
    with True query_keeps_refl [OF assms(1)] bounds show ?thesis by (auto simp: bh_Search_time_key_def)
  next
    case False
    obtain h1 where h1: "(if \<not> key_read h then Read_key_trie h w else Inr h) = Inr h1" "query_keeps h w h1 w ls" "key_read h1"
      using Read_key_trie_keeps [OF assms(1)] by auto
    have r1: "handler_repr h1 (files w) ls" using h1(2) by (simp add: query_keeps_def)
    obtain h2 where h2: "(if \<not> timestamp_read h1 then Read_timestamp h1 w else Inr h1) = Inr h2" "query_keeps h1 w h2 w ls"
      "timestamp_read h2" "key_read h2"
      using Read_timestamp_keeps [OF r1] h1(3) by auto
    have r2: "handler_repr h2 (files w) ls" using h2(2) by (simp add: query_keeps_def)
    have "timestamp_list (mb_index (bulk h2)) = map le_time ls" "mb_end_time (bulk h2) = last_time ls"
      "mb_start_time (bulk h2) = first_time ls" "trie_list (key_serial_trie (mb_index (bulk h2))) key = serials_of_key key ls"
      using handler_parts [OF r2] r2 h2(3,4) by (simp_all add: parts_ok_def Let_def handler_repr_def header_ok_def)
    from Search_time_key_lists [OF this assms(2) nz, of t0 t1 flag] obtain r where
      "mb_Search_time_key t0 t1 key flag (bulk h2) = Inr (flag \<or> last_time ls < t0, r)"
      "selected r = filter (\<lambda>i. t0 \<le> le_time (ls ! i) \<and> le_time (ls ! i) \<le> t1) (serials_of_key key ls)" by blast
    with h1(1) h2(1) Set_timer_keeps [OF query_keeps_trans [OF h1(2) h2(2)]] False bounds show ?thesis
      by (auto simp: bh_Search_time_key_def)
  qed
qed

section \<open>Appending and releasing\<close>

lemma Set_auto_same: "files (Set_auto_persistence_timer h w) = files w"
    "bulk_data_queue (Set_auto_persistence_timer h w) = bulk_data_queue w"
    "bulk_data_timer_wheel (Set_auto_persistence_timer h w) = bulk_data_timer_wheel w"
  by (simp_all add: Set_auto_persistence_timer_def)

lemma Append_repr:
  assumes "handler_repr h d ls" "storable e" "bh_state h = Appending"
    and fits: "length (text_of ls) + length (line_of e) + 1 < BULKSIZE"
  shows "\<exists>h1. bh_Append (line_of e) (length (line_of e)) h w
        = Inr (Some (length (text_of ls)), h1, Set_auto_persistence_timer h1 w) \<and> hid h1 = hid h
     \<and> (let h2 = bh_Build_index (length (text_of ls)) (le_content e) (le_key e) (le_time e) h1
        in handler_repr h2 d (ls @ [e]) \<and> bh_state h2 = Appending \<and> hid h2 = hid h \<and> file_num h2 = file_num h
           \<and> start_serial (bulk h2) = start_serial (bulk h) \<and> unit_slot h2 = unit_slot h)"
proof -
  have b: "bulk_repr (bulk h) ls" "bulk_grown (bulk h) ls" "header_ok h ls" "unit_slot h \<noteq> None"
    "offset_read h" "timestamp_read h" "key_read h" "word_read h"
    using assms(1,3) by (simp_all add: handler_repr_def)
  have e: "entry_ok e" using assms(2) by (simp add: storable_def)
  obtain b1 where b1: "mb_Append (line_of e) (length (line_of e)) (bulk h) = Inr (Some (length (text_of ls)), b1)"
    "mb_size b1 = mb_size (bulk h)" "start_serial b1 = start_serial (bulk h)"
    "bulk_repr (mb_Build_index (length (text_of ls)) (le_content e) (le_key e) (le_time e) b1) (ls @ [e])"
    using append_entry_repr [OF b(1) e fits] by blast
  have "mb_index b1 = mb_index (bulk h)"
    using b1(1) by (auto simp: mb_Append_def split: if_splits option.splits)
  then have g: "bulk_grown (mb_Build_index (length (text_of ls)) (le_content e) (le_key e) (le_time e) b1) (ls @ [e])"
    using bulk_grown_Build_index [OF b(1,2)] b1(2) by (simp add: bulk_grown_def mb_Build_index_def Let_def)
  let ?h1 = "h\<lparr>bulk := b1\<rparr>"
  have "bh_Append (line_of e) (length (line_of e)) h w
      = Inr (Some (length (text_of ls)), ?h1, Set_auto_persistence_timer ?h1 w)"
    using b1(1) assms(3) by (simp add: bh_Append_def Let_def)
  moreover have "handler_repr (bh_Build_index (length (text_of ls)) (le_content e) (le_key e) (le_time e) ?h1) d (ls @ [e])"
    using b b1 g assms(2,3) fits
    by (simp add: handler_repr_def bh_Build_index_def header_ok_def first_time_snoc last_time_snoc text_of_snoc bulk_repr_def)
       (simp add: mb_Build_index_def Let_def)
  moreover have "start_serial (mb_Build_index o1 c k t b1) = start_serial (bulk h)" for o1 c k t
    using b1(3) by (simp add: mb_Build_index_def Let_def)
  ultimately show ?thesis using assms(3)
    by (intro exI [of _ ?h1]) (simp add: Let_def bh_Build_index_def)
qed

lemma Append_full:
  assumes "handler_repr h d ls" "bh_state h = Appending"
    and full: "\<not> length (text_of ls) + length line + 1 < BULKSIZE"
  shows "bh_Append line (length line) h w = Inr (None, h\<lparr>bh_state := InQueue\<rparr>, w)
     \<and> handler_repr (h\<lparr>bh_state := InQueue\<rparr>) d ls"
proof -
  have "bulk_repr (bulk h) ls" using assms(1,2) by (simp add: handler_repr_def)
  with mb_Append_no_room [OF this full] assms(1,2) show ?thesis
    by (simp add: bh_Append_def Set_auto_persistence_timer_def handler_repr_def bulk_grown_def header_ok_def)
qed

lemma Append_closed: "bh_state h \<noteq> Appending \<Longrightarrow> bh_Append str len h w = Inr (None, h, w)"
  by (simp add: bh_Append_def)

lemma Delete_keeps:
  "keeps h (Delete_index h)" "keeps h (Delete_timestamp h)" "keeps h (Delete_key_trie h)" "keeps h (Delete_word_trie h)"
  by (simp_all add: keeps_def Delete_index_def Delete_timestamp_def Delete_key_trie_def Delete_word_trie_def)

lemma Release_space_result:
  assumes "bh_state h = Saved \<or> unit_slot h = None" "bh_state h \<noteq> Appending"
    "bh_state h = Saved \<longrightarrow> data (bulk h) = None"
  shows "\<exists>h1. Release_space h = Inr h1 \<and> keeps (h\<lparr>bulk := (bulk h)\<lparr>data := None\<rparr>, bh_state := Saved\<rparr>) h1
     \<and> \<not> offset_read h1 \<and> \<not> timestamp_read h1 \<and> \<not> key_read h1 \<and> \<not> word_read h1"
proof -
  let ?h0 = "h\<lparr>bulk := (bulk h)\<lparr>data := None\<rparr>, bh_state := Saved\<rparr>"
  have "\<exists>h0. Delete_Content h = Inr h0 \<and> keeps ?h0 h0"
    using assms by (cases "data (bulk h)") (auto simp: Delete_Content_def Let_def keeps_def)
  then obtain h0 where h0: "Delete_Content h = Inr h0" "keeps ?h0 h0" by blast
  let ?h1 = "Delete_word_trie (Delete_key_trie (Delete_timestamp (Delete_index h0)))"
  have "keeps ?h0 ?h1"
    by (rule keeps_trans [OF h0(2) keeps_trans [OF Delete_keeps(1) keeps_trans [OF Delete_keeps(2)
          keeps_trans [OF Delete_keeps(3,4)]]]])
  moreover have "\<not> offset_read ?h1 \<and> \<not> timestamp_read ?h1 \<and> \<not> key_read ?h1 \<and> \<not> word_read ?h1"
    by (simp add: Delete_index_def Delete_timestamp_def Delete_key_trie_def Delete_word_trie_def)
  ultimately show ?thesis using h0(1) by (simp add: Release_space_def)
qed

lemma Release_repr:
  assumes "handler_repr h d ls" "bh_state h = InMemory \<or> bh_state h = Saved"
  shows "\<exists>h1. Release_space h = Inr h1 \<and> handler_repr h1 d ls \<and> bh_state h1 = Saved \<and> hid h1 = hid h
     \<and> file_num h1 = file_num h \<and> start_serial (bulk h1) = start_serial (bulk h) \<and> unit_slot h1 = None"
proof -
  have h: "header_ok h ls" "saved_files d (file_num h) ls" "unit_slot h = None" "bh_state h = Saved \<longrightarrow> data (bulk h) = None"
    using assms by (auto simp: handler_repr_def)
  have "bh_state h \<noteq> Appending" using assms(2) by auto
  from Release_space_result [OF _ this h(4)] h(3) obtain h1 where h1: "Release_space h = Inr h1"
    "keeps (h\<lparr>bulk := (bulk h)\<lparr>data := None\<rparr>, bh_state := Saved\<rparr>) h1"
    "\<not> offset_read h1" "\<not> timestamp_read h1" "\<not> key_read h1" "\<not> word_read h1" by auto
  have "header_ok h1 ls" using keeps_header [OF h1(2), of ls] h(1) by (simp add: header_ok_def)
  moreover have "parts_ok h1 ls" using h1(3-6) by (simp add: parts_ok_def Let_def)
  ultimately show ?thesis using h1(1,2) h(2,3) by (simp add: handler_repr_def keeps_def)
qed

lemma new_handler_repr:
  assumes "new_MemoryBulkHandler n (new_MemoryBulk serial) w = Some (h, w')"
  shows "handler_repr h d [] \<and> bh_state h = Appending \<and> hid h = n \<and> start_serial (bulk h) = serial \<and> files w' = files w
     \<and> bulk_data_timer_wheel w' = bulk_data_timer_wheel w
     \<and> bulk_auto_persistence_timer_wheel w' = bulk_auto_persistence_timer_wheel w"
proof -
  obtain slot q where q: "Get_Unit None (bulk_data_queue w) = (Some slot, q)"
    using assms by (auto simp: new_MemoryBulkHandler_def New_BulkData_init_def Let_def split: prod.splits option.splits)
  with assms have h: "h = \<lparr>hid = n, bh_state = Appending, offset_read = True, timestamp_read = True, key_read = True,
       word_read = True, bulk = (new_MemoryBulk serial)\<lparr>data := Some []\<rparr>, file_num = to_int32 serial,
       unit_slot = Some slot, bh_start_time = 0, bh_end_time = 0\<rparr>"
    "w' = set_unit_handler slot (Some n) (w\<lparr>bulk_data_queue := q\<rparr>)"
    by (auto simp: new_MemoryBulkHandler_def New_BulkData_init_def Let_def new_MemoryBulk_def)
  have "header_ok h []"
    by (simp add: h header_ok_def new_MemoryBulk_def first_time_def last_time_def text_of_def BULKSIZE_def)
  with new_bulk_repr [of serial] bulk_grown_new [of "Some []" serial] show ?thesis
    by (simp add: h handler_repr_def set_unit_handler_def) (simp add: new_MemoryBulk_def)
qed

text \<open>\<^verbatim>\<open>Append_log\<close> on one handler: append the line, then index it at the offset returned.\<close>

definition bh_add :: "log_entry \<Rightarrow> MemoryBulkHandler \<Rightarrow> world \<Rightarrow> bool step" where
  "bh_add e h w = bindE (bh_Append (line_of e) (length (line_of e)) h w) (\<lambda>(off, h1, w1).
     Inr (case off of None \<Rightarrow> (False, h1, w1)
          | Some o1 \<Rightarrow> (True, bh_Build_index o1 (le_content e) (le_key e) (le_time e) h1, w1)))"

lemma bh_add_repr:
  assumes "handler_repr h d ls" "storable e" "bh_state h = Appending" "length (text_of ls) + length (line_of e) + 1 < BULKSIZE"
  shows "\<exists>h2 w2. bh_add e h w = Inr (True, h2, w2) \<and> handler_repr h2 d (ls @ [e]) \<and> bh_state h2 = Appending
     \<and> hid h2 = hid h \<and> file_num h2 = file_num h \<and> start_serial (bulk h2) = start_serial (bulk h)
     \<and> unit_slot h2 = unit_slot h \<and> files w2 = files w \<and> bulk_data_queue w2 = bulk_data_queue w
     \<and> bulk_data_timer_wheel w2 = bulk_data_timer_wheel w"
  using Append_repr [OF assms, of w] by (auto simp: bh_add_def Let_def Set_auto_same)

fun bh_fill :: "log_entry list \<Rightarrow> MemoryBulkHandler \<Rightarrow> world \<Rightarrow> (MemoryBulkHandler \<times> world) res" where
  "bh_fill [] h w = Inr (h, w)"
| "bh_fill (e # es) h w = bindE (bh_add e h w) (\<lambda>(_, h1, w1). bh_fill es h1 w1)"

lemma bh_fill_repr:
  "handler_repr h d ls \<Longrightarrow> bh_state h = Appending \<Longrightarrow> \<forall>e \<in> set es. storable e \<Longrightarrow>
   length (text_of (ls @ es)) + 1 < BULKSIZE \<Longrightarrow>
   \<exists>h1 w1. bh_fill es h w = Inr (h1, w1) \<and> handler_repr h1 d (ls @ es) \<and> bh_state h1 = Appending \<and> files w1 = files w"
proof (induction es arbitrary: h ls w)
  case (Cons e es)
  have "storable e" "length (text_of ls) + length (line_of e) + 1 < BULKSIZE"
    using Cons.prems(3,4) by (simp_all add: text_of_def)
  from bh_add_repr [OF Cons.prems(1) this(1) Cons.prems(2) this(2), of w] obtain h2 w2 where
    "bh_add e h w = Inr (True, h2, w2)" "handler_repr h2 d (ls @ [e])" "bh_state h2 = Appending" "files w2 = files w" by blast
  with Cons.IH [of h2 "ls @ [e]" w2] Cons.prems(3,4) show ?case by auto
qed simp

text \<open>A handler filled with the sample log, for the witnesses below.\<close>

definition new_world :: world where
  "new_world = \<lparr>files = Map.empty, bulk_data_queue = new_MsgQueue BULK_QUEUE_LEN 1 None,
     bulk_data_timer_wheel = new_TimerWheelSet, bulk_auto_persistence_timer_wheel = new_TimerWheelSet\<rparr>"

lemma sample_storable: "\<forall>e \<in> set sample_log. storable e"
  by code_simp

lemma new_handler_ready: "\<exists>h w. new_MemoryBulkHandler n (new_MemoryBulk serial) new_world = Some (h, w)"
  by (simp add: new_MemoryBulkHandler_def New_BulkData_init_def Let_def new_world_def new_MsgQueue_def Get_Unit_def
      Full_def BULK_QUEUE_LEN_def)

lemma sample_handler: "\<exists>h0 w0 h w. new_MemoryBulkHandler 0 (new_MemoryBulk 5) new_world = Some (h0, w0)
   \<and> bh_fill sample_log h0 w0 = Inr (h, w) \<and> handler_repr h (files w) sample_log \<and> bh_state h = Appending"
proof -
  obtain h0 w0 where n: "new_MemoryBulkHandler 0 (new_MemoryBulk 5) new_world = Some (h0, w0)"
    using new_handler_ready by blast
  have "handler_repr h0 (files w0) []" "bh_state h0 = Appending" using new_handler_repr [OF n] by auto
  from bh_fill_repr [OF this, of sample_log w0] n sample_storable sample_log_ok(2) show ?thesis by auto
qed

section \<open>Properties of the handler\<close>

text \<open>
  C10. Persistence loses nothing: a live handler that stands for a list of storable entries is written
  to its five files and stands for the same list afterwards, now from disk alone; a handler with
  another file number is not touched.
\<close>

theorem Persistence_keeps_log:
  assumes "handler_repr h (files w) ls" and "bh_state h \<noteq> Saved"
  shows "\<exists>h' w'. Persistence h w = Inr (True, h', w') \<and> bh_state h' = Saved \<and> data (bulk h') = None
     \<and> handler_repr h' (files w') ls
     \<and> (\<forall>g ls'. handler_repr g (files w) ls' \<longrightarrow> file_num g \<noteq> file_num h \<longrightarrow> handler_repr g (files w') ls')"
proof -
  obtain h' w' where p: "Persistence h w = Inr (True, h', w')" "handler_repr h' (files w') ls" "bh_state h' = Saved"
    "\<forall>p. p \<notin> own_paths (file_num h) \<longrightarrow> files w' p = files w p"
    using Persistence_repr [OF assms] by blast
  have "handler_repr g (files w') ls'" if g: "handler_repr g (files w) ls'" "file_num g \<noteq> file_num h" for g ls'
  proof -
    have num: "\<bar>file_num x\<bar> < 10 ^ 19" if "handler_repr x d l" for x d l
      using that to_int32_bound by (simp add: handler_repr_def header_ok_def)
    have "path k (file_num g) \<notin> own_paths (file_num h)" for k
      using file_name_inj [OF num [OF g(1)] num [OF assms(1)]] g(2) by (auto simp: own_paths_def)
    with p(4) have "files w' (path k (file_num g)) = files w (path k (file_num g))" for k by blast
    with handler_repr_cong [of "files w'" g "files w" ls'] g(1) show ?thesis by blast
  qed
  moreover have "data (bulk h') = None" using p(2,3) by (simp add: handler_repr_def)
  ultimately show ?thesis using p by blast
qed

theorem Persistence_keeps_log_witness:
  "\<exists>h0 w0 h w h' w'. new_MemoryBulkHandler 0 (new_MemoryBulk 5) new_world = Some (h0, w0)
     \<and> bh_fill sample_log h0 w0 = Inr (h, w) \<and> Persistence h w = Inr (True, h', w')
     \<and> bh_state h' = Saved \<and> handler_repr h' (files w') sample_log"
proof -
  obtain h0 w0 h w where s: "new_MemoryBulkHandler 0 (new_MemoryBulk 5) new_world = Some (h0, w0)"
    "bh_fill sample_log h0 w0 = Inr (h, w)" "handler_repr h (files w) sample_log" "bh_state h = Appending"
    using sample_handler by blast
  have "bh_state h \<noteq> Saved" using s(4) by simp
  from Persistence_keeps_log [OF s(3) this] s(1,2) show ?thesis by blast
qed

text \<open>
  C11. Queries do not depend on where the bulk lives.  In any state of the handler - being appended
  to, full, saved, back in memory, with any part of its index unread - the key search, the word
  search and the read of a line give what the list of entries says, and afterwards the handler still
  stands for that list.  The read of the line at any serial gives the line of that entry up to and with
  its first newline - the whole line, unless the key or the text of the entry holds a newline, which
  the code stores and then cuts at.
\<close>

theorem queries_anywhere:
  assumes "handler_repr h (files w) ls"
  shows "\<exists>rk hk wk rw hw ww. bh_Search_key key h w = Inr (rk, hk, wk) \<and> as_list rk = serials_of_key key ls
       \<and> handler_repr hk (files wk) ls
     \<and> bh_Search_keyword word h w = Inr (rw, hw, ww) \<and> as_list rw = serials_of_word word ls
       \<and> handler_repr hw (files ww) ls
     \<and> (\<forall>i < length ls. \<exists>rest hc wc. Get_content_ref i h w
          = Inr ((first_line (line_of (ls ! i)) @ rest, length (first_line (line_of (ls ! i))) - 1), hc, wc)
          \<and> handler_repr hc (files wc) ls)"
proof -
  have q: "handler_repr h' (files w') ls" if "query_keeps h w h' w' ls" for h' w'
    using that by (simp add: query_keeps_def)
  obtain rk hk wk where "bh_Search_key key h w = Inr (rk, hk, wk)" "as_list rk = serials_of_key key ls" "query_keeps h w hk wk ls"
    using Search_key_repr [OF assms] by blast
  moreover obtain rw hw ww where "bh_Search_keyword word h w = Inr (rw, hw, ww)" "as_list rw = serials_of_word word ls"
      "query_keeps h w hw ww ls"
    using Search_keyword_repr [OF assms] by blast
  ultimately show ?thesis using Get_content_ref_repr [OF assms] q by (metis (no_types, lifting))
qed

theorem queries_anywhere_witness:
  "\<exists>h0 w0 h w h1 w1 r h2 w2. new_MemoryBulkHandler 0 (new_MemoryBulk 5) new_world = Some (h0, w0)
     \<and> bh_fill sample_log h0 w0 = Inr (h, w) \<and> Persistence h w = Inr (True, h1, w1)
     \<and> bh_Search_key ''k1'' h1 w1 = Inr (r, h2, w2) \<and> as_list r = [0, 2]"
proof -
  obtain h0 w0 h w where s: "new_MemoryBulkHandler 0 (new_MemoryBulk 5) new_world = Some (h0, w0)"
    "bh_fill sample_log h0 w0 = Inr (h, w)" "handler_repr h (files w) sample_log" "bh_state h = Appending"
    using sample_handler by blast
  have "bh_state h \<noteq> Saved" using s(4) by simp
  from Persistence_repr [OF s(3) this] obtain h1 w1 where p: "Persistence h w = Inr (True, h1, w1)"
    "handler_repr h1 (files w1) sample_log" by blast
  have "serials_of_key ''k1'' sample_log = [0, 2]" by code_simp
  with queries_anywhere [OF p(2), of "''k1''" "''red''"] s(1,2) p(1) show ?thesis by metis
qed

text \<open>
  The release timer is safe and loses nothing: for a bulk that is saved or back in memory -
  the only states in which the timer is set - \<^verbatim>\<open>Release_space\<close> frees no queue memory and the
  handler stands for the same entries, with nothing left in memory.
\<close>

lemma Release_space_keeps_log:
  assumes "handler_repr h d ls" and "bh_state h = InMemory \<or> bh_state h = Saved"
  shows "\<exists>h1. Release_space h = Inr h1 \<and> handler_repr h1 d ls \<and> bh_state h1 = Saved \<and> data (bulk h1) = None
     \<and> \<not> offset_read h1 \<and> \<not> timestamp_read h1 \<and> \<not> key_read h1 \<and> \<not> word_read h1"
proof -
  obtain h1 where h1: "Release_space h = Inr h1" "handler_repr h1 d ls" "bh_state h1 = Saved"
    using Release_repr [OF assms] by blast
  have "bh_state h = Saved \<or> unit_slot h = None" "bh_state h \<noteq> Appending" "bh_state h = Saved \<longrightarrow> data (bulk h) = None"
    using assms by (auto simp: handler_repr_def)
  from Release_space_result [OF this] h1 show ?thesis by (auto simp: handler_repr_def)
qed

text \<open>
  A time search gives the entries of the key inside the window from any state of the handler.
\<close>

lemma time_search_anywhere:
  assumes "handler_repr h (files w) ls" and "sorted (map (\<lambda>i. le_time (ls ! i)) (serials_of_key key ls))"
    and "\<forall>e \<in> set ls. le_time e \<noteq> 0"
  shows "\<exists>r h' w'. bh_Search_time_key t0 t1 key False h w = Inr ((last_time ls < t0, r), h', w')
     \<and> handler_repr h' (files w') ls
     \<and> selected r = filter (\<lambda>i. t0 \<le> le_time (ls ! i) \<and> le_time (ls ! i) \<le> t1) (serials_of_key key ls)"
  using Search_time_key_repr [OF assms, of t0 t1 False] by (auto simp: query_keeps_def)

end
