(* ===== verification/Query_Result.thy ===== *)
theory Query_Result
  imports Prelude Config
begin

text \<open>
  \<^verbatim>\<open>include/QueryResult.h\<close>, the fixed-size block a query answer is sent in, and the
  \<^verbatim>\<open>QueryResultHandler\<close> of \<^verbatim>\<open>src/log_processor/data_manager.cpp\<close> that packs answer lines into
  blocks and writes the blocks to the result queue.  The busy wait around each write ends when the
  server has made room, so the model records the blocks written, in order.
\<close>

section \<open>One block\<close>

record QueryResult =
  qr_client_id :: int
  qr_offset :: nat
  qr_begin :: bool
  qr_finish :: bool
  qr_logs :: string

text \<open>\<^verbatim>\<open>sizeof(logs_)\<close>: the block less two \<^verbatim>\<open>int\<close>s and one \<^verbatim>\<open>bool\<close>.\<close>

definition logs_size :: nat where
  "logs_size = QueryResult_SIZE - 4 - 4 - 1"

definition new_QueryResult :: "int \<Rightarrow> QueryResult" where
  "new_QueryResult client_id = \<lparr>qr_client_id = client_id, qr_offset = 0, qr_begin = False,
     qr_finish = False, qr_logs = []\<rparr>"

text \<open>\<open>str\<close> is what stands in memory from the pointer on.\<close>

definition qr_Append :: "string \<Rightarrow> nat \<Rightarrow> QueryResult \<Rightarrow> nat \<times> QueryResult" where
  "qr_Append str len r =
     (if qr_offset r + len + 1 \<ge> logs_size then (0, r)
      else (len, r\<lparr>qr_logs := buf_write (qr_offset r) (lgy_strncpy str len) (qr_logs r),
                   qr_offset := qr_offset r + len\<rparr>))"

definition payload :: "QueryResult \<Rightarrow> string" where
  "payload r = take (qr_offset r) (qr_logs r)"

definition block_ok :: "QueryResult \<Rightarrow> bool" where
  "block_ok r \<longleftrightarrow> qr_offset r + 1 < logs_size \<and> qr_offset r \<le> length (qr_logs r)
     \<and> length (qr_logs r) < logs_size"

lemma logs_size_val: "logs_size = 16375"
  by (simp add: logs_size_def config_defs)

lemma new_block_ok: "block_ok (new_QueryResult c) \<and> payload (new_QueryResult c) = []"
  by (simp add: block_ok_def new_QueryResult_def payload_def logs_size_val)

lemma qr_Append_fits:
  assumes "block_ok r" "qr_offset r + len + 1 < logs_size"
  shows "block_ok (snd (qr_Append str len r))
       \<and> payload (snd (qr_Append str len r)) = payload r @ c_strncpy str len"
proof -
  have "length (qr_logs r) < logs_size" "qr_offset r \<le> length (qr_logs r)"
    using assms(1) by (auto simp: block_ok_def)
  with assms show ?thesis
    by (auto simp: qr_Append_def block_ok_def payload_def length_buf_write take_buf_write_all lgy_strncpy_def)
qed

section \<open>The handler\<close>

text \<open>The time of an answer: seconds and nanoseconds of the monotonic clock, in microseconds.\<close>

definition Get_time_microsec :: "int \<Rightarrow> int \<Rightarrow> u64" where
  "Get_time_microsec tv_sec tv_nsec = word_of_int (tv_sec * 1000000 + tv_nsec div 1000)"

lemma elapsed_microsec:
  assumes "0 \<le> d" "d < 2 ^ 64" "sec1 * 1000000 + nsec1 div 1000 = sec0 * 1000000 + nsec0 div 1000 + d"
  shows "unat (Get_time_microsec sec1 nsec1 - Get_time_microsec sec0 nsec0) = nat d"
proof -
  have "Get_time_microsec sec1 nsec1 - Get_time_microsec sec0 nsec0 = word_of_int d"
    unfolding Get_time_microsec_def assms(3) by (simp flip: of_int_diff)
  then show ?thesis using assms(1,2) by (simp add: unsigned_of_int take_bit_int_eq_self flip: nat_eq_iff2)
qed

record QueryResultHandler =
  result :: "QueryResult option"
  hr_client_id :: int
  hr_start_time :: u64
  hr_count :: nat
  sent :: "QueryResult list"

definition new_QueryResultHandler :: "int \<Rightarrow> u64 \<Rightarrow> QueryResultHandler" where
  "new_QueryResultHandler client_id now =
     \<lparr>result = Some ((new_QueryResult client_id)\<lparr>qr_begin := True\<rparr>), hr_client_id = client_id,
      hr_start_time = now, hr_count = 0, sent = []\<rparr>"

text \<open>
  One answer line of \<open>len\<close> bytes and its newline.  A line that does not fit starts a new block; the
  outcome of the second attempt is not looked at.  After \<^verbatim>\<open>Finish\<close> the block pointer is null:
  \<^verbatim>\<open>Append\<close> then dereferences it, and a second \<^verbatim>\<open>Finish\<close> would send whatever the next slot of
  the queue holds, which the model does not follow; both are \<open>UB\<close> here.
\<close>

definition hr_Append :: "string \<Rightarrow> nat \<Rightarrow> QueryResultHandler \<Rightarrow> QueryResultHandler res" where
  "hr_Append log len h = (case result h of
       None \<Rightarrow> Inl UB
     | Some r \<Rightarrow>
         (let (ret, r') = qr_Append log (len + 1) r
          in Inr (if ret = 0
                  then h\<lparr>sent := sent h @ [r],
                         result := Some (snd (qr_Append log (len + 1) (new_QueryResult (hr_client_id h)))),
                         hr_count := hr_count h + 1\<rparr>
                  else h\<lparr>result := Some r', hr_count := hr_count h + 1\<rparr>)))"

definition summary :: "nat \<Rightarrow> u64 \<Rightarrow> string" where
  "summary count elapsed = ''Return '' @ show_nat count @ '' results use time ''
     @ show_nat (unat elapsed) @ '' microseconds '' @ [newline]"

definition hr_Finish :: "u64 \<Rightarrow> QueryResultHandler \<Rightarrow> QueryResultHandler res" where
  "hr_Finish now h = (case result h of
       None \<Rightarrow> Inl UB
     | Some r \<Rightarrow>
         (let text = summary (hr_count h) (now - hr_start_time h);
              last_block = (snd (qr_Append text (length text) (new_QueryResult (hr_client_id h))))\<lparr>qr_finish := True\<rparr>
          in Inr (h\<lparr>sent := sent h @ [r, last_block], result := None\<rparr>)))"

fun append_all :: "(string \<times> nat) list \<Rightarrow> QueryResultHandler \<Rightarrow> QueryResultHandler res" where
  "append_all [] h = Inr h"
| "append_all ((log, len) # ls) h = bindE (hr_Append log len h) (append_all ls)"

text \<open>A whole answer: the handler is created, the lines are appended, the handler is finished.\<close>

definition answer :: "int \<Rightarrow> u64 \<Rightarrow> u64 \<Rightarrow> (string \<times> nat) list \<Rightarrow> QueryResult list res" where
  "answer client_id t0 t1 ls =
     bindE (append_all ls (new_QueryResultHandler client_id t0)) (\<lambda>h.
     bindE (hr_Finish t1 h) (\<lambda>h'. Inr (sent h')))"

section \<open>Nothing is lost between blocks\<close>

definition line_bytes :: "string \<times> nat \<Rightarrow> string" where
  "line_bytes l = c_strncpy (fst l) (snd l + 1)"

definition delivered :: "QueryResultHandler \<Rightarrow> string" where
  "delivered h = concat (map payload (sent h)) @ (case result h of None \<Rightarrow> [] | Some r \<Rightarrow> payload r)"

definition open_block :: "int \<Rightarrow> QueryResult \<Rightarrow> bool" where
  "open_block c r \<longleftrightarrow> block_ok r \<and> qr_client_id r = c \<and> \<not> qr_finish r"

definition handler_inv :: "QueryResultHandler \<Rightarrow> bool" where
  "handler_inv h \<longleftrightarrow> (\<exists>r. result h = Some r \<and> open_block (hr_client_id h) r)
     \<and> list_all (open_block (hr_client_id h)) (sent h)
     \<and> qr_begin (hd (sent h @ [the (result h)]))"

lemma new_handler_inv: "handler_inv (new_QueryResultHandler c t) \<and> delivered (new_QueryResultHandler c t) = []"
  using new_block_ok [of c]
  by (simp add: handler_inv_def new_QueryResultHandler_def delivered_def open_block_def block_ok_def
      new_QueryResult_def payload_def)

lemma qr_Append_keeps [simp]:
  "qr_client_id (snd (qr_Append s n r)) = qr_client_id r"
  "qr_finish (snd (qr_Append s n r)) = qr_finish r" "qr_begin (snd (qr_Append s n r)) = qr_begin r"
  by (simp_all add: qr_Append_def)

lemma open_block_Append:
  "open_block c r \<Longrightarrow> qr_offset r + n + 1 < logs_size \<Longrightarrow> open_block c (snd (qr_Append s n r))"
  using qr_Append_fits [of r n s] by (auto simp: open_block_def)

lemma open_block_new: "open_block c (new_QueryResult c)"
  using new_block_ok [of c] by (simp add: open_block_def new_QueryResult_def)

lemma hr_Append_inv:
  assumes "handler_inv h" "len + 2 < logs_size"
  shows "\<exists>h'. hr_Append log len h = Inr h' \<and> handler_inv h' \<and> delivered h' = delivered h @ line_bytes (log, len)
     \<and> hr_count h' = hr_count h + 1 \<and> hr_client_id h' = hr_client_id h \<and> hr_start_time h' = hr_start_time h"
proof -
  obtain r where r: "result h = Some r" "open_block (hr_client_id h) r"
    using assms(1) by (auto simp: handler_inv_def)
  then have ok: "block_ok r" by (simp add: open_block_def)
  let ?n = "new_QueryResult (hr_client_id h)"
  show ?thesis
  proof (cases "qr_offset r + (len + 1) + 1 < logs_size")
    case True
    then have a: "qr_Append log (len + 1) r = (len + 1, snd (qr_Append log (len + 1) r))"
      by (simp add: qr_Append_def)
    then obtain r' where r': "qr_Append log (len + 1) r = (len + 1, r')" by blast
    have "hr_Append log len h = Inr (h\<lparr>result := Some r', hr_count := hr_count h + 1\<rparr>)"
      using r' by (simp add: hr_Append_def r(1))
    with qr_Append_fits [OF ok True, of log] open_block_Append [OF r(2) True, of log] assms(1) r(1) r'
      qr_Append_keeps(3) [of log "len + 1" r]
    show ?thesis
      by (cases "sent h") (auto simp: handler_inv_def delivered_def line_bytes_def)
  next
    case False
    then have a: "qr_Append log (len + 1) r = (0, r)" by (simp add: qr_Append_def)
    have off: "qr_offset ?n = 0" "payload ?n = []" using new_block_ok by (simp_all add: new_QueryResult_def)
    have room: "qr_offset ?n + (len + 1) + 1 < logs_size" using off assms(2) by simp
    have "hr_Append log len h = Inr (h\<lparr>sent := sent h @ [r],
        result := Some (snd (qr_Append log (len + 1) ?n)), hr_count := hr_count h + 1\<rparr>)"
      using a by (simp add: hr_Append_def r(1))
    with qr_Append_fits [OF _ room, of log] open_block_Append [OF open_block_new room, of log]
      new_block_ok assms(1) r off(2)
    show ?thesis
      by (cases "sent h") (auto simp: handler_inv_def delivered_def line_bytes_def)
  qed
qed

text \<open>
  A line of any length: one that fits no block is counted and its bytes are left out - the block before
  it is sent, and the outcome of the second attempt is not looked at.
\<close>

definition kept_line :: "string \<Rightarrow> string" where
  "kept_line l = (if length l + 1 < logs_size then l else [])"

lemma hr_Append_too_long:
  assumes "handler_inv h" "\<not> len + 2 < logs_size"
  shows "\<exists>h'. hr_Append log len h = Inr h' \<and> handler_inv h' \<and> delivered h' = delivered h
     \<and> hr_count h' = hr_count h + 1 \<and> hr_client_id h' = hr_client_id h \<and> hr_start_time h' = hr_start_time h"
proof -
  obtain r where r: "result h = Some r" "open_block (hr_client_id h) r"
    using assms(1) by (auto simp: handler_inv_def)
  have a: "qr_Append log (len + 1) b = (0, b)" for b using assms(2) by (simp add: qr_Append_def)
  have "hr_Append log len h = Inr (h\<lparr>sent := sent h @ [r],
      result := Some (new_QueryResult (hr_client_id h)), hr_count := hr_count h + 1\<rparr>)"
    using a by (simp add: hr_Append_def r(1))
  with open_block_new new_block_ok assms(1) r show ?thesis
    by (cases "sent h") (auto simp: handler_inv_def delivered_def)
qed

lemma append_all_inv:
  "handler_inv h \<Longrightarrow> \<forall>(log, len) \<in> set ls. len + 2 < logs_size \<Longrightarrow>
   \<exists>h'. append_all ls h = Inr h' \<and> handler_inv h' \<and> delivered h' = delivered h @ concat (map line_bytes ls)
     \<and> hr_count h' = hr_count h + length ls \<and> hr_client_id h' = hr_client_id h \<and> hr_start_time h' = hr_start_time h"
proof (induction ls arbitrary: h)
  case (Cons l ls)
  obtain log len where l: "l = (log, len)" by (cases l)
  with Cons.prems obtain h1 where h1: "hr_Append log len h = Inr h1" "handler_inv h1"
      "delivered h1 = delivered h @ line_bytes (log, len)" "hr_count h1 = hr_count h + 1"
      "hr_client_id h1 = hr_client_id h" "hr_start_time h1 = hr_start_time h"
    using hr_Append_inv [of h len log] by auto
  with Cons.IH [OF h1(2)] Cons.prems(2) l show ?case by fastforce
qed auto

lemma summary_fits: "length (summary count elapsed) + 1 < logs_size" if "count < 10 ^ 20"
proof -
  have "unat elapsed < 2 ^ 64" by (rule order_less_le_trans [OF unsigned_less]) simp
  then have "length (show_nat (unat elapsed)) \<le> 20" "length (show_nat count) \<le> 20"
    using length_show_nat [of "unat elapsed" 19] length_show_nat [of count 19] that by simp_all
  then show ?thesis by (simp add: summary_def logs_size_val)
qed

lemma hr_Finish_blocks:
  assumes "result hr = Some r" and "hr_count hr < 10 ^ 20"
  shows "\<exists>fin. hr_Finish now hr = Inr (hr\<lparr>sent := sent hr @ [r] @ [fin], result := None\<rparr>)
     \<and> payload fin = summary (hr_count hr) (now - hr_start_time hr) \<and> qr_finish fin \<and> block_ok fin
     \<and> qr_client_id fin = hr_client_id hr"
proof -
  let ?text = "summary (hr_count hr) (now - hr_start_time hr)" and ?c = "hr_client_id hr"
  let ?fin = "(snd (qr_Append ?text (length ?text) (new_QueryResult ?c)))\<lparr>qr_finish := True\<rparr>"
  have nulf: "nul_free ?text"
    by (simp add: summary_def nul_def newline_def)
  have fits: "qr_offset (new_QueryResult ?c) + length ?text + 1 < logs_size"
    using summary_fits [OF assms(2)] by (simp add: new_QueryResult_def)
  have fin: "payload ?fin = ?text \<and> block_ok ?fin"
    using qr_Append_fits [OF _ fits, of ?text] new_block_ok [of ?c] nulf
    by (simp add: payload_def block_ok_def c_strncpy_exact)
  moreover have "qr_client_id ?fin = ?c" by (simp add: new_QueryResult_def)
  ultimately show ?thesis using assms(1)
    by (intro exI [of _ ?fin]) (simp add: hr_Finish_def Let_def)
qed

lemma answer_blocks:
  assumes "\<forall>(log, len) \<in> set ls. len + 2 < logs_size" and "length ls < 10 ^ 20"
  shows "\<exists>blocks fin. answer c t0 t1 ls = Inr (blocks @ [fin]) \<and> blocks \<noteq> []
     \<and> concat (map payload blocks) = concat (map line_bytes ls)
     \<and> payload fin = summary (length ls) (t1 - t0)
     \<and> qr_begin (hd blocks) \<and> qr_finish fin \<and> list_all (\<lambda>r. \<not> qr_finish r) blocks
     \<and> list_all (\<lambda>r. block_ok r \<and> qr_client_id r = c) (blocks @ [fin])"
proof -
  let ?h = "new_QueryResultHandler c t0"
  obtain h' where h': "append_all ls ?h = Inr h'" "handler_inv h'" "hr_count h' = length ls"
      "delivered h' = concat (map line_bytes ls)" "hr_client_id h' = c" "hr_start_time h' = t0"
    using append_all_inv [of ?h ls] new_handler_inv [of c t0] assms(1)
    by (auto simp: new_QueryResultHandler_def)
  then obtain r where r: "result h' = Some r" "open_block c r" by (auto simp: handler_inv_def)
  obtain fin where fin: "hr_Finish t1 h' = Inr (h'\<lparr>sent := sent h' @ [r] @ [fin], result := None\<rparr>)"
    "payload fin = summary (length ls) (t1 - t0)" "qr_finish fin" "block_ok fin" "qr_client_id fin = c"
    using hr_Finish_blocks [OF r(1), of t1] assms(2) h' by auto
  then have ans: "answer c t0 t1 ls = Inr ((sent h' @ [r]) @ [fin])" using h'(1) by (simp add: answer_def)
  have "concat (map payload (sent h' @ [r])) = concat (map line_bytes ls)"
    using h'(4) r(1) by (simp add: delivered_def)
  moreover have "list_all (open_block c) (sent h' @ [r])" "qr_begin (hd (sent h' @ [r]))"
    using h'(2,5) r by (auto simp: handler_inv_def)
  ultimately show ?thesis
    using ans fin by (intro exI [of _ "sent h' @ [r]"] exI [of _ fin]) (auto simp: open_block_def list_all_iff)
qed

text \<open>
  C24. An answer loses nothing: the payloads of all blocks but the last, in order, are the appended
  lines each with its newline; the last block holds the summary with the right count; there are at
  least two blocks, all for the asking client, the first marked \<open>begin\<close>, only the last \<open>finish\<close>, and
  no block writes past its array.
\<close>

theorem answer_complete:
  assumes "\<forall>(log, len) \<in> set ls. len + 2 < logs_size" and "length ls < 10 ^ 20"
  shows "\<exists>blocks fin. answer c t0 t1 ls = Inr (blocks @ [fin]) \<and> blocks \<noteq> []
     \<and> concat (map payload blocks) = concat (map line_bytes ls)
     \<and> payload fin = summary (length ls) (t1 - t0)
     \<and> qr_begin (hd blocks) \<and> qr_finish fin \<and> list_all (\<lambda>r. \<not> qr_finish r) blocks
     \<and> list_all (\<lambda>r. block_ok r \<and> qr_client_id r = c) (blocks @ [fin])"
  by (rule answer_blocks [OF assms])

theorem answer_complete_witness:
  "\<exists>blocks fin. answer 5 0 9 [(''one log'' @ [newline, nul], 7), (''next'' @ [newline], 4)] = Inr (blocks @ [fin])
     \<and> concat (map payload blocks) = ''one log'' @ [newline] @ ''next'' @ [newline]"
  using answer_complete [of "[(''one log'' @ [newline, nul], 7), (''next'' @ [newline], 4)]" 5 0 9]
  by (auto simp: logs_size_val line_bytes_def c_strncpy_def cstr_def nul_def newline_def)

end
