(* ===== verification/Url_Encode.thy ===== *)
theory Url_Encode
  imports Prelude
begin

text \<open>
  \<^verbatim>\<open>src/common/url_encode.cpp\<close>: percent encoding of the log text a client sends and its decoding
  in the server.  Both C++ functions walk a NUL-terminated string once and build a new one, so
  each is a recursion over the bytes.  The lemmas give the round trip, the alphabet the encoder
  emits (what keeps the request line parseable) and the sizes the two buffers need.
\<close>

section \<open>Encoding\<close>

text \<open>\<^verbatim>\<open>str[y]\<close> is a plain \<^verbatim>\<open>char\<close>, signed on the platforms the project builds for.\<close>

definition schar :: "char \<Rightarrow> int" where
  "schar c = (let n = of_char c in if n < 128 then n else n - 256)"

definition needs_escape :: "char \<Rightarrow> bool" where
  "needs_escape c \<longleftrightarrow>
     schar c < schar CHR ''0'' \<and> c \<noteq> CHR ''-'' \<and> c \<noteq> CHR ''.''
   \<or> schar c < schar CHR ''A'' \<and> schar c > schar CHR ''9''
   \<or> schar c > schar CHR ''Z'' \<and> schar c < schar CHR ''a'' \<and> c \<noteq> CHR ''_''
   \<or> schar c > schar CHR ''z''"

definition hexchars :: string where
  "hexchars = ''0123456789ABCDEF''"

fun url_encode :: "string \<Rightarrow> string" where
  "url_encode [] = []"
| "url_encode (c # s) =
     (if needs_escape c
      then [CHR ''%'', hexchars ! (of_char c div 16), hexchars ! (of_char c mod 16)]
      else [c]) @ url_encode s"

section \<open>Decoding\<close>

definition c_isxdigit :: "char \<Rightarrow> bool" where
  "c_isxdigit c \<longleftrightarrow> c \<in> set ''0123456789ABCDEFabcdef''"

definition c_tolower :: "char \<Rightarrow> char" where
  "c_tolower c = (if CHR ''A'' \<le> c \<and> c \<le> CHR ''Z'' then char_of (of_char c + (32 :: nat)) else c)"

definition hex_digit_val :: "char \<Rightarrow> int" where
  "hex_digit_val c =
     (let l = of_char (c_tolower c)
      in if of_char CHR ''0'' \<le> l \<and> l \<le> of_char CHR ''9'' then l - of_char CHR ''0''
         else l - of_char CHR ''a'' + 10)"

definition htoi :: "char \<Rightarrow> char \<Rightarrow> int" where
  "htoi h l = hex_digit_val h * 16 + hex_digit_val l"

fun url_decode :: "string \<Rightarrow> string" where
  "url_decode [] = []"
| "url_decode (c # s) =
     (case s of
        h # l # rest \<Rightarrow>
          if c = CHR ''%'' \<and> c_isxdigit h \<and> c_isxdigit l
          then char_of (htoi h l) # url_decode rest
          else c # url_decode s
      | _ \<Rightarrow> c # url_decode s)"

declare url_decode.simps(2) [simp del]

section \<open>In place\<close>

text \<open>The overloads for \<^verbatim>\<open>std::string\<close> take the string up to its first NUL and assign the C string they get.\<close>

definition url_encode_string :: "string \<Rightarrow> string" where
  "url_encode_string s = cstr (url_encode (cstr s))"

definition url_decode_string :: "string \<Rightarrow> string" where
  "url_decode_string s = cstr (url_decode (cstr s))"

section \<open>Facts\<close>

lemma of_char_lt_256: "of_char c < (256 :: nat)"
  by (metis mod_less_divisor of_char_mod_256 zero_less_numeral)

lemma hexchars_cases: "n < 16 \<Longrightarrow> c_isxdigit (hexchars ! n) \<and> hex_digit_val (hexchars ! n) = int n"
proof -
  have "\<forall>n \<in> set [0..<16]. c_isxdigit (hexchars ! n) \<and> hex_digit_val (hexchars ! n) = int n"
    by code_simp
  then show "n < 16 \<Longrightarrow> ?thesis" by simp
qed

lemma of_char_nibbles: "of_char c div 16 < (16 :: nat)" "of_char c mod 16 < (16 :: nat)"
  using of_char_lt_256 [of c] by (auto intro: less_mult_imp_div_less)

lemma escape_decodes: "char_of (htoi (hexchars ! (of_char c div 16)) (hexchars ! (of_char c mod 16))) = c"
proof -
  have "htoi (hexchars ! (of_char c div 16)) (hexchars ! (of_char c mod 16)) = int (of_char c)"
    using div_mult_mod_eq [of "of_char c :: int" 16]
    by (simp add: htoi_def hexchars_cases of_char_nibbles zdiv_int zmod_int)
  then show ?thesis by simp
qed

lemma percent_needs_escape: "needs_escape CHR ''%''"
  by (simp add: needs_escape_def schar_def)

lemma url_decode_plain: "c \<noteq> CHR ''%'' \<Longrightarrow> url_decode (c # s) = c # url_decode s"
  by (subst url_decode.simps) (simp split: list.split)

lemma url_decode_escape:
  "c_isxdigit h \<Longrightarrow> c_isxdigit l \<Longrightarrow> url_decode (CHR ''%'' # h # l # s) = char_of (htoi h l) # url_decode s"
  by (simp add: url_decode.simps(2))

lemma url_decode_Cons_cases:
  obtains (plain) "url_decode (c # s) = c # url_decode s"
  | (escape) h l rest where "s = h # l # rest"
      "url_decode (c # s) = char_of (htoi h l) # url_decode rest"
proof -
  have "url_decode (c # s) = c # url_decode s
      \<or> (\<exists>h l rest. s = h # l # rest \<and> url_decode (c # s) = char_of (htoi h l) # url_decode rest)"
    unfolding url_decode.simps(2) [of c s] by (simp split: list.split)
  then show thesis using plain escape by blast
qed

lemma hexchars_xdigit:
  "c_isxdigit (hexchars ! (of_char c div 16))" "c_isxdigit (hexchars ! (of_char c mod 16))"
  by (simp_all add: hexchars_cases of_char_nibbles)

text \<open>The characters \<^verbatim>\<open>url_encode\<close> can emit: letters, digits, \<open>-\<close>, \<open>.\<close>, \<open>_\<close> and \<open>%\<close>.\<close>

definition url_char :: "char \<Rightarrow> bool" where
  "url_char c \<longleftrightarrow> c = CHR ''%'' \<or> \<not> needs_escape c"

lemma hexchars_url_char: "n < 16 \<Longrightarrow> url_char (hexchars ! n)"
proof -
  have "\<forall>n \<in> set [0..<16]. url_char (hexchars ! n)" by code_simp
  then show "n < 16 \<Longrightarrow> ?thesis" by simp
qed

lemma url_char_not_separator:
  "url_char c \<Longrightarrow> c \<notin> {nul, newline, blank, CHR ''&'', CHR ''='', CHR ''?'', CHR ''/''}"
  by (auto simp: url_char_def needs_escape_def schar_def nul_def newline_def blank_def)

lemma url_encode_append: "url_encode (s @ t) = url_encode s @ url_encode t"
  by (induction s) auto

lemma decode_encode [simp]: "url_decode (url_encode s) = s"
proof (induction s)
  case (Cons c s)
  have "\<not> needs_escape c \<Longrightarrow> c \<noteq> CHR ''%''"
    using percent_needs_escape by auto
  with Cons show ?case
    by (auto simp: url_decode_escape hexchars_xdigit escape_decodes url_decode_plain)
qed simp

text \<open>
  C25. Round trip: decoding what the client encoded gives back every byte of the log text.
\<close>

theorem url_decode_encode: "url_decode (url_encode s) = s"
  by (rule decode_encode)

lemma url_encode_alphabet_set: "c \<in> set (url_encode s) \<Longrightarrow> url_char c"
proof (induction s)
  case (Cons a s)
  have "url_char (hexchars ! (of_char a div 16))" "url_char (hexchars ! (of_char a mod 16))"
    by (simp_all add: hexchars_url_char of_char_nibbles)
  with Cons show ?case
    by (auto simp: url_char_def split: if_splits)
qed simp

lemma url_encode_safe: "c \<in> set (url_encode s) \<Longrightarrow>
    c \<notin> {nul, newline, blank, CHR ''&'', CHR ''='', CHR ''?'', CHR ''/''}"
  using url_encode_alphabet_set url_char_not_separator by blast

lemma length_url_encode_le: "length (url_encode s) \<le> 3 * length s"
  by (induction s) auto

lemma length_url_encode_ge: "length s \<le> length (url_encode s)"
  by (induction s) auto

lemma length_url_decode_le: "length (url_decode s) \<le> length s"
proof (induction s rule: length_induct)
  case (1 s)
  show ?case
  proof (cases s)
    case (Cons c t)
    show ?thesis
      by (rule url_decode_Cons_cases [of c t]) (use 1 Cons in \<open>force intro: le_SucI\<close>)+
  qed simp
qed

lemma nul_free_encoded: "nul_free (url_encode s)"
  using url_encode_safe [of nul s] by (auto simp: nul_free_def)

lemma url_encode_in_place [simp]: "url_encode_string s = url_encode (cstr s)"
  by (simp add: url_encode_string_def cstr_nul_free nul_free_encoded)

lemma url_decode_encode_in_place: "url_decode_string (url_encode_string s) = cstr s"
  by (simp add: url_decode_string_def cstr_nul_free nul_free_encoded decode_encode)

end
