(* ===== verification/Http_Parser.thy ===== *)
theory Http_Parser
  imports Prelude Config Url_Encode
begin

text \<open>
  \<^verbatim>\<open>include/Http_parser.h\<close> and \<^verbatim>\<open>src/common/http_parser.cpp\<close>: the request object and the parser
  that builds it from the bytes the server received.  A pointer into the request buffer is the
  list of bytes from there to the end of the buffer, so a read past the end is the empty list and
  an outcome \<open>UB\<close>.  A \<^verbatim>\<open>char\<close> array member of \<^verbatim>\<open>ReqData\<close> is the C string it holds.
\<close>

section \<open>The request object\<close>

datatype ReqType =
    T_Invalid | T_Append | T_Recent | T_Getkey | T_Search | T_SearchTime | T_LogCount | T_Persistence

record ReqData =
  req_type :: ReqType
  req_key :: string
  req_time :: u64
  req_content :: string
  req_keyword :: string
  req_client_id :: int
  req_count :: u64
  req_start :: u64
  req_end :: u64

definition new_ReqData :: ReqData where
  "new_ReqData = \<lparr>req_type = T_Invalid, req_key = [], req_time = 0, req_content = [],
     req_keyword = [], req_client_id = 0, req_count = 0, req_start = 0, req_end = 0\<rparr>"

definition Valid :: "ReqData \<Rightarrow> bool" where
  "Valid r \<longleftrightarrow> (case req_type r of
       T_Append \<Rightarrow> req_key r \<noteq> [] \<and> req_time r \<noteq> 0
     | T_Recent \<Rightarrow> req_count r \<noteq> 0 \<and> req_client_id r > 0
     | T_Getkey \<Rightarrow> req_key r \<noteq> [] \<and> req_client_id r > 0
     | T_Search \<Rightarrow> req_keyword r \<noteq> [] \<and> req_client_id r > 0
     | T_SearchTime \<Rightarrow> req_key r \<noteq> [] \<and> req_start r \<noteq> 0 \<and> req_end r \<noteq> 0 \<and> req_client_id r > 0
     | T_Persistence \<Rightarrow> req_client_id r > 0
     | T_LogCount \<Rightarrow> req_client_id r > 0
     | T_Invalid \<Rightarrow> False)"

definition Need_send_back :: "ReqData \<Rightarrow> int" where
  "Need_send_back r = (case req_type r of
       T_Recent \<Rightarrow> req_client_id r | T_Search \<Rightarrow> req_client_id r | T_SearchTime \<Rightarrow> req_client_id r
     | T_Getkey \<Rightarrow> req_client_id r | T_LogCount \<Rightarrow> req_client_id r | T_Persistence \<Rightarrow> req_client_id r
     | _ \<Rightarrow> 0)"

text \<open>What the processor prints of a request it does not accept.\<close>

fun as_integer :: "ReqType \<Rightarrow> nat" where
  "as_integer T_Invalid = 0"
| "as_integer T_Append = 1"
| "as_integer T_Recent = 2"
| "as_integer T_Getkey = 3"
| "as_integer T_Search = 4"
| "as_integer T_SearchTime = 5"
| "as_integer T_LogCount = 6"
| "as_integer T_Persistence = 7"

definition Print :: "ReqData \<Rightarrow> string" where
  "Print r = ''Req:'' @ [newline] @ ''Type: '' @ show_nat (as_integer (req_type r)) @ [newline]
     @ ''key: '' @ req_key r @ [newline] @ ''time: '' @ show_nat (unat (req_time r)) @ [newline]
     @ ''content: '' @ req_content r @ [newline] @ ''keyword: '' @ req_keyword r @ [newline]
     @ ''count: '' @ show_nat (unat (req_count r)) @ [newline, newline]"

section \<open>Reading the buffer\<close>

fun deref :: "string \<Rightarrow> char res" where
  "deref [] = Inl UB"
| "deref (x # xs) = Inr x"

text \<open>\<open>None\<close> is the \<^verbatim>\<open>-1\<close> of the source.\<close>

fun Find_char :: "string \<Rightarrow> char \<Rightarrow> nat option res" where
  "Find_char [] c = Inl UB"
| "Find_char (x # xs) c =
     (if x = c then Inr (Some 0)
      else if x = nul \<or> x = blank \<or> x = newline then Inr None
      else bindE (Find_char xs c) (\<lambda>k. Inr (map_option Suc k)))"

text \<open>\<^verbatim>\<open>strncmp(str, lit, strlen(lit)) == 0\<close>: bytes are compared up to the first difference.\<close>

fun strncmp_eq :: "string \<Rightarrow> string \<Rightarrow> bool res" where
  "strncmp_eq [] str = Inr True"
| "strncmp_eq (l # lit) [] = Inl UB"
| "strncmp_eq (l # lit) (x # xs) = (if x = l then strncmp_eq lit xs else Inr False)"

section \<open>Numbers\<close>

definition digits_base :: "nat \<Rightarrow> string \<Rightarrow> nat" where
  "digits_base b ds = foldl (\<lambda>a c. b * a + nat (hex_digit_val c)) 0 ds"

definition is_octal :: "char \<Rightarrow> bool" where
  "is_octal c \<longleftrightarrow> CHR ''0'' \<le> c \<and> c \<le> CHR ''7''"

text \<open>
  \<^verbatim>\<open>strtol(s, &pEnd, 0)\<close>: white space, a sign, then \<open>0x\<close> hexadecimal, \<open>0\<close> octal or decimal
  digits; a value outside \<^verbatim>\<open>long\<close> is clamped.
\<close>

definition strtol_magnitude :: "string \<Rightarrow> nat" where
  "strtol_magnitude s =
     (if take 1 s = ''0'' \<and> (take 1 (drop 1 s) = ''x'' \<or> take 1 (drop 1 s) = ''X'')
         \<and> takeWhile c_isxdigit (drop 2 s) \<noteq> []
      then digits_base 16 (takeWhile c_isxdigit (drop 2 s))
      else if take 1 s = ''0'' then digits_base 8 (takeWhile is_octal s)
      else digits_val (takeWhile is_digit s))"

definition LONG_MAX :: int where "LONG_MAX = 2 ^ 63 - 1"
definition LONG_MIN :: int where "LONG_MIN = - (2 ^ 63)"

definition strtol :: "string \<Rightarrow> int" where
  "strtol s =
     (let t = dropWhile c_isspace s;
          v = (if take 1 t = ''-'' then - int (strtol_magnitude (drop 1 t))
               else if take 1 t = ''+'' then int (strtol_magnitude (drop 1 t))
               else int (strtol_magnitude t))
      in max LONG_MIN (min LONG_MAX v))"

definition get_number :: "string \<Rightarrow> u64 option" where
  "get_number p =
     (let ret = to_uint64 (strtol p)
      in if ret = 0 \<or> ret = to_uint64 LONG_MAX \<or> ret = to_uint64 LONG_MIN then None else Some ret)"

section \<open>Parameters\<close>

datatype ParameterType =
    P_Invalid | P_Key | P_Time | P_Content | P_Count | P_Keyword | P_Start | P_End | P_Id

text \<open>The parameter names in the order of the source's \<^verbatim>\<open>else if\<close> chain: \<open>keyword\<close> before \<open>key\<close>.\<close>

definition parameter_table :: "(string \<times> ParameterType) list" where
  "parameter_table = [(''keyword'', P_Keyword), (''key'', P_Key), (''time'', P_Time),
     (''content'', P_Content), (''count'', P_Count), (''start'', P_Start), (''end'', P_End), (''id'', P_Id)]"

fun decide_para_type :: "(string \<times> ParameterType) list \<Rightarrow> string \<Rightarrow> ParameterType res" where
  "decide_para_type [] str = Inr P_Invalid"
| "decide_para_type ((lit, p) # tab) str =
     bindE (strncmp_eq lit str) (\<lambda>eq. if eq then Inr p else decide_para_type tab str)"

text \<open>The decoded value cut to the array it is stored in.\<close>

definition decode_field :: "nat \<Rightarrow> string \<Rightarrow> string" where
  "decode_field len p = cstr (lgy_strncpy (url_decode p) (len - 1))"

definition set_number :: "(u64 \<Rightarrow> ReqData) \<Rightarrow> string \<Rightarrow> ReqData \<Rightarrow> bool \<times> ReqData" where
  "set_number upd p r = (case get_number p of None \<Rightarrow> (False, r) | Some v \<Rightarrow> (True, upd v))"

fun set_parameter :: "ParameterType \<Rightarrow> string \<Rightarrow> ReqData \<Rightarrow> bool \<times> ReqData" where
  "set_parameter P_Key p r = (True, r\<lparr>req_key := decode_field KEY_LEN p\<rparr>)"
| "set_parameter P_Time p r = set_number (\<lambda>v. r\<lparr>req_time := v\<rparr>) p r"
| "set_parameter P_Start p r = set_number (\<lambda>v. r\<lparr>req_start := v\<rparr>) p r"
| "set_parameter P_End p r = set_number (\<lambda>v. r\<lparr>req_end := v\<rparr>) p r"
| "set_parameter P_Id p r = set_number (\<lambda>v. r\<lparr>req_client_id := to_int32 v\<rparr>) p r"
| "set_parameter P_Content p r = (True, r\<lparr>req_content := decode_field STR_LEN p\<rparr>)"
| "set_parameter P_Count p r = set_number (\<lambda>v. r\<lparr>req_count := v\<rparr>) p r"
| "set_parameter P_Keyword p r = (True, r\<lparr>req_keyword := decode_field SEARCH_KEYWORD_LEN p\<rparr>)"
| "set_parameter P_Invalid p r = (False, r)"

definition Get_parameter :: "string \<Rightarrow> ReqData \<Rightarrow> (bool \<times> ReqData) res" where
  "Get_parameter str r =
     bindE (Find_char str CHR ''='') (\<lambda>index. case index of
         None \<Rightarrow> Inr (False, r)
       | Some k \<Rightarrow>
           bindE (decide_para_type parameter_table str) (\<lambda>para_type.
             if para_type = P_Invalid then Inr (False, r)
             else bindE (read_cstr (drop (k + 1) str)) (\<lambda>p. Inr (set_parameter para_type p r))))"

section \<open>The parser\<close>

text \<open>The \<^verbatim>\<open>while\<close> that steps over \<open>&\<close> characters.\<close>

fun skip_amp :: "string \<Rightarrow> string res" where
  "skip_amp [] = Inl UB"
| "skip_amp (x # xs) = (if x = CHR ''&'' then skip_amp xs else Inr (x # xs))"

lemma skip_amp_length: "skip_amp s = Inr t \<Longrightarrow> t \<noteq> [] \<and> length t \<le> length s"
  by (induction s) (auto split: if_splits)

lemma drop_after_shorter: "t \<noteq> [] \<Longrightarrow> length t \<le> length s \<Longrightarrow> length t - Suc k < length s"
  by (cases t) auto

text \<open>
  The parameter loop.  Its argument is the buffer from just after the last separator; the
  separator found in each round is overwritten with NUL before the parameter is read.  The result
  of \<^verbatim>\<open>Get_parameter\<close> is ignored.
\<close>

function (sequential) parse_params :: "string \<Rightarrow> ReqData \<Rightarrow> ReqData res" where
  "parse_params s r =
     bindE (skip_amp s) (\<lambda>t.
     bindE (Find_char t CHR ''&'') (\<lambda>sep. case sep of
         None \<Rightarrow> bindE (Get_parameter t r) (\<lambda>(ok, r'). Inr r')
       | Some k \<Rightarrow>
           bindE (Get_parameter (t[k := nul]) r) (\<lambda>(ok, r').
             parse_params (drop (k + 1) (t[k := nul])) r')))"
  by pat_completeness auto
termination
  by (relation "measure (\<lambda>(s, r). length s)") (auto dest!: skip_amp_length simp: drop_after_shorter)

declare parse_params.simps [simp del]

definition method_str :: string where
  "method_str = ''GET''"

text \<open>Name, request type and how far the source steps over the name.\<close>

definition request_table :: "(string \<times> ReqType \<times> nat) list" where
  "request_table =
     [(''append'', T_Append, length ''append''), (''recent'', T_Recent, length ''recent''),
      (''getkey'', T_Getkey, length ''recent''), (''persistence'', T_Persistence, length ''persistence''),
      (''searchtime'', T_SearchTime, length ''searchtime''), (''search'', T_Search, length ''search''),
      (''logcount'', T_LogCount, length ''logcount'')]"

fun decide_type :: "(string \<times> ReqType \<times> nat) list \<Rightarrow> string \<Rightarrow> (ReqType \<times> nat) option res" where
  "decide_type [] str = Inr None"
| "decide_type ((lit, ty, n) # tab) str =
     bindE (strncmp_eq lit str) (\<lambda>eq. if eq then Inr (Some (ty, n)) else decide_type tab str)"

definition parse_query :: "ReqType \<Rightarrow> string \<Rightarrow> ReqData option res" where
  "parse_query ty s =
     bindE (Find_char s CHR ''?'') (\<lambda>sep. case sep of
         None \<Rightarrow> Inr (Some (new_ReqData\<lparr>req_type := ty\<rparr>))
       | Some k \<Rightarrow>
           bindE (Find_char (drop (k + 1) s) blank) (\<lambda>space_index. case space_index of
               None \<Rightarrow> Inr None
             | Some j \<Rightarrow>
                 bindE (parse_params ((drop (k + 1) s)[j := nul]) new_ReqData)
                   (\<lambda>r. Inr (Some (r\<lparr>req_type := ty\<rparr>)))))"

text \<open>\<open>None\<close> is the null pointer the source returns for a request it does not understand.\<close>

definition ParseReq :: "string \<Rightarrow> ReqData option res" where
  "ParseReq req_str =
     bindE (strncmp_eq method_str req_str) (\<lambda>get.
       if \<not> get then Inr None
       else bindE (deref (drop (length method_str + 1) req_str)) (\<lambda>c.
         if c \<noteq> CHR ''/'' then Inr None
         else bindE (decide_type request_table (drop (length method_str + 2) req_str)) (\<lambda>ty.
           case ty of
             None \<Rightarrow> Inr None
           | Some (ty, n) \<Rightarrow> parse_query ty (drop (length method_str + 2 + n) req_str))))"

section \<open>Every read stays inside a NUL-terminated buffer\<close>

definition terminated :: "string \<Rightarrow> bool" where
  "terminated b \<longleftrightarrow> b \<noteq> [] \<and> last b = nul"

lemma terminated_Cons: "terminated (x # xs) \<longleftrightarrow> (if xs = [] then x = nul else terminated xs)"
  by (simp add: terminated_def)

lemma terminated_Nil [simp]: "\<not> terminated []"
  by (simp add: terminated_def)

lemma terminated_nonempty: "terminated b \<Longrightarrow> b \<noteq> []"
  by (simp add: terminated_def)

lemma terminated_drop: "terminated b \<Longrightarrow> k < length b \<Longrightarrow> terminated (drop k b)"
  by (auto simp: terminated_def)

lemma terminated_update: "terminated b \<Longrightarrow> terminated (b[k := nul])"
  by (simp add: terminated_def last_list_update)

lemma read_cstr_ok: "terminated b \<Longrightarrow> \<exists>p. read_cstr b = Inr p"
  by (auto simp: terminated_def read_cstr_def dest: last_in_set)

lemma Find_char_ok:
  "terminated b \<Longrightarrow> \<exists>k. Find_char b c = Inr k \<and> (\<forall>i. k = Some i \<longrightarrow> i < length b \<and> b ! i = c)"
proof (induction b)
  case (Cons x xs)
  show ?case
  proof (cases "x = c \<or> x = nul \<or> x = blank \<or> x = newline")
    case False
    with Cons.prems have "terminated xs" by (simp add: terminated_Cons split: if_splits)
    with Cons.IH obtain k where "Find_char xs c = Inr k" "\<forall>i. k = Some i \<longrightarrow> i < length xs \<and> xs ! i = c"
      by auto
    with False show ?thesis by auto
  qed auto
qed (simp add: terminated_def)

lemma Find_char_inside:
  assumes "terminated b" "Find_char b c = Inr (Some k)" "c \<noteq> nul"
  shows "Suc k < length b"
proof -
  from Find_char_ok [OF assms(1), of c] assms(2) have k: "k < length b" "b ! k = c" by auto
  have "k \<noteq> length b - 1"
    using assms(1,3) k by (auto simp: terminated_def last_conv_nth)
  with k show ?thesis by linarith
qed

lemma strncmp_eq_ok:
  "terminated b \<Longrightarrow> nul_free lit \<Longrightarrow>
   \<exists>eq. strncmp_eq lit b = Inr eq \<and> (eq \<longrightarrow> length lit < length b)"
proof (induction lit b rule: strncmp_eq.induct)
  case (3 l lit x xs)
  then show ?case by (cases "x = l") (auto simp: terminated_Cons split: if_splits)
qed (auto simp: terminated_def)

lemma decide_para_type_ok:
  "terminated b \<Longrightarrow> list_all (\<lambda>(lit, p). nul_free lit) tab \<Longrightarrow> \<exists>p. decide_para_type tab b = Inr p"
proof (induction tab)
  case (Cons e tab)
  obtain lit p where e: "e = (lit, p)" by (cases e)
  with Cons.prems have "nul_free lit" by simp
  with strncmp_eq_ok [OF Cons.prems(1)] obtain eq where "strncmp_eq lit b = Inr eq" by blast
  with Cons e show ?case by simp
qed simp

lemma decide_type_ok:
  "terminated b \<Longrightarrow> list_all (\<lambda>(lit, ty, n). nul_free lit \<and> n = length lit) tab \<Longrightarrow>
   \<exists>d. decide_type tab b = Inr d \<and> (\<forall>ty n. d = Some (ty, n) \<longrightarrow> n < length b)"
proof (induction tab)
  case (Cons e tab)
  obtain lit ty n where e: "e = (lit, ty, n)" by (cases e)
  with Cons.prems have lit: "nul_free lit" "n = length lit" by auto
  from strncmp_eq_ok [OF Cons.prems(1) lit(1)] obtain eq
    where "strncmp_eq lit b = Inr eq" "eq \<longrightarrow> length lit < length b" by blast
  with Cons e lit(2) show ?case by (cases eq) auto
qed simp

lemma parameter_table_nul_free: "list_all (\<lambda>(lit, p). nul_free lit) parameter_table"
  by (simp add: parameter_table_def nul_def)

lemma request_table_ok: "list_all (\<lambda>(lit, ty, n). nul_free lit \<and> n = length lit) request_table"
  by (simp add: request_table_def nul_def)

lemma skip_amp_ok: "terminated s \<Longrightarrow> \<exists>t. skip_amp s = Inr t \<and> terminated t"
proof (induction s)
  case (Cons x xs)
  then show ?case
    by (cases "x = CHR ''&''") (auto simp: terminated_Cons nul_def split: if_splits)
qed simp

section \<open>What the parser stores fits the arrays of the request object\<close>

definition req_wf :: "ReqData \<Rightarrow> bool" where
  "req_wf r \<longleftrightarrow>
     nul_free (req_key r) \<and> length (req_key r) < KEY_LEN
   \<and> nul_free (req_content r) \<and> length (req_content r) < STR_LEN
   \<and> nul_free (req_keyword r) \<and> length (req_keyword r) < SEARCH_KEYWORD_LEN"

lemma decode_field_wf: "0 < n \<Longrightarrow> nul_free (decode_field n p) \<and> length (decode_field n p) < n"
  by (auto simp: decode_field_def cstr_lgy_strncpy nul_free_take min_def)

lemma new_ReqData_wf: "req_wf new_ReqData"
  by (simp add: req_wf_def new_ReqData_def config_defs)

lemma set_parameter_wf: "req_wf r \<Longrightarrow> req_wf (snd (set_parameter ty p r))"
  using decode_field_wf
  by (cases ty) (auto simp: req_wf_def set_number_def config_defs split: option.split)

lemma Get_parameter_ok:
  assumes "terminated b" "req_wf r"
  shows "\<exists>ok r'. Get_parameter b r = Inr (ok, r') \<and> req_wf r'"
proof -
  obtain k where k: "Find_char b CHR ''='' = Inr k"
    using Find_char_ok [OF assms(1)] by blast
  obtain ty where ty: "decide_para_type parameter_table b = Inr ty"
    using decide_para_type_ok [OF assms(1) parameter_table_nul_free] by blast
  show ?thesis
  proof (cases k)
    case (Some i)
    have "Suc i < length b"
      using Find_char_inside assms(1) k Some by (simp add: nul_def)
    then obtain p where "read_cstr (drop (Suc i) b) = Inr p"
      using terminated_drop [OF assms(1)] read_cstr_ok by blast
    with k ty Some assms(2) set_parameter_wf [OF assms(2), of ty p] show ?thesis
      by (cases "set_parameter ty p r") (auto simp: Get_parameter_def)
  next
    case None
    with k have "Get_parameter b r = Inr (False, r)" by (simp add: Get_parameter_def)
    with assms(2) show ?thesis by blast
  qed
qed

lemma parse_params_ok:
  "terminated s \<Longrightarrow> req_wf r \<Longrightarrow> \<exists>r'. parse_params s r = Inr r' \<and> req_wf r'"
proof (induction s r rule: parse_params.induct)
  case (1 s r)
  obtain t where t: "skip_amp s = Inr t" "terminated t"
    using skip_amp_ok 1 by blast
  obtain sep where sep: "Find_char t CHR ''&'' = Inr sep"
    using Find_char_ok [OF t(2)] by blast
  show ?case
  proof (cases sep)
    case None
    from Get_parameter_ok [OF t(2) "1.prems"(2)] t sep None show ?thesis
      by (subst parse_params.simps) auto
  next
    case (Some k)
    have k: "Suc k < length t"
      using Find_char_inside t(2) sep Some by (simp add: nul_def)
    have tk: "terminated (t[k := nul])" by (rule terminated_update) (rule t(2))
    then obtain ok r1 where g: "Get_parameter (t[k := nul]) r = Inr (ok, r1)" "req_wf r1"
      using Get_parameter_ok "1.prems"(2) by blast
    have "terminated (drop (k + 1) (t[k := nul]))"
      using k tk by (intro terminated_drop) auto
    from "1.IH" [OF t(1) sep Some g(1) refl this g(2)] g t sep Some show ?thesis
      by (subst parse_params.simps) auto
  qed
qed

lemma parse_query_ok:
  assumes "terminated s"
  shows "\<exists>q. parse_query ty s = Inr q \<and> (\<forall>r. q = Some r \<longrightarrow> req_wf r \<and> req_type r = ty)"
proof -
  obtain sep where sep: "Find_char s CHR ''?'' = Inr sep"
    using Find_char_ok [OF assms] by blast
  have wf_type: "req_wf (r\<lparr>req_type := ty\<rparr>) \<longleftrightarrow> req_wf r" for r
    by (simp add: req_wf_def)
  show ?thesis
  proof (cases sep)
    case None
    with sep show ?thesis by (simp add: parse_query_def wf_type new_ReqData_wf)
  next
    case (Some k)
    then have "Suc k < length s" using Find_char_inside assms sep by (simp add: nul_def)
    then have t: "terminated (drop (k + 1) s)" by (intro terminated_drop assms) simp
    then obtain sp where sp: "Find_char (drop (k + 1) s) blank = Inr sp"
      using Find_char_ok by blast
    show ?thesis
    proof (cases sp)
      case None
      with sep sp Some show ?thesis by (simp add: parse_query_def)
    next
      case (Some j)
      have "terminated ((drop (k + 1) s)[j := nul])" by (rule terminated_update) (rule t)
      then obtain r where "parse_params ((drop (k + 1) s)[j := nul]) new_ReqData = Inr r" "req_wf r"
        using parse_params_ok new_ReqData_wf by blast
      with sep sp Some \<open>sep = Some k\<close> show ?thesis by (simp add: parse_query_def wf_type)
    qed
  qed
qed

lemma ParseReq_ok:
  assumes "last b = nul" and "5 \<le> length b"
  shows "\<exists>q. ParseReq b = Inr q \<and> (\<forall>r. q = Some r \<longrightarrow> req_wf r)"
proof -
  have b: "terminated b" using assms by (auto simp: terminated_def)
  have "nul_free method_str" by (simp add: method_str_def nul_def)
  with strncmp_eq_ok [OF b] obtain get where get: "strncmp_eq method_str b = Inr get" by blast
  have len: "length method_str = 3" by (simp add: method_str_def)
  obtain x xs where x: "drop 4 b = x # xs"
    using assms(2) by (cases "drop 4 b") auto
  show ?thesis
  proof (cases "get \<and> x = CHR ''/''")
    case True
    have t4: "terminated (x # xs)" using terminated_drop [OF b, of 4] assms(2) x by simp
    then have t5: "terminated xs" using True by (simp add: terminated_Cons nul_def split: if_splits)
    have d5: "drop 5 b = xs" using x drop_Suc_Cons [of 0 x xs] drop_drop [of 1 4 b] by simp
    obtain d where d: "decide_type request_table xs = Inr d" "\<forall>ty n. d = Some (ty, n) \<longrightarrow> n < length xs"
      using decide_type_ok [OF t5 request_table_ok] by blast
    show ?thesis
    proof (cases d)
      case None
      with get True x d5 d(1) len show ?thesis by (simp add: ParseReq_def)
    next
      case (Some e)
      obtain ty n where e: "e = (ty, n)" by (cases e)
      have "terminated (drop n xs)" using d(2) Some e t5 by (intro terminated_drop) auto
      with parse_query_ok obtain q where "parse_query ty (drop n xs) = Inr q"
          "\<forall>r. q = Some r \<longrightarrow> req_wf r" by blast
      moreover have "drop (5 + n) b = drop n xs"
        using drop_drop [of n 5 b] d5 by (simp add: add.commute)
      ultimately show ?thesis
        using get True x d5 d(1) len Some e by (simp add: ParseReq_def)
    qed
  qed (use get x len in \<open>auto simp: ParseReq_def\<close>)
qed

text \<open>
  C22. Memory safety of the parser: on a buffer of at least five bytes whose last byte is NUL every
  read stays inside the buffer, whatever the bytes are, and a request it returns has each string
  member NUL-terminated inside its array.
\<close>

theorem ParseReq_safe:
  assumes "last b = nul" and "5 \<le> length b"
  shows "\<exists>q. ParseReq b = Inr q \<and> (\<forall>r. q = Some r \<longrightarrow> req_wf r)"
  by (rule ParseReq_ok [OF assms])

theorem ParseReq_safe_witness:
  "\<exists>q. ParseReq (''GET /append?key=a&time=7&content=x%20y HTTP/1.1'' @ [nul]) = Inr q
      \<and> (\<forall>r. q = Some r \<longrightarrow> req_wf r)"
  by (rule ParseReq_safe) simp_all

section \<open>Parsing well-formed requests\<close>

definition plain :: "char \<Rightarrow> string \<Rightarrow> bool" where
  "plain c p \<longleftrightarrow> list_all (\<lambda>x. x \<noteq> c \<and> x \<noteq> nul \<and> x \<noteq> blank \<and> x \<noteq> newline) p"

lemma Find_char_hit: "plain c p \<Longrightarrow> Find_char (p @ c # rest) c = Inr (Some (length p))"
  by (induction p) (auto simp: plain_def)

lemma Find_char_stop:
  "plain c p \<Longrightarrow> e \<noteq> c \<Longrightarrow> e = nul \<or> e = blank \<or> e = newline \<Longrightarrow> Find_char (p @ e # rest) c = Inr None"
  by (induction p) (auto simp: plain_def)

lemma Find_char_overrun: "plain c p \<Longrightarrow> Find_char p c = Inl UB"
  by (induction p) (auto simp: plain_def)

lemma plain_append [simp]: "plain c (p @ q) \<longleftrightarrow> plain c p \<and> plain c q"
  by (auto simp: plain_def)

lemma plain_Nil [simp]: "plain c []"
  by (simp add: plain_def)

lemma plain_Cons [simp]:
  "plain c (x # p) \<longleftrightarrow> x \<noteq> c \<and> x \<noteq> nul \<and> x \<noteq> blank \<and> x \<noteq> newline \<and> plain c p"
  by (auto simp: plain_def)

lemma plain_nul_free: "plain c p \<Longrightarrow> nul_free p"
  by (induction p) auto

lemma plain_url_encode: "c \<in> {CHR ''&'', CHR ''?'', CHR ''='', blank} \<Longrightarrow> plain c (url_encode s)"
  unfolding plain_def list_all_iff using url_encode_safe by fastforce

lemma plain_show_nat: "\<not> is_digit c \<Longrightarrow> plain c (show_nat n)"
  using show_nat_digits [of n]
  by (auto simp: plain_def list_all_iff is_digit_iff nul_def blank_def newline_def)

lemma parse_params_step:
  assumes "plain CHR ''&'' p" and "p \<noteq> []"
  shows "parse_params (p @ CHR ''&'' # rest) r =
         bindE (Get_parameter (p @ nul # rest) r) (\<lambda>(ok, r'). parse_params rest r')"
proof -
  obtain x xs where p: "p = x # xs" using assms(2) by (cases p) auto
  with assms(1) have "skip_amp (p @ CHR ''&'' # rest) = Inr (p @ CHR ''&'' # rest)" by simp
  with Find_char_hit [OF assms(1)] show ?thesis
    by (subst parse_params.simps) simp
qed

lemma parse_params_end: "parse_params (nul # rest) r = Inr r"
  by (subst parse_params.simps) (simp add: Get_parameter_def nul_def)

lemma Get_parameter_key:
  "nul_free v \<Longrightarrow> Get_parameter (''key='' @ v @ nul # rest) r = Inr (True, r\<lparr>req_key := decode_field KEY_LEN v\<rparr>)"
  by (simp add: Get_parameter_def parameter_table_def read_cstr_terminated [unfolded nul_def] nul_def blank_def newline_def)

lemma Get_parameter_content:
  "nul_free v \<Longrightarrow> Get_parameter (''content='' @ v @ nul # rest) r = Inr (True, r\<lparr>req_content := decode_field STR_LEN v\<rparr>)"
  by (simp add: Get_parameter_def parameter_table_def read_cstr_terminated [unfolded nul_def] nul_def blank_def newline_def)

lemma Get_parameter_time:
  "nul_free v \<Longrightarrow> get_number v = Some t \<Longrightarrow>
   Get_parameter (''time='' @ v @ nul # rest) r = Inr (True, r\<lparr>req_time := t\<rparr>)"
  by (simp add: Get_parameter_def parameter_table_def read_cstr_terminated [unfolded nul_def] set_number_def nul_def blank_def newline_def)

lemma strtol_show_nat: "0 < n \<Longrightarrow> n < 2 ^ 63 \<Longrightarrow> strtol (show_nat n) = int n"
proof -
  assume n: "0 < n" "n < 2 ^ 63"
  obtain d ds where d: "show_nat n = d # ds" "is_digit d" by (rule show_nat_Cons)
  have "\<not> c_isspace d" "d \<noteq> CHR ''-''" "d \<noteq> CHR ''+''" "d \<noteq> CHR ''0''"
    using d(2) show_nat_leading [OF n(1)] d(1) by (auto simp: is_digit_iff c_isspace_def)
  moreover have "takeWhile is_digit (d # ds) = d # ds"
    using takeWhile_show_nat [of "[]" n] d(1) by simp
  moreover have "digits_val (d # ds) = n"
    using digits_val_show_nat [of n] d(1) by simp
  ultimately show ?thesis
    using n(2) by (simp add: strtol_def strtol_magnitude_def d(1) Let_def LONG_MAX_def LONG_MIN_def)
qed

lemma get_number_show_nat:
  assumes "0 < n" "n < 2 ^ 63 - 1"
  shows "get_number (show_nat n) = Some (word_of_nat n)"
proof -
  have s: "strtol (show_nat n) = int n" using assms by (intro strtol_show_nat) auto
  have "unat (to_uint64 (int n)) = n"
    using assms by (simp add: to_uint64_small unsigned_of_nat take_bit_nat_eq_self)
  moreover have "unat (to_uint64 LONG_MAX) = 2 ^ 63 - 1" "unat (to_uint64 LONG_MIN) = 2 ^ 63"
    by (simp_all add: to_uint64_def LONG_MAX_def LONG_MIN_def)
  ultimately have "to_uint64 (int n) \<notin> {0, to_uint64 LONG_MAX, to_uint64 LONG_MIN}"
    using assms by (metis empty_iff insert_iff less_irrefl less_imp_diff_less less_numeral_extra(3) unat_0)
  then show ?thesis
    by (simp add: get_number_def s Let_def to_uint64_small)
qed

text \<open>The request a client library sends for one line.\<close>

definition append_params :: "string \<Rightarrow> nat \<Rightarrow> string \<Rightarrow> string" where
  "append_params k t c = ''key='' @ k @ ''&'' @ ''time='' @ show_nat t @ ''&'' @ ''content='' @ c @ ''&''"

definition append_line :: "string \<Rightarrow> nat \<Rightarrow> string \<Rightarrow> string" where
  "append_line k t c = ''GET /append?'' @ append_params k t c @ '' HTTP/1.1''"

lemma list_update_middle: "(p @ x # rest)[length p := y] = p @ y # rest"
  by (simp add: list_update_append)

lemma Get_params:
  assumes "plain CHR ''&'' k" "plain CHR ''&'' c" "0 < t" "t < 2 ^ 63 - 1"
  shows "parse_params (''key='' @ k @ CHR ''&'' # ''time='' @ show_nat t @ CHR ''&'' # ''content='' @ c @ CHR ''&'' # nul # rest) r
     = Inr (r\<lparr>req_key := decode_field KEY_LEN k, req_time := word_of_nat t, req_content := decode_field STR_LEN c\<rparr>)"
proof -
  have t: "plain CHR ''&'' (show_nat t)" by (rule plain_show_nat) (simp add: is_digit_iff)
  have nf: "nul_free k" "nul_free c" "nul_free (show_nat t)" using assms(1,2) t plain_nul_free by blast+
  have p: "plain CHR ''&'' (''key='' @ k)" "plain CHR ''&'' (''time='' @ show_nat t)" "plain CHR ''&'' (''content='' @ c)"
    using assms(1,2) t by (simp_all add: nul_def blank_def newline_def)
  have "parse_params (''content='' @ c @ CHR ''&'' # nul # rest) r'
      = Inr (r'\<lparr>req_content := decode_field STR_LEN c\<rparr>)" for r'
    using parse_params_step [OF p(3), of "nul # rest" r'] Get_parameter_content [OF nf(2), of "nul # rest" r']
    by (simp add: parse_params_end)
  moreover have "parse_params (''time='' @ show_nat t @ CHR ''&'' # more) r'
      = parse_params more (r'\<lparr>req_time := word_of_nat t\<rparr>)" for more r'
    using parse_params_step [OF p(2), of more r'] Get_parameter_time [OF nf(3) get_number_show_nat [OF assms(3,4)], of more r']
    by simp
  moreover have "parse_params (''key='' @ k @ CHR ''&'' # more) r'
      = parse_params more (r'\<lparr>req_key := decode_field KEY_LEN k\<rparr>)" for more r'
    using parse_params_step [OF p(1), of more r'] Get_parameter_key [OF nf(1), of more r'] by simp
  ultimately show ?thesis by simp
qed

lemma ParseReq_get_append:
  "ParseReq (''GET /append?'' @ s) = parse_query T_Append (CHR ''?'' # s)"
  by (simp add: ParseReq_def method_str_def request_table_def)

lemma plain_append_params:
  assumes "plain blank k" "plain blank c"
  shows "plain blank (append_params k t c)"
proof -
  have "plain blank (show_nat t)" by (rule plain_show_nat) (simp add: blank_def is_digit_iff)
  with assms show ?thesis by (simp add: append_params_def nul_def blank_def newline_def)
qed

text \<open>The parser reads the parameters up to the blank; what follows it does not matter.\<close>

lemma ParseReq_append:
  assumes k: "plain CHR ''&'' k" "plain blank k" and c: "plain CHR ''&'' c" "plain blank c" and t: "0 < t" "t < 2 ^ 63 - 1"
  shows "ParseReq (''GET /append?'' @ append_params k t c @ blank # rest)
     = Inr (Some (new_ReqData\<lparr>req_type := T_Append, req_key := decode_field KEY_LEN k, req_time := word_of_nat t,
         req_content := decode_field STR_LEN c\<rparr>))"
proof -
  let ?params = "append_params k t c"
  have f: "Find_char (?params @ blank # rest) blank = Inr (Some (length ?params))"
    by (rule Find_char_hit [OF plain_append_params [OF k(2) c(2)]])
  have u: "(?params @ blank # rest)[length ?params := nul] = ?params @ nul # rest" by (rule list_update_middle)
  have g: "parse_params (?params @ nul # rest) new_ReqData
      = Inr (new_ReqData\<lparr>req_key := decode_field KEY_LEN k, req_time := word_of_nat t, req_content := decode_field STR_LEN c\<rparr>)"
    using Get_params [OF k(1) c(1) t, of rest new_ReqData] by (simp add: append_params_def)
  have "drop (0 + 1) (CHR ''?'' # ?params @ blank # rest) = ?params @ blank # rest" by simp
  moreover have "Find_char (CHR ''?'' # ?params @ blank # rest) CHR ''?'' = Inr (Some 0)" by simp
  ultimately show ?thesis
    unfolding ParseReq_get_append parse_query_def by (simp only: bindE.simps option.case f u g) simp
qed

text \<open>Parameters that end before their blank make no request.\<close>

lemma ParseReq_append_cut:
  assumes "plain blank p"
  shows "ParseReq (''GET /append?'' @ p @ nul # rest) = Inr None"
proof -
  have "Find_char (p @ nul # rest) blank = Inr None"
    using assms by (rule Find_char_stop) (simp_all add: nul_def blank_def)
  then show ?thesis unfolding ParseReq_get_append parse_query_def by simp
qed

text \<open>
  C28. The terminator is needed: a request for which \<^verbatim>\<open>recv\<close> filled the buffer without a NUL, a
  newline or a space after its parameters is read past the end of the buffer.
\<close>

theorem ParseReq_unterminated_overruns:
  assumes "list_all (\<lambda>c. c \<notin> {nul, blank, newline}) s"
  shows "ParseReq (''GET /append?'' @ s) = Inl UB"
proof -
  have "plain blank s" using assms by (auto simp: plain_def list_all_iff)
  then have "Find_char s blank = Inl UB" by (rule Find_char_overrun)
  then show ?thesis
    by (simp add: ParseReq_def method_str_def request_table_def parse_query_def nul_def blank_def newline_def)
qed

theorem ParseReq_unterminated_overruns_witness:
  "length (''GET /append?'' @ replicate (BUFFER_SIZE - 12) CHR ''x'') = BUFFER_SIZE
   \<and> ParseReq (''GET /append?'' @ replicate (BUFFER_SIZE - 12) CHR ''x'') = Inl UB"
  using ParseReq_unterminated_overruns [of "replicate (BUFFER_SIZE - 12) CHR ''x''"]
  by (simp add: list_all_iff nul_def blank_def newline_def config_defs)

end
