(* ===== verification/Data_Manager.thy ===== *)
theory Data_Manager
  imports Bulk_Handler Query_Result Http_Parser
begin

text \<open>
  The data manager, \<^verbatim>\<open>src/log_processor/data_manager.cpp\<close>: the list of bulks, the global key index,
  the serial counter, and the handlers of the seven requests.  A bulk handler is known by its index
  in the list, which is the order of creation.  What the requests write to the result queue is the
  list \<open>result_blocks\<close>; the two clock readings of a query are arguments.
\<close>

section \<open>The state\<close>

record data_manager =
  bulk_handler_list :: "MemoryBulkHandler list"
  Global_key_bulk_handler_trie :: "nat Trie"
  LogSerial :: u64
  wld :: world
  result_blocks :: "QueryResult list"

definition put_handler :: "nat \<Rightarrow> MemoryBulkHandler \<Rightarrow> world \<Rightarrow> data_manager \<Rightarrow> data_manager" where
  "put_handler i h w dm = dm\<lparr>bulk_handler_list := (bulk_handler_list dm)[i := h], wld := w\<rparr>"

definition Add_key_global_trie :: "string \<Rightarrow> nat \<Rightarrow> data_manager \<Rightarrow> data_manager" where
  "Add_key_global_trie key i dm =
     (let t = Global_key_bulk_handler_trie dm
      in dm\<lparr>Global_key_bulk_handler_trie :=
           (case trie_search key t of
              None \<Rightarrow> trie_insert False key i t
            | Some bulks \<Rightarrow> if bulks \<noteq> [] \<and> last bulks = i then t else trie_push key i t)\<rparr>)"

definition Find_key_in_global_trie :: "string \<Rightarrow> data_manager \<Rightarrow> nat list option" where
  "Find_key_in_global_trie key dm = trie_search key (Global_key_bulk_handler_trie dm)"

definition LogSerialAdd :: "u64 \<Rightarrow> data_manager \<Rightarrow> u64 \<times> data_manager" where
  "LogSerialAdd num dm = (LogSerial dm + num, dm\<lparr>LogSerial := LogSerial dm + num\<rparr>)"

section \<open>Bulks\<close>

definition push_new_handler :: "u64 \<Rightarrow> data_manager \<Rightarrow> data_manager res" where
  "push_new_handler serial dm =
     (case new_MemoryBulkHandler (length (bulk_handler_list dm)) (new_MemoryBulk serial) (wld dm) of
        None \<Rightarrow> Inl Waits
      | Some (h, w) \<Rightarrow> Inr (dm\<lparr>bulk_handler_list := bulk_handler_list dm @ [h], wld := w\<rparr>))"

definition new_data_manager :: "world \<Rightarrow> data_manager" where
  "new_data_manager w = \<lparr>bulk_handler_list = [], Global_key_bulk_handler_trie = new_Trie, LogSerial = 0,
     wld = w, result_blocks = []\<rparr>"

definition Init_data_manager :: "data_manager \<Rightarrow> data_manager res" where
  "Init_data_manager dm = push_new_handler 0 dm"

text \<open>The start serial passes through an \<^verbatim>\<open>int\<close>, once as a local and once as a parameter.\<close>

definition New_memory_bulk :: "data_manager \<Rightarrow> data_manager res" where
  "New_memory_bulk dm =
     (if bulk_handler_list dm = [] then push_new_handler 0 dm
      else let (serial, dm1) = LogSerialAdd (of_nat (mb_size (bulk (last (bulk_handler_list dm))))) dm
           in push_new_handler (to_uint64 (to_int32 serial)) dm1)"

text \<open>The index of the open bulk; an empty list gets one.\<close>

definition Get_available_memory_bulk :: "data_manager \<Rightarrow> (nat \<times> data_manager) res" where
  "Get_available_memory_bulk dm =
     bindE (if bulk_handler_list dm = [] then New_memory_bulk dm else Inr dm) (\<lambda>dm1.
       Inr (length (bulk_handler_list dm1) - 1, dm1))"

section \<open>Appending\<close>

definition dm_Append :: "nat \<Rightarrow> string \<Rightarrow> data_manager \<Rightarrow> (nat option \<times> data_manager) res" where
  "dm_Append i line dm =
     bindE (bh_Append line (length line) (bulk_handler_list dm ! i) (wld dm)) (\<lambda>(off, h, w).
       Inr (off, put_handler i h w dm))"

text \<open>
  The line is measured as a C string.  When the fresh bulk refuses it too, \<^verbatim>\<open>err_sys\<close> is called with
  a number for a \<^verbatim>\<open>%s\<close>, which is undefined behaviour.
\<close>

definition Append_log :: "ReqData \<Rightarrow> data_manager \<Rightarrow> (int \<times> data_manager) res" where
  "Append_log req dm =
     (if \<not> Valid req then Inr (- 1, dm)
      else let line = cstr (format_line (req_key req) (req_time req) (req_content req))
      in bindE (Get_available_memory_bulk dm) (\<lambda>(i, dm1).
         bindE (dm_Append i line dm1) (\<lambda>(off, dm2).
         bindE (case off of
                  Some o1 \<Rightarrow> Inr (i, Some o1, dm2)
                | None \<Rightarrow> bindE (New_memory_bulk dm2) (\<lambda>dm3.
                           let j = length (bulk_handler_list dm3) - 1
                           in bindE (dm_Append j line dm3) (\<lambda>(off', dm4). Inr (j, off', dm4))))
           (\<lambda>(j, off', dm5). case off' of
              None \<Rightarrow> Inl UB
            | Some o1 \<Rightarrow>
                let h = bh_Build_index o1 (req_content req) (req_key req) (req_time req) (bulk_handler_list dm5 ! j)
                in Inr (1, Add_key_global_trie (req_key req) j (put_handler j h (wld dm5) dm5))))))"

section \<open>Answers\<close>

definition invalid_answer :: string where
  "invalid_answer = ''Not a search req'' @ [newline]"

definition no_result :: string where
  "no_result = ''No result found'' @ [newline]"

definition persistence_ret :: string where
  "persistence_ret = ''Persistence down'' @ [newline]"

definition finish_answer :: "u64 \<Rightarrow> QueryResultHandler \<Rightarrow> data_manager \<Rightarrow> data_manager res" where
  "finish_answer now hr dm = bindE (hr_Finish now hr) (\<lambda>hr'.
     Inr (dm\<lparr>result_blocks := result_blocks dm @ sent hr'\<rparr>))"

definition refuse :: "u64 \<Rightarrow> QueryResultHandler \<Rightarrow> data_manager \<Rightarrow> (int \<times> data_manager) res" where
  "refuse now hr dm = bindE (hr_Append invalid_answer (length invalid_answer) hr) (\<lambda>hr1.
     bindE (finish_answer now hr1 dm) (\<lambda>dm1. Inr (- 1, dm1)))"

type_synonym query_state = "data_manager \<times> QueryResultHandler"

text \<open>One entry of the answer: its line is looked up in the bulk and appended.\<close>

definition answer_entry :: "nat \<Rightarrow> nat \<Rightarrow> query_state \<Rightarrow> query_state res" where
  "answer_entry i serial qs = (case qs of (dm, hr) \<Rightarrow>
     bindE (Get_content_ref serial (bulk_handler_list dm ! i) (wld dm)) (\<lambda>((log, len), h, w).
     bindE (hr_Append log len hr) (\<lambda>hr'. Inr (put_handler i h w dm, hr'))))"

section \<open>The most recent entries\<close>

text \<open>\<open>n\<close> is \<^verbatim>\<open>end_index + 1\<close>.\<close>

fun recent_entries :: "nat \<Rightarrow> nat \<Rightarrow> int \<Rightarrow> query_state \<Rightarrow> (int \<times> query_state) res" where
  "recent_entries i 0 num qs = Inr (num, qs)"
| "recent_entries i (Suc n) num qs =
     (if num > 0 then bindE (answer_entry i n qs) (recent_entries i n (num - 1)) else Inr (num, qs))"

fun recent_bulks :: "nat \<Rightarrow> int \<Rightarrow> query_state \<Rightarrow> query_state res" where
  "recent_bulks 0 num qs = Inr qs"
| "recent_bulks (Suc i) num qs =
     (if num > 0
      then bindE (recent_entries i (mb_size (bulk (bulk_handler_list (fst qs) ! i))) num qs) (\<lambda>(num', qs').
             recent_bulks i num' qs')
      else Inr qs)"

text \<open>The branch for an invalid request does not return: it goes on with the finished answer.\<close>

definition Get_recent_log :: "u64 \<Rightarrow> u64 \<Rightarrow> ReqData \<Rightarrow> data_manager \<Rightarrow> (int \<times> data_manager) res" where
  "Get_recent_log now0 now1 req dm =
     (let hr = new_QueryResultHandler (req_client_id req) now0
      in bindE (if \<not> Valid req \<or> req_type req \<noteq> T_Recent
                then bindE (hr_Append invalid_answer (length invalid_answer) hr) (\<lambda>hr1.
                     bindE (hr_Finish now1 hr1) (\<lambda>hr2.
                       Inr (dm\<lparr>result_blocks := result_blocks dm @ sent hr2\<rparr>, hr2\<lparr>sent := []\<rparr>)))
                else Inr (dm, hr)) (\<lambda>qs.
         bindE (recent_bulks (length (bulk_handler_list dm)) (to_int32 (req_count req)) qs) (\<lambda>(dm1, hr1).
         bindE (finish_answer now1 hr1 dm1) (\<lambda>dm2. Inr (1, dm2)))))"

section \<open>Persistence request\<close>

definition Persistence_log :: "u64 \<Rightarrow> u64 \<Rightarrow> ReqData \<Rightarrow> data_manager \<Rightarrow> data_manager res" where
  "Persistence_log now0 now1 req dm =
     bindE (hr_Append persistence_ret (length persistence_ret) (new_QueryResultHandler (req_client_id req) now0)) (\<lambda>hr.
       finish_answer now1 hr dm)"

section \<open>Searching words\<close>

text \<open>The serials are given newest first, as the reverse iterator visits them.\<close>

fun answer_serials :: "nat \<Rightarrow> nat list \<Rightarrow> int \<Rightarrow> query_state \<Rightarrow> (int \<times> query_state) res" where
  "answer_serials i [] num qs = Inr (num, qs)"
| "answer_serials i (s # ss) num qs =
     (if num \<ge> 0 then bindE (answer_entry i s qs) (answer_serials i ss (num - 1)) else Inr (num, qs))"

text \<open>
  The loop of a single-word search advances the pointer to the list instead of the iterator, so its
  second test reads beyond the list object.
\<close>

definition answer_single :: "nat \<Rightarrow> nat list \<Rightarrow> int \<Rightarrow> query_state \<Rightarrow> (int \<times> query_state) res" where
  "answer_single i serials num qs =
     (case serials of
        [] \<Rightarrow> Inr (num, qs)
      | s # ss \<Rightarrow> if num \<ge> 0 then bindE (answer_entry i s qs) (\<lambda>_. Inl UB) else Inr (num, qs))"

fun single_bulks :: "string \<Rightarrow> nat \<Rightarrow> int \<Rightarrow> query_state \<Rightarrow> (int \<times> query_state) res" where
  "single_bulks keyword 0 num qs = Inr (num, qs)"
| "single_bulks keyword (Suc i) num (dm, hr) =
     (if num \<ge> 0
      then bindE (bh_Search_keyword keyword (bulk_handler_list dm ! i) (wld dm)) (\<lambda>(r, h, w).
           bindE (case r of
                    None \<Rightarrow> Inr (num, put_handler i h w dm, hr)
                  | Some serials \<Rightarrow> answer_single i (rev serials) num (put_handler i h w dm, hr)) (\<lambda>(num', qs').
             single_bulks keyword i num' qs'))
      else Inr (num, dm, hr))"

fun join_bulks :: "string list \<Rightarrow> nat \<Rightarrow> int \<Rightarrow> query_state \<Rightarrow> (int \<times> query_state) res" where
  "join_bulks words 0 num qs = Inr (num, qs)"
| "join_bulks words (Suc i) num (dm, hr) =
     (if num \<ge> 0
      then bindE (bh_Join_search words (bulk_handler_list dm ! i) (wld dm)) (\<lambda>(serials, h, w).
           bindE (answer_serials i (rev serials) num (put_handler i h w dm, hr)) (\<lambda>(num', qs').
             join_bulks words i num' qs'))
      else Inr (num, dm, hr))"

definition answer_no_result :: "bool \<Rightarrow> query_state \<Rightarrow> query_state res" where
  "answer_no_result none qs = (case qs of (dm, hr) \<Rightarrow>
     if none then bindE (hr_Append no_result (length no_result) hr) (\<lambda>hr'. Inr (dm, hr')) else Inr (dm, hr))"

definition Search_log :: "u64 \<Rightarrow> u64 \<Rightarrow> ReqData \<Rightarrow> data_manager \<Rightarrow> (int \<times> data_manager) res" where
  "Search_log now0 now1 req dm =
     (let hr = new_QueryResultHandler (req_client_id req) now0
      in if \<not> Valid req \<or> req_type req \<noteq> T_Search then refuse now1 hr dm
         else let words = Split_key_word (req_keyword req); n = length (bulk_handler_list dm)
              in bindE (if length words = 1 then single_bulks (req_keyword req) n MAX_NUM_RESULT (dm, hr)
                        else if length words > 1 then join_bulks words n MAX_NUM_RESULT (dm, hr)
                        else Inr (MAX_NUM_RESULT, dm, hr)) (\<lambda>(num, qs).
                 bindE (answer_no_result (num = 0) qs) (\<lambda>(dm1, hr1).
                 bindE (finish_answer now1 hr1 dm1) (\<lambda>dm2. Inr (num, dm2)))))"

section \<open>Searching a key\<close>

text \<open>The bulks of the key, newest first.\<close>

fun key_bulks :: "string \<Rightarrow> nat list \<Rightarrow> int \<Rightarrow> query_state \<Rightarrow> (int \<times> query_state) res" where
  "key_bulks key [] num qs = Inr (num, qs)"
| "key_bulks key (i # is) num (dm, hr) =
     (if num \<ge> 0
      then bindE (bh_Search_key key (bulk_handler_list dm ! i) (wld dm)) (\<lambda>(r, h, w).
           bindE (case r of
                    None \<Rightarrow> Inr (num, put_handler i h w dm, hr)
                  | Some serials \<Rightarrow> answer_serials i (rev serials) num (put_handler i h w dm, hr)) (\<lambda>(num', qs').
             key_bulks key is num' qs'))
      else Inr (num, dm, hr))"

definition Getkey_log :: "u64 \<Rightarrow> u64 \<Rightarrow> ReqData \<Rightarrow> data_manager \<Rightarrow> (int \<times> data_manager) res" where
  "Getkey_log now0 now1 req dm =
     (let hr = new_QueryResultHandler (req_client_id req) now0
      in if \<not> Valid req \<or> req_type req \<noteq> T_Getkey then refuse now1 hr dm
         else bindE (case Find_key_in_global_trie (req_key req) dm of
                       None \<Rightarrow> Inr (MAX_NUM_RESULT, dm, hr)
                     | Some bulks \<Rightarrow> key_bulks (req_key req) (rev bulks) MAX_NUM_RESULT (dm, hr)) (\<lambda>(num, qs).
              bindE (answer_no_result (num = 0) qs) (\<lambda>(dm1, hr1).
              bindE (finish_answer now1 hr1 dm1) (\<lambda>dm2. Inr (1, dm2)))))"

section \<open>Searching a key in a time window\<close>

fun answer_range :: "nat \<Rightarrow> nat list \<Rightarrow> query_state \<Rightarrow> query_state res" where
  "answer_range i [] qs = Inr qs"
| "answer_range i (s # ss) qs = bindE (answer_entry i s qs) (answer_range i ss)"

text \<open>\<open>end_search\<close>, once raised, is never lowered; \<open>num\<close> counts the answers.\<close>

fun time_bulks :: "u64 \<Rightarrow> u64 \<Rightarrow> string \<Rightarrow> nat list \<Rightarrow> bool \<Rightarrow> nat \<Rightarrow> query_state \<Rightarrow> (nat \<times> query_state) res" where
  "time_bulks t0 t1 key [] end_search num qs = Inr (num, qs)"
| "time_bulks t0 t1 key (i # is) end_search num (dm, hr) =
     bindE (bh_Search_time_key t0 t1 key end_search (bulk_handler_list dm ! i) (wld dm)) (\<lambda>((end_search', r), h, w).
     bindE (if \<not> end_search'
            then bindE (answer_range i (selected r) (put_handler i h w dm, hr)) (\<lambda>qs.
                   Inr (num + length (selected r), qs))
            else Inr (num, put_handler i h w dm, hr)) (\<lambda>(num', qs').
       time_bulks t0 t1 key is end_search' num' qs'))"

text \<open>
  The window's ends pass through an \<^verbatim>\<open>int\<close>.  \<^verbatim>\<open>Search\<close> gives an empty list, not a null pointer, for
  a key that is only a prefix of known keys; the loop then starts at index -1, outside the list.
\<close>

definition SearchTime_log :: "u64 \<Rightarrow> u64 \<Rightarrow> ReqData \<Rightarrow> data_manager \<Rightarrow> (int \<times> data_manager) res" where
  "SearchTime_log now0 now1 req dm =
     (let hr = new_QueryResultHandler (req_client_id req) now0
      in if \<not> Valid req \<or> req_type req \<noteq> T_SearchTime then refuse now1 hr dm
         else let t0 = to_uint64 (to_int32 (req_start req)); t1 = to_uint64 (to_int32 (req_end req))
         in bindE (case Find_key_in_global_trie (req_key req) dm of
                     None \<Rightarrow> Inr (0, dm, hr)
                   | Some bulks \<Rightarrow>
                       bindE (Find_start_time_bulkhandler t0 (map (\<lambda>i. bh_end_time (bulk_handler_list dm ! i)) bulks)) (\<lambda>index.
                         if index < 0 then Inl UB
                         else time_bulks t0 t1 (req_key req) (drop (nat index) bulks) False 0 (dm, hr))) (\<lambda>(num, qs).
            bindE (answer_no_result (num = 0) qs) (\<lambda>(dm1, hr1).
            bindE (finish_answer now1 hr1 dm1) (\<lambda>dm2. Inr (1, dm2)))))"

section \<open>Counting\<close>

definition count_line :: "u64 \<Rightarrow> string" where
  "count_line n = ''Now record log count is '' @ show_nat (unat n) @ [newline]"

definition LogCount_log :: "u64 \<Rightarrow> u64 \<Rightarrow> ReqData \<Rightarrow> data_manager \<Rightarrow> (int \<times> data_manager) res" where
  "LogCount_log now0 now1 req dm =
     (let hr = new_QueryResultHandler (req_client_id req) now0
      in if \<not> Valid req \<or> req_type req \<noteq> T_LogCount then refuse now1 hr dm
         else if bulk_handler_list dm = [] then Inl UB
         else let b = bulk (last (bulk_handler_list dm)); line = count_line (start_serial b + of_nat (mb_size b))
              in bindE (hr_Append line (length line) hr) (\<lambda>hr1.
                 bindE (finish_answer now1 hr1 dm) (\<lambda>dm1. Inr (1, dm1))))"

end
