(* ===== verification/Log_Store.thy ===== *)
theory Log_Store
  imports Data_Manager
begin

text \<open>
  What the data manager stores: one list of entries per bulk, whose concatenation is the log in
  order of arrival.  Appending extends the log; the handlers of the queries keep it.
\<close>

section \<open>The stored log\<close>

definition first_serial :: "log_entry list list \<Rightarrow> nat \<Rightarrow> nat" where
  "first_serial logs i = length (concat (take i logs))"

definition bulks_of_key :: "string \<Rightarrow> log_entry list list \<Rightarrow> nat list" where
  "bulks_of_key q logs = filter (\<lambda>i. q \<in> le_key ` set (logs ! i)) [0..<length logs]"

definition bulk_at :: "data_manager \<Rightarrow> log_entry list list \<Rightarrow> nat \<Rightarrow> bool" where
  "bulk_at dm logs i \<longleftrightarrow> (let h = bulk_handler_list dm ! i in
     hid h = i \<and> handler_repr h (files (wld dm)) (logs ! i) \<and> start_serial (bulk h) = of_nat (first_serial logs i))"

definition dm_repr :: "data_manager \<Rightarrow> log_entry list list \<Rightarrow> bool" where
  "dm_repr dm logs \<longleftrightarrow> length (bulk_handler_list dm) = length logs \<and> logs \<noteq> []
     \<and> (\<forall>i < length logs. bulk_at dm logs i)
     \<and> length (concat logs) < 2 ^ 31
     \<and> (\<forall>i < length logs. logs ! i = [] \<longrightarrow> Suc i = length logs \<and> bh_state (bulk_handler_list dm ! i) = Appending)
     \<and> LogSerial dm = of_nat (first_serial logs (length logs - 1))
     \<and> index_inv (Global_key_bulk_handler_trie dm)
     \<and> (\<forall>q. trie_list (Global_key_bulk_handler_trie dm) q = bulks_of_key q logs)"

lemma dm_repr_last:
  assumes "dm_repr dm logs"
  shows "bulk_handler_list dm \<noteq> []" "length logs - 1 < length logs" "logs ! (length logs - 1) = last logs"
    "bulk_at dm logs (length logs - 1)"
  using assms by (auto simp: dm_repr_def last_conv_nth)

lemma first_serial_butlast: "logs \<noteq> [] \<Longrightarrow> first_serial logs (length logs - 1) + length (last logs) = length (concat logs)"
proof -
  assume "logs \<noteq> []"
  then have "concat logs = concat (butlast logs) @ last logs"
    by (metis append_butlast_last_id concat_append concat.simps append_Nil2)
  then show ?thesis by (simp add: first_serial_def butlast_conv_take)
qed

text \<open>The bulks have distinct file numbers: a bulk other than the last is not empty.\<close>

lemma first_serial_mono:
  assumes "dm_repr dm logs" "i < j" "j < length logs"
  shows "first_serial logs i < first_serial logs j \<and> first_serial logs j < 2 ^ 31"
proof -
  have "i < length logs" "Suc i \<noteq> length logs" using assms(2,3) by simp_all
  then have "logs ! i \<noteq> []" using assms(1) by (fastforce simp: dm_repr_def)
  then have "first_serial logs i < first_serial logs (Suc i)"
    using assms(2,3) by (simp add: first_serial_def take_Suc_conv_app_nth)
  moreover have "take j logs = take (Suc i) logs @ take (j - Suc i) (drop (Suc i) logs)"
    using assms(2) by (metis Suc_leI le_add_diff_inverse take_add)
  then have "first_serial logs (Suc i) \<le> first_serial logs j" by (simp add: first_serial_def)
  moreover have "first_serial logs j \<le> length (concat logs)"
    unfolding first_serial_def
    by (metis append_take_drop_id concat_append length_append le_add1)
  ultimately show ?thesis using assms(1) by (auto simp: dm_repr_def)
qed

lemma file_num_at:
  assumes "dm_repr dm logs" "i < length logs"
  shows "file_num (bulk_handler_list dm ! i) = int (first_serial logs i)"
proof -
  have "file_num (bulk_handler_list dm ! i) = to_int32 (of_nat (first_serial logs i))"
    using assms by (auto simp: dm_repr_def bulk_at_def Let_def handler_repr_def header_ok_def)
  moreover have "first_serial logs i \<le> length (concat logs)"
    unfolding first_serial_def by (metis append_take_drop_id concat_append length_append le_add1)
  ultimately show ?thesis using assms(1) to_int32_small [of "first_serial logs i"] by (simp add: dm_repr_def)
qed

lemma file_num_distinct:
  assumes "dm_repr dm logs" "i < length logs" "j < length logs" "i \<noteq> j"
  shows "file_num (bulk_handler_list dm ! i) \<noteq> file_num (bulk_handler_list dm ! j)"
proof (cases "i < j")
  case True
  with first_serial_mono [OF assms(1) True assms(3)] file_num_at [OF assms(1)] assms(2,3) show ?thesis by simp
next
  case False
  then have "j < i" using assms(4) by simp
  with first_serial_mono [OF assms(1) this assms(2)] file_num_at [OF assms(1)] assms(2,3) show ?thesis by simp
qed

section \<open>Replacing a handler\<close>

lemma handler_num_bound: "handler_repr h d ls \<Longrightarrow> \<bar>file_num h\<bar> < 10 ^ 19"
  using to_int32_bound by (simp add: handler_repr_def header_ok_def)

lemma handler_repr_other:
  assumes "handler_repr g d ls" "\<bar>n\<bar> < 10 ^ 19" "file_num g \<noteq> n" "\<forall>p. p \<notin> own_paths n \<longrightarrow> d' p = d p"
  shows "handler_repr g d' ls"
proof -
  have "path k (file_num g) \<notin> own_paths n" for k
    using file_name_inj [OF handler_num_bound [OF assms(1)] assms(2)] assms(3) by (auto simp: own_paths_def)
  with assms(4) have "d' (path k (file_num g)) = d (path k (file_num g))" for k by blast
  with handler_repr_cong [of d' g d ls] assms(1) show ?thesis by blast
qed

lemma put_handler_same [simp]:
  "length (bulk_handler_list (put_handler i h w dm)) = length (bulk_handler_list dm)"
  "LogSerial (put_handler i h w dm) = LogSerial dm" "wld (put_handler i h w dm) = w"
  "Global_key_bulk_handler_trie (put_handler i h w dm) = Global_key_bulk_handler_trie dm"
  "result_blocks (put_handler i h w dm) = result_blocks dm"
  "bulk_handler_list (put_handler i h w dm) = (bulk_handler_list dm)[i := h]"
  by (simp_all add: put_handler_def)

lemma put_handler_repr:
  assumes dm: "dm_repr dm logs" and i: "i < length logs"
    and h: "hid h = i" "handler_repr h (files w) (logs ! i)" "start_serial (bulk h) = of_nat (first_serial logs i)"
      "logs ! i = [] \<longrightarrow> bh_state h = Appending"
    and others: "\<forall>p. p \<notin> own_paths (file_num (bulk_handler_list dm ! i)) \<longrightarrow> files w p = files (wld dm) p"
  shows "dm_repr (put_handler i h w dm) logs"
proof -
  have len: "length (bulk_handler_list dm) = length logs" using dm by (simp add: dm_repr_def)
  have old: "handler_repr (bulk_handler_list dm ! j) (files (wld dm)) (logs ! j)" if "j < length logs" for j
    using dm that by (simp add: dm_repr_def bulk_at_def Let_def)
  have "bulk_at (put_handler i h w dm) logs j" if j: "j < length logs" for j
  proof (cases "j = i")
    case True
    with h i len show ?thesis by (simp add: bulk_at_def)
  next
    case False
    have "handler_repr (bulk_handler_list dm ! j) (files w) (logs ! j)"
      by (rule handler_repr_other [OF old [OF j] handler_num_bound [OF old [OF i]] file_num_distinct [OF dm j i False] others])
    with False j dm show ?thesis by (simp add: bulk_at_def Let_def dm_repr_def)
  qed
  then show ?thesis using dm h(4) i len
    by (auto simp: dm_repr_def nth_list_update)
qed

section \<open>Appending\<close>

lemma New_memory_bulk_repr:
  assumes dm: "dm_repr dm logs" and ne: "last logs \<noteq> []"
    and free: "\<not> Full (bulk_data_queue (wld dm))"
  shows "\<exists>dm'. New_memory_bulk dm = Inr dm' \<and> dm_repr dm' (logs @ [[]])
     \<and> bh_state (last (bulk_handler_list dm')) = Appending \<and> result_blocks dm' = result_blocks dm"
proof -
  let ?h = "last (bulk_handler_list dm)" and ?n = "length (concat logs)"
  have l: "length (bulk_handler_list dm) = length logs" "logs \<noteq> []" using dm by (simp_all add: dm_repr_def)
  then have hne: "bulk_handler_list dm \<noteq> []" by auto
  have "bulk_at dm logs (length logs - 1)" using dm_repr_last [OF dm] by blast
  then have size_h: "mb_size (bulk ?h) = length (last logs)"
    using l hne by (simp add: bulk_at_def Let_def last_conv_nth handler_repr_def header_ok_def)
  have "LogSerial dm + of_nat (length (last logs)) = of_nat ?n"
    using dm first_serial_butlast [OF l(2)] by (simp add: dm_repr_def flip: of_nat_add)
  moreover have "to_int32 (of_nat ?n) = int ?n" using dm to_int32_small by (simp add: dm_repr_def)
  moreover obtain h w where n: "new_MemoryBulkHandler (length logs) (new_MemoryBulk (of_nat ?n)) (wld dm) = Some (h, w)"
    using free by (simp add: new_MemoryBulkHandler_def New_BulkData_init_def Let_def Get_Unit_def)
  ultimately have run: "New_memory_bulk dm = Inr (dm\<lparr>LogSerial := of_nat ?n, bulk_handler_list := bulk_handler_list dm @ [h], wld := w\<rparr>)"
    using hne size_h l by (simp add: New_memory_bulk_def LogSerialAdd_def push_new_handler_def to_uint64_small)
  have h: "handler_repr h d []" "bh_state h = Appending" "hid h = length logs" "start_serial (bulk h) = of_nat ?n" "files w = files (wld dm)" for d
    using new_handler_repr [OF n] by auto
  let ?dm = "dm\<lparr>LogSerial := of_nat ?n, bulk_handler_list := bulk_handler_list dm @ [h], wld := w\<rparr>"
  have "bulk_at ?dm (logs @ [[]]) i" if "i < Suc (length logs)" for i
  proof (cases "i = length logs")
    case True
    with h l show ?thesis by (simp add: bulk_at_def first_serial_def nth_append)
  next
    case False
    with that dm have "bulk_at dm logs i" by (simp add: dm_repr_def)
    with False that h(5) l show ?thesis by (simp add: bulk_at_def Let_def first_serial_def nth_append)
  qed
  moreover have "logs ! i \<noteq> []" if "i < length logs" for i
  proof (cases "Suc i = length logs")
    case True
    then have "i = length logs - 1" by simp
    with ne l show ?thesis by (simp add: last_conv_nth)
  qed (use that dm in \<open>auto simp: dm_repr_def\<close>)
  moreover have "bulks_of_key q (logs @ [[]]) = bulks_of_key q logs" for q
    by (auto simp: bulks_of_key_def nth_append intro!: filter_cong)
  ultimately have "dm_repr ?dm (logs @ [[]])"
    using dm h(2) l by (simp add: dm_repr_def less_Suc_eq nth_append first_serial_def all_conj_distrib)
  with run h(2) show ?thesis by simp
qed

lemma bulks_of_key_snoc:
  "bulks_of_key q (ls @ [l]) = bulks_of_key q ls @ (if q \<in> le_key ` set l then [length ls] else [])"
proof -
  have "filter (\<lambda>i. q \<in> le_key ` set ((ls @ [l]) ! i)) [0..<length ls] = bulks_of_key q ls"
    unfolding bulks_of_key_def by (rule filter_cong) (simp_all add: nth_append)
  then show ?thesis by (simp add: bulks_of_key_def)
qed

lemma bulks_of_key_less: "i \<in> set (bulks_of_key q ls) \<Longrightarrow> i < length ls"
  by (simp add: bulks_of_key_def)

text \<open>The key index lists, for every key, the bulks that hold it, each once and in order.\<close>

lemma Add_key_repr:
  assumes inv: "index_inv (Global_key_bulk_handler_trie dm)"
    and look: "\<forall>q. trie_list (Global_key_bulk_handler_trie dm) q = bulks_of_key q (ls @ [l])"
  shows "let t = Global_key_bulk_handler_trie (Add_key_global_trie (le_key e) (length ls) dm)
         in index_inv t \<and> (\<forall>q. trie_list t q = bulks_of_key q (ls @ [l @ [e]]))"
proof -
  let ?t = "Global_key_bulk_handler_trie dm" and ?k = "le_key e"
  have l: "trie_list ?t q = bulks_of_key q ls @ (if q \<in> le_key ` set l then [length ls] else [])" for q
    using look bulks_of_key_snoc by metis
  have new: "bulks_of_key q (ls @ [l @ [e]])
      = trie_list ?t q @ (if q = ?k \<and> ?k \<notin> le_key ` set l then [length ls] else [])" for q
    using l by (auto simp: bulks_of_key_snoc)
  show ?thesis
  proof (cases "trie_search ?k ?t")
    case None
    then have "?k \<notin> le_key ` set l" using l [of ?k] by (auto simp: trie_list_def split: if_splits)
    with None new inv show ?thesis
      by (auto simp: Add_key_global_trie_def Let_def key_index.inv_ins key_index.look_ins)
  next
    case (Some bulks)
    then have bulks: "bulks = trie_list ?t ?k" by (simp add: trie_list_def)
    have "last bulks \<noteq> length ls" if "?k \<notin> le_key ` set l" "bulks \<noteq> []"
    proof -
      have "last bulks \<in> set (bulks_of_key ?k ls)" using that l [of ?k] bulks by simp
      from bulks_of_key_less [OF this] show ?thesis by simp
    qed
    then have hit: "(bulks \<noteq> [] \<and> last bulks = length ls) \<longleftrightarrow> ?k \<in> le_key ` set l"
      using l [of ?k] bulks by auto
    show ?thesis
    proof (cases "?k \<in> le_key ` set l")
      case True
      with hit Some inv look new show ?thesis by (simp add: Add_key_global_trie_def Let_def)
    next
      case False
      have "trie_list (trie_push ?k (length ls) ?t) q = trie_list ?t q @ (if q = ?k then [length ls] else [])" for q
        using trie_search_push [OF inv, of ?k q "length ls"] Some by (simp add: trie_list_def split: option.split)
      with False hit Some inv new show ?thesis
        by (simp add: Add_key_global_trie_def Let_def index_inv_push del: disj_not1)
    qed
  qed
qed

definition entry_of :: "ReqData \<Rightarrow> log_entry" where
  "entry_of req = \<lparr>le_key = req_key req, le_time = req_time req, le_content = req_content req\<rparr>"

lemma bulk_at_last:
  "bulk_at dm (ls @ [l]) (length ls) \<longleftrightarrow> (let h = bulk_handler_list dm ! length ls in
     hid h = length ls \<and> handler_repr h (files (wld dm)) l \<and> start_serial (bulk h) = of_nat (length (concat ls)))"
  by (simp add: bulk_at_def first_serial_def)

lemma Add_key_same [simp]:
  "bulk_handler_list (Add_key_global_trie k i dm) = bulk_handler_list dm"
  "LogSerial (Add_key_global_trie k i dm) = LogSerial dm" "wld (Add_key_global_trie k i dm) = wld dm"
  "result_blocks (Add_key_global_trie k i dm) = result_blocks dm"
  by (simp_all add: Add_key_global_trie_def Let_def)

text \<open>\<^verbatim>\<open>Append\<close>, \<^verbatim>\<open>Build_index\<close> and \<^verbatim>\<open>Add_key_global_trie\<close> on an open last bulk with room.\<close>

lemma append_open_repr:
  assumes dm: "dm_repr dm (ls @ [l])" and open_h: "bh_state (bulk_handler_list dm ! length ls) = Appending"
    and e: "storable e" and fits: "length (text_of l) + length (line_of e) + 1 < BULKSIZE"
    and total: "Suc (length (concat (ls @ [l]))) < 2 ^ 31"
  shows "\<exists>dm1. dm_Append (length ls) (line_of e) dm = Inr (Some (length (text_of l)), dm1)
     \<and> (let h = bh_Build_index (length (text_of l)) (le_content e) (le_key e) (le_time e) (bulk_handler_list dm1 ! length ls);
            dm' = Add_key_global_trie (le_key e) (length ls) (put_handler (length ls) h (wld dm1) dm1)
        in dm_repr dm' (ls @ [l @ [e]]) \<and> result_blocks dm' = result_blocks dm
           \<and> bh_state (bulk_handler_list dm' ! length ls) = Appending
           \<and> bulk_data_queue (wld dm') = bulk_data_queue (wld dm))"
proof -
  let ?j = "length ls" and ?h = "bulk_handler_list dm ! length ls" and ?o = "length (text_of l)"
  have at: "hid ?h = ?j" "handler_repr ?h (files (wld dm)) l" "start_serial (bulk ?h) = of_nat (length (concat ls))"
    and len: "length (bulk_handler_list dm) = Suc ?j"
    using dm bulk_at_last [of dm ls l] by (auto simp: dm_repr_def Let_def)
  obtain h1 where h1: "bh_Append (line_of e) (length (line_of e)) ?h (wld dm)
        = Inr (Some ?o, h1, Set_auto_persistence_timer h1 (wld dm))"
    "let h2 = bh_Build_index ?o (le_content e) (le_key e) (le_time e) h1
     in handler_repr h2 (files (wld dm)) (l @ [e]) \<and> bh_state h2 = Appending \<and> hid h2 = hid ?h \<and> file_num h2 = file_num ?h
        \<and> start_serial (bulk h2) = start_serial (bulk ?h) \<and> unit_slot h2 = unit_slot ?h"
    using Append_repr [OF at(2) e open_h fits, of "wld dm"] by blast
  define h2 where "h2 = bh_Build_index ?o (le_content e) (le_key e) (le_time e) h1"
  have h2: "handler_repr h2 (files (wld dm)) (l @ [e])" "hid h2 = ?j" "start_serial (bulk h2) = of_nat (length (concat ls))"
      "bh_state h2 = Appending"
    using h1(2) at by (simp_all add: h2_def Let_def)
  let ?w = "Set_auto_persistence_timer h1 (wld dm)"
  let ?dm1 = "put_handler ?j h1 ?w dm" and ?dm2 = "put_handler ?j h2 ?w (put_handler ?j h1 ?w dm)"
  let ?dm3 = "Add_key_global_trie (le_key e) ?j ?dm2"
  have run: "dm_Append ?j (line_of e) dm = Inr (Some ?o, ?dm1)" using h1(1) by (simp add: dm_Append_def)
  have w: "files ?w = files (wld dm)" by (simp add: Set_auto_same)
  have trie: "index_inv (Global_key_bulk_handler_trie ?dm3)
      \<and> (\<forall>q. trie_list (Global_key_bulk_handler_trie ?dm3) q = bulks_of_key q (ls @ [l @ [e]]))"
    using Add_key_repr [of ?dm2 ls l e] dm by (simp add: dm_repr_def Let_def)
  have "bulk_at ?dm3 (ls @ [l @ [e]]) i" if "i < Suc ?j" for i
  proof (cases "i = ?j")
    case True
    with h2 w len show ?thesis by (simp add: bulk_at_last)
  next
    case False
    with that dm have "bulk_at dm (ls @ [l]) i" by (simp add: dm_repr_def)
    with False that w len show ?thesis by (simp add: bulk_at_def Let_def first_serial_def nth_append)
  qed
  then have "dm_repr ?dm3 (ls @ [l @ [e]])"
    using dm total len trie by (auto simp: dm_repr_def nth_append first_serial_def less_Suc_eq)
  then show ?thesis using run len h2(4) by (intro exI [of _ ?dm1]) (simp add: h2_def Let_def Set_auto_same)
qed

text \<open>A closed or full last bulk refuses the line and stays what it is.\<close>

lemma append_refused_repr:
  assumes dm: "dm_repr dm (ls @ [l])" and short: "length (line_of e) + 1 < BULKSIZE"
    and no: "bh_state (bulk_handler_list dm ! length ls) \<noteq> Appending \<or> \<not> length (text_of l) + length (line_of e) + 1 < BULKSIZE"
  shows "\<exists>dm1. dm_Append (length ls) (line_of e) dm = Inr (None, dm1) \<and> dm_repr dm1 (ls @ [l]) \<and> l \<noteq> []
     \<and> wld dm1 = wld dm \<and> result_blocks dm1 = result_blocks dm"
proof -
  let ?j = "length ls" and ?h = "bulk_handler_list dm ! length ls"
  have at: "hid ?h = ?j" "handler_repr ?h (files (wld dm)) l" "start_serial (bulk ?h) = of_nat (length (concat ls))"
    and len: "length (bulk_handler_list dm) = Suc ?j"
    using dm bulk_at_last [of dm ls l] by (auto simp: dm_repr_def Let_def)
  have ne: "l \<noteq> []"
  proof
    assume "l = []"
    then have "bh_state ?h = Appending" using dm by (fastforce simp: dm_repr_def)
    with no short \<open>l = []\<close> show False by (simp add: text_of_def)
  qed
  obtain h1 where h1: "bh_Append (line_of e) (length (line_of e)) ?h (wld dm) = Inr (None, h1, wld dm)"
    "hid h1 = ?j" "handler_repr h1 (files (wld dm)) l" "start_serial (bulk h1) = of_nat (length (concat ls))"
    using Append_full [OF at(2)] Append_closed [of ?h] at no by (cases "bh_state ?h = Appending") force+
  have "dm_repr (put_handler ?j h1 (wld dm) dm) (ls @ [l])"
    by (rule put_handler_repr [OF dm]) (use h1 ne in \<open>simp_all add: first_serial_def\<close>)
  with h1(1) ne show ?thesis by (simp add: dm_Append_def)
qed

lemma entry_line:
  "storable (entry_of req) \<Longrightarrow> cstr (format_line (req_key req) (req_time req) (req_content req)) = line_of (entry_of req)"
  using cstr_nul_free [OF line_nul_free, of "entry_of req"] by (simp add: storable_def line_of_def entry_of_def)

lemma Append_log_open:
  assumes dm: "dm_repr dm (ls @ [l])" and open_h: "bh_state (bulk_handler_list dm ! length ls) = Appending"
    and req: "Valid req" "storable (entry_of req)"
    and fits: "length (text_of l) + length (line_of (entry_of req)) + 1 < BULKSIZE"
    and total: "Suc (length (concat (ls @ [l]))) < 2 ^ 31"
  shows "\<exists>dm'. Append_log req dm = Inr (1, dm') \<and> dm_repr dm' (ls @ [l @ [entry_of req]])
     \<and> result_blocks dm' = result_blocks dm \<and> bh_state (bulk_handler_list dm' ! length ls) = Appending
     \<and> bulk_data_queue (wld dm') = bulk_data_queue (wld dm)"
proof -
  have "bulk_handler_list dm \<noteq> []" "length (bulk_handler_list dm) - 1 = length ls"
    using dm by (auto simp: dm_repr_def)
  moreover from append_open_repr [OF dm open_h req(2) fits total] obtain dm1 where
    a: "dm_Append (length ls) (line_of (entry_of req)) dm = Inr (Some (length (text_of l)), dm1)"
    and h: "let h = bh_Build_index (length (text_of l)) (req_content req) (req_key req) (req_time req) (bulk_handler_list dm1 ! length ls);
            dm' = Add_key_global_trie (req_key req) (length ls) (put_handler (length ls) h (wld dm1) dm1)
        in dm_repr dm' (ls @ [l @ [entry_of req]]) \<and> result_blocks dm' = result_blocks dm
           \<and> bh_state (bulk_handler_list dm' ! length ls) = Appending
           \<and> bulk_data_queue (wld dm') = bulk_data_queue (wld dm)"
    by (auto simp: entry_of_def)
  ultimately show ?thesis
    using req entry_line [OF req(2)] h [unfolded Let_def]
    by (simp add: Append_log_def Get_available_memory_bulk_def Let_def)
qed

lemma Append_log_refused:
  assumes dm: "dm_repr dm (ls @ [l])" and req: "Valid req" "storable (entry_of req)"
    and short: "length (line_of (entry_of req)) + 1 < BULKSIZE"
    and no: "bh_state (bulk_handler_list dm ! length ls) \<noteq> Appending
       \<or> \<not> length (text_of l) + length (line_of (entry_of req)) + 1 < BULKSIZE"
    and free: "\<not> Full (bulk_data_queue (wld dm))" and total: "Suc (length (concat (ls @ [l]))) < 2 ^ 31"
  shows "\<exists>dm'. Append_log req dm = Inr (1, dm') \<and> dm_repr dm' (ls @ [l, [entry_of req]])
     \<and> result_blocks dm' = result_blocks dm"
proof -
  let ?e = "entry_of req"
  have av: "bulk_handler_list dm \<noteq> []" "length (bulk_handler_list dm) - 1 = length ls"
    using dm by (auto simp: dm_repr_def)
  obtain dm1 where dm1: "dm_Append (length ls) (line_of ?e) dm = Inr (None, dm1)" "dm_repr dm1 (ls @ [l])" "l \<noteq> []"
    "wld dm1 = wld dm" "result_blocks dm1 = result_blocks dm"
    using append_refused_repr [OF dm short no] by blast
  have "last (ls @ [l]) \<noteq> []" "\<not> Full (bulk_data_queue (wld dm1))" using dm1(3,4) free by simp_all
  from New_memory_bulk_repr [OF dm1(2) this] obtain dm2 where dm2: "New_memory_bulk dm1 = Inr dm2"
    "dm_repr dm2 ((ls @ [l]) @ [[]])" "bh_state (last (bulk_handler_list dm2)) = Appending" "result_blocks dm2 = result_blocks dm1"
    by blast
  have len2: "length (bulk_handler_list dm2) = Suc (Suc (length ls))" using dm2(2) by (simp add: dm_repr_def)
  then have "bulk_handler_list dm2 \<noteq> []" by auto
  with len2 dm2(3) have open2: "bh_state (bulk_handler_list dm2 ! length (ls @ [l])) = Appending"
    by (simp add: last_conv_nth)
  have "length (text_of []) + length (line_of ?e) + 1 < BULKSIZE" using short by (simp add: text_of_def)
  from append_open_repr [OF dm2(2) open2 req(2) this] total obtain dm3 where
    a: "dm_Append (Suc (length ls)) (line_of ?e) dm2 = Inr (Some (length (text_of [])), dm3)"
    and h: "let h = bh_Build_index (length (text_of [])) (req_content req) (req_key req) (req_time req) (bulk_handler_list dm3 ! Suc (length ls));
            dm' = Add_key_global_trie (req_key req) (Suc (length ls)) (put_handler (Suc (length ls)) h (wld dm3) dm3)
        in dm_repr dm' (ls @ [l, [?e]]) \<and> result_blocks dm' = result_blocks dm2"
    by (auto simp: entry_of_def Let_def)
  show ?thesis
    using req entry_line [OF req(2)] av dm1 dm2(1,4) len2 a h [unfolded Let_def]
    by (simp add: Append_log_def Get_available_memory_bulk_def Let_def)
qed

lemma Init_repr:
  assumes "\<not> Full (bulk_data_queue w)"
  shows "\<exists>dm. Init_data_manager (new_data_manager w) = Inr dm \<and> dm_repr dm [[]]
     \<and> bh_state (bulk_handler_list dm ! 0) = Appending \<and> result_blocks dm = []
     \<and> bulk_data_queue (wld dm) = (snd (Get_Unit None (bulk_data_queue w)))
         \<lparr>slots := (slots (snd (Get_Unit None (bulk_data_queue w))))[write_position (bulk_data_queue w) := [Some 0]]\<rparr>"
proof -
  obtain h w' where n: "new_MemoryBulkHandler 0 (new_MemoryBulk 0) w = Some (h, w')"
    using assms by (simp add: new_MemoryBulkHandler_def New_BulkData_init_def Let_def Get_Unit_def)
  then have "bulk_data_queue w' = (snd (Get_Unit None (bulk_data_queue w)))
         \<lparr>slots := (slots (snd (Get_Unit None (bulk_data_queue w))))[write_position (bulk_data_queue w) := [Some 0]]\<rparr>"
    using assms by (auto simp: new_MemoryBulkHandler_def New_BulkData_init_def Let_def Get_Unit_def set_unit_handler_def)
  with new_handler_repr [OF n] show ?thesis
    by (simp add: Init_data_manager_def push_new_handler_def new_data_manager_def n dm_repr_def bulk_at_def
        first_serial_def bulks_of_key_def index_inv_new)
qed

lemma Append_log_waits:
  assumes dm: "dm_repr dm (ls @ [l])" and req: "Valid req" "storable (entry_of req)"
    and short: "length (line_of (entry_of req)) + 1 < BULKSIZE"
    and no: "bh_state (bulk_handler_list dm ! length ls) \<noteq> Appending
       \<or> \<not> length (text_of l) + length (line_of (entry_of req)) + 1 < BULKSIZE"
    and full: "Full (bulk_data_queue (wld dm))"
  shows "Append_log req dm = Inl Waits"
proof -
  have av: "bulk_handler_list dm \<noteq> []" "length (bulk_handler_list dm) - 1 = length ls"
    using dm by (auto simp: dm_repr_def)
  obtain dm1 where dm1: "dm_Append (length ls) (line_of (entry_of req)) dm = Inr (None, dm1)" "dm_repr dm1 (ls @ [l])"
    "wld dm1 = wld dm"
    using append_refused_repr [OF dm short no] by blast
  have "new_MemoryBulkHandler n b (wld dm) = None" for n b
    using full by (simp add: new_MemoryBulkHandler_def New_BulkData_init_def Let_def Get_Unit_def)
  then have "New_memory_bulk dm1 = Inl Waits"
    using dm1(3) by (simp add: New_memory_bulk_def push_new_handler_def LogSerialAdd_def)
  with req entry_line [OF req(2)] av dm1(1) show ?thesis
    by (simp add: Append_log_def Get_available_memory_bulk_def Let_def)
qed

text \<open>Whether the last bulk takes the line.\<close>

definition has_room :: "data_manager \<Rightarrow> log_entry list list \<Rightarrow> log_entry \<Rightarrow> bool" where
  "has_room dm logs e \<longleftrightarrow> bh_state (last (bulk_handler_list dm)) = Appending
     \<and> length (text_of (last logs)) + length (line_of e) + 1 < BULKSIZE"

section \<open>A store filled from requests, for the witnesses\<close>

fun append_requests :: "ReqData list \<Rightarrow> data_manager \<Rightarrow> data_manager res" where
  "append_requests [] dm = Inr dm"
| "append_requests (r # rs) dm = bindE (Append_log r dm) (\<lambda>(_, dm'). append_requests rs dm')"

definition append_req :: "log_entry \<Rightarrow> ReqData" where
  "append_req e = new_ReqData\<lparr>req_type := T_Append, req_key := le_key e, req_time := le_time e, req_content := le_content e\<rparr>"

lemma entry_of_append_req [simp]: "entry_of (append_req e) = e"
  by (simp add: entry_of_def append_req_def)

lemma append_requests_open:
  "dm_repr dm [l] \<Longrightarrow> bh_state (bulk_handler_list dm ! 0) = Appending \<Longrightarrow>
   \<forall>e \<in> set es. storable e \<and> le_time e \<noteq> 0 \<Longrightarrow> length (text_of (l @ es)) + 1 < BULKSIZE \<Longrightarrow>
   \<exists>dm'. append_requests (map append_req es) dm = Inr dm' \<and> dm_repr dm' [l @ es]
     \<and> result_blocks dm' = result_blocks dm \<and> bh_state (bulk_handler_list dm' ! 0) = Appending
     \<and> bulk_data_queue (wld dm') = bulk_data_queue (wld dm)"
proof (induction es arbitrary: dm l)
  case (Cons e es)
  have fits: "length (text_of l) + length (line_of e) + 1 < BULKSIZE"
    using Cons.prems(4) by (simp add: text_of_def)
  have "length l \<le> length (text_of l)" by (rule entries_le_text)
  with fits have total: "Suc (length (concat ([] @ [l]))) < 2 ^ 31" by (simp add: BULKSIZE_def)
  have valid: "Valid (append_req e)"
    using Cons.prems(3) by (simp add: append_req_def Valid_def storable_def)
  have dm: "dm_repr dm ([] @ [l])" and o: "bh_state (bulk_handler_list dm ! length []) = Appending"
    using Cons.prems(1,2) by simp_all
  have st: "storable (entry_of (append_req e))" using Cons.prems(3) by simp
  have fits': "length (text_of l) + length (line_of (entry_of (append_req e))) + 1 < BULKSIZE" using fits by simp
  from Append_log_open [OF dm o valid st fits' total] obtain dm1 where
    d1: "Append_log (append_req e) dm = Inr (1, dm1)" "dm_repr dm1 [l @ [e]]" "result_blocks dm1 = result_blocks dm"
    "bh_state (bulk_handler_list dm1 ! 0) = Appending" "bulk_data_queue (wld dm1) = bulk_data_queue (wld dm)"
    by auto
  from Cons.IH [OF d1(2,4)] Cons.prems(3,4) d1 show ?case by simp
qed simp

definition sample_store :: "data_manager res" where
  "sample_store = bindE (Init_data_manager (new_data_manager new_world)) (append_requests (map append_req sample_log))"

lemma sample_store_repr:
  "\<exists>dm. sample_store = Inr dm \<and> dm_repr dm [sample_log] \<and> result_blocks dm = []
     \<and> bh_state (bulk_handler_list dm ! 0) = Appending \<and> \<not> Full (bulk_data_queue (wld dm))"
proof -
  have "\<not> Full (bulk_data_queue new_world)"
    by (simp add: new_world_def new_MsgQueue_def Full_def BULK_QUEUE_LEN_def)
  from Init_repr [OF this] obtain dm where i: "Init_data_manager (new_data_manager new_world) = Inr dm" "dm_repr dm [[]]"
    "bh_state (bulk_handler_list dm ! 0) = Appending" "result_blocks dm = []"
    "bulk_data_queue (wld dm) = (snd (Get_Unit None (bulk_data_queue new_world)))
       \<lparr>slots := (slots (snd (Get_Unit None (bulk_data_queue new_world))))[write_position (bulk_data_queue new_world) := [Some 0]]\<rparr>"
    by blast
  from i(5) have free: "\<not> Full (bulk_data_queue (wld dm))"
    by (simp add: new_world_def new_MsgQueue_def Full_def Get_Unit_def advance_def BULK_QUEUE_LEN_def)
  have "\<forall>e \<in> set sample_log. storable e \<and> le_time e \<noteq> 0"
    using sample_storable by (simp add: sample_log_def)
  from append_requests_open [OF i(2,3) this] sample_log_ok(2) obtain dm' where
    "append_requests (map append_req sample_log) dm = Inr dm'" "dm_repr dm' [sample_log]" "result_blocks dm' = []"
    "bh_state (bulk_handler_list dm' ! 0) = Appending" "bulk_data_queue (wld dm') = bulk_data_queue (wld dm)"
    using i(4) by auto
  with i(1) free show ?thesis by (simp add: sample_store_def)
qed

section \<open>Properties\<close>

lemma Append_log_log:
  assumes "dm_repr dm logs" and "Valid req" and "storable (entry_of req)"
    and "length (line_of (entry_of req)) + 1 < BULKSIZE" and "Suc (length (concat logs)) < 2 ^ 31"
  shows "if has_room dm logs (entry_of req) \<or> \<not> Full (bulk_data_queue (wld dm))
     then \<exists>dm' logs'. Append_log req dm = Inr (1, dm') \<and> dm_repr dm' logs'
            \<and> concat logs' = concat logs @ [entry_of req] \<and> result_blocks dm' = result_blocks dm
     else Append_log req dm = Inl Waits"
proof -
  obtain ls l where logs: "logs = ls @ [l]" using assms(1) by (cases logs rule: rev_cases) (auto simp: dm_repr_def)
  note dm = assms(1) [unfolded logs] and total = assms(5) [unfolded logs]
  have "length (bulk_handler_list dm) = Suc (length ls)" using dm by (simp add: dm_repr_def)
  then have "last (bulk_handler_list dm) = bulk_handler_list dm ! length ls"
    by (cases "bulk_handler_list dm = []") (auto simp: last_conv_nth)
  then have room: "has_room dm logs (entry_of req) \<longleftrightarrow> bh_state (bulk_handler_list dm ! length ls) = Appending
     \<and> length (text_of l) + length (line_of (entry_of req)) + 1 < BULKSIZE"
    by (simp add: has_room_def logs)
  show ?thesis
  proof (cases "has_room dm logs (entry_of req)")
    case True
    with room Append_log_open [OF dm _ assms(2,3) _ total] obtain dm' where
      "Append_log req dm = Inr (1, dm')" "dm_repr dm' (ls @ [l @ [entry_of req]])" "result_blocks dm' = result_blocks dm" by blast
    with True show ?thesis by (simp add: logs) (intro exI conjI, assumption, simp)
  next
    case False
    with room have no: "bh_state (bulk_handler_list dm ! length ls) \<noteq> Appending
       \<or> \<not> length (text_of l) + length (line_of (entry_of req)) + 1 < BULKSIZE" by blast
    show ?thesis
    proof (cases "Full (bulk_data_queue (wld dm))")
      case True
      with False Append_log_waits [OF dm assms(2,3,4) no True] show ?thesis by simp
    next
      case free: False
      from Append_log_refused [OF dm assms(2,3,4) no free total] obtain dm' where
        "Append_log req dm = Inr (1, dm')" "dm_repr dm' (ls @ [l, [entry_of req]])" "result_blocks dm' = result_blocks dm" by blast
      with free show ?thesis by (simp add: logs) (intro exI conjI, assumption, simp)
    qed
  qed
qed

text \<open>
  C9. Appending is a log: a valid request whose entry can be stored and fits an empty bulk adds its
  entry at the end of the stored log, opening a new bulk when the last one is closed or full, and the
  key index, the serial counter and all bulks agree with the log again; only when a new bulk is needed
  and the bulk-data queue has no free unit does the call wait.
\<close>

theorem Append_log_extends:
  assumes "dm_repr dm logs" and "Valid req" and "storable (entry_of req)"
    and "length (line_of (entry_of req)) + 1 < BULKSIZE" and "Suc (length (concat logs)) < 2 ^ 31"
  shows "if has_room dm logs (entry_of req) \<or> \<not> Full (bulk_data_queue (wld dm))
     then \<exists>dm' logs'. Append_log req dm = Inr (1, dm') \<and> dm_repr dm' logs'
            \<and> concat logs' = concat logs @ [entry_of req] \<and> result_blocks dm' = result_blocks dm
     else Append_log req dm = Inl Waits"
  by (rule Append_log_log [OF assms])

theorem Append_log_extends_witness:
  "\<exists>dm dm' logs'. sample_store = Inr dm
     \<and> Append_log (append_req \<lparr>le_key = ''k3'', le_time = 20, le_content = ''Blue!''\<rparr>) dm = Inr (1, dm')
     \<and> dm_repr dm' logs' \<and> concat logs' = sample_log @ [\<lparr>le_key = ''k3'', le_time = 20, le_content = ''Blue!''\<rparr>]"
proof -
  let ?e = "\<lparr>le_key = ''k3'', le_time = 20, le_content = ''Blue!''\<rparr>"
  obtain dm where dm: "sample_store = Inr dm" "dm_repr dm [sample_log]" "bh_state (bulk_handler_list dm ! 0) = Appending"
    using sample_store_repr by blast
  have "length (bulk_handler_list dm) = 1" using dm(2) by (simp add: dm_repr_def)
  then have "last (bulk_handler_list dm) = bulk_handler_list dm ! 0"
    by (cases "bulk_handler_list dm = []") (auto simp: last_conv_nth)
  moreover have "length (text_of sample_log) + length (line_of ?e) + 1 < BULKSIZE" "length (line_of ?e) + 1 < BULKSIZE"
    by (simp_all add: sample_log_def text_of_def line_of_def format_line_def show_nat.simps config_defs)
  moreover have "storable ?e" by code_simp
  moreover have "Valid (append_req ?e)" by (simp add: append_req_def Valid_def)
  moreover have "length (concat [sample_log]) = 3" by (simp add: sample_log_def)
  ultimately have "\<exists>dm' logs'. Append_log (append_req ?e) dm = Inr (1, dm') \<and> dm_repr dm' logs'
      \<and> concat logs' = sample_log @ [?e] \<and> result_blocks dm' = result_blocks dm"
    using Append_log_extends [OF dm(2), of "append_req ?e"] dm(3) by (simp add: has_room_def)
  with dm(1) show ?thesis by blast
qed

end
