(* ===== verification/Log_Query.thy ===== *)
theory Log_Query
  imports Log_Store
begin

text \<open>
  What the queries answer, in terms of the stored log.  A query reads lines through the bulks'
  handlers, wherever the bulks live, packs them into blocks and puts the blocks on the result queue.
\<close>

section \<open>One line\<close>

text \<open>
  What an answer holds of an entry: its line up to and with the first newline, which is the whole line
  unless the key or the text holds one; and nothing of a line that fits no block.  (A line from the
  server fits: its strings are shorter than 1024, and a block has 16375 bytes.)
\<close>

definition shown_line :: "log_entry \<Rightarrow> string" where
  "shown_line e = kept_line (first_line (line_of e))"

definition shown_text :: "log_entry list \<Rightarrow> string" where
  "shown_text es = concat (map shown_line es)"

lemma shown_text_simps [simp]:
  "shown_text [] = []" "shown_text [e] = shown_line e" "shown_text (es @ es') = shown_text es @ shown_text es'"
  by (simp_all add: shown_text_def)

lemma shown_cut:
  assumes "line_of e = p @ newline # rest" "newline \<notin> set p" "length p + 2 < logs_size"
  shows "shown_line e = p @ [newline]"
proof -
  have "\<forall>c \<in> set p. c \<noteq> newline" using assms(2) by blast
  then have "takeWhile (\<lambda>c. c \<noteq> newline) (p @ newline # rest) = p" by (subst takeWhile_append2) auto
  with assms(3) show ?thesis by (simp add: shown_line_def kept_line_def first_line_def assms(1))
qed

lemma shown_whole: "single_line e \<Longrightarrow> length (line_of e) + 1 < logs_size \<Longrightarrow> shown_line e = line_of e"
  by (simp add: shown_line_def kept_line_def first_line_single)

definition answered :: "log_entry list list \<Rightarrow> query_state \<Rightarrow> log_entry list \<Rightarrow> query_state \<Rightarrow> bool" where
  "answered logs qs es qs' \<longleftrightarrow> dm_repr (fst qs') logs \<and> handler_inv (snd qs')
     \<and> result_blocks (fst qs') = result_blocks (fst qs) \<and> Global_key_bulk_handler_trie (fst qs') = Global_key_bulk_handler_trie (fst qs)
     \<and> delivered (snd qs') = delivered (snd qs) @ shown_text es \<and> hr_count (snd qs') = hr_count (snd qs) + length es
     \<and> hr_client_id (snd qs') = hr_client_id (snd qs) \<and> hr_start_time (snd qs') = hr_start_time (snd qs)"

lemma answered_refl: "dm_repr (fst qs) logs \<Longrightarrow> handler_inv (snd qs) \<Longrightarrow> answered logs qs [] qs"
  by (simp add: answered_def)

lemma answered_trans: "answered logs qs es qs1 \<Longrightarrow> answered logs qs1 es' qs2 \<Longrightarrow> answered logs qs (es @ es') qs2"
  by (simp add: answered_def)

lemma answered_ready: "answered logs qs es qs' \<Longrightarrow> dm_repr (fst qs') logs \<and> handler_inv (snd qs')"
  by (simp add: answered_def)

lemma answer_line:
  assumes "handler_inv h" "entry_ok e"
  shows "\<exists>h'. hr_Append (first_line (line_of e) @ rest) (length (first_line (line_of e)) - 1) h = Inr h' \<and> handler_inv h'
     \<and> delivered h' = delivered h @ shown_line e
     \<and> hr_count h' = hr_count h + 1 \<and> hr_client_id h' = hr_client_id h \<and> hr_start_time h' = hr_start_time h"
proof -
  obtain p where p: "first_line (line_of e) = p @ [newline]" "nul_free p"
    using first_line_of [of e] assms(2) by metis
  have "nul_free (p @ [newline])" using p(2) by (simp add: nul_def newline_def)
  from cstr_append [OF this, of rest] have bytes: "line_bytes (p @ newline # rest, length p) = p @ [newline]"
    by (simp add: line_bytes_def c_strncpy_def)
  show ?thesis
  proof (cases "length p + 2 < logs_size")
    case True
    with hr_Append_inv [OF assms(1) True, of "p @ newline # rest"] bytes show ?thesis
      by (simp add: p(1) shown_line_def kept_line_def)
  next
    case False
    with hr_Append_too_long [OF assms(1) False, of "p @ newline # rest"] show ?thesis
      by (simp add: p(1) shown_line_def kept_line_def)
  qed
qed

text \<open>A query operation of a handler that keeps what the handler stands for keeps the store.\<close>

lemma query_keeps_repr:
  assumes dm: "dm_repr dm logs" and i: "i < length logs"
    and q: "query_keeps (bulk_handler_list dm ! i) (wld dm) h w (logs ! i)"
  shows "dm_repr (put_handler i h w dm) logs"
proof -
  let ?h = "bulk_handler_list dm ! i"
  have "hid ?h = i" "start_serial (bulk ?h) = of_nat (first_serial logs i)" "logs ! i = [] \<longrightarrow> bh_state ?h = Appending"
    using dm i by (simp_all add: dm_repr_def bulk_at_def Let_def)
  with q show ?thesis by (intro put_handler_repr [OF dm i]) (auto simp: query_keeps_def)
qed

lemma answer_entry_repr:
  assumes dm: "dm_repr dm logs" and hr: "handler_inv hr" and i: "i < length logs" and s: "s < length (logs ! i)"
  shows "\<exists>qs'. answer_entry i s (dm, hr) = Inr qs' \<and> answered logs (dm, hr) [logs ! i ! s] qs'"
proof -
  let ?h = "bulk_handler_list dm ! i" and ?e = "logs ! i ! s"
  let ?l = "first_line (line_of ?e)"
  have repr: "handler_repr ?h (files (wld dm)) (logs ! i)" using dm i by (simp add: dm_repr_def bulk_at_def Let_def)
  then have ok: "entry_ok ?e" using s by (simp add: handler_repr_def header_ok_def storable_def)
  obtain rest h' w' where g: "Get_content_ref s ?h (wld dm) = Inr ((?l @ rest, length ?l - 1), h', w')"
    "query_keeps ?h (wld dm) h' w' (logs ! i)"
    using Get_content_ref_repr [OF repr s] by blast
  obtain hr' where
    a: "hr_Append (?l @ rest) (length ?l - 1) hr = Inr hr'" "handler_inv hr'"
    "delivered hr' = delivered hr @ shown_line ?e" "hr_count hr' = hr_count hr + 1"
    "hr_client_id hr' = hr_client_id hr" "hr_start_time hr' = hr_start_time hr"
    using answer_line [OF hr ok] by blast
  from query_keeps_repr [OF dm i g(2)] g(1) a show ?thesis
    by (simp add: answer_entry_def answered_def)
qed

section \<open>The finished answer\<close>

text \<open>
  The blocks a query adds to the result queue: all but the last hold the bytes of the answer, the
  last the summary; all are for the asking client.
\<close>

definition answer_sent :: "data_manager \<Rightarrow> data_manager \<Rightarrow> int \<Rightarrow> string \<Rightarrow> nat \<Rightarrow> u64 \<Rightarrow> bool" where
  "answer_sent dm dm' c body n elapsed \<longleftrightarrow> (\<exists>blocks fin.
       result_blocks dm' = result_blocks dm @ blocks @ [fin] \<and> blocks \<noteq> []
     \<and> concat (map payload blocks) = body \<and> payload fin = summary n elapsed
     \<and> qr_begin (hd blocks) \<and> qr_finish fin \<and> list_all (\<lambda>r. \<not> qr_finish r) blocks
     \<and> list_all (\<lambda>r. block_ok r \<and> qr_client_id r = c) (blocks @ [fin]))"

lemma finish_sent:
  assumes hr: "handler_inv hr" and dm: "dm_repr dm logs" and n: "hr_count hr < 10 ^ 20"
  shows "\<exists>dm'. finish_answer now hr dm = Inr dm' \<and> dm_repr dm' logs
     \<and> answer_sent dm dm' (hr_client_id hr) (delivered hr) (hr_count hr) (now - hr_start_time hr)"
proof -
  obtain r where r: "result hr = Some r" "open_block (hr_client_id hr) r" using hr by (auto simp: handler_inv_def)
  obtain fin where f: "hr_Finish now hr = Inr (hr\<lparr>sent := sent hr @ [r] @ [fin], result := None\<rparr>)"
    "payload fin = summary (hr_count hr) (now - hr_start_time hr)" "qr_finish fin" "block_ok fin"
    "qr_client_id fin = hr_client_id hr"
    using hr_Finish_blocks [OF r(1) n, of now] by blast
  have "list_all (open_block (hr_client_id hr)) (sent hr @ [r])" "qr_begin (hd (sent hr @ [r]))"
    using hr r by (auto simp: handler_inv_def)
  moreover have "concat (map payload (sent hr @ [r])) = delivered hr" using r(1) by (simp add: delivered_def)
  ultimately have "answer_sent dm (dm\<lparr>result_blocks := result_blocks dm @ (sent hr @ [r]) @ [fin]\<rparr>)
      (hr_client_id hr) (delivered hr) (hr_count hr) (now - hr_start_time hr)"
    using f unfolding answer_sent_def
    by (intro exI [of _ "sent hr @ [r]"] exI [of _ fin]) (auto simp: open_block_def list_all_iff)
  moreover have "dm_repr (dm\<lparr>result_blocks := bs\<rparr>) logs" for bs
    using dm by (simp add: dm_repr_def bulk_at_def)
  ultimately show ?thesis using f(1) by (simp add: finish_answer_def)
qed

section \<open>The loops\<close>

text \<open>How a limit of \<open>n\<close> answers is spent on one bulk after another.\<close>

lemma take_split: "take n (a @ b) = take n a @ take (n - length (take n a)) b"
  by (cases "length a \<le> n") simp_all

lemma answer_range_repr:
  "dm_repr (fst qs) logs \<Longrightarrow> handler_inv (snd qs) \<Longrightarrow> i < length logs \<Longrightarrow>
   \<forall>s \<in> set ss. s < length (logs ! i) \<Longrightarrow>
   \<exists>qs'. answer_range i ss qs = Inr qs' \<and> answered logs qs (map (\<lambda>s. logs ! i ! s) ss) qs'"
proof (induction ss arbitrary: qs)
  case Nil
  then show ?case using answered_refl by auto
next
  case (Cons s ss)
  obtain dm hr where qs: "qs = (dm, hr)" by (cases qs)
  with Cons.prems obtain qs1 where q1: "answer_entry i s qs = Inr qs1" "answered logs qs [logs ! i ! s] qs1"
    using answer_entry_repr [of dm logs hr i s] by auto
  with Cons.IH [of qs1] Cons.prems answered_ready [OF q1(2)] obtain qs' where
    "answer_range i ss qs1 = Inr qs'" "answered logs qs1 (map (\<lambda>s. logs ! i ! s) ss) qs'" by auto
  with q1(1) answered_trans [OF q1(2) this(2)] show ?case by auto
qed

lemma answer_serials_range:
  "answer_serials i ss num qs = bindE (answer_range i (take (nat (num + 1)) ss) qs)
     (\<lambda>qs'. Inr (num - int (length (take (nat (num + 1)) ss)), qs'))"
proof (induction ss arbitrary: num qs)
  case (Cons s ss)
  show ?case
  proof (cases "num \<ge> 0")
    case True
    then have n: "nat (num + 1) = Suc (nat num)" by simp
    show ?thesis unfolding n take_Suc_Cons
      using True Cons.IH [of "num - 1"] by (cases "answer_entry i s qs") (simp_all add: algebra_simps)
  qed simp
qed simp

lemma answer_serials_repr:
  assumes "dm_repr (fst qs) logs" "handler_inv (snd qs)" "i < length logs"
    and "\<forall>s \<in> set ss. s < length (logs ! i)" "es = map (\<lambda>s. logs ! i ! s) ss"
  shows "\<exists>qs'. answer_serials i ss num qs = Inr (num - int (length (take (nat (num + 1)) es)), qs')
     \<and> answered logs qs (take (nat (num + 1)) es) qs'"
proof -
  have "\<forall>s \<in> set (take (nat (num + 1)) ss). s < length (logs ! i)"
    using assms(4) by (auto dest: in_set_takeD)
  from answer_range_repr [OF assms(1-3) this] show ?thesis
    by (auto simp: answer_serials_range assms(5) take_map)
qed

lemma limit_step:
  "nat (num - int (length (take (nat (num + 1)) a)) + 1) = nat (num + 1) - length (take (nat (num + 1)) a)"
  by simp

lemma limit_compose:
  assumes "num1 = num - int (length (take (nat (num + 1)) a))" "answered logs qs (take (nat (num + 1)) a) qs1"
    and "answered logs qs1 (take (nat (num1 + 1)) b) qs2"
  shows "answered logs qs (take (nat (num + 1)) (a @ b)) qs2"
    "num1 - int (length (take (nat (num1 + 1)) b)) = num - int (length (take (nat (num + 1)) (a @ b)))"
proof -
  have es: "take (nat (num + 1)) (a @ b) = take (nat (num + 1)) a @ take (nat (num1 + 1)) b"
    unfolding assms(1) limit_step by (rule take_split)
  show "answered logs qs (take (nat (num + 1)) (a @ b)) qs2"
    unfolding es by (rule answered_trans [OF assms(2,3)])
  show "num1 - int (length (take (nat (num1 + 1)) b)) = num - int (length (take (nat (num + 1)) (a @ b)))"
    unfolding es length_append of_nat_add using assms(1) by linarith
qed

text \<open>A query operation of one bulk's handler, before any line is answered.\<close>

lemma answered_put:
  assumes "dm_repr dm logs" "handler_inv hr" "i < length logs"
    and "query_keeps (bulk_handler_list dm ! i) (wld dm) h w (logs ! i)"
  shows "answered logs (dm, hr) [] (put_handler i h w dm, hr)"
  using query_keeps_repr [OF assms(1,3,4)] assms(2) by (simp add: answered_def)

lemma handler_at: "dm_repr dm logs \<Longrightarrow> i < length logs \<Longrightarrow> handler_repr (bulk_handler_list dm ! i) (files (wld dm)) (logs ! i)"
  by (simp add: dm_repr_def bulk_at_def Let_def)

lemma serials_of_key_entries: "map (\<lambda>s. l ! s) (serials_of_key q l) = filter (\<lambda>e. le_key e = q) l"
proof -
  have "filter (\<lambda>e. le_key e = q) (map (\<lambda>i. l ! i) [0..<length l])
      = map (\<lambda>i. l ! i) (filter (\<lambda>i. le_key (l ! i) = q) [0..<length l])"
    by (simp add: filter_map comp_def)
  then show ?thesis by (simp add: map_nth serials_of_key_def)
qed

lemma key_bulks_repr:
  "dm_repr (fst qs) logs \<Longrightarrow> handler_inv (snd qs) \<Longrightarrow> \<forall>i \<in> set is. i < length logs \<Longrightarrow>
   es = concat (map (\<lambda>i. rev (filter (\<lambda>e. le_key e = key) (logs ! i))) is) \<Longrightarrow>
   \<exists>qs'. key_bulks key is num qs = Inr (num - int (length (take (nat (num + 1)) es)), qs')
     \<and> answered logs qs (take (nat (num + 1)) es) qs'"
proof (induction "is" arbitrary: num qs es)
  case Nil
  then show ?case using answered_refl by auto
next
  case (Cons i "is")
  obtain dm hr where qs: "qs = (dm, hr)" by (cases qs)
  let ?a = "rev (filter (\<lambda>e. le_key e = key) (logs ! i))"
    and ?b = "concat (map (\<lambda>i. rev (filter (\<lambda>e. le_key e = key) (logs ! i))) is)"
  show ?case
  proof (cases "num \<ge> 0")
    case False
    with qs answered_refl [OF Cons.prems(1,2)] show ?thesis by simp
  next
    case True
    have i: "i < length logs" using Cons.prems(3) by simp
    have dm: "dm_repr dm logs" "handler_inv hr" using Cons.prems(1,2) qs by simp_all
    from Search_key_repr [OF handler_at [OF dm(1) i], of key] obtain r h w where
      sk: "bh_Search_key key (bulk_handler_list dm ! i) (wld dm) = Inr (r, h, w)"
      "as_list r = serials_of_key key (logs ! i)" "query_keeps (bulk_handler_list dm ! i) (wld dm) h w (logs ! i)" by blast
    let ?qs1 = "(put_handler i h w dm, hr)"
    have q1: "answered logs qs [] ?qs1"
      unfolding qs by (rule answered_put [OF dm i sk(3)])
    have a: "?a = map (\<lambda>s. logs ! i ! s) (rev (as_list r))"
      using sk(2) serials_of_key_entries [of "logs ! i" key] by (simp add: rev_map [symmetric])
    have less: "\<forall>s \<in> set (rev (as_list r)). s < length (logs ! i)"
      using sk(2) by (simp add: serials_of_key_def)
    obtain qs2 where q2: "answer_serials i (rev (as_list r)) num ?qs1 = Inr (num - int (length (take (nat (num + 1)) ?a)), qs2)"
      "answered logs ?qs1 (take (nat (num + 1)) ?a) qs2"
      using answer_serials_repr [OF _ _ i less a, of ?qs1] answered_ready [OF q1] by blast
    define num1 where "num1 = num - int (length (take (nat (num + 1)) ?a))"
    obtain qs3 where q3: "key_bulks key is num1 qs2 = Inr (num1 - int (length (take (nat (num1 + 1)) ?b)), qs3)"
      "answered logs qs2 (take (nat (num1 + 1)) ?b) qs3"
      using Cons.IH [of qs2 ?b num1] answered_ready [OF q2(2)] Cons.prems(3) by auto
    have bulk: "(case r of None \<Rightarrow> Inr (num, ?qs1) | Some serials \<Rightarrow> answer_serials i (rev serials) num ?qs1)
        = Inr (num1, qs2)"
      using q2(1) by (cases r) (simp_all add: num1_def)
    have "answered logs qs (take (nat (num + 1)) ?a) qs2" using answered_trans [OF q1 q2(2)] by simp
    note c = limit_compose [OF num1_def this q3(2)]
    have "key_bulks key (i # is) num qs = Inr (num1 - int (length (take (nat (num1 + 1)) ?b)), qs3)"
      using True qs sk(1) bulk q3(1) by simp
    with c Cons.prems(4) show ?thesis by simp
  qed
qed

lemma recent_entries_repr:
  "dm_repr (fst qs) logs \<Longrightarrow> handler_inv (snd qs) \<Longrightarrow> i < length logs \<Longrightarrow> n \<le> length (logs ! i) \<Longrightarrow>
   es = take (nat num) (rev (take n (logs ! i))) \<Longrightarrow>
   \<exists>qs'. recent_entries i n num qs = Inr (num - int (length es), qs') \<and> answered logs qs es qs'"
proof (induction n arbitrary: num qs es)
  case 0
  then show ?case using answered_refl by simp
next
  case (Suc n)
  obtain dm hr where qs: "qs = (dm, hr)" by (cases qs)
  show ?case
  proof (cases "num > 0")
    case True
    from Suc.prems qs obtain qs1 where q1: "answer_entry i n qs = Inr qs1" "answered logs qs [logs ! i ! n] qs1"
      using answer_entry_repr [of dm logs hr i n] by auto
    let ?es = "take (nat (num - 1)) (rev (take n (logs ! i)))"
    obtain qs' where q2: "recent_entries i n (num - 1) qs1 = Inr (num - 1 - int (length ?es), qs')" "answered logs qs1 ?es qs'"
      using Suc.IH [of qs1 ?es "num - 1"] answered_ready [OF q1(2)] Suc.prems by auto
    have "nat num = Suc (nat (num - 1))" using True by simp
    then have es: "es = [logs ! i ! n] @ ?es"
      using Suc.prems(4,5) by (simp add: take_Suc_conv_app_nth)
    have "recent_entries i (Suc n) num qs = Inr (num - 1 - int (length ?es), qs')"
      using True q1(1) q2(1) by simp
    moreover have "num - 1 - int (length ?es) = num - int (length es)" unfolding es by simp
    ultimately show ?thesis using answered_trans [OF q1(2) q2(2)] unfolding es by simp
  qed (use Suc.prems answered_refl in simp)
qed

lemma recent_bulks_repr:
  "dm_repr (fst qs) logs \<Longrightarrow> handler_inv (snd qs) \<Longrightarrow> n \<le> length logs \<Longrightarrow>
   es = take (nat num) (rev (concat (take n logs))) \<Longrightarrow>
   \<exists>qs'. recent_bulks n num qs = Inr qs' \<and> answered logs qs es qs'"
proof (induction n arbitrary: num qs es)
  case 0
  then show ?case using answered_refl by simp
next
  case (Suc n)
  show ?case
  proof (cases "num > 0")
    case True
    have n: "n < length logs" using Suc.prems(3) by simp
    have sz: "mb_size (bulk (bulk_handler_list (fst qs) ! n)) = length (logs ! n)"
      using Suc.prems(1) n by (simp add: dm_repr_def bulk_at_def Let_def handler_repr_def header_ok_def)
    let ?a = "take (nat num) (rev (logs ! n))"
    obtain qs1 where q1: "recent_entries n (length (logs ! n)) num qs = Inr (num - int (length ?a), qs1)" "answered logs qs ?a qs1"
      using recent_entries_repr [OF Suc.prems(1,2) n order_refl refl, of num] by auto
    let ?b = "take (nat (num - int (length ?a))) (rev (concat (take n logs)))"
    obtain qs' where q2: "recent_bulks n (num - int (length ?a)) qs1 = Inr qs'" "answered logs qs1 ?b qs'"
      using Suc.IH [of qs1 ?b "num - int (length ?a)"] answered_ready [OF q1(2)] Suc.prems by auto
    have "nat (num - int (length ?a)) = nat num - length ?a" by simp
    then have es: "es = ?a @ ?b"
      using Suc.prems(4) take_split [of "nat num" "rev (logs ! n)" "rev (concat (take n logs))"] n
      by (simp add: take_Suc_conv_app_nth)
    show ?thesis using True sz q1(1) q2(1) answered_trans [OF q1(2) q2(2)] unfolding es by simp
  qed (use Suc.prems answered_refl in simp)
qed

section \<open>From the first line to the summary\<close>

definition no_result_bytes :: "bool \<Rightarrow> string" where
  "no_result_bytes none = (if none then no_result @ [nul] else [])"

lemma with_nul_bytes: "nul_free m \<Longrightarrow> line_bytes (m, length m) = m @ [nul]"
  by (simp add: line_bytes_def c_strncpy_def cstr_nul_free)

lemma answered_new: "dm_repr dm logs \<Longrightarrow> answered logs (dm, new_QueryResultHandler c now0) [] (dm, new_QueryResultHandler c now0)"
  using new_handler_inv by (simp add: answered_refl)

lemma close_answer:
  assumes a: "answered logs (dm, new_QueryResultHandler c now0) es qs" and n: "length es < 10 ^ 19"
  shows "\<exists>dm1 hr1 dm'. answer_no_result none qs = Inr (dm1, hr1) \<and> finish_answer now1 hr1 dm1 = Inr dm' \<and> dm_repr dm' logs
     \<and> answer_sent dm dm' c (shown_text es @ no_result_bytes none) (length es + (if none then 1 else 0)) (now1 - now0)"
proof -
  obtain dm1 hr where qs: "qs = (dm1, hr)" by (cases qs)
  have hr: "handler_inv hr" "delivered hr = shown_text es" "hr_count hr = length es" "hr_client_id hr = c"
    "hr_start_time hr = now0" and dm1: "dm_repr dm1 logs" "result_blocks dm1 = result_blocks dm"
    using a new_handler_inv [of c now0] qs by (simp_all add: answered_def new_QueryResultHandler_def)
  obtain hr1 where hr1: "answer_no_result none qs = Inr (dm1, hr1)" "handler_inv hr1"
    "delivered hr1 = shown_text es @ no_result_bytes none" "hr_count hr1 = length es + (if none then 1 else 0)"
    "hr_client_id hr1 = c" "hr_start_time hr1 = now0"
  proof (cases none)
    case True
    have "length no_result + 2 < logs_size" by (simp add: no_result_def logs_size_val)
    from hr_Append_inv [OF hr(1) this, of no_result] obtain h where
      "hr_Append no_result (length no_result) hr = Inr h" "handler_inv h"
      "delivered h = delivered hr @ line_bytes (no_result, length no_result)" "hr_count h = hr_count hr + 1"
      "hr_client_id h = hr_client_id hr" "hr_start_time h = hr_start_time hr" by blast
    moreover have "nul_free no_result" by (simp add: no_result_def) (simp add: nul_def)
    ultimately show ?thesis using True hr qs that [of h]
      by (simp add: answer_no_result_def no_result_bytes_def with_nul_bytes)
  next
    case False
    with hr qs that [of hr] show ?thesis by (simp add: answer_no_result_def no_result_bytes_def)
  qed
  have "hr_count hr1 < 10 ^ 20" using hr1(4) n by simp
  from finish_sent [OF hr1(2) dm1(1) this, of now1] obtain dm' where
    "finish_answer now1 hr1 dm1 = Inr dm'" "dm_repr dm' logs"
    "answer_sent dm1 dm' (hr_client_id hr1) (delivered hr1) (hr_count hr1) (now1 - hr_start_time hr1)" by blast
  with hr1 dm1(2) show ?thesis by (auto simp: answer_sent_def)
qed

lemma log_short: "dm_repr dm logs \<Longrightarrow> length (concat logs) < 10 ^ 19"
proof -
  assume "dm_repr dm logs"
  then have "length (concat logs) < 2 ^ 31" unfolding dm_repr_def by blast
  also have "(2::nat) ^ 31 \<le> 10 ^ 19" by simp
  finally show ?thesis .
qed

lemma log_length: "dm_repr dm logs \<Longrightarrow> length (filter P (concat logs)) < 10 ^ 19"
  by (rule order_le_less_trans [OF length_filter_le log_short])

lemma newest_first_of_key:
  "concat (map (\<lambda>i. rev (filter (\<lambda>e. le_key e = q) (logs ! i))) (rev (bulks_of_key q logs)))
   = rev (filter (\<lambda>e. le_key e = q) (concat logs))"
proof (induction logs rule: rev_induct)
  case (snoc l ls)
  let ?f = "\<lambda>ls i. rev (filter (\<lambda>e. le_key e = q) (ls ! i))"
  have eq: "map (?f (ls @ [l])) (rev (bulks_of_key q ls)) = map (?f ls) (rev (bulks_of_key q ls))"
    using bulks_of_key_less by (auto simp: nth_append intro!: map_cong)
  have "filter (\<lambda>e. le_key e = q) l = []" if "q \<notin> le_key ` set l"
    using that by (auto simp: filter_empty_conv)
  moreover have "concat (map (?f (ls @ [l])) (rev (bulks_of_key q ls))) = rev (filter (\<lambda>e. le_key e = q) (concat ls))"
    unfolding eq by (rule snoc)
  ultimately show ?case unfolding bulks_of_key_snoc by simp
qed (simp add: bulks_of_key_def)

lemma Find_key_bulks:
  "dm_repr dm logs \<Longrightarrow> as_list (Find_key_in_global_trie q dm) = bulks_of_key q logs"
  by (simp add: dm_repr_def Find_key_in_global_trie_def trie_list_def)

section \<open>Properties\<close>

lemma Getkey_log_log:
  assumes "dm_repr dm logs" and "Valid req" and "req_type req = T_Getkey"
  shows "let es = take 50001 (rev (filter (\<lambda>e. le_key e = req_key req) (concat logs))); none = (length es = 50000)
     in \<exists>dm'. Getkey_log now0 now1 req dm = Inr (1, dm') \<and> dm_repr dm' logs
          \<and> answer_sent dm dm' (req_client_id req) (shown_text es @ no_result_bytes none)
              (length es + (if none then 1 else 0)) (now1 - now0)"
proof -
  let ?hr = "new_QueryResultHandler (req_client_id req) now0" and ?all = "rev (filter (\<lambda>e. le_key e = req_key req) (concat logs))"
  define es where "es = take 50001 ?all"
  have bulks: "\<forall>i \<in> set (rev (bulks_of_key (req_key req) logs)). i < length logs" using bulks_of_key_less by simp
  obtain qs where qs: "key_bulks (req_key req) (rev (bulks_of_key (req_key req) logs)) MAX_NUM_RESULT (dm, ?hr)
      = Inr (MAX_NUM_RESULT - int (length es), qs)" "answered logs (dm, ?hr) es qs"
    using key_bulks_repr [OF _ _ bulks newest_first_of_key [symmetric], of "(dm, ?hr)" MAX_NUM_RESULT]
      assms(1) new_handler_inv by (auto simp: es_def MAX_NUM_RESULT_def)
  have loop: "(case Find_key_in_global_trie (req_key req) dm of None \<Rightarrow> Inr (MAX_NUM_RESULT, dm, ?hr)
      | Some bulks \<Rightarrow> key_bulks (req_key req) (rev bulks) MAX_NUM_RESULT (dm, ?hr)) = Inr (MAX_NUM_RESULT - int (length es), qs)"
    using qs(1) Find_key_bulks [OF assms(1), of "req_key req"]
    by (cases "Find_key_in_global_trie (req_key req) dm") simp_all
  have "length es \<le> length (filter (\<lambda>e. le_key e = req_key req) (concat logs))" by (simp add: es_def)
  then have "length es < 10 ^ 19" using log_length [OF assms(1)] by (rule order_le_less_trans)
  from close_answer [OF qs(2) this, of "length es = 50000" now1] obtain dm1 hr1 dm' where
    c: "answer_no_result (length es = 50000) qs = Inr (dm1, hr1)" "finish_answer now1 hr1 dm1 = Inr dm'" "dm_repr dm' logs"
    "answer_sent dm dm' (req_client_id req) (shown_text es @ no_result_bytes (length es = 50000))
       (length es + (if length es = 50000 then 1 else 0)) (now1 - now0)" by blast
  have none: "(MAX_NUM_RESULT - int (length es) = 0) = (length es = 50000)" by (auto simp: MAX_NUM_RESULT_def)
  have "Getkey_log now0 now1 req dm = Inr (1, dm')"
    using assms(2,3) loop c(1,2) none by (simp add: Getkey_log_def Let_def)
  with c(3,4) show ?thesis unfolding es_def Let_def by blast
qed

lemma sample_lines_fit: "\<forall>e \<in> set sample_log. length (line_of e) + 1 < logs_size"
  unfolding logs_size_val by (simp add: sample_log_def line_of_def format_line_def show_nat.simps)

lemma sample_shown: "e \<in> set sample_log \<Longrightarrow> shown_line e = line_of e"
  using sample_log_ok(1) sample_lines_fit shown_whole by blast

lemma sample_answers:
  "shown_text [sample_log ! 2] = text_of [sample_log ! 2]"
  "shown_text [sample_log ! 2, sample_log ! 0] = text_of [sample_log ! 2, sample_log ! 0]"
proof -
  have "sample_log ! 0 \<in> set sample_log" "sample_log ! 2 \<in> set sample_log" by (simp_all add: sample_log_def)
  then show "shown_text [sample_log ! 2] = text_of [sample_log ! 2]"
    "shown_text [sample_log ! 2, sample_log ! 0] = text_of [sample_log ! 2, sample_log ! 0]"
    by (simp_all add: shown_text_def text_of_def sample_shown)
qed

definition query_req :: "ReqType \<Rightarrow> string \<Rightarrow> ReqData" where
  "query_req t key = new_ReqData\<lparr>req_type := t, req_key := key, req_keyword := key, req_count := 2, req_start := 12,
     req_end := 20, req_client_id := 7\<rparr>"

lemma Get_recent_log_log:
  assumes "dm_repr dm logs" and "Valid req" and "req_type req = T_Recent"
  shows "let es = take (nat (to_int32 (req_count req))) (rev (concat logs))
     in \<exists>dm'. Get_recent_log now0 now1 req dm = Inr (1, dm') \<and> dm_repr dm' logs
          \<and> answer_sent dm dm' (req_client_id req) (shown_text es) (length es) (now1 - now0)"
proof -
  let ?hr = "new_QueryResultHandler (req_client_id req) now0" and ?n = "to_int32 (req_count req)"
  define es where "es = take (nat ?n) (rev (concat logs))"
  obtain qs where qs: "recent_bulks (length logs) ?n (dm, ?hr) = Inr qs" "answered logs (dm, ?hr) es qs"
    using recent_bulks_repr [of "(dm, ?hr)" logs "length logs" es ?n] assms(1) new_handler_inv by (auto simp: es_def)
  have "length es \<le> length (concat logs)" by (simp add: es_def)
  then have "length es < 10 ^ 19" using log_short [OF assms(1)] by (rule order_le_less_trans)
  from close_answer [OF qs(2) this, of False now1] obtain dm1 hr1 dm' where
    c: "qs = (dm1, hr1)" "finish_answer now1 hr1 dm1 = Inr dm'" "dm_repr dm' logs"
    "answer_sent dm dm' (req_client_id req) (shown_text es) (length es) (now1 - now0)"
    by (auto simp: answer_no_result_def no_result_bytes_def split: prod.splits)
  have "length (bulk_handler_list dm) = length logs" using assms(1) by (simp add: dm_repr_def)
  then have "Get_recent_log now0 now1 req dm = Inr (1, dm')"
    using assms(2,3) qs(1) c(1,2) by (simp add: Get_recent_log_def Let_def)
  with c(3,4) show ?thesis unfolding es_def Let_def by blast
qed

lemma LogCount_log_log:
  assumes "dm_repr dm logs" and "Valid req" and "req_type req = T_LogCount"
  shows "\<exists>dm'. LogCount_log now0 now1 req dm = Inr (1, dm') \<and> dm_repr dm' logs
     \<and> answer_sent dm dm' (req_client_id req)
         (''Now record log count is '' @ show_nat (length (concat logs)) @ [newline, nul]) 1 (now1 - now0)"
proof -
  let ?hr = "new_QueryResultHandler (req_client_id req) now0" and ?b = "bulk (last (bulk_handler_list dm))"
    and ?n = "length (concat logs)"
  have l: "length (bulk_handler_list dm) = length logs" "logs \<noteq> []" using assms(1) by (simp_all add: dm_repr_def)
  then have hne: "bulk_handler_list dm \<noteq> []" by auto
  have "bulk_at dm logs (length logs - 1)" using dm_repr_last [OF assms(1)] by blast
  then have "mb_size ?b = length (last logs)" "start_serial ?b = of_nat (first_serial logs (length logs - 1))"
    using l hne by (simp_all add: bulk_at_def Let_def last_conv_nth handler_repr_def header_ok_def)
  then have sum: "start_serial ?b + of_nat (mb_size ?b) = of_nat ?n"
    using first_serial_butlast [OF l(2)] by (simp flip: of_nat_add)
  have "?n < 2 ^ 31" using assms(1) unfolding dm_repr_def by blast
  then have "unat (of_nat ?n :: u64) = ?n" by (simp add: unsigned_of_nat take_bit_nat_eq_self)
  then have line: "count_line (of_nat ?n) = ''Now record log count is '' @ show_nat ?n @ [newline]"
    by (simp add: count_line_def)
  have "?n < 10 ^ Suc 18" using log_short [OF assms(1)] by (simp)
  then have "length (show_nat ?n) \<le> Suc 18" by (rule length_show_nat)
  then have fits: "length (count_line (of_nat ?n)) + 2 < logs_size" by (simp add: line logs_size_val)
  have hr: "handler_inv ?hr" "delivered ?hr = []" "hr_count ?hr = 0" "hr_client_id ?hr = req_client_id req" "hr_start_time ?hr = now0"
    using new_handler_inv by (simp_all add: new_QueryResultHandler_def)
  have nf: "nul_free (count_line (of_nat ?n))" unfolding line by simp (simp add: nul_def)
  obtain hr1 where hr1: "hr_Append (count_line (of_nat ?n)) (length (count_line (of_nat ?n))) ?hr = Inr hr1" "handler_inv hr1"
    "delivered hr1 = count_line (of_nat ?n) @ [nul]" "hr_count hr1 = 1" "hr_client_id hr1 = req_client_id req" "hr_start_time hr1 = now0"
    using hr_Append_inv [OF hr(1) fits, of "count_line (of_nat ?n)"] with_nul_bytes [OF nf] hr(2-5) by auto
  have "hr_count hr1 < 10 ^ 20" using hr1(4) by simp
  from finish_sent [OF hr1(2) assms(1) this, of now1] hr1(3-6) obtain dm' where
    "finish_answer now1 hr1 dm = Inr dm'" "dm_repr dm' logs"
    "answer_sent dm dm' (req_client_id req) (count_line (of_nat ?n) @ [nul]) 1 (now1 - now0)" by auto
  with assms(2,3) hne sum hr1(1) show ?thesis
    by (simp add: LogCount_log_def Let_def line)
qed

end
