(* ===== verification/Log_Search.thy ===== *)
theory Log_Search
  imports Log_Query
begin

text \<open>
  What the word search and the time search answer, in terms of the stored log, and where they fail:
  a single-word search that finds something, a time search for a prefix of a known key, and a time
  search whose window begins after the end of the first bulk probed.
\<close>

section \<open>Several words\<close>

text \<open>How often an entry is in the answer: as often as its rarest word.\<close>

definition hits :: "string list \<Rightarrow> log_entry \<Rightarrow> nat" where
  "hits ws e = Min (set (map (count_list (words_of e)) ws))"

definition repeated :: "string list \<Rightarrow> log_entry list \<Rightarrow> log_entry list" where
  "repeated ws es = concat (map (\<lambda>e. replicate (hits ws e) e) es)"

definition hit_serials :: "(nat \<Rightarrow> nat) \<Rightarrow> nat \<Rightarrow> nat list" where
  "hit_serials f n = concat (map (\<lambda>i. replicate (f i) i) [0..<n])"

lemma count_list_replicate: "count_list (replicate n x) y = (if x = y then n else 0)"
  by (induction n) auto

lemma count_hit_serials: "count_list (hit_serials f n) i = (if i < n then f i else 0)"
  by (induction n) (auto simp: hit_serials_def count_list_replicate)

lemma sorted_hit_serials: "sorted (hit_serials f n)"
  by (induction n) (auto simp: hit_serials_def sorted_append)

lemma sorted_count_unique:
  fixes xs ys :: "nat list"
  assumes "sorted xs" "sorted ys" "\<And>i. count_list xs i = count_list ys i"
  shows "xs = ys"
proof -
  have "mset xs = mset ys" by (rule multiset_eqI) (simp add: assms(3) count_mset)
  with assms(1,2) show ?thesis by (metis properties_for_sort)
qed

lemma Join_answers:
  assumes "handler_repr h (files w) l" "ws \<noteq> []"
  shows "\<exists>r h' w'. bh_Join_search ws h w = Inr (r, h', w') \<and> query_keeps h w h' w' l
     \<and> (\<forall>s \<in> set r. s < length l) \<and> map (\<lambda>s. l ! s) r = repeated ws l"
proof -
  obtain r h' w' where r: "bh_Join_search ws h w = Inr (r, h', w')" "query_keeps h w h' w' l" "sorted r"
    "set r \<subseteq> {..<length l}" "\<forall>i < length l. \<forall>n. n \<le> count_list r i \<longleftrightarrow> (\<forall>q \<in> set ws. n \<le> count_list (words_of (l ! i)) q)"
    using Join_search_repr [OF assms] by blast
  have "count_list r i = hits ws (l ! i)" if "i < length l" for i
  proof (rule order_antisym)
    have ge: "n \<le> hits ws (l ! i) \<longleftrightarrow> (\<forall>q \<in> set ws. n \<le> count_list (words_of (l ! i)) q)" for n
      using assms(2) by (simp add: hits_def)
    show "count_list r i \<le> hits ws (l ! i)" "hits ws (l ! i) \<le> count_list r i"
      using r(5) that ge by blast+
  qed
  moreover have "count_list r i = 0" if "\<not> i < length l" for i
    using that r(4) by (auto simp: count_list_0_iff)
  ultimately have "r = hit_serials (\<lambda>i. hits ws (l ! i)) (length l)"
    using sorted_count_unique [OF r(3) sorted_hit_serials] by (simp add: count_hit_serials)
  moreover have "map (\<lambda>s. l ! s) (hit_serials (\<lambda>i. hits ws (l ! i)) n) = repeated ws (take n l)" if "n \<le> length l" for n
    using that by (induction n) (simp_all add: hit_serials_def repeated_def take_Suc_conv_app_nth)
  ultimately have "map (\<lambda>s. l ! s) r = repeated ws l" by simp
  with r(1,2,4) show ?thesis by auto
qed

lemma join_bulks_repr:
  "dm_repr (fst qs) logs \<Longrightarrow> handler_inv (snd qs) \<Longrightarrow> n \<le> length logs \<Longrightarrow> ws \<noteq> [] \<Longrightarrow>
   es = rev (repeated ws (concat (take n logs))) \<Longrightarrow>
   \<exists>qs'. join_bulks ws n num qs = Inr (num - int (length (take (nat (num + 1)) es)), qs')
     \<and> answered logs qs (take (nat (num + 1)) es) qs'"
proof (induction n arbitrary: num qs es)
  case 0
  then show ?case using answered_refl by (simp add: repeated_def)
next
  case (Suc n)
  obtain dm hr where qs: "qs = (dm, hr)" by (cases qs)
  have n: "n < length logs" using Suc.prems(3) by simp
  have dm: "dm_repr dm logs" "handler_inv hr" using Suc.prems(1,2) qs by simp_all
  let ?a = "rev (repeated ws (logs ! n))" and ?b = "rev (repeated ws (concat (take n logs)))"
  have es: "es = ?a @ ?b" using Suc.prems(5) n by (simp add: take_Suc_conv_app_nth repeated_def)
  show ?case
  proof (cases "num \<ge> 0")
    case False
    with qs answered_refl [OF Suc.prems(1,2)] show ?thesis by simp
  next
    case True
    from Join_answers [OF handler_at [OF dm(1) n] Suc.prems(4)] obtain r h w where
      j: "bh_Join_search ws (bulk_handler_list dm ! n) (wld dm) = Inr (r, h, w)"
      "query_keeps (bulk_handler_list dm ! n) (wld dm) h w (logs ! n)" "\<forall>s \<in> set (rev r). s < length (logs ! n)"
      "?a = map (\<lambda>s. logs ! n ! s) (rev r)" by (auto simp: rev_map [symmetric])
    let ?qs1 = "(put_handler n h w dm, hr)"
    have q1: "answered logs qs [] ?qs1" unfolding qs by (rule answered_put [OF dm n j(2)])
    obtain qs2 where q2: "answer_serials n (rev r) num ?qs1 = Inr (num - int (length (take (nat (num + 1)) ?a)), qs2)"
      "answered logs ?qs1 (take (nat (num + 1)) ?a) qs2"
      using answer_serials_repr [OF _ _ n j(3,4), of ?qs1] answered_ready [OF q1] by blast
    define num1 where "num1 = num - int (length (take (nat (num + 1)) ?a))"
    obtain qs3 where q3: "join_bulks ws n num1 qs2 = Inr (num1 - int (length (take (nat (num1 + 1)) ?b)), qs3)"
      "answered logs qs2 (take (nat (num1 + 1)) ?b) qs3"
      using Suc.IH [of qs2 ?b num1] answered_ready [OF q2(2)] Suc.prems(3,4) by auto
    have "answered logs qs (take (nat (num + 1)) ?a) qs2" using answered_trans [OF q1 q2(2)] by simp
    note c = limit_compose [OF num1_def this q3(2)]
    have "join_bulks ws (Suc n) num qs = Inr (num1 - int (length (take (nat (num1 + 1)) ?b)), qs3)"
      using True qs j(1) q2(1) q3(1) by (simp add: num1_def)
    with c es show ?thesis by simp
  qed
qed

section \<open>One word\<close>

lemma serials_of_word_hit:
  "serials_of_word q l = [] \<longleftrightarrow> (\<forall>e \<in> set l. q \<notin> set (words_of e))" "s \<in> set (serials_of_word q l) \<Longrightarrow> s < length l"
proof -
  have "serials_of_word q l = [] \<longleftrightarrow> (\<forall>i < length l. q \<notin> set (words_of (l ! i)))"
    by (auto simp: serials_of_word_def count_list_0_iff)
  then show "serials_of_word q l = [] \<longleftrightarrow> (\<forall>e \<in> set l. q \<notin> set (words_of e))"
    by (simp add: all_set_conv_all_nth)
  show "s \<in> set (serials_of_word q l) \<Longrightarrow> s < length l" by (auto simp: serials_of_word_def)
qed

lemma single_bulks_repr:
  "dm_repr (fst qs) logs \<Longrightarrow> handler_inv (snd qs) \<Longrightarrow> n \<le> length logs \<Longrightarrow> num \<ge> 0 \<Longrightarrow>
   if \<exists>e \<in> set (concat (take n logs)). q \<in> set (words_of e) then single_bulks q n num qs = Inl UB
   else \<exists>qs'. single_bulks q n num qs = Inr (num, qs') \<and> answered logs qs [] qs'"
proof (induction n arbitrary: qs)
  case 0
  then show ?case using answered_refl by simp
next
  case (Suc n)
  obtain dm hr where qs: "qs = (dm, hr)" by (cases qs)
  have n: "n < length logs" using Suc.prems(3) by simp
  have dm: "dm_repr dm logs" "handler_inv hr" using Suc.prems(1,2) qs by simp_all
  from Search_keyword_repr [OF handler_at [OF dm(1) n], of q] obtain r h w where
    sk: "bh_Search_keyword q (bulk_handler_list dm ! n) (wld dm) = Inr (r, h, w)"
    "as_list r = serials_of_word q (logs ! n)" "query_keeps (bulk_handler_list dm ! n) (wld dm) h w (logs ! n)" by blast
  let ?qs1 = "(put_handler n h w dm, hr)"
  have q1: "answered logs qs [] ?qs1" unfolding qs by (rule answered_put [OF dm n sk(3)])
  have split: "set (concat (take (Suc n) logs)) = set (concat (take n logs)) \<union> set (logs ! n)"
    using n by (simp add: take_Suc_conv_app_nth)
  show ?case
  proof (cases "serials_of_word q (logs ! n) = []")
    case True
    then have none: "\<forall>e \<in> set (logs ! n). q \<notin> set (words_of e)" using serials_of_word_hit by blast
    have "single_bulks q (Suc n) num qs = single_bulks q n num ?qs1"
      using Suc.prems(4) qs sk(1,2) True by (cases r) (simp_all add: answer_single_def)
    then show ?thesis
      using Suc.IH [of ?qs1] answered_ready [OF q1] Suc.prems(3,4) none answered_trans [OF q1]
      unfolding split by (auto split: if_splits)
  next
    case False
    then obtain s ss where rs: "rev (serials_of_word q (logs ! n)) = s # ss" by (cases "rev (serials_of_word q (logs ! n))") auto
    then have "s \<in> set (rev (serials_of_word q (logs ! n)))" by simp
    then have "s < length (logs ! n)" using serials_of_word_hit(2) by simp
    then obtain qs2 where "answer_entry n s ?qs1 = Inr qs2"
      using answer_entry_repr [of "put_handler n h w dm" logs hr n s] answered_ready [OF q1] n by auto
    then have "single_bulks q (Suc n) num qs = Inl UB"
      using Suc.prems(4) qs sk(1,2) rs by (cases r) (simp_all add: answer_single_def)
    moreover have "\<exists>e \<in> set (logs ! n). q \<in> set (words_of e)" using False serials_of_word_hit(1) by blast
    ultimately show ?thesis unfolding split by auto
  qed
qed

section \<open>A time window\<close>

definition in_window :: "u64 \<Rightarrow> u64 \<Rightarrow> string \<Rightarrow> log_entry \<Rightarrow> bool" where
  "in_window t0 t1 key e \<longleftrightarrow> le_key e = key \<and> t0 \<le> le_time e \<and> le_time e \<le> t1"

text \<open>
  The times the search relies on.  They come from the clients' requests and are not checked: the search
  of a key's times in a bulk, and of its bulks by their end times, is a binary one, so these must not
  fall; and zero, which the parser refuses, marks a time that is not set.
\<close>

definition clocked :: "string \<Rightarrow> log_entry list list \<Rightarrow> bool" where
  "clocked key logs \<longleftrightarrow> (\<forall>e \<in> set (concat logs). le_time e \<noteq> 0)
     \<and> (\<forall>l \<in> set logs. sorted (map le_time (filter (\<lambda>e. le_key e = key) l)))
     \<and> sorted (map (\<lambda>i. last_time (logs ! i)) (bulks_of_key key logs))"

lemma clocked_bulk:
  assumes "clocked key logs" "l \<in> set logs"
  shows "\<forall>e \<in> set l. le_time e \<noteq> 0" "sorted (map (\<lambda>i. le_time (l ! i)) (serials_of_key key l))"
proof -
  show "\<forall>e \<in> set l. le_time e \<noteq> 0" using assms by (auto simp: clocked_def)
  have "map (\<lambda>i. le_time (l ! i)) (serials_of_key key l) = map le_time (filter (\<lambda>e. le_key e = key) l)"
    using arg_cong [OF serials_of_key_entries [of l key], of "map le_time"] by (simp add: comp_def)
  with assms show "sorted (map (\<lambda>i. le_time (l ! i)) (serials_of_key key l))" by (simp add: clocked_def)
qed

lemma Search_time_answers:
  assumes "handler_repr h (files w) l" "clocked key logs" "l \<in> set logs"
  shows "\<exists>r h' w'. bh_Search_time_key t0 t1 key flag h w = Inr ((flag \<or> last_time l < t0, r), h', w')
     \<and> query_keeps h w h' w' l \<and> (\<forall>s \<in> set (selected r). s < length l)
     \<and> map (\<lambda>s. l ! s) (selected r) = filter (in_window t0 t1 key) l"
proof -
  obtain r h' w' where r: "bh_Search_time_key t0 t1 key flag h w = Inr ((flag \<or> last_time l < t0, r), h', w')"
    "query_keeps h w h' w' l"
    "selected r = filter (\<lambda>i. t0 \<le> le_time (l ! i) \<and> le_time (l ! i) \<le> t1) (serials_of_key key l)"
    using Search_time_key_repr [OF assms(1) clocked_bulk(2,1) [OF assms(2,3)]] by blast
  have "map (\<lambda>s. l ! s) (selected r) = filter (\<lambda>e. t0 \<le> le_time e \<and> le_time e \<le> t1) (map (\<lambda>s. l ! s) (serials_of_key key l))"
    unfolding r(3) by (simp add: filter_map comp_def)
  also have "\<dots> = filter (in_window t0 t1 key) l"
    unfolding serials_of_key_entries by (auto simp: in_window_def intro: filter_cong)
  finally have m: "map (\<lambda>s. l ! s) (selected r) = filter (in_window t0 t1 key) l" .
  have "\<forall>s \<in> set (selected r). s < length l" unfolding r(3) by (simp add: serials_of_key_def)
  with r(1,2) m show ?thesis by blast
qed

text \<open>What the loop answers: everything while the flag is down, nothing from then on.\<close>

fun window_answer :: "u64 \<Rightarrow> u64 \<Rightarrow> string \<Rightarrow> log_entry list list \<Rightarrow> log_entry list" where
  "window_answer t0 t1 key [] = []"
| "window_answer t0 t1 key (l # ls) =
     (if last_time l < t0 then [] else filter (in_window t0 t1 key) l @ window_answer t0 t1 key ls)"

lemma time_bulks_repr:
  "dm_repr (fst qs) logs \<Longrightarrow> handler_inv (snd qs) \<Longrightarrow> clocked key logs \<Longrightarrow> \<forall>i \<in> set is. i < length logs \<Longrightarrow>
   es = (if flag then [] else window_answer t0 t1 key (map (\<lambda>i. logs ! i) is)) \<Longrightarrow>
   \<exists>qs'. time_bulks t0 t1 key is flag num qs = Inr (num + length es, qs') \<and> answered logs qs es qs'"
proof (induction "is" arbitrary: num qs es flag)
  case Nil
  then show ?case using answered_refl by auto
next
  case (Cons i "is")
  obtain dm hr where qs: "qs = (dm, hr)" by (cases qs)
  have i: "i < length logs" "logs ! i \<in> set logs" using Cons.prems(4) by simp_all
  have dm: "dm_repr dm logs" "handler_inv hr" using Cons.prems(1,2) qs by simp_all
  let ?flag = "flag \<or> last_time (logs ! i) < t0"
  obtain r h w where st: "bh_Search_time_key t0 t1 key flag (bulk_handler_list dm ! i) (wld dm) = Inr ((?flag, r), h, w)"
    "query_keeps (bulk_handler_list dm ! i) (wld dm) h w (logs ! i)" "\<forall>s \<in> set (selected r). s < length (logs ! i)"
    "map (\<lambda>s. logs ! i ! s) (selected r) = filter (in_window t0 t1 key) (logs ! i)"
    using Search_time_answers [OF handler_at [OF dm(1) i(1)] Cons.prems(3) i(2)] by blast
  let ?qs1 = "(put_handler i h w dm, hr)" and ?a = "if ?flag then [] else filter (in_window t0 t1 key) (logs ! i)"
  have q1: "answered logs qs [] ?qs1" unfolding qs by (rule answered_put [OF dm i(1) st(2)])
  obtain qs2 where q2: "(if \<not> ?flag then bindE (answer_range i (selected r) ?qs1) (\<lambda>qs. Inr (num + length (selected r), qs))
      else Inr (num, ?qs1)) = Inr (num + length ?a, qs2)" "answered logs ?qs1 ?a qs2"
  proof (cases ?flag)
    case True
    with that [of ?qs1] answered_refl answered_ready [OF q1] show ?thesis by auto
  next
    case False
    have "length (selected r) = length (filter (in_window t0 t1 key) (logs ! i))"
      using arg_cong [OF st(4), of length] by simp
    with False answer_range_repr [OF _ _ i(1) st(3), of ?qs1] answered_ready [OF q1] st(4) that show ?thesis
      by auto
  qed
  let ?b = "if ?flag then [] else window_answer t0 t1 key (map (\<lambda>i. logs ! i) is)"
  obtain qs3 where q3: "time_bulks t0 t1 key is ?flag (num + length ?a) qs2 = Inr (num + length ?a + length ?b, qs3)"
    "answered logs qs2 ?b qs3"
    using Cons.IH [of qs2 ?b ?flag "num + length ?a"] answered_ready [OF q2(2)] Cons.prems(3,4) by auto
  have es: "es = ?a @ ?b" using Cons.prems(5) by auto
  have "time_bulks t0 t1 key (i # is) flag num qs = Inr (num + length ?a + length ?b, qs3)"
    unfolding qs time_bulks.simps st(1) bindE.simps prod.case q2(1) q3(1) ..
  then have "time_bulks t0 t1 key (i # is) flag num qs = Inr (num + length es, qs3)" unfolding es by simp
  moreover have "answered logs qs es qs3" unfolding es using answered_trans [OF answered_trans [OF q1 q2(2)] q3(2)] by simp
  ultimately show ?case by blast
qed

section \<open>The bulks of a key\<close>

lemma last_time_in: "l \<noteq> [] \<Longrightarrow> last_time l \<in> le_time ` set l"
proof (induction l rule: rev_induct)
  case (snoc e l)
  then show ?case by (cases "l = []") (auto simp: last_time_snoc latest_def last_time_def word_gt_0)
qed simp

lemma bulks_of_key_nonempty: "i \<in> set (bulks_of_key key logs) \<Longrightarrow> logs ! i \<noteq> [] \<and> i < length logs"
  by (auto simp: bulks_of_key_def)

text \<open>In particular when no time of the whole log falls, every key is clocked.\<close>

lemma ordered_times_clocked:
  assumes srt: "sorted (map le_time (concat logs))" and nz: "\<forall>e \<in> set (concat logs). le_time e \<noteq> 0"
  shows "clocked key logs"
proof -
  have bulk: "sorted (map le_time (filter P l))" if l: "l \<in> set logs" for P l
  proof -
    obtain xs ys where "logs = xs @ l # ys" using l by (meson split_list)
    with srt have "sorted (map le_time l)" by (auto simp: sorted_append)
    then show ?thesis by (simp add: sorted_filter)
  qed
  have ends: "sorted (map (\<lambda>i. last_time (logs ! i)) (bulks_of_key key logs))"
  proof -
    have le: "last_time (logs ! i) \<le> last_time (logs ! j)"
      if "i < j" "j < length logs" "logs ! i \<noteq> []" "logs ! j \<noteq> []" for i j
    proof -
      have "logs = take j logs @ logs ! j # drop (Suc j) logs" using that(2) by (rule id_take_nth_drop)
      then have "concat logs = concat (take j logs) @ logs ! j @ concat (drop (Suc j) logs)"
        by (metis concat.simps(2) concat_append)
      moreover have "logs ! i \<in> set (take j logs)" using that(1,2) by (auto simp: in_set_conv_nth)
      then have "set (logs ! i) \<subseteq> set (concat (take j logs))" by auto
      ultimately have "\<forall>x \<in> set (logs ! i). \<forall>y \<in> set (logs ! j). le_time x \<le> le_time y"
        using srt by (auto simp: sorted_append)
      with last_time_in [OF that(3)] last_time_in [OF that(4)] show ?thesis by auto
    qed
    have "sorted_wrt (<) (bulks_of_key key logs)" by (simp add: bulks_of_key_def sorted_wrt_filter)
    then have "sorted_wrt (\<lambda>i j. last_time (logs ! i) \<le> last_time (logs ! j)) (bulks_of_key key logs)"
      by (rule sorted_wrt_mono_rel [rotated]) (use le bulks_of_key_nonempty in blast)
    then show ?thesis by (simp add: sorted_wrt_map)
  qed
  show ?thesis using nz bulk ends by (simp add: clocked_def)
qed

lemma sorted_ends: "clocked key logs \<Longrightarrow> sorted (map (\<lambda>i. last_time (logs ! i)) (bulks_of_key key logs))"
  by (simp add: clocked_def)



text \<open>The window's ends as the code reads them.\<close>

definition window_start :: "ReqData \<Rightarrow> u64" where
  "window_start req = to_uint64 (to_int32 (req_start req))"

definition window_end :: "ReqData \<Rightarrow> u64" where
  "window_end req = to_uint64 (to_int32 (req_end req))"

text \<open>The whole query for a known key, given the bulk it starts with.\<close>

lemma SearchTime_run:
  assumes dm: "dm_repr dm logs" and clk: "clocked (req_key req) logs"
    and req: "Valid req" "req_type req = T_SearchTime" and known: "bulks_of_key (req_key req) logs \<noteq> []"
    and r: "Find_start_time_bulkhandler (window_start req) (map (\<lambda>i. last_time (logs ! i)) (bulks_of_key (req_key req) logs)) = Inr r" "0 \<le> r"
    and es: "es = window_answer (window_start req) (window_end req) (req_key req) (map (\<lambda>i. logs ! i) (drop (nat r) (bulks_of_key (req_key req) logs)))"
    and n: "length es < 10 ^ 19"
  shows "\<exists>dm'. SearchTime_log now0 now1 req dm = Inr (1, dm') \<and> dm_repr dm' logs
     \<and> answer_sent dm dm' (req_client_id req) (shown_text es @ no_result_bytes (es = []))
         (length es + (if es = [] then 1 else 0)) (now1 - now0)"
proof -
  let ?hr = "new_QueryResultHandler (req_client_id req) now0" and ?b = "bulks_of_key (req_key req) logs"
  obtain qs where qs: "time_bulks (window_start req) (window_end req) (req_key req) (drop (nat r) ?b) False 0 (dm, ?hr) = Inr (length es, qs)"
    "answered logs (dm, ?hr) es qs"
  proof -
    have "\<forall>i \<in> set (drop (nat r) ?b). i < length logs" using bulks_of_key_less by (auto dest: in_set_dropD)
    from time_bulks_repr [OF _ _ clk this, of "(dm, ?hr)" es False "window_start req" "window_end req" 0] dm new_handler_inv es that
    show ?thesis by auto
  qed
  have "bh_end_time (bulk_handler_list dm ! i) = last_time (logs ! i)" if "i \<in> set ?b" for i
    using handler_at [OF dm bulks_of_key_less [OF that]] by (simp add: handler_repr_def header_ok_def)
  then have ends: "map (\<lambda>i. bh_end_time (bulk_handler_list dm ! i)) ?b = map (\<lambda>i. last_time (logs ! i)) ?b" by simp
  have start: "Find_start_time_bulkhandler (window_start req) (map (\<lambda>i. bh_end_time (bulk_handler_list dm ! i)) ?b) = Inr r"
    unfolding ends by (rule r(1))
  have find: "Find_key_in_global_trie (req_key req) dm = Some ?b"
    using Find_key_bulks [OF dm, of "req_key req"] known by (cases "Find_key_in_global_trie (req_key req) dm") auto
  from close_answer [OF qs(2) n, of "es = []" now1] obtain dm1 hr1 dm' where
    c: "answer_no_result (es = []) qs = Inr (dm1, hr1)" "finish_answer now1 hr1 dm1 = Inr dm'" "dm_repr dm' logs"
    "answer_sent dm dm' (req_client_id req) (shown_text es @ no_result_bytes (es = [])) (length es + (if es = [] then 1 else 0)) (now1 - now0)"
    by blast
  have "SearchTime_log now0 now1 req dm = Inr (1, dm')"
    using req find start r(2) qs(1) c(1,2) by (simp add: SearchTime_log_def Let_def window_start_def window_end_def)
  with c(3,4) show ?thesis by blast
qed

text \<open>A prefix of a known key has a node, so the search gives a list, an empty one.\<close>

lemma node_search_prefix: "node_search (q @ rest) n \<noteq> None \<Longrightarrow> node_search q n \<noteq> None"
  by (induction q n rule: node_search.induct) (auto split: option.splits)

lemma Find_key_prefix:
  assumes "dm_repr dm logs" "e \<in> set (concat logs)" "le_key e = q @ rest" "\<forall>e \<in> set (concat logs). le_key e \<noteq> q"
  shows "Find_key_in_global_trie q dm = Some []"
proof -
  let ?t = "Global_key_bulk_handler_trie dm"
  obtain l where "l \<in> set logs" "e \<in> set l" using assms(2) by auto
  then obtain i where "i < length logs" "e \<in> set (logs ! i)" by (auto simp: in_set_conv_nth)
  moreover from this(2) have "q @ rest \<in> le_key ` set (logs ! i)" unfolding assms(3) [symmetric] by (rule imageI)
  ultimately have "i \<in> set (bulks_of_key (q @ rest) logs)" by (simp add: bulks_of_key_def)
  then have "bulks_of_key (q @ rest) logs \<noteq> []" by auto
  then have "trie_search (q @ rest) ?t \<noteq> None" using assms(1) by (auto simp: dm_repr_def trie_list_def split: option.splits)
  then have "trie_search q ?t \<noteq> None" using node_search_prefix [of q rest] by (auto simp: trie_search_def split: option.splits if_splits)
  moreover have "bulks_of_key q logs = []" using assms(4) by (auto simp: bulks_of_key_def filter_empty_conv)
  ultimately show ?thesis using Find_key_bulks [OF assms(1), of q] by (auto simp: Find_key_in_global_trie_def)
qed

section \<open>A store of two bulks, for the witnesses\<close>

text \<open>The first bulk is saved and the next entry opens a second one.\<close>

definition late_entry :: log_entry where
  "late_entry = \<lparr>le_key = ''k1'', le_time = 30, le_content = ''Blue!''\<rparr>"

definition two_bulks :: "data_manager res" where
  "two_bulks = bindE sample_store (\<lambda>dm. bindE (Persistence (bulk_handler_list dm ! 0) (wld dm)) (\<lambda>(_, h, w).
     bindE (Append_log (append_req late_entry) (put_handler 0 h w dm)) (\<lambda>(_, dm'). Inr dm')))"

lemma two_bulks_repr: "\<exists>dm. two_bulks = Inr dm \<and> dm_repr dm [sample_log, [late_entry]]"
proof -
  obtain dm where dm: "sample_store = Inr dm" "dm_repr dm [sample_log]" "bh_state (bulk_handler_list dm ! 0) = Appending"
    "\<not> Full (bulk_data_queue (wld dm))" using sample_store_repr by blast
  let ?h = "bulk_handler_list dm ! 0"
  have h: "handler_repr ?h (files (wld dm)) sample_log" using handler_at [OF dm(2), of 0] by simp
  have live: "bh_state ?h \<noteq> Saved" using dm(3) by simp
  obtain h' w' where p: "Persistence ?h (wld dm) = Inr (True, h', w')" "handler_repr h' (files w') sample_log" "bh_state h' = Saved"
    "hid h' = hid ?h" "start_serial (bulk h') = start_serial (bulk ?h)" "\<forall>p. p \<notin> own_paths (file_num ?h) \<longrightarrow> files w' p = files (wld dm) p"
    "bulk_data_queue w' = (case unit_slot ?h of None \<Rightarrow> bulk_data_queue (wld dm)
       | Some p \<Rightarrow> (bulk_data_queue (wld dm))\<lparr>slots := (slots (bulk_data_queue (wld dm)))[p := [None]]\<rparr>)"
    using Persistence_repr [OF h live] by blast
  have "hid ?h = 0" "start_serial (bulk ?h) = of_nat (first_serial [sample_log] 0)"
    using dm(2) by (simp_all add: dm_repr_def bulk_at_def Let_def)
  then have dm1: "dm_repr (put_handler 0 h' w' dm) ([] @ [sample_log])"
    using p by (intro put_handler_repr) (use dm(2) in \<open>auto simp: sample_log_def\<close>)
  have free: "\<not> Full (bulk_data_queue (wld (put_handler 0 h' w' dm)))"
    using p(7) dm(4) by (cases "unit_slot ?h") (simp_all add: Full_def)
  have len: "length (bulk_handler_list dm) = 1" using dm(2) by (simp add: dm_repr_def)
  have valid: "Valid (append_req late_entry)" by (simp add: append_req_def Valid_def late_entry_def)
  have st: "storable (entry_of (append_req late_entry))" unfolding entry_of_append_req by code_simp
  have short: "length (line_of (entry_of (append_req late_entry))) + 1 < BULKSIZE"
    by (simp add: late_entry_def line_of_def format_line_def show_nat.simps config_defs)
  have closed: "bh_state (bulk_handler_list (put_handler 0 h' w' dm) ! length []) \<noteq> Appending
     \<or> \<not> length (text_of sample_log) + length (line_of (entry_of (append_req late_entry))) + 1 < BULKSIZE"
    using p(3) len by simp
  have total: "Suc (length (concat ([] @ [sample_log]))) < 2 ^ 31" by (simp add: sample_log_def)
  from Append_log_refused [OF dm1 valid st short closed free total] obtain dm2 where
    a: "Append_log (append_req late_entry) (put_handler 0 h' w' dm) = Inr (1, dm2)" "dm_repr dm2 [sample_log, [late_entry]]"
    by auto
  have "two_bulks = Inr dm2"
    by (simp only: two_bulks_def dm(1) bindE.simps prod.case p(1) a(1))
  with a(2) show ?thesis by blast
qed

lemma two_bulks_clocked: "clocked key [sample_log, [late_entry]]"
  by (rule ordered_times_clocked) (simp_all add: sample_log_def late_entry_def)

section \<open>Properties\<close>

text \<open>
  A search for several words answers from the whole log: the lines, as an answer shows them, of the entries that contain
  every word, newest first and at most 50001 of them; an entry that contains all words several times
  is answered as often as its rarest word occurs.  The result is what is left of the limit.
\<close>

lemma Search_log_all_words:
  assumes "dm_repr dm logs" and "Valid req" and "req_type req = T_Search"
    and "length (Split_key_word (req_keyword req)) > 1"
    and "length (repeated (Split_key_word (req_keyword req)) (concat logs)) < 10 ^ 19"
  shows "let es = take 50001 (rev (repeated (Split_key_word (req_keyword req)) (concat logs))); none = (length es = 50000)
     in \<exists>dm'. Search_log now0 now1 req dm = Inr (50000 - int (length es), dm') \<and> dm_repr dm' logs
          \<and> answer_sent dm dm' (req_client_id req) (shown_text es @ no_result_bytes none)
              (length es + (if none then 1 else 0)) (now1 - now0)"
proof -
  let ?hr = "new_QueryResultHandler (req_client_id req) now0" and ?ws = "Split_key_word (req_keyword req)"
  define es where "es = take 50001 (rev (repeated ?ws (concat logs)))"
  have ws: "?ws \<noteq> []" using assms(4) by auto
  have len: "length (bulk_handler_list dm) = length logs" using assms(1) by (simp add: dm_repr_def)
  obtain qs where qs: "join_bulks ?ws (length logs) MAX_NUM_RESULT (dm, ?hr) = Inr (50000 - int (length es), qs)"
    "answered logs (dm, ?hr) es qs"
    using join_bulks_repr [OF _ _ order_refl ws refl, of "(dm, ?hr)" logs MAX_NUM_RESULT]
      assms(1) new_handler_inv by (auto simp: es_def MAX_NUM_RESULT_def)
  have "length es \<le> length (repeated ?ws (concat logs))" by (simp add: es_def)
  then have "length es < 10 ^ 19" using assms(5) by (rule order_le_less_trans)
  from close_answer [OF qs(2) this, of "length es = 50000" now1] obtain dm1 hr1 dm' where
    c: "answer_no_result (length es = 50000) qs = Inr (dm1, hr1)" "finish_answer now1 hr1 dm1 = Inr dm'" "dm_repr dm' logs"
    "answer_sent dm dm' (req_client_id req) (shown_text es @ no_result_bytes (length es = 50000))
       (length es + (if length es = 50000 then 1 else 0)) (now1 - now0)" by blast
  have none: "(50000 - int (length es) = 0) = (length es = 50000)" by auto
  have "Search_log now0 now1 req dm = Inr (50000 - int (length es), dm')"
    using assms(2-4) len qs(1) c(1,2) none by (simp add: Search_log_def Let_def)
  with c(3,4) show ?thesis unfolding es_def Let_def by blast
qed

text \<open>
  C32. A search for a single word fails as soon as it finds something: after the first hit the loop
  advances the pointer to the list instead of its iterator and reads beyond the list.  Only a word
  that occurs nowhere gets an answer, an empty one.
\<close>

theorem Search_log_single_word:
  assumes "dm_repr dm logs" and "Valid req" and "req_type req = T_Search"
    and "length (Split_key_word (req_keyword req)) = 1"
  shows "if \<exists>e \<in> set (concat logs). req_keyword req \<in> set (words_of e) then Search_log now0 now1 req dm = Inl UB
     else \<exists>dm'. Search_log now0 now1 req dm = Inr (50000, dm') \<and> dm_repr dm' logs
            \<and> answer_sent dm dm' (req_client_id req) [] 0 (now1 - now0)"
proof -
  let ?hr = "new_QueryResultHandler (req_client_id req) now0" and ?q = "req_keyword req"
  have len: "length (bulk_handler_list dm) = length logs" using assms(1) by (simp add: dm_repr_def)
  have run: "if \<exists>e \<in> set (concat logs). ?q \<in> set (words_of e) then single_bulks ?q (length logs) 50000 (dm, ?hr) = Inl UB
      else \<exists>qs. single_bulks ?q (length logs) 50000 (dm, ?hr) = Inr (50000, qs) \<and> answered logs (dm, ?hr) [] qs"
    using single_bulks_repr [OF _ _ order_refl, of "(dm, ?hr)" logs 50000 ?q] assms(1) new_handler_inv by simp
  show ?thesis
  proof (cases "\<exists>e \<in> set (concat logs). ?q \<in> set (words_of e)")
    case True
    with run have "single_bulks ?q (length logs) 50000 (dm, ?hr) = Inl UB" by simp
    with True assms(2-4) len show ?thesis by (simp add: Search_log_def Let_def MAX_NUM_RESULT_def)
  next
    case False
    with run obtain qs where qs: "single_bulks ?q (length logs) 50000 (dm, ?hr) = Inr (50000, qs)" "answered logs (dm, ?hr) [] qs"
      by (simp split: if_splits) blast
    from close_answer [OF qs(2), of False now1] obtain dm1 hr1 dm' where
      c: "answer_no_result False qs = Inr (dm1, hr1)" "finish_answer now1 hr1 dm1 = Inr dm'" "dm_repr dm' logs"
      "answer_sent dm dm' (req_client_id req) [] 0 (now1 - now0)"
      by (auto simp: no_result_bytes_def)
    have "Search_log now0 now1 req dm = Inr (50000, dm')"
      using assms(2-4) len qs(1) c(1,2) by (simp add: Search_log_def Let_def MAX_NUM_RESULT_def)
    with False c(3,4) show ?thesis by simp
  qed
qed

theorem Search_log_single_word_witness:
  "\<exists>dm dm'. sample_store = Inr dm \<and> Search_log 3 8 (query_req T_Search ''moon'') dm = Inl UB
     \<and> Search_log 3 8 (query_req T_Search ''mars'') dm = Inr (50000, dm') \<and> answer_sent dm dm' 7 [] 0 5"
proof -
  let ?r = "query_req T_Search"
  obtain dm where dm: "sample_store = Inr dm" "dm_repr dm [sample_log]" using sample_store_repr by blast
  have r: "Valid (?r ''moon'')" "Valid (?r ''mars'')" "req_type (?r q) = T_Search" "req_keyword (?r q) = q" "req_client_id (?r q) = 7" for q
    by (simp_all add: query_req_def Valid_def)
  have one: "length (Split_key_word ''moon'') = 1" "length (Split_key_word ''mars'') = 1" by code_simp+
  have occurs: "\<exists>e \<in> set (concat [sample_log]). ''moon'' \<in> set (words_of e)"
    "\<not> (\<exists>e \<in> set (concat [sample_log]). ''mars'' \<in> set (words_of e))" by code_simp+
  have "Search_log 3 8 (?r ''moon'') dm = Inl UB"
    using Search_log_single_word [OF dm(2) r(1,3), of 3 8] one(1) occurs(1) unfolding r(4) by argo
  moreover have "\<exists>dm'. Search_log 3 8 (?r ''mars'') dm = Inr (50000, dm') \<and> answer_sent dm dm' 7 [] 0 5"
    using Search_log_single_word [OF dm(2) r(2,3), of 3 8] one(2) occurs(2) unfolding r(4,5)
    by (simp split: if_splits) blast
  ultimately show ?thesis using dm(1) by blast
qed



text \<open>
  C31. Otherwise the time search loses its answer.  Take times as in the exact case (\<open>clocked\<close>: none is
  zero, those under the key do not fall within a bulk, and the bulks that hold the key end in order):
  when the window starts after the first bulk of the key ends (and at no bulk's very end), the bulk probed first ends before the window, the flag that
  ends the search is raised there and never lowered, and the answer is that nothing was found,
  whatever later bulks hold.
\<close>

theorem SearchTime_log_loses:
  assumes "dm_repr dm logs" and "clocked (req_key req) logs" and "Valid req" and "req_type req = T_SearchTime"
    and "bulks_of_key (req_key req) logs \<noteq> []"
    and "last_time (logs ! hd (bulks_of_key (req_key req) logs)) < window_start req"
    and "window_start req \<notin> last_time ` set logs"
  shows "\<exists>dm'. SearchTime_log now0 now1 req dm = Inr (1, dm') \<and> dm_repr dm' logs
     \<and> answer_sent dm dm' (req_client_id req) (no_result @ [nul]) 1 (now1 - now0)"
proof -
  let ?b = "bulks_of_key (req_key req) logs" and ?t0 = "window_start req" and ?t1 = "window_end req"
  let ?ends = "map (\<lambda>i. last_time (logs ! i)) ?b"
  have srt: "sorted ?ends" by (rule sorted_ends [OF assms(2)])
  have ne: "?ends \<noteq> []" using assms(5) by simp
  have first: "?ends ! 0 \<le> ?t0" using assms(5,6) by (simp add: hd_conv_nth)
  obtain r where r: "Find_start_time_bulkhandler ?t0 ?ends = Inr r" "0 \<le> r" "r < int (length ?ends)" "?ends ! nat r \<le> ?t0"
    using Find_start_time_bulkhandler_spec [OF srt ne, of ?t0] first by blast
  have n: "nat r < length ?b" using r(2,3) by simp
  let ?i = "?b ! nat r"
  have "logs ! ?i \<in> set logs" by (rule nth_mem [OF bulks_of_key_less [OF nth_mem [OF n]]])
  then have "last_time (logs ! ?i) \<noteq> ?t0" using assms(7) by (metis imageI)
  then have "last_time (logs ! ?i) < ?t0" using r(4) n by simp
  moreover have "drop (nat r) ?b = ?i # drop (Suc (nat r)) ?b" by (rule Cons_nth_drop_Suc [OF n, symmetric])
  ultimately have "[] = window_answer ?t0 ?t1 (req_key req) (map (\<lambda>i. logs ! i) (drop (nat r) ?b))" by simp
  from SearchTime_run [OF assms(1-5) r(1,2) this, of now0 now1] show ?thesis
    by (simp add: no_result_bytes_def)
qed

theorem SearchTime_log_loses_witness:
  "\<exists>dm dm'. two_bulks = Inr dm \<and> filter (in_window 16 40 ''k1'') (concat [sample_log, [late_entry]]) = [late_entry]
     \<and> SearchTime_log 3 8 ((query_req T_SearchTime ''k1'')\<lparr>req_start := 16, req_end := 40\<rparr>) dm = Inr (1, dm')
     \<and> answer_sent dm dm' 7 (no_result @ [nul]) 1 5"
proof -
  let ?r = "(query_req T_SearchTime ''k1'')\<lparr>req_start := 16, req_end := 40\<rparr>" and ?logs = "[sample_log, [late_entry]]"
  obtain dm where dm: "two_bulks = Inr dm" "dm_repr dm ?logs" using two_bulks_repr by blast
  have r: "Valid ?r" "req_type ?r = T_SearchTime" "req_key ?r = ''k1''" "req_client_id ?r = 7" "window_start ?r = 16"
    using to_int32_small [of 16] by (simp_all add: query_req_def Valid_def window_start_def to_uint64_def)
  have b: "bulks_of_key ''k1'' ?logs = [0, 1]"
    by (simp add: bulks_of_key_def sample_log_def late_entry_def upt_rec)
  have ends: "last_time (?logs ! hd [0, 1]) < 16" "16 \<notin> last_time ` set ?logs" "[0::nat, 1] \<noteq> []"
    by (simp_all add: sample_log_def late_entry_def last_time_def latest_def)
  have es: "filter (in_window 16 40 ''k1'') (concat ?logs) = [late_entry]"
    by (simp add: sample_log_def late_entry_def in_window_def)
  have "\<exists>dm'. SearchTime_log 3 8 ?r dm = Inr (1, dm') \<and> answer_sent dm dm' 7 (no_result @ [nul]) 1 5"
    using SearchTime_log_loses [OF dm(2) two_bulks_clocked r(1,2), of 3 8] ends unfolding r(3-5) b by auto
  with dm(1) es show ?thesis by blast
qed

text \<open>
  A time search for a word that is no key but the beginning of one is undefined behaviour: the
  key index answers an empty list instead of a null pointer, the search for the first bulk gives -1,
  and the loop reads the list at that index.
\<close>

lemma SearchTime_log_key_prefix:
  assumes "dm_repr dm logs" and "Valid req" and "req_type req = T_SearchTime"
    and "e \<in> set (concat logs)" and "le_key e = req_key req @ rest" and "\<forall>e \<in> set (concat logs). le_key e \<noteq> req_key req"
  shows "SearchTime_log now0 now1 req dm = Inl UB"
  using Find_key_prefix [OF assms(1,4,5,6)] assms(2,3)
  by (simp add: SearchTime_log_def Let_def Find_start_time_bulkhandler_def)

text \<open>
  A request of the wrong type or without its parameters is refused by every query handler but
  the recent one: the answer says so and the log is kept.
\<close>

lemma queries_refuse:
  assumes "dm_repr dm logs"
  shows "(\<not> Valid req \<or> req_type req \<noteq> T_Getkey \<longrightarrow> Getkey_log now0 now1 req dm = refuse now1 (new_QueryResultHandler (req_client_id req) now0) dm)
     \<and> (\<not> Valid req \<or> req_type req \<noteq> T_Search \<longrightarrow> Search_log now0 now1 req dm = refuse now1 (new_QueryResultHandler (req_client_id req) now0) dm)
     \<and> (\<not> Valid req \<or> req_type req \<noteq> T_SearchTime \<longrightarrow> SearchTime_log now0 now1 req dm = refuse now1 (new_QueryResultHandler (req_client_id req) now0) dm)
     \<and> (\<not> Valid req \<or> req_type req \<noteq> T_LogCount \<longrightarrow> LogCount_log now0 now1 req dm = refuse now1 (new_QueryResultHandler (req_client_id req) now0) dm)
     \<and> (\<exists>dm'. refuse now1 (new_QueryResultHandler (req_client_id req) now0) dm = Inr (- 1, dm') \<and> dm_repr dm' logs
          \<and> answer_sent dm dm' (req_client_id req) (invalid_answer @ [nul]) 1 (now1 - now0))"
proof -
  let ?hr = "new_QueryResultHandler (req_client_id req) now0"
  have hr: "handler_inv ?hr" "delivered ?hr = []" "hr_count ?hr = 0" "hr_client_id ?hr = req_client_id req" "hr_start_time ?hr = now0"
    using new_handler_inv by (simp_all add: new_QueryResultHandler_def)
  have fits: "length invalid_answer + 2 < logs_size" by (simp add: invalid_answer_def logs_size_val)
  have nf: "nul_free invalid_answer" by (simp add: invalid_answer_def) (simp add: nul_def)
  obtain hr1 where hr1: "hr_Append invalid_answer (length invalid_answer) ?hr = Inr hr1" "handler_inv hr1"
    "delivered hr1 = invalid_answer @ [nul]" "hr_count hr1 = 1" "hr_client_id hr1 = req_client_id req" "hr_start_time hr1 = now0"
    using hr_Append_inv [OF hr(1) fits, of invalid_answer] with_nul_bytes [OF nf] hr(2-5) by auto
  have "hr_count hr1 < 10 ^ 20" using hr1(4) by simp
  from finish_sent [OF hr1(2) assms this, of now1] hr1 have "\<exists>dm'. refuse now1 ?hr dm = Inr (- 1, dm') \<and> dm_repr dm' logs
      \<and> answer_sent dm dm' (req_client_id req) (invalid_answer @ [nul]) 1 (now1 - now0)"
    by (auto simp: refuse_def)
  then show ?thesis by (auto simp: Getkey_log_def Search_log_def SearchTime_log_def LogCount_log_def Let_def)
qed

end
