(* ===== verification/Log_Service.thy ===== *)
theory Log_Service
  imports Http_Parser Msg_Queue
begin

text \<open>
  \<^verbatim>\<open>include/Log_service.h\<close> and \<^verbatim>\<open>src/log_service/log_service.cpp\<close>: the library a client links to send
  its log lines.  Every call makes one request line and puts it into the message queue it shares
  with the sender.  The file's globals are a record; the text of \<^verbatim>\<open>cody_log\<close> is what its format string
  and arguments print.
\<close>

section \<open>State\<close>

record log_service =
  server_id :: string
  key_counter :: u64
  rand_state :: nat
  key_list :: "string list"
  client_queue :: "char MsgQueue"

definition new_log_service :: "char MsgQueue \<Rightarrow> log_service" where
  "new_log_service q = \<lparr>server_id = [], key_counter = 3, rand_state = 1, key_list = replicate 30 [], client_queue = q\<rparr>"

text \<open>The test clock: a third of a tick per call.\<close>

definition Get_time_sec :: "log_service \<Rightarrow> u64 \<times> log_service" where
  "Get_time_sec s = (let k = key_counter s + 1 in (k div 3, s\<lparr>key_counter := k\<rparr>))"

definition rand30 :: "log_service \<Rightarrow> nat \<times> log_service" where
  "rand30 s = (let r = (rand_state s + 4159) mod 48413 in (r mod 30, s\<lparr>rand_state := r\<rparr>))"

definition Get_key :: "log_service \<Rightarrow> (string \<times> log_service) res" where
  "Get_key s = (let (i, s') = rand30 s in if i < length (key_list s') then Inr (key_list s' ! i, s') else Inl UB)"

section \<open>Initialisation\<close>

definition key_array :: string where
  "key_array = ''vtxvccMh6FLkWqV7ZlnsRIwaZcURnFquFlTWvlKLOgv86LNzUobAj488ExgUDUKu4jvjl2RnpipITStA7ELMrf5Ytz'' @ [nul]"

text \<open>
  \<^verbatim>\<open>char a[10]; strncpy(a, key_array+i*3, 10); key_l[i] = a;\<close>: the array is read up to its first NUL.
\<close>

fun init_keys :: "nat list \<Rightarrow> string list \<Rightarrow> string list res" where
  "init_keys [] ks = Inr ks"
| "init_keys (i # is') ks = bindE (read_cstr (c_strncpy (drop (i * 3) key_array) 10)) (\<lambda>a. init_keys is' (ks[i := a]))"

text \<open>The queue lives in shared memory; a queue the sender has not made yet is spun on.\<close>

definition init_cody_log_service :: "string \<Rightarrow> char MsgQueue \<Rightarrow> log_service \<Rightarrow> log_service res" where
  "init_cody_log_service server_id' shm s =
     (let s1 = s\<lparr>server_id := cstr (lgy_strncpy server_id' (KEY_LEN - 1)), client_queue := shm\<rparr>
      in if \<not> isInit (client_queue s1) then Inl Waits
         else bindE (init_keys [0..<30] (key_list s1)) (\<lambda>ks. Inr (s1\<lparr>key_list := ks\<rparr>)))"

section \<open>Sending a line\<close>

text \<open>The request line, written by both calls through a string stream.\<close>

definition request_line :: "string \<Rightarrow> log_service \<Rightarrow> (string \<times> log_service) res" where
  "request_line content s =
     bindE (Get_key s) (\<lambda>(k, s1). let (t, s2) = Get_time_sec s1 in Inr (append_line k (unat t) content, s2))"

text \<open>A queue on which a write gives 0 for ever is spun on for ever.\<close>

definition send_wait :: "string \<Rightarrow> log_service \<Rightarrow> log_service res" where
  "send_wait msg s =
     (case WriteToMsgQueue_Wait (Some msg) CLIENT_STR_LEN (client_queue s) of
        Some (Suc _, q) \<Rightarrow> Inr (s\<lparr>client_queue := q\<rparr>)
      | _ \<Rightarrow> Inl Waits)"

definition send_spin :: "string \<Rightarrow> log_service \<Rightarrow> log_service res" where
  "send_spin msg s =
     (case WriteToMsgQueue (Some msg) CLIENT_STR_LEN (client_queue s) of
        (Suc _, q) \<Rightarrow> Inr (s\<lparr>client_queue := q\<rparr>)
      | _ \<Rightarrow> Inl Waits)"

text \<open>
  \<^verbatim>\<open>msg\<close> first holds the text, as much of it as \<^verbatim>\<open>vsnprintf\<close> puts there, then the request line.  The
  encoded server name is made and thrown away.
\<close>

definition cody_log :: "string \<Rightarrow> log_service \<Rightarrow> log_service res" where
  "cody_log printed s =
     (let msg = buf_write 0 (take (CLIENT_STR_LEN - 2) printed @ [nul]) (replicate CLIENT_STR_LEN nul);
          encode_str = url_encode (cstr msg)
      in bindE (request_line encode_str s) (\<lambda>(line, s1).
           send_wait (buf_write 0 (lgy_strncpy line (CLIENT_STR_LEN - 2)) msg) s1))"

text \<open>The string passed by reference is left encoded.\<close>

definition cody_log_string :: "string \<Rightarrow> log_service \<Rightarrow> (string \<times> log_service) res" where
  "cody_log_string str s =
     (let str' = url_encode_string str
      in bindE (request_line str' s) (\<lambda>(line, s1).
           let msg = buf_write 0 (lgy_strncpy line (CLIENT_STR_LEN - 2)) (replicate CLIENT_STR_LEN nul)
           in bindE (send_spin msg s1) (\<lambda>s2. Inr (str', s2))))"

definition debug_send_persistense :: "log_service \<Rightarrow> log_service res" where
  "debug_send_persistense s = send_spin (c_strncpy (''GET /persistence& HTTP/1.1'' @ [newline]) CLIENT_STR_LEN) s"

section \<open>Lemmas\<close>

definition unreserved :: "string \<Rightarrow> bool" where
  "unreserved k \<longleftrightarrow> list_all (\<lambda>c. \<not> needs_escape c) k"

lemma unreserved_encode: "unreserved k \<Longrightarrow> url_encode k = k"
  by (induction k) (auto simp: unreserved_def)

lemma unreserved_decode: "unreserved k \<Longrightarrow> url_decode k = k"
  by (metis unreserved_encode decode_encode)

lemma decode_field_encode: "nul_free s \<Longrightarrow> decode_field n (url_encode s) = take (n - 1) s"
  by (simp add: decode_field_def cstr_lgy_strncpy cstr_nul_free)

text \<open>What the calls rely on: the queue of the sender, and keys that need no escape.\<close>

definition client_ok :: "log_service \<Rightarrow> bool" where
  "client_ok s \<longleftrightarrow> queue_inv (client_queue s) \<and> one_msg_size (client_queue s) = CLIENT_STR_LEN
     \<and> length (key_list s) = 30 \<and> (\<forall>k \<in> set (key_list s). k \<noteq> [] \<and> unreserved k)"

definition line_of_request :: "string \<Rightarrow> u64 \<Rightarrow> string \<Rightarrow> ReqData" where
  "line_of_request k t c = new_ReqData\<lparr>req_type := T_Append, req_key := take (KEY_LEN - 1) k, req_time := t, req_content := c\<rparr>"

lemma plain_encoded:
  "plain CHR ''&'' (url_encode s)" "plain blank (url_encode s)"
  by (simp_all add: plain_url_encode)

lemma ParseReq_request:
  assumes "unreserved k" "nul_free body" "length body < STR_LEN" "0 < t" "unat t < 2 ^ 63 - 1"
  shows "ParseReq (''GET /append?'' @ append_params k (unat t) (url_encode body) @ blank # rest)
     = Inr (Some (line_of_request k t body))"
proof -
  have k: "plain CHR ''&'' k" "plain blank k" "nul_free k" "decode_field KEY_LEN k = take (KEY_LEN - 1) k"
    using plain_encoded [of k] plain_nul_free [of blank k] unreserved_encode [OF assms(1)]
      decode_field_encode [of k KEY_LEN] by auto
  have "0 < unat t" using assms(4) by (simp add: word_less_nat_alt)
  with ParseReq_append [OF k(1,2) plain_encoded [of body] _ assms(5)] k(4) assms(2,3) show ?thesis
    by (simp add: line_of_request_def decode_field_encode)
qed

lemma lgy_strncpy_split: "nul_free s \<Longrightarrow> \<exists>pad. lgy_strncpy s n = take n s @ nul # pad"
  by (cases "n - length s") (auto simp: lgy_strncpy_def c_strncpy_def cstr_nul_free)

lemma nul_free_line: "unreserved k \<Longrightarrow> nul_free (append_line k t (url_encode body))"
  using plain_encoded(2) [of body] plain_encoded(2) [of k] unreserved_encode [of k]
  by (auto simp: append_line_def append_params_def nul_def dest!: plain_nul_free)

definition line_fits :: "string \<Rightarrow> u64 \<Rightarrow> string \<Rightarrow> bool" where
  "line_fits k t body \<longleftrightarrow> length (append_params k (unat t) (url_encode body)) + 14 < CLIENT_STR_LEN"

lemma request_parsed:
  assumes k: "unreserved k" and body: "nul_free body" and t: "0 < t" "unat t < 2 ^ 63 - 1"
  shows "ParseReq (lgy_strncpy (append_line k (unat t) (url_encode body)) (CLIENT_STR_LEN - 2) @ rest)
     = Inr (if line_fits k t body then Some (line_of_request k t body) else None)"
proof -
  let ?P = "append_params k (unat t) (url_encode body)" and ?n = "CLIENT_STR_LEN - 2"
  obtain pad where pad: "lgy_strncpy (append_line k (unat t) (url_encode body)) ?n
      = take ?n (append_line k (unat t) (url_encode body)) @ nul # pad"
    using lgy_strncpy_split [OF nul_free_line [OF k]] by blast
  have head: "length h = 12 \<Longrightarrow> take (12 + m) (h @ r) = h @ take m r" for h r :: string and m by simp
  have n: "?n = 12 + (CLIENT_STR_LEN - 14)" by (simp add: CLIENT_STR_LEN_def)
  have line: "take ?n (append_line k (unat t) (url_encode body))
      = ''GET /append?'' @ take (CLIENT_STR_LEN - 14) (?P @ blank # ''HTTP/1.1'')"
    unfolding append_line_def n by (subst head) (simp_all add: blank_def)
  show ?thesis
  proof (cases "line_fits k t body")
    case True
    then obtain d where "CLIENT_STR_LEN = 15 + (length ?P + d)"
      by (auto simp: line_fits_def dest!: less_imp_Suc_add)
    then have d: "CLIENT_STR_LEN - 14 = length ?P + Suc d" by simp
    have "take (CLIENT_STR_LEN - 14) (?P @ blank # ''HTTP/1.1'') = ?P @ blank # take d ''HTTP/1.1''"
      unfolding d by simp
    then have m: "lgy_strncpy (append_line k (unat t) (url_encode body)) ?n @ rest
        = ''GET /append?'' @ ?P @ blank # (take d ''HTTP/1.1'' @ nul # pad @ rest)"
      unfolding pad line by simp
    have "length body < STR_LEN"
      using True length_url_encode_ge [of body] by (simp add: line_fits_def append_params_def CLIENT_STR_LEN_def STR_LEN_def)
    from ParseReq_request [OF k body this t] show ?thesis unfolding m using True by simp
  next
    case False
    then have "take (CLIENT_STR_LEN - 14) (?P @ blank # ''HTTP/1.1'') = take (CLIENT_STR_LEN - 14) ?P"
      by (simp add: line_fits_def)
    moreover have "plain blank ?P"
      using plain_append_params plain_encoded(2) [of k] plain_encoded(2) [of body] unreserved_encode [OF k] by simp
    then have "plain blank (take (CLIENT_STR_LEN - 14) ?P)"
      by (metis append_take_drop_id plain_append)
    ultimately have m: "lgy_strncpy (append_line k (unat t) (url_encode body)) ?n @ rest
        = ''GET /append?'' @ take (CLIENT_STR_LEN - 14) ?P @ nul # (pad @ rest)" and p: "plain blank (take (CLIENT_STR_LEN - 14) ?P)"
      unfolding pad line by simp_all
    show ?thesis unfolding m ParseReq_append_cut [OF p] using False by simp
  qed
qed

lemma buf_write_whole: "length bs + 1 = length buf \<Longrightarrow> buf_write 0 bs buf = bs @ [last buf]"
  by (cases buf rule: rev_cases) (auto simp: buf_write_def)

text \<open>What the message of a call is, whichever buffer it was made in.\<close>

definition drawn_key :: "log_service \<Rightarrow> string" where
  "drawn_key s = key_list s ! ((rand_state s + 4159) mod 48413 mod 30)"

lemma Get_key_ok:
  assumes "client_ok s"
  shows "\<exists>s'. Get_key s = Inr (drawn_key s, s') \<and> drawn_key s \<in> set (key_list s) \<and> client_ok s'
     \<and> client_queue s' = client_queue s \<and> key_counter s' = key_counter s \<and> key_list s' = key_list s"
proof -
  let ?r = "(rand_state s + 4159) mod 48413"
  have "?r mod 30 < length (key_list s)" using assms by (simp add: client_ok_def)
  with assms show ?thesis by (simp add: Get_key_def rand30_def Let_def client_ok_def drawn_key_def)
qed

lemma request_line_ok:
  assumes "client_ok s"
  shows "\<exists>s'. request_line c s = Inr (append_line (drawn_key s) (unat ((key_counter s + 1) div 3)) c, s') \<and> drawn_key s \<in> set (key_list s)
     \<and> client_ok s' \<and> client_queue s' = client_queue s \<and> key_counter s' = key_counter s + 1 \<and> key_list s' = key_list s"
  using Get_key_ok [OF assms] by (auto simp: request_line_def Get_time_sec_def Let_def client_ok_def)

lemma send_ok:
  assumes s: "client_ok s" "\<not> Full (client_queue s)" and m: "length msg = CLIENT_STR_LEN"
  shows "\<exists>q. send_wait msg s = Inr (s\<lparr>client_queue := q\<rparr>) \<and> send_spin msg s = Inr (s\<lparr>client_queue := q\<rparr>)
     \<and> contents q = contents (client_queue s) @ [msg] \<and> client_ok (s\<lparr>client_queue := q\<rparr>)
     \<and> size_q q = size_q (client_queue s)"
proof -
  let ?q = "client_queue s"
  have q: "queue_inv ?q" "one_msg_size ?q = CLIENT_STR_LEN" using s(1) by (simp_all add: client_ok_def)
  obtain q' where q': "send msg ?q = (True, q')" "queue_inv q'" "contents q' = contents ?q @ [msg]" "one_msg_size q' = one_msg_size ?q"
      "size_q q' = size_q ?q"
    using send_free [OF q(1) _ s(2), of msg] q(2) m by auto
  have clip: "clip_len ?q CLIENT_STR_LEN = clip_len ?q 0" "clip_len ?q 0 = Suc 1023"
    using q(2) by (simp_all add: clip_len_def CLIENT_STR_LEN_def)
  have "q' = write_slot (Some msg) (Suc 1023) ?q"
    using q'(1) s(2) clip by (simp add: send_def WriteToMsgQueue_def)
  with q' q(2) s clip show ?thesis
    by (auto simp: send_wait_def send_spin_def WriteToMsgQueue_def WriteToMsgQueue_Wait_def client_ok_def)
qed

text \<open>The message a call puts into the queue, and how the server reads it.\<close>

definition stamp :: "log_service \<Rightarrow> u64" where
  "stamp s = (key_counter s + 1) div 3"

definition clock_ok :: "log_service \<Rightarrow> bool" where
  "clock_ok s \<longleftrightarrow> 2 \<le> unat (key_counter s) \<and> unat (key_counter s) + 1 < 2 ^ 64"

lemma stamp_range:
  assumes "clock_ok s"
  shows "0 < stamp s" "unat (stamp s) < 2 ^ 63 - 1"
proof -
  have "unat (key_counter s + 1) = unat (key_counter s) + 1"
    using assms by (simp add: clock_ok_def unat_word_ariths)
  then have u: "unat (stamp s) = (unat (key_counter s) + 1) div 3" by (simp add: stamp_def unat_div)
  show "unat (stamp s) < 2 ^ 63 - 1"
    unfolding u using assms by (intro less_mult_imp_div_less) (simp add: clock_ok_def)
  have "0 < unat (stamp s)" using assms unfolding u clock_ok_def by (simp add: div_greater_zero_iff)
  then show "0 < stamp s" by (simp add: word_less_nat_alt)
qed

definition line_went :: "log_service \<Rightarrow> string \<Rightarrow> log_service \<Rightarrow> bool" where
  "line_went s body s' \<longleftrightarrow> client_ok s' \<and> key_counter s' = key_counter s + 1 \<and> key_list s' = key_list s
     \<and> size_q (client_queue s') = size_q (client_queue s)
     \<and> (\<exists>k \<in> set (key_list s). \<exists>m. k = drawn_key s \<and> contents (client_queue s') = contents (client_queue s) @ [m]
          \<and> length m = CLIENT_STR_LEN \<and> hd m = CHR ''G'' \<and> last m = nul
          \<and> ParseReq m = Inr (if line_fits k (stamp s) body then Some (line_of_request k (stamp s) body) else None))"

lemma line_sent:
  assumes s: "client_ok s" "clock_ok s" "\<not> Full (client_queue s)" and body: "nul_free body"
    and buf: "length buf = CLIENT_STR_LEN" "last buf = nul"
  shows "\<exists>line s1 s'. request_line (url_encode body) s = Inr (line, s1)
     \<and> send_wait (buf_write 0 (lgy_strncpy line (CLIENT_STR_LEN - 2)) buf) s1 = Inr s'
     \<and> send_spin (buf_write 0 (lgy_strncpy line (CLIENT_STR_LEN - 2)) buf) s1 = Inr s' \<and> line_went s body s'"
proof -
  let ?k = "drawn_key s"
  obtain s1 where r: "request_line (url_encode body) s = Inr (append_line ?k (unat (stamp s)) (url_encode body), s1)"
      "?k \<in> set (key_list s)" "client_ok s1" "client_queue s1 = client_queue s" "key_counter s1 = key_counter s + 1"
      "key_list s1 = key_list s"
    using request_line_ok [OF s(1), of "url_encode body"] by (auto simp: stamp_def)
  let ?line = "append_line ?k (unat (stamp s)) (url_encode body)"
  let ?m = "buf_write 0 (lgy_strncpy ?line (CLIENT_STR_LEN - 2)) buf"
  have m: "?m = lgy_strncpy ?line (CLIENT_STR_LEN - 2) @ [nul]"
    using buf by (subst buf_write_whole) (simp_all add: CLIENT_STR_LEN_def)
  have k: "unreserved ?k" using s(1) r(2) by (simp add: client_ok_def)
  have p: "ParseReq ?m = Inr (if line_fits ?k (stamp s) body then Some (line_of_request ?k (stamp s) body) else None)"
    unfolding m by (rule request_parsed [OF k body stamp_range [OF s(2)]])
  have len: "length ?m = CLIENT_STR_LEN" unfolding m by (simp add: CLIENT_STR_LEN_def)
  obtain q where q: "send_wait ?m s1 = Inr (s1\<lparr>client_queue := q\<rparr>)" "send_spin ?m s1 = Inr (s1\<lparr>client_queue := q\<rparr>)"
      "contents q = contents (client_queue s1) @ [?m]" "client_ok (s1\<lparr>client_queue := q\<rparr>)"
      "size_q q = size_q (client_queue s1)"
    using send_ok [OF r(3) _ len] s(3) r(4) by auto
  have "take (CLIENT_STR_LEN - 2) ?line = CHR ''G'' # take (CLIENT_STR_LEN - 3) (tl ?line)"
    by (simp add: append_line_def CLIENT_STR_LEN_def)
  moreover obtain pad where "lgy_strncpy ?line (CLIENT_STR_LEN - 2) = take (CLIENT_STR_LEN - 2) ?line @ nul # pad"
    using lgy_strncpy_split [OF nul_free_line [OF k]] by blast
  ultimately have "hd ?m = CHR ''G''" unfolding m by simp
  moreover have "last ?m = nul" unfolding m by simp
  ultimately have "hd ?m = CHR ''G''" "last ?m = nul" .
  with q p len r have "line_went s body (s1\<lparr>client_queue := q\<rparr>)" unfolding line_went_def by auto
  with q(1,2) r(1) show ?thesis by blast
qed

lemma cstr_before_nul: "cstr (b @ nul # rest) = cstr b"
  by (induction b) (simp_all add: cstr_def)

text \<open>
  A line logged is the request the server reads: \<^verbatim>\<open>cody_log\<close> puts one message into the queue,
  NUL-terminated and of the queue's size, and the server's parser reads from it the append request with
  one of the keys, the time stamp and the text up to 1022 bytes - unless the encoded line does not fit a
  message: then its end is cut off and the parser gives no request at all.
\<close>

lemma cody_log_sent:
  assumes "client_ok s" and "clock_ok s" and "\<not> Full (client_queue s)"
  shows "\<exists>s'. cody_log printed s = Inr s' \<and> line_went s (cstr (take (CLIENT_STR_LEN - 2) printed)) s'"
proof -
  let ?t = "take (CLIENT_STR_LEN - 2) printed"
  let ?msg = "buf_write 0 (?t @ [nul]) (replicate CLIENT_STR_LEN nul)"
  let ?body = "cstr ?t"
  have "cstr ?msg = ?body" by (simp add: buf_write_def cstr_before_nul)
  moreover have body: "nul_free ?body" by simp
  moreover have buf: "length ?msg = CLIENT_STR_LEN" "last ?msg = nul"
    by (auto simp: length_buf_write buf_write_def CLIENT_STR_LEN_def)
  ultimately show ?thesis
    using line_sent [OF assms body buf] by (auto simp: cody_log_def Let_def)
qed

lemma cody_log_waits:
  assumes "client_ok s" and "Full (client_queue s)"
  shows "cody_log printed s = Inl Waits"
proof -
  obtain line s' where "request_line (url_encode (cstr (buf_write 0 (take (CLIENT_STR_LEN - 2) printed @ [nul]) (replicate CLIENT_STR_LEN nul)))) s
      = Inr (line, s')" "client_queue s' = client_queue s"
    using request_line_ok [OF assms(1)] by blast
  with assms(2) show ?thesis by (simp add: cody_log_def Let_def send_wait_def WriteToMsgQueue_Wait_def)
qed

section \<open>Properties\<close>

text \<open>
  The key table that initialisation is meant to make: the one it makes when the byte after the array
  \<^verbatim>\<open>a\<close> happens to be NUL.  Its thirty keys are not empty and need no escape.
\<close>

definition table_keys :: "string list" where
  "table_keys = map (\<lambda>i. cstr (c_strncpy (drop (i * 3) key_array) 10)) [0..<30]"

lemma table_keys_ok: "length table_keys = 30" "\<forall>k \<in> set table_keys. k \<noteq> [] \<and> unreserved k \<and> length k \<le> 10"
proof -
  show "length table_keys = 30" by (simp add: table_keys_def)
  have "list_all (\<lambda>k. k \<noteq> [] \<and> unreserved k \<and> length k \<le> 10) table_keys" by code_simp
  then show "\<forall>k \<in> set table_keys. k \<noteq> [] \<and> unreserved k \<and> length k \<le> 10" by (simp only: list_all_iff)
qed

text \<open>A client with this table, for the witnesses.\<close>

definition ready_service :: log_service where
  "ready_service = (new_log_service (new_MsgQueue CLIENT_Q_LEN CLIENT_STR_LEN nul))\<lparr>key_list := table_keys\<rparr>"

lemma ready_service_ok: "client_ok ready_service" "clock_ok ready_service" "\<not> Full (client_queue ready_service)"
  using new_MsgQueue_inv [of CLIENT_Q_LEN CLIENT_STR_LEN nul] table_keys_ok
  by (simp_all add: ready_service_def new_log_service_def client_ok_def clock_ok_def
      Full_def new_MsgQueue_def CLIENT_Q_LEN_def CLIENT_STR_LEN_def)

text \<open>
  The second call: \<^verbatim>\<open>cody_log_string\<close> sends the same message for its argument, of any length, and leaves
  the caller's string encoded.
\<close>

lemma cody_log_string_sends:
  assumes "client_ok s" and "clock_ok s" and "\<not> Full (client_queue s)"
  shows "\<exists>s'. cody_log_string str s = Inr (url_encode (cstr str), s') \<and> line_went s (cstr str) s'"
proof -
  have buf: "length (replicate CLIENT_STR_LEN nul) = CLIENT_STR_LEN" "last (replicate CLIENT_STR_LEN nul) = nul"
    by (simp_all add: CLIENT_STR_LEN_def)
  from line_sent [OF assms _ buf, of "cstr str"] show ?thesis
    by (auto simp: cody_log_string_def Let_def)
qed

text \<open>
  The key table is made by reading past an array: the ten bytes of its first entry are copied without
  a terminator and then read as a string, so initialisation is undefined whenever the queue is there.
\<close>

lemma init_keys_overruns:
  "init_cody_log_service name q s = (if isInit q then Inl UB else Inl Waits)"
proof -
  have "read_cstr (c_strncpy (drop (0 * 3) key_array) 10) = Inl UB"
    by (simp add: key_array_def read_cstr_def c_strncpy_def cstr_def nul_def)
  then have "init_keys [0..<30] ks = Inl UB" for ks
    by (subst upt_conv_Cons) simp_all
  then show ?thesis by (simp add: init_cody_log_service_def Let_def)
qed

end
