(* ===== verification/Sockets.thy ===== *)
theory Sockets
  imports Prelude
begin

text \<open>
  What a socket call may give: the outcomes the kernel has in store, one per call, which the loops of
  the server and of the senders consume.
\<close>

text \<open>
  \<^verbatim>\<open>send\<close> takes at most so many of the bytes it is given, or fails: with \<^verbatim>\<open>EAGAIN\<close>, \<^verbatim>\<open>EWOULDBLOCK\<close> or
  \<^verbatim>\<open>EINTR\<close>, or otherwise.
\<close>

datatype send_outcome = SentUpTo nat | SendLater | SendFailed

text \<open>\<^verbatim>\<open>recv\<close>: bytes, at most as many as asked for; nothing there yet; end of the stream or an error.\<close>

datatype recv_outcome = Received string | WouldBlock | HungUp

text \<open>Outcomes with which every send makes progress.\<close>

definition flowing :: "send_outcome list \<Rightarrow> bool" where
  "flowing os \<longleftrightarrow> list_all (\<lambda>x. \<exists>n > 0. x = SentUpTo n) os"

lemma flowing_drop: "flowing os \<Longrightarrow> flowing (drop k os)"
  by (auto simp: flowing_def list_all_iff dest: in_set_dropD)

end
