(* ===== verification/Epoll.thy ===== *)
theory Epoll
  imports Prelude
begin

text \<open>
  \<^verbatim>\<open>include/Epoll.h\<close>: the descriptors an event loop watches, each for reading or for writing, and how
  many there are.  \<^verbatim>\<open>epoll_ctl\<close> fails on a descriptor that is registered already, or not registered;
  the wrappers then end the program.  The set \<^verbatim>\<open>fd_set_\<close> is kept equal to the registered descriptors and
  read by nobody.
\<close>

datatype fd_mode = READ_MODE | WRITE_MODE

record Epoll_Obj =
  registered :: "int \<Rightarrow> fd_mode option"
  epoll_size :: int

definition new_Epoll_Obj :: Epoll_Obj where
  "new_Epoll_Obj = \<lparr>registered = Map.empty, epoll_size = 0\<rparr>"

definition AddFd :: "int \<Rightarrow> Epoll_Obj \<Rightarrow> Epoll_Obj res" where
  "AddFd fd e =
     (if registered e fd \<noteq> None then Inl Exited
      else Inr (e\<lparr>registered := (registered e)(fd \<mapsto> READ_MODE), epoll_size := epoll_size e + 1\<rparr>))"

definition DelFd :: "int \<Rightarrow> Epoll_Obj \<Rightarrow> Epoll_Obj res" where
  "DelFd fd e =
     (if registered e fd = None then Inl Exited
      else Inr (e\<lparr>registered := (registered e)(fd := None), epoll_size := epoll_size e - 1\<rparr>))"

definition ModifyFdMode :: "int \<Rightarrow> fd_mode \<Rightarrow> Epoll_Obj \<Rightarrow> Epoll_Obj res" where
  "ModifyFdMode fd mode e =
     (if registered e fd = None then Inl Exited else Inr (e\<lparr>registered := (registered e)(fd \<mapsto> mode)\<rparr>))"

definition SetRead :: "int \<Rightarrow> Epoll_Obj \<Rightarrow> Epoll_Obj res" where
  "SetRead fd e = ModifyFdMode fd READ_MODE e"

definition SetWrite :: "int \<Rightarrow> Epoll_Obj \<Rightarrow> Epoll_Obj res" where
  "SetWrite fd e = ModifyFdMode fd WRITE_MODE e"

lemmas epoll_defs = AddFd_def DelFd_def ModifyFdMode_def SetRead_def SetWrite_def

text \<open>The counter is the number of registered descriptors.\<close>

definition epoll_ok :: "Epoll_Obj \<Rightarrow> bool" where
  "epoll_ok e \<longleftrightarrow> finite (dom (registered e)) \<and> epoll_size e = int (card (dom (registered e)))"

lemma new_Epoll_ok: "epoll_ok new_Epoll_Obj"
  by (simp add: epoll_ok_def new_Epoll_Obj_def)

lemma AddFd_ok: "epoll_ok e \<Longrightarrow> AddFd fd e = Inr e' \<Longrightarrow> epoll_ok e'"
  by (auto simp: epoll_ok_def AddFd_def domIff card_insert_if split: if_splits)

lemma DelFd_ok: "epoll_ok e \<Longrightarrow> DelFd fd e = Inr e' \<Longrightarrow> epoll_ok e'"
proof -
  assume e: "epoll_ok e" "DelFd fd e = Inr e'"
  then have "fd \<in> dom (registered e)" by (auto simp: DelFd_def split: if_splits)
  with e have "0 < card (dom (registered e))" by (auto simp: epoll_ok_def card_gt_0_iff)
  with e \<open>fd \<in> dom (registered e)\<close> show ?thesis
    by (auto simp: epoll_ok_def DelFd_def domIff split: if_splits)
qed

lemma ModifyFdMode_ok: "epoll_ok e \<Longrightarrow> ModifyFdMode fd mode e = Inr e' \<Longrightarrow> epoll_ok e'"
proof -
  assume e: "epoll_ok e" "ModifyFdMode fd mode e = Inr e'"
  then have "dom (registered e') = dom (registered e)"
    by (auto simp: ModifyFdMode_def domIff split: if_splits)
  with e show ?thesis by (auto simp: epoll_ok_def ModifyFdMode_def split: if_splits)
qed

end
