(* ===== verification/Log_Sender.thy ===== *)
theory Log_Sender
  imports Config Msg_Queue Sockets Epoll
begin

text \<open>
  \<^verbatim>\<open>src/log_sender/log_sender.cpp\<close> and \<^verbatim>\<open>src/log_sender/short_sender.cpp\<close>: the processes that take a
  client's messages from the shared queue and send them to the server, the first over one lasting
  connection, the second over a new connection for every message.  An event carries what the kernel
  will answer: whether the connection stands, the outcomes of the calls of \<^verbatim>\<open>send\<close> and \<^verbatim>\<open>recv\<close>, and the
  descriptor a reconnection gets.
\<close>

section \<open>State and events\<close>

record sender =
  sender_queue :: "char MsgQueue"
  msg_send_buffer :: string
  sender_epoll :: Epoll_Obj
  taken :: "int \<Rightarrow> string"
  closed_fds :: "int list"

datatype out_state = Not_established | Established "send_outcome list"

record sender_event =
  ev_fd :: int
  ev_out :: "out_state option"
  ev_in :: "recv_outcome list option"
  ev_hangup :: bool
  ev_new_fd :: int

text \<open>How a round of the loop over the events ends.\<close>

datatype round_end = Falls_through | Continues | Breaks

definition Init_msg_queue :: "char MsgQueue" where
  "Init_msg_queue = new_MsgQueue CLIENT_Q_LEN CLIENT_STR_LEN nul"

definition new_sender :: sender where
  "new_sender = \<lparr>sender_queue = Init_msg_queue, msg_send_buffer = replicate CLIENT_STR_LEN nul,
     sender_epoll = new_Epoll_Obj, taken = (\<lambda>_. []), closed_fds = []\<rparr>"

definition Close_msg_queue :: "char MsgQueue \<Rightarrow> char MsgQueue res" where
  "Close_msg_queue q =
     (if \<not> Empty q then Inl Waits
      else case sem_wait (read_sem q) of None \<Rightarrow> Inl Waits | Some s \<Rightarrow> Inr (q\<lparr>read_sem := s\<rparr>))"

definition sender_watch :: "(Epoll_Obj \<Rightarrow> Epoll_Obj res) \<Rightarrow> sender \<Rightarrow> sender res" where
  "sender_watch f s = bindE (f (sender_epoll s)) (\<lambda>e. Inr (s\<lparr>sender_epoll := e\<rparr>))"

text \<open>\<^verbatim>\<open>epoll_obj.DelFd(sockfd); close(sockfd);\<close>\<close>

definition drop_connection :: "int \<Rightarrow> sender \<Rightarrow> sender res" where
  "drop_connection fd s = bindE (sender_watch (DelFd fd) s) (\<lambda>s'. Inr (s'\<lparr>closed_fds := fd # closed_fds s'\<rparr>))"

definition take_bytes :: "int \<Rightarrow> string \<Rightarrow> sender \<Rightarrow> sender" where
  "take_bytes fd bytes s = s\<lparr>taken := (taken s)(fd := taken s fd @ bytes)\<rparr>"

definition Read_data_from_msgqueue :: "sender \<Rightarrow> (nat \<times> sender) res" where
  "Read_data_from_msgqueue s =
     (case ReadAndDeleteFromMsgQueue (sender_queue s) of
        None \<Rightarrow> Inl Waits
      | Some (n, None, q) \<Rightarrow> Inr (n, s\<lparr>sender_queue := q\<rparr>)
      | Some (n, Some m, q) \<Rightarrow> Inr (n, s\<lparr>sender_queue := q, msg_send_buffer := m\<rparr>))"

section \<open>The lasting connection\<close>

text \<open>
  \<^verbatim>\<open>msg_send_buffer + send_index\<close> steps by whole buffers, because \<^verbatim>\<open>msg_send_buffer\<close> points to an array:
  from an index other than 0 the bytes are taken from behind the array.  The result is what the
  socket took.
\<close>

fun send_retrying :: "send_outcome list \<Rightarrow> nat \<Rightarrow> string \<Rightarrow> string res" where
  "send_retrying [] send_index msg = Inl Waits"
| "send_retrying (x # os) send_index msg =
     (if send_index \<noteq> 0 then Inl UB
      else case x of
          SendLater \<Rightarrow> send_retrying os send_index msg
        | SendFailed \<Rightarrow> Inr []
        | SentUpTo n \<Rightarrow>
            (let bytes = take n msg; send_index' = send_index + length bytes
             in if send_index' \<ge> length msg then Inr bytes
                else bindE (send_retrying os send_index' msg) (\<lambda>more. Inr (bytes @ more))))"

definition sender_out :: "int \<Rightarrow> out_state \<Rightarrow> sender \<Rightarrow> (round_end \<times> sender) res" where
  "sender_out fd out s = (case out of
       Not_established \<Rightarrow> bindE (drop_connection fd s) (\<lambda>s'. Inr (Continues, s'))
     | Established os \<Rightarrow>
         bindE (Read_data_from_msgqueue s) (\<lambda>(read_data, s1).
           if read_data = 0 then Inr (Breaks, s1)
           else bindE (send_retrying os 0 (take read_data (msg_send_buffer s1))) (\<lambda>bytes.
                bindE (sender_watch (SetRead fd) (take_bytes fd bytes s1)) (\<lambda>s2. Inr (Falls_through, s2)))))"

text \<open>What the server sends is read and dropped.\<close>

fun discard_input :: "recv_outcome list \<Rightarrow> unit res" where
  "discard_input [] = Inl Waits"
| "discard_input (Received bytes # os) = (if bytes = [] then Inr () else discard_input os)"
| "discard_input (WouldBlock # os) = Inr ()"
| "discard_input (HungUp # os) = Inr ()"

definition sender_in :: "int \<Rightarrow> recv_outcome list \<Rightarrow> bool \<Rightarrow> int \<Rightarrow> sender \<Rightarrow> (round_end \<times> sender) res" where
  "sender_in fd os hangup new_fd s =
     bindE (discard_input os) (\<lambda>_.
       if hangup
       then bindE (drop_connection fd s) (\<lambda>s1.
            bindE (sender_watch (AddFd new_fd) s1) (\<lambda>s2.
            bindE (sender_watch (SetRead new_fd) s2) (\<lambda>s3. Inr (Breaks, s3))))
       else Inr (Falls_through, s))"

fun sender_events :: "sender_event list \<Rightarrow> sender \<Rightarrow> sender res" where
  "sender_events [] s = Inr s"
| "sender_events (ev # evs) s =
     bindE (case ev_out ev of None \<Rightarrow> Inr (Falls_through, s) | Some out \<Rightarrow> sender_out (ev_fd ev) out s) (\<lambda>(r, s1).
       if r = Breaks then Inr s1
       else if r = Continues then sender_events evs s1
       else bindE (case ev_in ev of None \<Rightarrow> Inr (Falls_through, s1)
                     | Some os \<Rightarrow> sender_in (ev_fd ev) os (ev_hangup ev) (ev_new_fd ev) s1) (\<lambda>(r, s2).
            if r = Breaks then Inr s2 else sender_events evs s2))"

text \<open>One turn of the loop; \<open>sockfd\<close> stays the descriptor \<^verbatim>\<open>main\<close> connected first.\<close>

definition sender_turn :: "int \<Rightarrow> sender_event list \<Rightarrow> sender \<Rightarrow> sender res" where
  "sender_turn sockfd evs s =
     bindE (sender_events evs s) (\<lambda>s1. if \<not> Empty (sender_queue s1) then sender_watch (SetWrite sockfd) s1 else Inr s1)"

section \<open>A connection for every message\<close>

fun send_once :: "send_outcome list \<Rightarrow> nat \<Rightarrow> string \<Rightarrow> string res" where
  "send_once [] send_index msg = Inl Waits"
| "send_once (x # os) send_index msg =
     (if send_index \<noteq> 0 then Inl UB
      else case x of
          SendLater \<Rightarrow> Inr []
        | SendFailed \<Rightarrow> Inr []
        | SentUpTo n \<Rightarrow>
            (let bytes = take n msg; send_index' = send_index + length bytes
             in if send_index' \<ge> length msg then Inr bytes
                else bindE (send_once os send_index' msg) (\<lambda>more. Inr (bytes @ more))))"

text \<open>An empty queue is spun on.\<close>

definition short_out :: "int \<Rightarrow> out_state \<Rightarrow> sender \<Rightarrow> (round_end \<times> sender) res" where
  "short_out fd out s = (case out of
       Not_established \<Rightarrow> bindE (drop_connection fd s) (\<lambda>s'. Inr (Continues, s'))
     | Established os \<Rightarrow>
         bindE (Read_data_from_msgqueue s) (\<lambda>(read_data, s1).
           if read_data = 0 then Inl Waits
           else bindE (send_once os 0 (take read_data (msg_send_buffer s1))) (\<lambda>bytes.
                bindE (sender_watch (SetRead fd) (take_bytes fd bytes s1)) (\<lambda>s2. Inr (Falls_through, s2)))))"

text \<open>The number of bytes received; a full buffer asks for none, which reads as the end of the stream.\<close>

fun count_input :: "recv_outcome list \<Rightarrow> nat \<Rightarrow> nat res" where
  "count_input [] recv_index = Inl Waits"
| "count_input (WouldBlock # os) recv_index = Inr recv_index"
| "count_input (HungUp # os) recv_index = Inr recv_index"
| "count_input (Received bytes # os) recv_index =
     (let got = length (take (BUFFER_SIZE - 1 - recv_index) bytes)
      in if got = 0 then Inr recv_index
         else if recv_index + got \<ge> BUFFER_SIZE then Inr (recv_index + got)
         else count_input os (recv_index + got))"

definition short_in :: "int \<Rightarrow> recv_outcome list \<Rightarrow> bool \<Rightarrow> sender \<Rightarrow> (round_end \<times> sender) res" where
  "short_in fd os hangup s =
     bindE (count_input os 0) (\<lambda>recv_index.
       if recv_index > 0 then bindE (drop_connection fd s) (\<lambda>s'. Inr (Continues, s'))
       else if hangup then bindE (drop_connection fd s) (\<lambda>s'. Inr (Breaks, s'))
       else bindE (sender_watch (SetWrite fd) s) (\<lambda>s'. Inr (Falls_through, s')))"

fun short_events :: "sender_event list \<Rightarrow> sender \<Rightarrow> sender res" where
  "short_events [] s = Inr s"
| "short_events (ev # evs) s =
     bindE (case ev_out ev of None \<Rightarrow> Inr (Falls_through, s) | Some out \<Rightarrow> short_out (ev_fd ev) out s) (\<lambda>(r, s1).
       if r = Breaks then Inr s1
       else if r = Continues then short_events evs s1
       else bindE (case ev_in ev of None \<Rightarrow> Inr (Falls_through, s1)
                     | Some os \<Rightarrow> short_in (ev_fd ev) os (ev_hangup ev) s1) (\<lambda>(r, s2).
            if r = Breaks then Inr s2 else short_events evs s2))"

text \<open>Connections are opened until a hundred are watched; the kernel gives the descriptors.\<close>

fun open_connections :: "int list \<Rightarrow> sender \<Rightarrow> sender res" where
  "open_connections fds s =
     (if epoll_size (sender_epoll s) < 100
      then case fds of
          [] \<Rightarrow> Inl Waits
        | fd # fds' \<Rightarrow> bindE (sender_watch (AddFd fd) s) (\<lambda>s1. bindE (sender_watch (SetWrite fd) s1) (open_connections fds'))
      else Inr s)"

declare open_connections.simps [simp del]

definition short_turn :: "sender_event list \<Rightarrow> int list \<Rightarrow> sender \<Rightarrow> sender res" where
  "short_turn evs fds s = bindE (short_events evs s) (open_connections fds)"

section \<open>What the connection takes\<close>

lemma send_retrying_whole:
  "length msg \<le> n \<Longrightarrow> msg \<noteq> [] \<Longrightarrow> send_retrying (replicate d SendLater @ [SentUpTo n]) 0 msg = Inr msg"
  by (induction d) simp_all

lemma send_retrying_partial:
  "0 < n \<Longrightarrow> n < length msg \<Longrightarrow> send_retrying (replicate d SendLater @ SentUpTo n # x # os) 0 msg = Inl UB"
  by (induction d) (simp_all add: Let_def)

lemma send_once_partial: "0 < n \<Longrightarrow> n < length msg \<Longrightarrow> send_once (SentUpTo n # x # os) 0 msg = Inl UB"
  by (simp add: Let_def)

definition sender_ok :: "sender \<Rightarrow> bool" where
  "sender_ok s \<longleftrightarrow> queue_inv (sender_queue s) \<and> one_msg_size (sender_queue s) = CLIENT_STR_LEN"

text \<open>A round of either sender takes the first message out of the queue.\<close>

lemma contents_cells: "queue_inv q \<Longrightarrow> m \<in> set (contents q) \<Longrightarrow> length m = one_msg_size q"
proof -
  assume q: "queue_inv q" "m \<in> set (contents q)"
  then obtain i where "m = slots q ! i" "i \<in> set (slot_order q)" by (auto simp: contents_def)
  with slot_order_bound [OF q(1)] q(1) have "m \<in> set (slots q)" by (simp add: queue_inv_def)
  with q(1) show ?thesis by (simp add: queue_inv_def)
qed

lemma Read_data_first:
  assumes "sender_ok s" and "contents (sender_queue s) = m # ms"
  shows "\<exists>q. Read_data_from_msgqueue s = Inr (CLIENT_STR_LEN, s\<lparr>sender_queue := q, msg_send_buffer := m\<rparr>)
     \<and> contents q = ms \<and> queue_inv q \<and> one_msg_size q = CLIENT_STR_LEN \<and> length m = CLIENT_STR_LEN"
proof -
  have q: "queue_inv (sender_queue s)" "one_msg_size (sender_queue s) = CLIENT_STR_LEN" using assms(1) by (simp_all add: sender_ok_def)
  obtain q' where q': "receive (sender_queue s) = Some (Some m, q')" "queue_inv q'" "contents q' = ms"
      "one_msg_size q' = one_msg_size (sender_queue s)"
    using receive_item [OF q(1) assms(2)] by blast
  then obtain n where n: "ReadAndDeleteFromMsgQueue (sender_queue s) = Some (n, Some m, q')" by (auto simp: receive_def)
  then have "n = CLIENT_STR_LEN" using q(2) by (auto simp: ReadAndDeleteFromMsgQueue_def split: option.splits if_splits)
  moreover have "length m = CLIENT_STR_LEN" using contents_cells [OF q(1), of m] assms(2) q(2) by simp
  ultimately show ?thesis using n q' q(2) by (intro exI [of _ q']) (simp add: Read_data_from_msgqueue_def)
qed

definition writable :: "int \<Rightarrow> send_outcome list \<Rightarrow> sender_event" where
  "writable fd os = \<lparr>ev_fd = fd, ev_out = Some (Established os), ev_in = None, ev_hangup = False, ev_new_fd = 0\<rparr>"

lemma Empty_contents: "queue_inv q \<Longrightarrow> Empty q \<longleftrightarrow> contents q = []"
  by (metis Empty_iff length_0_conv length_slot_order contents_def length_map)

text \<open>The message goes out whole; the connection is watched for the next one if there is one.\<close>

lemma sender_forwards:
  assumes s: "sender_ok s" "contents (sender_queue s) = m # ms" "registered (sender_epoll s) fd \<noteq> None" and n: "CLIENT_STR_LEN \<le> n"
  shows "\<exists>s'. sender_turn fd [writable fd (replicate d SendLater @ [SentUpTo n])] s = Inr s' \<and> sender_ok s'
     \<and> contents (sender_queue s') = ms \<and> taken s' = (taken s)(fd := taken s fd @ m)
     \<and> registered (sender_epoll s') fd = Some (if ms = [] then READ_MODE else WRITE_MODE)"
proof -
  obtain q where q: "Read_data_from_msgqueue s = Inr (CLIENT_STR_LEN, s\<lparr>sender_queue := q, msg_send_buffer := m\<rparr>)"
      "contents q = ms" "queue_inv q" "one_msg_size q = CLIENT_STR_LEN" "length m = CLIENT_STR_LEN"
    using Read_data_first [OF s(1,2)] by blast
  have "m \<noteq> []" using q(5) by (auto simp: CLIENT_STR_LEN_def)
  then have sent: "send_retrying (replicate d SendLater @ [SentUpTo n]) 0 (take CLIENT_STR_LEN m) = Inr m"
    using send_retrying_whole [of m n d] n q(5) by simp
  have "0 < CLIENT_STR_LEN" by (simp add: CLIENT_STR_LEN_def)
  with q(1) sent s(3) show ?thesis
    using q(2-4) Empty_contents [OF q(3)]
    by (simp add: sender_turn_def writable_def sender_out_def sender_watch_def epoll_defs take_bytes_def sender_ok_def)
qed

text \<open>With nothing to send, and when it only listens, the sender takes nothing from its queue.\<close>

lemma sender_idle:
  assumes "sender_ok s" "contents (sender_queue s) = []"
  shows "sender_turn fd [writable fd os] s = Inr s"
proof -
  have e: "Empty (sender_queue s)" "queue_inv (sender_queue s)" using assms Empty_contents by (auto simp: sender_ok_def)
  then have "ReadAndDeleteFromMsgQueue (sender_queue s) = Some (0, None, sender_queue s)"
    by (simp add: ReadAndDeleteFromMsgQueue_def sem_wait_def queue_inv_def)
  then have "Read_data_from_msgqueue s = Inr (0, s)" by (simp add: Read_data_from_msgqueue_def)
  with e(1) show ?thesis by (simp add: sender_turn_def writable_def sender_out_def)
qed

definition heard :: "int \<Rightarrow> recv_outcome list \<Rightarrow> sender_event" where
  "heard fd os = \<lparr>ev_fd = fd, ev_out = None, ev_in = Some os, ev_hangup = False, ev_new_fd = 0\<rparr>"

lemma discard_input_ends: "discard_input os = Inl Waits \<or> discard_input os = Inr ()"
  by (induction os rule: discard_input.induct) simp_all

lemma sender_listens:
  assumes "registered (sender_epoll s) fd \<noteq> None"
  shows "sender_turn fd [heard fd os] s = Inl Waits
     \<or> (\<exists>s'. sender_turn fd [heard fd os] s = Inr s' \<and> sender_queue s' = sender_queue s \<and> taken s' = taken s
          \<and> registered (sender_epoll s') fd \<noteq> None)"
proof (cases "discard_input os = Inr ()")
  case True
  then have e: "sender_events [heard fd os] s = Inr s" by (simp add: heard_def sender_in_def)
  show ?thesis unfolding sender_turn_def e using assms by (auto simp: sender_watch_def epoll_defs)
next
  case False
  then have "discard_input os = Inl Waits" using discard_input_ends [of os] by simp
  then have e: "sender_events [heard fd os] s = Inl Waits" by (simp add: heard_def sender_in_def)
  show ?thesis unfolding sender_turn_def e by simp
qed

text \<open>A sender with one message to send, for the witnesses.\<close>

definition test_message :: string where
  "test_message = replicate CLIENT_STR_LEN CHR ''x''"

definition loaded_sender :: sender where
  "loaded_sender = new_sender\<lparr>sender_queue := snd (send test_message Init_msg_queue),
     sender_epoll := \<lparr>registered = [5 \<mapsto> WRITE_MODE], epoll_size = 100\<rparr>\<rparr>"

lemma loaded_sender_ok: "sender_ok loaded_sender" "contents (sender_queue loaded_sender) = [test_message]"
proof -
  have q: "queue_inv Init_msg_queue" "contents Init_msg_queue = []" "\<not> Full Init_msg_queue" "one_msg_size Init_msg_queue = CLIENT_STR_LEN"
    using new_MsgQueue_inv [of CLIENT_Q_LEN CLIENT_STR_LEN nul]
    by (simp_all add: Init_msg_queue_def CLIENT_Q_LEN_def CLIENT_STR_LEN_def) (simp_all add: new_MsgQueue_def Full_def)
  from send_free [OF q(1) _ q(3), of test_message] q(2,4)
  show "sender_ok loaded_sender" "contents (sender_queue loaded_sender) = [test_message]"
    by (auto simp: loaded_sender_def sender_ok_def test_message_def)
qed

section \<open>Properties\<close>

text \<open>
  C40. A message the connection takes in two pieces is not sent: both senders step their pointer by
  whole messages instead of bytes, so after a partial \<^verbatim>\<open>send\<close> the rest is read from behind the buffer.
\<close>

theorem partial_send_overruns:
  assumes "sender_ok s" and "contents (sender_queue s) \<noteq> []" and "0 < n" and "n < CLIENT_STR_LEN"
  shows "sender_turn fd [writable fd (replicate d SendLater @ SentUpTo n # x # os)] s = Inl UB
     \<and> short_turn [writable fd (SentUpTo n # x # os)] fds s = Inl UB"
proof -
  obtain m ms where m: "contents (sender_queue s) = m # ms" using assms(2) by (cases "contents (sender_queue s)") auto
  obtain q where q: "Read_data_from_msgqueue s = Inr (CLIENT_STR_LEN, s\<lparr>sender_queue := q, msg_send_buffer := m\<rparr>)"
      "length m = CLIENT_STR_LEN"
    using Read_data_first [OF assms(1) m] by blast
  have "0 < CLIENT_STR_LEN" by (simp add: CLIENT_STR_LEN_def)
  with q send_retrying_partial [OF assms(3), of m d x os] send_once_partial [OF assms(3), of m x os] assms(4) show ?thesis
    by (simp add: sender_turn_def short_turn_def writable_def sender_out_def short_out_def)
qed

theorem partial_send_overruns_witness:
  "sender_turn 5 [writable 5 [SendLater, SentUpTo 700, SentUpTo 700]] loaded_sender = Inl UB"
proof -
  have "contents (sender_queue loaded_sender) \<noteq> []" "(0::nat) < 700" "700 < CLIENT_STR_LEN"
    using loaded_sender_ok(2) by (simp_all add: CLIENT_STR_LEN_def)
  from partial_send_overruns [OF loaded_sender_ok(1) this, of 5 1 "SentUpTo 700" "[]" "[]"] show ?thesis by simp
qed

text \<open>
  The sender with short connections loses messages: when the connection cannot take a message yet
  (\<^verbatim>\<open>EAGAIN\<close>), the message is out of the queue, nothing of it is sent, and the connection waits for an answer.
\<close>

lemma short_sender_loses:
  assumes "sender_ok s" and "contents (sender_queue s) = m # ms" and "registered (sender_epoll s) fd \<noteq> None"
    and "100 \<le> epoll_size (sender_epoll s)"
  shows "\<exists>s'. short_turn [writable fd (SendLater # os)] fds s = Inr s' \<and> contents (sender_queue s') = ms \<and> taken s' = taken s
     \<and> registered (sender_epoll s') fd = Some READ_MODE"
proof -
  obtain q where q: "Read_data_from_msgqueue s = Inr (CLIENT_STR_LEN, s\<lparr>sender_queue := q, msg_send_buffer := m\<rparr>)"
      "contents q = ms"
    using Read_data_first [OF assms(1,2)] by blast
  have "0 < CLIENT_STR_LEN" by (simp add: CLIENT_STR_LEN_def)
  with q assms(3,4) show ?thesis
    by (simp add: short_turn_def writable_def short_out_def sender_watch_def epoll_defs take_bytes_def open_connections.simps)
qed

end
