(* ===== verification/Log_Server.thy ===== *)
theory Log_Server
  imports Http_Parser Msg_Queue Query_Result Sockets Epoll
begin

text \<open>
  \<^verbatim>\<open>src/log_server/log_server.cpp\<close>: reading requests from the sockets,
  routing the blocks of an answer from the result queue to the connection that asked, and writing
  them.  What the kernel does is a list of outcomes, consumed one per system call; an event loop that
  has used up its outcomes is still in the call (\<open>Waits\<close>).
\<close>

section \<open>The state\<close>

text \<open>
  \<open>epoll_obj\<close> is the event loop's \<^verbatim>\<open>Epoll_Obj\<close>; \<open>outbox\<close> the bytes each socket has taken; \<open>closed\<close> the
  descriptors given to \<^verbatim>\<open>close\<close>.
\<close>

record log_server =
  client_id_fd_map :: "int \<Rightarrow> int option"
  fd_client_id_map :: "int \<Rightarrow> int option"
  fd_ack_set :: "int set"
  fd_result_map :: "int \<Rightarrow> QueryResult list option"
  msg_queue :: "ReqData MsgQueue"
  result_queue :: "QueryResult MsgQueue"
  epoll_obj :: Epoll_Obj
  sends :: "send_outcome list"
  outbox :: "int \<Rightarrow> string"
  closed :: "int list"

section \<open>The two maps between clients and connections\<close>

text \<open>\<^verbatim>\<open>emplace\<close> does not replace a value that is there.\<close>

definition emplace :: "'k \<Rightarrow> 'v \<Rightarrow> ('k \<Rightarrow> 'v option) \<Rightarrow> 'k \<Rightarrow> 'v option" where
  "emplace k v m = (if m k = None then m(k \<mapsto> v) else m)"

definition Insert_client_id_fd_map :: "int \<Rightarrow> int \<Rightarrow> log_server \<Rightarrow> log_server" where
  "Insert_client_id_fd_map client_id fd s =
     s\<lparr>client_id_fd_map := emplace client_id fd (client_id_fd_map s),
       fd_client_id_map := emplace fd client_id (fd_client_id_map s)\<rparr>"

definition Find_client_id_fd_map :: "int \<Rightarrow> log_server \<Rightarrow> int" where
  "Find_client_id_fd_map client_id s = (case client_id_fd_map s client_id of None \<Rightarrow> 0 | Some fd \<Rightarrow> fd)"

definition Delete_client_id_fd_map :: "int \<Rightarrow> log_server \<Rightarrow> log_server" where
  "Delete_client_id_fd_map fd s =
     (case fd_client_id_map s fd of
        None \<Rightarrow> s
      | Some client_id \<Rightarrow>
          s\<lparr>client_id_fd_map := (client_id_fd_map s)(client_id := None),
            fd_client_id_map := (fd_client_id_map s)(fd := None)\<rparr>)"

section \<open>The blocks waiting for a connection\<close>

definition Del_fd_form_fd_result_map :: "int \<Rightarrow> log_server \<Rightarrow> log_server" where
  "Del_fd_form_fd_result_map fd s = s\<lparr>fd_result_map := (fd_result_map s)(fd := None)\<rparr>"

definition Insert_fd_qurey_result :: "int \<Rightarrow> QueryResult \<Rightarrow> log_server \<Rightarrow> log_server" where
  "Insert_fd_qurey_result fd r s =
     s\<lparr>fd_result_map := (fd_result_map s)(fd \<mapsto>
         (case fd_result_map s fd of None \<Rightarrow> [] | Some rs \<Rightarrow> rs) @ [r])\<rparr>"

definition Del_fd_from_result_index_strucure :: "int \<Rightarrow> log_server \<Rightarrow> log_server" where
  "Del_fd_from_result_index_strucure fd s = Delete_client_id_fd_map fd (Del_fd_form_fd_result_map fd s)"

section \<open>The event loop's descriptors\<close>

definition on_epoll :: "(Epoll_Obj \<Rightarrow> Epoll_Obj res) \<Rightarrow> log_server \<Rightarrow> log_server res" where
  "on_epoll f s = bindE (f (epoll_obj s)) (\<lambda>e. Inr (s\<lparr>epoll_obj := e\<rparr>))"

abbreviation epoll_set :: "log_server \<Rightarrow> int \<Rightarrow> fd_mode option" where
  "epoll_set s \<equiv> registered (epoll_obj s)"

definition close_fd :: "int \<Rightarrow> log_server \<Rightarrow> log_server" where
  "close_fd fd s = s\<lparr>closed := fd # closed s\<rparr>"

section \<open>Reading requests\<close>

text \<open>
  The buffer is cut into messages of \<^verbatim>\<open>STR_LEN\<close>; \<open>k\<close> are still to look at, from \<open>index\<close> on.  The
  flag says whether one of them expects an answer.
\<close>

fun write_msgs :: "nat \<Rightarrow> nat \<Rightarrow> string \<Rightarrow> int \<Rightarrow> bool \<Rightarrow> log_server \<Rightarrow> (bool \<times> log_server) res" where
  "write_msgs 0 index buf fd need s = Inr (need, s)"
| "write_msgs (Suc k) index buf fd need s =
     bindE (deref (drop (index * STR_LEN) buf)) (\<lambda>c.
       if c = nul then Inr (need, s)
       else bindE (ParseReq (drop (index * STR_LEN) buf)) (\<lambda>req_data. case req_data of
           None \<Rightarrow> write_msgs k (index + 1) buf fd need s
         | Some req \<Rightarrow>
             (let client_id = Need_send_back req;
                  (need', s') = (if client_id > 0 then (True, Insert_client_id_fd_map client_id fd s) else (need, s))
              in case WriteToMsgQueue_Wait (Some [req]) 0 (msg_queue s') of
                   None \<Rightarrow> Inl Waits
                 | Some (_, q) \<Rightarrow> write_msgs k (index + 1) buf fd need' (s'\<lparr>msg_queue := q\<rparr>))))"

definition Write_msg_to_msgqueue :: "string \<Rightarrow> int \<Rightarrow> log_server \<Rightarrow> (bool \<times> log_server) res" where
  "Write_msg_to_msgqueue buf fd s = write_msgs (BUFFER_SIZE div STR_LEN) 0 buf fd False s"

text \<open>
  The inner loop fills the buffer from \<open>i\<close> on.  The result says whether reading is done, whether the
  connection is gone, how many bytes were read, the buffer and the outcomes left.
\<close>

fun recv_loop :: "recv_outcome list \<Rightarrow> nat \<Rightarrow> string \<Rightarrow> (bool \<times> bool \<times> nat \<times> string \<times> recv_outcome list) option" where
  "recv_loop [] i buf = None"
| "recv_loop (WouldBlock # os) i buf = Some (True, False, i, buf, os)"
| "recv_loop (HungUp # os) i buf = Some (True, True, i, buf, os)"
| "recv_loop (Received bytes # os) i buf =
     (let got = take (BUFFER_SIZE - i) bytes
      in if got = [] then Some (True, True, i, buf, os)
         else (let buf' = buf_write i got buf; i' = i + length got
               in if i' \<ge> BUFFER_SIZE then Some (False, False, i', buf', os) else recv_loop os i' buf'))"

lemma recv_loop_shorter: "recv_loop os i buf = Some (d, h, n, b, os') \<Longrightarrow> length os' < length os"
proof (induction os arbitrary: i buf)
  case (Cons x os)
  show ?case
  proof (cases x)
    case (Received bytes)
    with Cons show ?thesis by (fastforce simp: Let_def split: if_splits)
  qed (use Cons.prems in auto)
qed simp

text \<open>
  The buffer is cleared once, before the outer loop.  A connection that is gone is dropped at once,
  but what was read before is still parsed, and the descriptor still switched to writing.
\<close>

function read_rounds :: "int \<Rightarrow> recv_outcome list \<Rightarrow> string \<Rightarrow> log_server \<Rightarrow> log_server res" where
  "read_rounds fd os buf s =
     (case recv_loop os 0 buf of
        None \<Rightarrow> Inl Waits
      | Some (done, gone, n, buf', os') \<Rightarrow>
          bindE (if gone then bindE (on_epoll (DelFd fd) s) (\<lambda>s'. Inr (close_fd fd (Del_fd_from_result_index_strucure fd s'))) else Inr s) (\<lambda>s1.
          bindE (if n = 0 then Inr s1
                 else bindE (Write_msg_to_msgqueue buf' fd s1) (\<lambda>(need_send_back, s2).
                   if need_send_back then Inr s2
                   else bindE (on_epoll (SetWrite fd) s2) (\<lambda>s3. Inr (s3\<lparr>fd_ack_set := insert fd (fd_ack_set s3)\<rparr>)))) (\<lambda>s4.
          if done then Inr s4 else read_rounds fd os' buf' s4)))"
  by pat_completeness auto
termination
  by (relation "measure (\<lambda>(fd, os, buf, s). length os)") (auto dest: recv_loop_shorter)

declare read_rounds.simps [simp del]

definition Read_fd_work :: "int \<Rightarrow> recv_outcome list \<Rightarrow> log_server \<Rightarrow> log_server res" where
  "Read_fd_work fd os s = read_rounds fd os (replicate BUFFER_SIZE nul) s"

section \<open>Writing answers\<close>

text \<open>What a socket takes of the rest of a message before the loop ends.\<close>

fun send_loop :: "send_outcome list \<Rightarrow> string \<Rightarrow> (string \<times> send_outcome list) option" where
  "send_loop [] msg = None"
| "send_loop (SendLater # os) msg = send_loop os msg"
| "send_loop (SendFailed # os) msg = Some ([], os)"
| "send_loop (SentUpTo n # os) msg =
     (if n \<ge> length msg then Some (msg, os)
      else map_option (\<lambda>(bytes, os'). (take n msg @ bytes, os')) (send_loop os (drop n msg)))"

definition MySend :: "int \<Rightarrow> string \<Rightarrow> log_server \<Rightarrow> log_server res" where
  "MySend fd msg s =
     (case send_loop (sends s) msg of
        None \<Rightarrow> Inl Waits
      | Some (bytes, os) \<Rightarrow> Inr (s\<lparr>sends := os, outbox := (outbox s)(fd := outbox s fd @ bytes)\<rparr>))"

definition crlf :: string where
  "crlf = [CHR 0x0D, newline]"

definition http_header :: "nat \<Rightarrow> string" where
  "http_header n = ''HTTP/1.0 200 OK'' @ crlf @ ''Content-length: '' @ show_nat n @ crlf
     @ ''Content-type: text/plain'' @ crlf @ crlf"

definition ack :: string where
  "ack = ''[ACK]'' @ [newline]"

definition Ack_to_fd :: "int \<Rightarrow> log_server \<Rightarrow> log_server res" where
  "Ack_to_fd fd s =
     (if fd \<in> fd_ack_set s
      then bindE (MySend fd (http_header (length ack)) s) (\<lambda>s1.
           bindE (MySend fd ack s1) (\<lambda>s2.
           on_epoll (SetRead fd) (s2\<lparr>fd_ack_set := fd_ack_set s2 - {fd}\<rparr>)))
      else Inr s)"

fun send_blocks :: "int \<Rightarrow> QueryResult list \<Rightarrow> log_server \<Rightarrow> log_server res" where
  "send_blocks fd [] s = Inr s"
| "send_blocks fd (r # rs) s = bindE (MySend fd (payload r) s) (send_blocks fd rs)"

text \<open>
  The last block, with the summary, goes first; \<open>finish\<close> is that of the block sent last.
\<close>

definition Result_to_fd :: "int \<Rightarrow> log_server \<Rightarrow> log_server res" where
  "Result_to_fd fd s =
     (case fd_result_map s fd of
        None \<Rightarrow> Inr s
      | Some query_result_list \<Rightarrow>
          bindE (MySend fd (http_header (sum_list (map qr_offset query_result_list))) s) (\<lambda>s1.
            if query_result_list = [] then Inl UB
            else let rotated = last query_result_list # butlast query_result_list
                 in bindE (send_blocks fd rotated s1) (\<lambda>s2.
                      let s3 = Del_fd_from_result_index_strucure fd s2
                      in if qr_finish (last rotated)
                         then bindE (on_epoll (DelFd fd) s3) (\<lambda>s4. Inr (close_fd fd s4))
                         else Inr s3)))"

definition Write_fd_work :: "int \<Rightarrow> log_server \<Rightarrow> log_server res" where
  "Write_fd_work fd s = bindE (Ack_to_fd fd s) (Result_to_fd fd)"

section \<open>Reading the result queue\<close>

definition MAX_QUERY_RESULT_READ :: nat where
  "MAX_QUERY_RESULT_READ = QueryResult_Q_LEN div 2"

text \<open>\<open>k\<close> more blocks may be read; the list holds the connections whose answer is complete.\<close>

fun read_results :: "nat \<Rightarrow> nat \<Rightarrow> int list \<Rightarrow> log_server \<Rightarrow> (nat \<times> int list \<times> log_server) res" where
  "read_results 0 n fd_list s = Inr (n, fd_list, s)"
| "read_results (Suc k) n fd_list s =
     (case ReadAndDeleteFromMsgQueue (result_queue s) of
        None \<Rightarrow> Inl Waits
      | Some (0, _, q) \<Rightarrow> Inr (n, fd_list, s\<lparr>result_queue := q\<rparr>)
      | Some (Suc _, cells, q) \<Rightarrow>
          (case cells of
             Some (r # _) \<Rightarrow>
               (let s1 = s\<lparr>result_queue := q\<rparr>; fd = Find_client_id_fd_map (qr_client_id r) s1
                in if fd \<noteq> 0
                   then read_results k (n + 1) (if qr_finish r then fd_list @ [fd] else fd_list) (Insert_fd_qurey_result fd r s1)
                   else read_results k (n + 1) fd_list s1)
           | _ \<Rightarrow> Inl UB))"

definition Read_result_queue :: "log_server \<Rightarrow> (nat \<times> int list \<times> log_server) res" where
  "Read_result_queue s = read_results (MAX_QUERY_RESULT_READ + 1) 0 [] s"

section \<open>The event loop\<close>

text \<open>New connections, or a descriptor that is readable, with what \<^verbatim>\<open>recv\<close> will give, and writable.\<close>

datatype epoll_event = Accepted "int list" | Ready int "recv_outcome list option" bool

fun add_fds :: "int list \<Rightarrow> log_server \<Rightarrow> log_server res" where
  "add_fds [] s = Inr s"
| "add_fds (fd # fds) s = bindE (on_epoll (AddFd fd) s) (add_fds fds)"

fun DoWithEpoll :: "epoll_event list \<Rightarrow> log_server \<Rightarrow> log_server res" where
  "DoWithEpoll [] s = Inr s"
| "DoWithEpoll (Accepted fds # es) s = bindE (add_fds fds s) (DoWithEpoll es)"
| "DoWithEpoll (Ready fd input writable # es) s =
     bindE (case input of None \<Rightarrow> Inr s | Some os \<Rightarrow> Read_fd_work fd os s) (\<lambda>s1.
     bindE (if writable then Write_fd_work fd s1 else Inr s1) (DoWithEpoll es))"

fun set_writes :: "int list \<Rightarrow> log_server \<Rightarrow> log_server res" where
  "set_writes [] s = Inr s"
| "set_writes (fd # fds) s = bindE (on_epoll (SetWrite fd) s) (set_writes fds)"

definition server_turn :: "epoll_event list \<Rightarrow> log_server \<Rightarrow> log_server res" where
  "server_turn events s = bindE (Read_result_queue s) (\<lambda>(n, fd_list, s1).
     bindE (if n > 0 then set_writes fd_list s1 else Inr s1) (DoWithEpoll events))"

definition new_log_server :: log_server where
  "new_log_server = \<lparr>client_id_fd_map = Map.empty, fd_client_id_map = Map.empty, fd_ack_set = {}, fd_result_map = Map.empty,
     msg_queue = new_MsgQueue Q_LEN 1 new_ReqData, result_queue = new_MsgQueue QueryResult_Q_LEN 1 (new_QueryResult 0),
     epoll_obj = new_Epoll_Obj, sends = [], outbox = (\<lambda>_. []), closed = []\<rparr>"

section \<open>Sending\<close>

lemma send_loop_prefix:
  "send_loop os msg = Some (bytes, os') \<Longrightarrow> (\<exists>rest. msg = bytes @ rest) \<and> (SendFailed \<notin> set os \<longrightarrow> bytes = msg)"
proof (induction os msg arbitrary: bytes rule: send_loop.induct)
  case (4 n os msg)
  show ?case
  proof (cases "n \<ge> length msg")
    case False
    with 4 obtain b where b: "send_loop os (drop n msg) = Some (b, os')" "bytes = take n msg @ b" by auto
    from 4(1) [OF False b(1)] obtain rest where r: "drop n msg = b @ rest" "SendFailed \<notin> set os \<longrightarrow> b = drop n msg" by blast
    have "msg = take n msg @ b @ rest" using r(1) by (metis append_take_drop_id)
    with b(2) r(2) show ?thesis by auto
  qed (use 4(2) in auto)
qed auto

lemma send_loop_flows:
  "flowing os \<Longrightarrow> length msg < length os \<Longrightarrow>
   \<exists>k \<le> length msg + 1. send_loop os msg = Some (msg, drop k os)"
proof (induction os arbitrary: msg)
  case (Cons x os)
  from Cons.prems(1) obtain n where n: "x = SentUpTo n" "n > 0" "flowing os" by (auto simp: flowing_def)
  show ?case
  proof (cases "n \<ge> length msg")
    case True
    with n(1) show ?thesis by (intro exI [of _ 1]) simp
  next
    case False
    with n(2) Cons.prems(2) have "length (drop n msg) < length os" by simp
    from Cons.IH [OF n(3) this] obtain k where k: "k \<le> length (drop n msg) + 1" "send_loop os (drop n msg) = Some (drop n msg, drop k os)"
      by blast
    with False n(1,2) show ?thesis by (intro exI [of _ "Suc k"]) auto
  qed
qed simp

text \<open>What a send leaves alone.\<close>

definition same_but_sent :: "int \<Rightarrow> string \<Rightarrow> log_server \<Rightarrow> log_server \<Rightarrow> bool" where
  "same_but_sent fd bytes s s' \<longleftrightarrow> s' = s\<lparr>sends := sends s', outbox := (outbox s)(fd := outbox s fd @ bytes)\<rparr> \<and> flowing (sends s')"

lemma MySend_flows:
  assumes "flowing (sends s)" "length msg + 1 + room \<le> length (sends s)"
  shows "\<exists>s'. MySend fd msg s = Inr s' \<and> same_but_sent fd msg s s' \<and> room \<le> length (sends s')"
proof -
  obtain k where "k \<le> length msg + 1" "send_loop (sends s) msg = Some (msg, drop k (sends s))"
    using send_loop_flows [OF assms(1), of msg] assms(2) by auto
  with assms flowing_drop [OF assms(1)] show ?thesis
    by (auto simp: MySend_def same_but_sent_def)
qed

lemma send_blocks_flows:
  "flowing (sends s) \<Longrightarrow> sum_list (map (\<lambda>r. length (payload r) + 1) rs) \<le> length (sends s) \<Longrightarrow>
   \<exists>s'. send_blocks fd rs s = Inr s' \<and> same_but_sent fd (concat (map payload rs)) s s'"
proof (induction rs arbitrary: s)
  case Nil
  then show ?case by (simp add: same_but_sent_def)
next
  case (Cons r rs)
  obtain s1 where s1: "MySend fd (payload r) s = Inr s1" "same_but_sent fd (payload r) s s1"
    "sum_list (map (\<lambda>r. length (payload r) + 1) rs) \<le> length (sends s1)"
    using MySend_flows [OF Cons.prems(1), of "payload r"] Cons.prems(2) by fastforce
  obtain s2 where s2: "send_blocks fd rs s1 = Inr s2" "same_but_sent fd (concat (map payload rs)) s1 s2"
    using Cons.IH [OF _ s1(3)] s1(2) by (auto simp: same_but_sent_def)
  have "same_but_sent fd (concat (map payload (r # rs))) s s2"
    using s1(2) s2(2) unfolding same_but_sent_def
    by (cases s; cases s1; cases s2) (auto simp: fun_upd_def)
  with s1(1) s2(1) show ?case by simp
qed

lemma MySend_ends: "MySend fd msg s = Inl Waits \<or> (\<exists>os out. MySend fd msg s = Inr (s\<lparr>sends := os, outbox := out\<rparr>))"
  by (cases "send_loop (sends s) msg") (auto simp: MySend_def)

text \<open>An acknowledgement waits for the socket or goes out; the requests that wait are not touched.\<close>

lemma acknowledges:
  assumes "epoll_set s fd \<noteq> None" "fd_result_map s fd = None"
  shows "Write_fd_work fd s = Inl Waits
     \<or> (\<exists>s'. Write_fd_work fd s = Inr s' \<and> msg_queue s' = msg_queue s \<and> epoll_set s' fd \<noteq> None \<and> fd_result_map s' = fd_result_map s)"
proof (cases "fd \<in> fd_ack_set s")
  case True
  consider "MySend fd (http_header (length ack)) s = Inl Waits"
    | os out where "MySend fd (http_header (length ack)) s = Inr (s\<lparr>sends := os, outbox := out\<rparr>)"
    using MySend_ends by blast
  then show ?thesis
  proof cases
    case 2
    with True assms MySend_ends [of fd ack "s\<lparr>sends := os, outbox := out\<rparr>"] show ?thesis
      by (auto simp: Write_fd_work_def Ack_to_fd_def Result_to_fd_def on_epoll_def epoll_defs)
  qed (use True in \<open>simp add: Write_fd_work_def Ack_to_fd_def\<close>)
qed (use assms in \<open>simp add: Write_fd_work_def Ack_to_fd_def Result_to_fd_def\<close>)

section \<open>Routing an answer\<close>

lemma read_item:
  assumes "queue_inv q" "contents q = m # ms"
  shows "\<exists>n q'. ReadAndDeleteFromMsgQueue q = Some (Suc n, Some m, q') \<and> queue_inv q' \<and> contents q' = ms
     \<and> size_q q' = size_q q \<and> one_msg_size q' = one_msg_size q"
proof -
  obtain q' where q': "receive q = Some (Some m, q')" "queue_inv q'" "contents q' = ms"
      "size_q q' = size_q q" "one_msg_size q' = one_msg_size q"
    using receive_item [OF assms] by blast
  then obtain n where n: "ReadAndDeleteFromMsgQueue q = Some (n, Some m, q')" by (auto simp: receive_def)
  have "n = one_msg_size q" using n by (auto simp: ReadAndDeleteFromMsgQueue_def split: option.splits if_splits)
  then have "0 < n" using assms(1) by (simp add: queue_inv_def)
  with n q' show ?thesis by (cases n) auto
qed

lemma read_empty: "queue_inv q \<Longrightarrow> contents q = [] \<Longrightarrow> ReadAndDeleteFromMsgQueue q = Some (0, None, q)"
proof -
  assume q: "queue_inv q" "contents q = []"
  then have "slot_order q = []" by (simp add: contents_def)
  then have "Size q = 0" by (metis length_slot_order list.size(3))
  with q(1) Empty_iff [OF q(1)] show ?thesis
    by (simp add: ReadAndDeleteFromMsgQueue_def sem_wait_def queue_inv_def)
qed

definition waiting :: "int \<Rightarrow> log_server \<Rightarrow> QueryResult list" where
  "waiting fd s = (case fd_result_map s fd of None \<Rightarrow> [] | Some rs \<Rightarrow> rs)"

text \<open>The blocks read so far are filed under the connection of their client.\<close>

definition file_blocks :: "int \<Rightarrow> QueryResult list \<Rightarrow> log_server \<Rightarrow> int \<Rightarrow> QueryResult list option" where
  "file_blocks fd rs s = (if rs = [] then fd_result_map s else (fd_result_map s)(fd \<mapsto> waiting fd s @ rs))"

lemma read_results_prefix:
  "queue_inv (result_queue s) \<Longrightarrow> contents (result_queue s) = map (\<lambda>r. [r]) (rs @ rest) \<Longrightarrow> length rs \<le> k \<Longrightarrow>
   rest = [] \<or> length rs = k \<Longrightarrow> list_all (\<lambda>r. qr_client_id r = c) rs \<Longrightarrow> client_id_fd_map s c = Some fd \<Longrightarrow> fd \<noteq> 0 \<Longrightarrow>
   \<exists>q'. read_results k n fds s = Inr (n + length rs, fds @ map (\<lambda>_. fd) (filter qr_finish rs),
      s\<lparr>result_queue := q', fd_result_map := file_blocks fd rs s\<rparr>)
     \<and> queue_inv q' \<and> contents q' = map (\<lambda>r. [r]) rest \<and> size_q q' = size_q (result_queue s)
     \<and> one_msg_size q' = one_msg_size (result_queue s)"
proof (induction rs arbitrary: k n fds s)
  case Nil
  show ?case
  proof (cases k)
    case (Suc j)
    with read_empty [of "result_queue s"] Nil show ?thesis
      by (intro exI [of _ "result_queue s"]) (simp add: file_blocks_def)
  next
    case 0
    with Nil show ?thesis by (intro exI [of _ "result_queue s"]) (simp add: file_blocks_def)
  qed
next
  case (Cons r rs)
  obtain j where k: "k = Suc j" using Cons.prems(3) by (cases k) auto
  have head: "contents (result_queue s) = [r] # map (\<lambda>r. [r]) (rs @ rest)" using Cons.prems(2) by simp
  obtain m q1 where q1: "ReadAndDeleteFromMsgQueue (result_queue s) = Some (Suc m, Some [r], q1)" "queue_inv q1"
    "contents q1 = map (\<lambda>r. [r]) (rs @ rest)" "size_q q1 = size_q (result_queue s)" "one_msg_size q1 = one_msg_size (result_queue s)"
    using read_item [OF Cons.prems(1) head] by blast
  let ?s1 = "Insert_fd_qurey_result fd r (s\<lparr>result_queue := q1\<rparr>)"
  have s1: "result_queue ?s1 = q1" "client_id_fd_map ?s1 = client_id_fd_map s"
    "file_blocks fd rs ?s1 = file_blocks fd (r # rs) s"
    by (simp_all add: Insert_fd_qurey_result_def waiting_def file_blocks_def)
  have find: "Find_client_id_fd_map (qr_client_id r) (s\<lparr>result_queue := q1\<rparr>) = fd"
    using Cons.prems(5,6) by (simp add: Find_client_id_fd_map_def)
  let ?fds = "if qr_finish r then fds @ [fd] else fds"
  have step: "read_results k n fds s = read_results j (n + 1) ?fds ?s1"
    using k q1(1) find Cons.prems(7) by (simp add: Let_def)
  have "queue_inv (result_queue ?s1)" "contents (result_queue ?s1) = map (\<lambda>r. [r]) (rs @ rest)" "length rs \<le> j"
    "rest = [] \<or> length rs = j" "list_all (\<lambda>r. qr_client_id r = c) rs" "client_id_fd_map ?s1 c = Some fd"
    using q1(2,3) s1(1,2) k Cons.prems(3-6) by simp_all
  from Cons.IH [OF this Cons.prems(7), of "n + 1" ?fds] obtain q' where
    q': "read_results j (n + 1) ?fds ?s1 = Inr (n + 1 + length rs, ?fds @ map (\<lambda>_. fd) (filter qr_finish rs),
      ?s1\<lparr>result_queue := q', fd_result_map := file_blocks fd rs ?s1\<rparr>)" "queue_inv q'" "contents q' = map (\<lambda>r. [r]) rest"
      "size_q q' = size_q q1" "one_msg_size q' = one_msg_size q1"
    unfolding s1(1) by blast
  have "?s1\<lparr>result_queue := q', fd_result_map := file_blocks fd rs ?s1\<rparr> = s\<lparr>result_queue := q', fd_result_map := file_blocks fd (r # rs) s\<rparr>"
    unfolding s1(3) by (simp add: Insert_fd_qurey_result_def)
  with q'(1) have "read_results k n fds s = Inr (n + length (r # rs), fds @ map (\<lambda>_. fd) (filter qr_finish (r # rs)),
      s\<lparr>result_queue := q', fd_result_map := file_blocks fd (r # rs) s\<rparr>)"
    unfolding step by simp
  with q'(2-5) q1(4,5) show ?case by auto
qed

section \<open>Writing an answer\<close>

lemma payload_length: "block_ok r \<Longrightarrow> length (payload r) = qr_offset r"
  by (simp add: block_ok_def payload_def)

text \<open>How many outcomes of \<^verbatim>\<open>send\<close> writing these blocks takes at most.\<close>

definition send_cost :: "QueryResult list \<Rightarrow> nat" where
  "send_cost rs = length (http_header (sum_list (map qr_offset rs))) + 1 + sum_list (map (\<lambda>r. qr_offset r + 1) rs)"

lemma Write_fd_work_answer:
  assumes rs: "fd_result_map s fd = Some (blocks @ [fin])" "blocks \<noteq> []" "list_all block_ok (blocks @ [fin])"
    and fin: "list_all (\<lambda>r. \<not> qr_finish r) blocks"
    and s: "fd \<notin> fd_ack_set s" "flowing (sends s)" "send_cost (blocks @ [fin]) \<le> length (sends s)"
  shows "\<exists>s'. Write_fd_work fd s = Inr s'
     \<and> outbox s' = (outbox s)(fd := outbox s fd @ http_header (sum_list (map qr_offset (blocks @ [fin])))
         @ payload fin @ concat (map payload blocks))
     \<and> fd_result_map s' fd = None \<and> epoll_set s' = epoll_set s \<and> closed s' = closed s"
proof -
  let ?rs = "blocks @ [fin]" and ?header = "http_header (sum_list (map qr_offset (blocks @ [fin])))"
  have pay: "map (\<lambda>r. length (payload r) + 1) ?rs = map (\<lambda>r. qr_offset r + 1) ?rs"
    using rs(3) payload_length by (intro map_cong) (auto simp: list_all_iff)
  have rot: "last ?rs # butlast ?rs = fin # blocks" by simp
  have room: "sum_list (map (\<lambda>r. length (payload r) + 1) (fin # blocks)) = sum_list (map (\<lambda>r. qr_offset r + 1) ?rs)"
    using arg_cong [OF pay, of sum_list] by simp
  obtain s3 where s3: "MySend fd ?header s = Inr s3" "same_but_sent fd ?header s s3"
    "sum_list (map (\<lambda>r. length (payload r) + 1) (fin # blocks)) \<le> length (sends s3)"
    using MySend_flows [of s ?header "sum_list (map (\<lambda>r. length (payload r) + 1) (fin # blocks))" fd] s(2,3) room
    by (auto simp: send_cost_def)
  have "flowing (sends s3)" using s3(2) by (simp add: same_but_sent_def)
  from send_blocks_flows [OF this s3(3), of fd] obtain s4 where
    s4: "send_blocks fd (fin # blocks) s3 = Inr s4" "same_but_sent fd (concat (map payload (fin # blocks))) s3 s4" by blast
  have last: "\<not> qr_finish (last (fin # blocks))" using rs(2) fin by (simp add: list_all_iff)
  let ?s' = "Del_fd_from_result_index_strucure fd s4"
  have "Result_to_fd fd s = Inr ?s'"
    using rs(1) s3(1) s4(1) last by (simp add: Result_to_fd_def Let_def)
  moreover have "Ack_to_fd fd s = Inr s" using s(1) by (simp add: Ack_to_fd_def)
  ultimately have "Write_fd_work fd s = Inr ?s'" by (simp add: Write_fd_work_def)
  moreover have "outbox s4 = (outbox s)(fd := outbox s fd @ ?header @ payload fin @ concat (map payload blocks))"
    "closed s4 = closed s" "epoll_set s4 = epoll_set s"
    using s3(2) s4(2) unfolding same_but_sent_def by (cases s; cases s3; cases s4; auto simp: fun_upd_def)+
  moreover have "outbox ?s' = outbox s4" "closed ?s' = closed s4" "epoll_set ?s' = epoll_set s4" "fd_result_map ?s' fd = None"
    by (simp_all add: Del_fd_from_result_index_strucure_def Delete_client_id_fd_map_def Del_fd_form_fd_result_map_def split: option.split)
  ultimately show ?thesis by simp
qed

section \<open>Properties\<close>

text \<open>
  C27. From the result queue to the socket: when the queue holds one answer - blocks for the asking
  client, only the last with the finish mark, and at most \<open>MAX_QUERY_RESULT_READ\<close> (8, half the queue) before
  that one, which is what one turn reads; \<open>query_is_answered\<close> has the answers read over several turns -,
  the client's connection has nothing else waiting, and its socket takes everything (every send makes
  progress, and there are \<open>send_cost\<close> of them), one turn of the server writes to that connection the header with the right length, then the last
  block and then the others in order; it forgets the answer, but leaves the connection open, because
  the block it sends last is not the finishing one.
\<close>

theorem server_answers:
  assumes "queue_inv (result_queue s)" and "contents (result_queue s) = map (\<lambda>r. [r]) (blocks @ [fin])"
    and "blocks \<noteq> []" and "length blocks \<le> MAX_QUERY_RESULT_READ"
    and "list_all (\<lambda>r. block_ok r \<and> qr_client_id r = c) (blocks @ [fin])"
    and "list_all (\<lambda>r. \<not> qr_finish r) blocks" and "qr_finish fin"
    and "client_id_fd_map s c = Some fd" and "fd \<noteq> 0" and "fd_result_map s fd = None" and "epoll_set s fd \<noteq> None"
    and "fd \<notin> fd_ack_set s" and "flowing (sends s)" and "send_cost (blocks @ [fin]) \<le> length (sends s)"
  shows "\<exists>s'. server_turn [Ready fd None True] s = Inr s'
     \<and> outbox s' = (outbox s)(fd := outbox s fd @ http_header (sum_list (map qr_offset (blocks @ [fin])))
         @ payload fin @ concat (map payload blocks))
     \<and> fd_result_map s' fd = None \<and> epoll_set s' fd = Some WRITE_MODE \<and> closed s' = closed s"
proof -
  let ?rs = "blocks @ [fin]"
  have all: "list_all (\<lambda>r. qr_client_id r = c) ?rs" "list_all block_ok ?rs"
    using assms(5) by (auto simp: list_all_iff)
  have le: "length ?rs \<le> MAX_QUERY_RESULT_READ + 1" using assms(4) by simp
  have fin: "filter qr_finish ?rs = [fin]" using assms(6,7) by (auto simp: list_all_iff filter_empty_conv)
  obtain q' where r: "Read_result_queue s = Inr (length ?rs, [fd], s\<lparr>result_queue := q', fd_result_map := (fd_result_map s)(fd \<mapsto> ?rs)\<rparr>)"
    using read_results_prefix [of s ?rs "[]", OF assms(1) _ le _ all(1) assms(8,9), of 0 "[]"] assms(2,10)
    unfolding Read_result_queue_def fin waiting_def file_blocks_def by auto
  define s1 where "s1 = s\<lparr>result_queue := q', fd_result_map := (fd_result_map s)(fd \<mapsto> ?rs)\<rparr>"
  define s2 where "s2 = s1\<lparr>epoll_obj := (epoll_obj s1)\<lparr>registered := (epoll_set s1)(fd \<mapsto> WRITE_MODE)\<rparr>\<rparr>"
  have w: "set_writes [fd] s1 = Inr s2" using assms(11) by (simp add: on_epoll_def epoll_defs s2_def s1_def)
  have s2: "fd_result_map s2 fd = Some ?rs" "fd \<notin> fd_ack_set s2" "flowing (sends s2)" "send_cost ?rs \<le> length (sends s2)"
    using assms(12-14) by (simp_all add: s2_def s1_def)
  from Write_fd_work_answer [OF s2(1) assms(3) all(2) assms(6) s2(2-4)] obtain s' where
    s': "Write_fd_work fd s2 = Inr s'" "outbox s' = (outbox s2)(fd := outbox s2 fd @ http_header (sum_list (map qr_offset ?rs))
         @ payload fin @ concat (map payload blocks))" "fd_result_map s' fd = None" "epoll_set s' = epoll_set s2" "closed s' = closed s2"
    by blast
  have "server_turn [Ready fd None True] s = Inr s'"
    using r w s'(1) unfolding s1_def [symmetric] by (simp add: server_turn_def)
  with s'(2-5) show ?thesis by (simp add: s2_def s1_def)
qed

text \<open>A server with one short answer in its result queue, for the witness.\<close>

definition line_block :: QueryResult where
  "line_block = (new_QueryResult 7)\<lparr>qr_begin := True, qr_offset := 2, qr_logs := ''hi''\<rparr>"

definition last_block :: QueryResult where
  "last_block = (new_QueryResult 7)\<lparr>qr_finish := True, qr_offset := 3, qr_logs := ''bye''\<rparr>"

definition answering_server :: log_server where
  "answering_server = new_log_server\<lparr>
     result_queue := snd (send [last_block] (snd (send [line_block] (result_queue new_log_server)))),
     client_id_fd_map := [7 \<mapsto> 5], epoll_obj := \<lparr>registered = [5 \<mapsto> READ_MODE], epoll_size = 1\<rparr>, sends := replicate 200 (SentUpTo 4)\<rparr>"

lemma answering_queue: "queue_inv (result_queue answering_server)
   \<and> contents (result_queue answering_server) = [[line_block], [last_block]]"
proof -
  let ?q0 = "result_queue new_log_server"
  have q0: "queue_inv ?q0" "contents ?q0 = []" "one_msg_size ?q0 = 1" "\<not> Full ?q0" "size_q ?q0 = 16"
    using new_MsgQueue_inv [of QueryResult_Q_LEN 1 "new_QueryResult 0"]
    by (simp_all add: new_log_server_def QueryResult_Q_LEN_def) (simp_all add: new_MsgQueue_def Full_def)
  obtain q1 where q1: "send [line_block] ?q0 = (True, q1)" "queue_inv q1" "contents q1 = [[line_block]]"
    "size_q q1 = 16" "one_msg_size q1 = 1"
    using send_free [OF q0(1), of "[line_block]"] q0 by auto
  have "Size q1 = 1" using arg_cong [OF q1(3), of length] by (simp add: contents_def)
  then have "\<not> Full q1" using Full_iff [OF q1(2)] q1(4) by simp
  then obtain q2 where "send [last_block] q1 = (True, q2)" "queue_inv q2" "contents q2 = [[line_block], [last_block]]"
    using send_free [OF q1(2), of "[last_block]"] q1(3,5) by auto
  with q1(1) show ?thesis by (simp add: answering_server_def)
qed

theorem server_answers_witness:
  "\<exists>s'. server_turn [Ready 5 None True] answering_server = Inr s' \<and> outbox s' 5 = http_header 5 @ ''byehi'' \<and> closed s' = []"
proof -
  let ?s = answering_server
  have q: "queue_inv (result_queue ?s)" "contents (result_queue ?s) = map (\<lambda>r. [r]) ([line_block] @ [last_block])"
    using answering_queue by simp_all
  have b: "[line_block] \<noteq> []" "length [line_block] \<le> MAX_QUERY_RESULT_READ" "list_all (\<lambda>r. \<not> qr_finish r) [line_block]"
    "qr_finish last_block" "list_all (\<lambda>r. block_ok r \<and> qr_client_id r = 7) ([line_block] @ [last_block])"
    by (simp_all add: line_block_def last_block_def new_QueryResult_def block_ok_def logs_size_val MAX_QUERY_RESULT_READ_def QueryResult_Q_LEN_def)
  have off: "sum_list (map qr_offset ([line_block] @ [last_block])) = 5" by (simp add: line_block_def last_block_def)
  have s: "client_id_fd_map ?s 7 = Some 5" "(5::int) \<noteq> 0" "fd_result_map ?s 5 = None" "epoll_set ?s 5 \<noteq> None" "5 \<notin> fd_ack_set ?s"
    "flowing (sends ?s)" "outbox ?s = (\<lambda>_. [])" "closed ?s = []"
    by (simp_all add: answering_server_def new_log_server_def flowing_def list_all_iff)
  have room: "send_cost ([line_block] @ [last_block]) \<le> length (sends ?s)"
    unfolding send_cost_def off by (simp add: http_header_def crlf_def show_nat.simps line_block_def last_block_def answering_server_def)
  have pay: "payload last_block = ''bye''" "concat (map payload [line_block]) = ''hi''"
    by (simp_all add: payload_def line_block_def last_block_def)
  show ?thesis
    using server_answers [OF q b(1,2,5,3,4) s(1-6) room] unfolding off pay s(7,8) by auto
qed

lemma cleared_buffer: "buf_write 0 bytes (replicate n nul) = bytes @ replicate (n - length bytes) nul"
  by (simp add: buf_write_def)

lemma one_message: "BUFFER_SIZE div STR_LEN = Suc 0"
  by (simp add: config_defs)

lemma Del_fd_same:
  "epoll_set (Del_fd_from_result_index_strucure fd s) = epoll_set s"
  "msg_queue (Del_fd_from_result_index_strucure fd s) = msg_queue s"
  "client_id_fd_map s c = None \<Longrightarrow> client_id_fd_map (Del_fd_from_result_index_strucure fd s) c = None"
  by (simp_all add: Del_fd_from_result_index_strucure_def Delete_client_id_fd_map_def Del_fd_form_fd_result_map_def split: option.split)

text \<open>
  C39. A client that sends a request and closes at once stops the server.  When the request and the end
  of the stream are read in one call, the connection is dropped first and the request handled
  after: a request that needs no answer makes the server switch the dropped descriptor to writing,
  which exits; a query registers the dropped descriptor for its client, and the server exits when the
  last block of the answer arrives.
\<close>

theorem early_hangup_exits:
  assumes "epoll_set s fd \<noteq> None" and "fd \<noteq> 0" and "bytes \<noteq> []" and "hd bytes \<noteq> nul" and "length bytes < BUFFER_SIZE"
    and "ParseReq (bytes @ replicate (BUFFER_SIZE - length bytes) nul) = Inr (Some req)" and "\<not> Full (msg_queue s)"
    and "client_id_fd_map s (Need_send_back req) = None"
  shows "if Need_send_back req \<le> 0 then Read_fd_work fd [Received bytes, HungUp] s = Inl Exited
     else \<exists>s'. Read_fd_work fd [Received bytes, HungUp] s = Inr s'
        \<and> (\<forall>q r events. queue_inv q \<and> contents q = [[r]] \<and> qr_client_id r = Need_send_back req \<and> qr_finish r
             \<longrightarrow> server_turn events (s'\<lparr>result_queue := q\<rparr>) = Inl Exited)"
proof -
  let ?buf = "bytes @ replicate (BUFFER_SIZE - length bytes) nul" and ?c = "Need_send_back req"
  have got: "take (BUFFER_SIZE - 0) bytes = bytes" using assms(5) by simp
  have loop: "recv_loop [Received bytes, HungUp] 0 (replicate BUFFER_SIZE nul) = Some (True, True, length bytes, ?buf, [])"
    using assms(3,5) got by (simp add: Let_def cleared_buffer)
  let ?s1 = "close_fd fd (Del_fd_from_result_index_strucure fd (s\<lparr>epoll_obj := (epoll_obj s)\<lparr>registered := (epoll_set s)(fd := None), epoll_size := epoll_size (epoll_obj s) - 1\<rparr>\<rparr>))"
  have drop: "bindE (on_epoll (DelFd fd) s) (\<lambda>s'. Inr (close_fd fd (Del_fd_from_result_index_strucure fd s'))) = Inr ?s1"
    using assms(1) by (simp add: on_epoll_def epoll_defs)
  have s1: "epoll_set ?s1 fd = None" "\<not> Full (msg_queue ?s1)" "client_id_fd_map ?s1 ?c = None"
    using assms(7,8) Del_fd_same by (simp_all add: close_fd_def)
  have head: "deref (drop (0 * STR_LEN) ?buf) = Inr (hd bytes)" using assms(3) by (cases bytes) simp_all
  have parse: "ParseReq (drop (0 * STR_LEN) ?buf) = Inr (Some req)" using assms(6) by simp
  define s2 where "s2 = (if ?c > 0 then Insert_client_id_fd_map ?c fd ?s1 else ?s1)"
  have "\<not> Full (msg_queue s2)" using s1(2) by (simp add: s2_def Insert_client_id_fd_map_def)
  then obtain k q where wr: "WriteToMsgQueue_Wait (Some [req]) 0 (msg_queue s2) = Some (k, q)"
    by (simp add: WriteToMsgQueue_Wait_def Let_def)
  have msg: "Write_msg_to_msgqueue ?buf fd ?s1 = Inr (?c > 0, s2\<lparr>msg_queue := q\<rparr>)"
    unfolding Write_msg_to_msgqueue_def one_message
    using head parse assms(4) wr by (simp add: s2_def Let_def split: if_splits)
  have e2: "epoll_set (s2\<lparr>msg_queue := q\<rparr>) fd = None"
    using s1(1) by (simp add: s2_def Insert_client_id_fd_map_def)
  have run: "Read_fd_work fd [Received bytes, HungUp] s
      = (if ?c > 0 then Inr (s2\<lparr>msg_queue := q\<rparr>)
         else bindE (on_epoll (SetWrite fd) (s2\<lparr>msg_queue := q\<rparr>)) (\<lambda>s3. Inr (s3\<lparr>fd_ack_set := insert fd (fd_ack_set s3)\<rparr>)))"
    unfolding Read_fd_work_def
    by (subst read_rounds.simps) (simp del: recv_loop.simps add: loop drop msg assms(3))
  show ?thesis
  proof (cases "?c > 0")
    case False
    with run e2 show ?thesis by (simp add: on_epoll_def epoll_defs)
  next
    case True
    have map2: "client_id_fd_map s2 ?c = Some fd" using True s1(3) by (simp add: s2_def Insert_client_id_fd_map_def emplace_def)
    have "server_turn events (s2\<lparr>msg_queue := q, result_queue := rq\<rparr>) = Inl Exited"
      if rq: "queue_inv rq" "contents rq = [[r]]" "qr_client_id r = ?c" "qr_finish r" for rq r events
    proof -
      let ?s = "s2\<lparr>msg_queue := q, result_queue := rq\<rparr>"
      have "contents (result_queue ?s) = map (\<lambda>r. [r]) ([r] @ [])" "queue_inv (result_queue ?s)" "length [r] \<le> MAX_QUERY_RESULT_READ + 1"
        "list_all (\<lambda>r. qr_client_id r = ?c) [r]" "client_id_fd_map ?s ?c = Some fd"
        using rq map2 by simp_all
      from read_results_prefix [OF this(2,1,3) disjI1 [OF refl] this(4,5) assms(2), of 0 "[]"] rq(4) obtain q' m where
        "Read_result_queue ?s = Inr (Suc 0, [fd], ?s\<lparr>result_queue := q', fd_result_map := m\<rparr>)"
        by (auto simp: Read_result_queue_def)
      with e2 show ?thesis by (simp add: server_turn_def on_epoll_def epoll_defs)
    qed
    with run True show ?thesis by auto
  qed
qed

definition listening_server :: log_server where
  "listening_server = new_log_server\<lparr>epoll_obj := \<lparr>registered = [5 \<mapsto> READ_MODE], epoll_size = 1\<rparr>\<rparr>"

definition short_request :: string where
  "short_request = append_line ''a'' 7 ''x''"

lemma short_request_parsed:
  "ParseReq (short_request @ replicate (BUFFER_SIZE - length short_request) nul)
     = Inr (Some (new_ReqData\<lparr>req_type := T_Append, req_key := decode_field KEY_LEN ''a'', req_time := 7,
         req_content := decode_field STR_LEN ''x''\<rparr>))"
proof -
  have "length short_request < BUFFER_SIZE"
    by (simp add: short_request_def append_line_def append_params_def show_nat.simps BUFFER_SIZE_def)
  then obtain n where "BUFFER_SIZE - length short_request = Suc n" by (metis Suc_diff_Suc)
  then show ?thesis
    using ParseReq_append [of "''a''" "''x''" 7 "''HTTP/1.1'' @ nul # replicate n nul"]
    by (simp add: short_request_def append_line_def nul_def blank_def newline_def)
qed

theorem early_hangup_exits_witness:
  "Read_fd_work 5 [Received short_request, HungUp] listening_server = Inl Exited"
proof -
  let ?b = short_request and ?s = listening_server
  let ?r = "new_ReqData\<lparr>req_type := T_Append, req_key := decode_field KEY_LEN ''a'', req_time := 7,
         req_content := decode_field STR_LEN ''x''\<rparr>"
  have s: "epoll_set ?s 5 \<noteq> None" "(5::int) \<noteq> 0" "\<not> Full (msg_queue ?s)" "client_id_fd_map ?s c = None" for c
    by (simp_all add: listening_server_def new_log_server_def new_MsgQueue_def Full_def Q_LEN_def)
  have b: "?b \<noteq> []" "hd ?b \<noteq> nul" "length ?b < BUFFER_SIZE"
    by (simp_all add: short_request_def append_line_def append_params_def show_nat.simps nul_def BUFFER_SIZE_def)
  have "Need_send_back ?r = 0" by (simp add: Need_send_back_def)
  with early_hangup_exits [OF s(1,2) b short_request_parsed s(3,4)] show ?thesis by simp
qed

section \<open>A message in two packets\<close>

lemma strncmp_eq_False:
  "take (length lit) b \<noteq> lit \<Longrightarrow> nul_free lit \<Longrightarrow> length lit \<le> length b + n \<Longrightarrow> strncmp_eq lit (b @ replicate n nul) = Inr False"
proof (induction lit arbitrary: b n)
  case (Cons l lit)
  show ?case
  proof (cases b)
    case Nil
    with Cons.prems obtain k where "n = Suc k" by (cases n) auto
    with Nil Cons.prems(2) show ?thesis by (auto simp: nul_free_def)
  next
    case (Cons x xs)
    with Cons.prems Cons.IH [of xs n] show ?thesis by (auto simp: nul_free_def)
  qed
qed simp

text \<open>A part of a message the parser makes nothing of is acknowledged and forgotten.\<close>

lemma unparsed_part:
  assumes "epoll_set s fd \<noteq> None" "p \<noteq> []" "length p < BUFFER_SIZE"
    and "ParseReq (p @ replicate (BUFFER_SIZE - length p) nul) = Inr None"
  shows "\<exists>s'. Read_fd_work fd [Received p, WouldBlock] s = Inr s' \<and> msg_queue s' = msg_queue s \<and> epoll_set s' fd \<noteq> None
     \<and> fd \<in> fd_ack_set s'"
proof -
  let ?buf = "p @ replicate (BUFFER_SIZE - length p) nul"
  have got: "take (BUFFER_SIZE - 0) p = p" using assms(3) by simp
  have loop: "recv_loop [Received p, WouldBlock] 0 (replicate BUFFER_SIZE nul) = Some (True, False, length p, ?buf, [])"
    using assms(2,3) got by (simp add: Let_def cleared_buffer)
  have head: "deref (drop (0 * STR_LEN) ?buf) = Inr (hd p)" using assms(2) by (cases p) simp_all
  have msg: "Write_msg_to_msgqueue ?buf fd s = Inr (False, s)"
    unfolding Write_msg_to_msgqueue_def one_message using head assms(4) by simp
  have run: "Read_fd_work fd [Received p, WouldBlock] s
      = bindE (on_epoll (SetWrite fd) s) (\<lambda>s3. Inr (s3\<lparr>fd_ack_set := insert fd (fd_ack_set s3)\<rparr>))"
    unfolding Read_fd_work_def by (subst read_rounds.simps) (simp del: recv_loop.simps add: loop msg assms(2))
  show ?thesis unfolding run using assms(1) by (auto simp: on_epoll_def epoll_defs)
qed

text \<open>
  C38. A line that reaches the server in two packets is lost: when \<^verbatim>\<open>recv\<close> would block inside the parameters
  of an append request, the part read so far is parsed as if it were the whole message, and the rest as
  another; neither gives a request, yet both are acknowledged.
\<close>

theorem split_line_lost:
  assumes "epoll_set s fd \<noteq> None" and "''GET /append?'' @ p @ rest = m" and "length m = BUFFER_SIZE"
    and "plain blank p" and "rest \<noteq> []" and "take 3 rest \<noteq> ''GET''"
  shows "\<exists>s1 s2. Read_fd_work fd [Received (''GET /append?'' @ p), WouldBlock] s = Inr s1 \<and> fd \<in> fd_ack_set s1
     \<and> Read_fd_work fd [Received rest, WouldBlock] (s1\<lparr>fd_ack_set := fd_ack_set s1 - {fd}\<rparr>) = Inr s2 \<and> fd \<in> fd_ack_set s2
     \<and> msg_queue s2 = msg_queue s"
proof -
  have len: "length (''GET /append?'' @ p) < BUFFER_SIZE" "length rest < BUFFER_SIZE"
    using assms(2,3,5) by (auto simp: BUFFER_SIZE_def simp flip: length_greater_0_conv)
  then obtain n where n: "BUFFER_SIZE - length (''GET /append?'' @ p) = Suc n" by (metis Suc_diff_Suc)
  have "ParseReq ((''GET /append?'' @ p) @ replicate (BUFFER_SIZE - length (''GET /append?'' @ p)) nul) = Inr None"
    unfolding n using ParseReq_append_cut [OF assms(4), of "replicate n nul"] by simp
  from unparsed_part [OF assms(1) _ len(1) this] obtain s1 where
    s1: "Read_fd_work fd [Received (''GET /append?'' @ p), WouldBlock] s = Inr s1" "msg_queue s1 = msg_queue s"
      "epoll_set s1 fd \<noteq> None" "fd \<in> fd_ack_set s1" by auto
  have "strncmp_eq method_str (rest @ replicate (BUFFER_SIZE - length rest) nul) = Inr False"
    by (rule strncmp_eq_False) (use assms(6) len(2) in \<open>simp_all add: method_str_def nul_def BUFFER_SIZE_def numeral_3_eq_3\<close>)
  then have "ParseReq (rest @ replicate (BUFFER_SIZE - length rest) nul) = Inr None" by (simp add: ParseReq_def)
  with unparsed_part [of "s1\<lparr>fd_ack_set := fd_ack_set s1 - {fd}\<rparr>" fd rest] s1 assms(5) len(2) show ?thesis by auto
qed

text \<open>Cut after \<open>key=a\<close>; in one packet the same bytes are a request.\<close>

theorem split_line_lost_witness:
  "\<exists>m s1 s2. m = short_request @ replicate (BUFFER_SIZE - length short_request) nul \<and> (\<exists>req. ParseReq m = Inr (Some req))
     \<and> Read_fd_work 5 [Received (take 17 m), WouldBlock] listening_server = Inr s1
     \<and> Read_fd_work 5 [Received (drop 17 m), WouldBlock] (s1\<lparr>fd_ack_set := fd_ack_set s1 - {5}\<rparr>) = Inr s2
     \<and> msg_queue s2 = msg_queue listening_server"
proof -
  let ?m = "short_request @ replicate (BUFFER_SIZE - length short_request) nul"
  have m: "take 17 ?m = ''GET /append?'' @ ''key=a''" "take 3 (drop 17 ?m) \<noteq> ''GET''" "length ?m = BUFFER_SIZE"
    by (simp_all add: short_request_def append_line_def append_params_def show_nat.simps BUFFER_SIZE_def)
  then have "''GET /append?'' @ ''key=a'' @ drop 17 ?m = ?m" "drop 17 ?m \<noteq> []"
    by (metis append.assoc append_take_drop_id, simp add: BUFFER_SIZE_def)
  moreover have "plain blank ''key=a''" "epoll_set listening_server 5 \<noteq> None"
    by (simp_all add: plain_def nul_def blank_def newline_def listening_server_def new_log_server_def)
  ultimately show ?thesis
    using split_line_lost [of listening_server 5 "''key=a''" "drop 17 ?m" ?m] m short_request_parsed by auto
qed

end
