(* ===== verification/Log_Processor.thy ===== *)
theory Log_Processor
  imports Log_Store
begin

text \<open>
  \<^verbatim>\<open>src/log_processor/log_processor.cpp\<close>: the loop of the processor takes one request after another
  from the request queue and dispatches it by its type.  A message of the queue is one cell, the
  \<^verbatim>\<open>ReqData\<close> object.
\<close>

section \<open>Dispatch\<close>

definition Append_request :: "ReqData \<Rightarrow> data_manager \<Rightarrow> data_manager res" where
  "Append_request req dm = bindE (Append_log req dm) (\<lambda>(_, dm'). Inr dm')"

definition Recent_req :: "u64 \<Rightarrow> u64 \<Rightarrow> ReqData \<Rightarrow> data_manager \<Rightarrow> data_manager res" where
  "Recent_req now0 now1 req dm = bindE (Get_recent_log now0 now1 req dm) (\<lambda>(_, dm'). Inr dm')"

definition Getkey_req :: "u64 \<Rightarrow> u64 \<Rightarrow> ReqData \<Rightarrow> data_manager \<Rightarrow> data_manager res" where
  "Getkey_req now0 now1 req dm = bindE (Getkey_log now0 now1 req dm) (\<lambda>(_, dm'). Inr dm')"

definition Persistence_req :: "u64 \<Rightarrow> u64 \<Rightarrow> ReqData \<Rightarrow> data_manager \<Rightarrow> data_manager res" where
  "Persistence_req now0 now1 req dm = Persistence_log now0 now1 req dm"

definition Search_req :: "u64 \<Rightarrow> u64 \<Rightarrow> ReqData \<Rightarrow> data_manager \<Rightarrow> data_manager res" where
  "Search_req now0 now1 req dm = bindE (Search_log now0 now1 req dm) (\<lambda>(_, dm'). Inr dm')"

definition SearchTime_req :: "u64 \<Rightarrow> u64 \<Rightarrow> ReqData \<Rightarrow> data_manager \<Rightarrow> data_manager res" where
  "SearchTime_req now0 now1 req dm = bindE (SearchTime_log now0 now1 req dm) (\<lambda>(_, dm'). Inr dm')"

definition LogCount_req :: "u64 \<Rightarrow> u64 \<Rightarrow> ReqData \<Rightarrow> data_manager \<Rightarrow> data_manager res" where
  "LogCount_req now0 now1 req dm = bindE (LogCount_log now0 now1 req dm) (\<lambda>(_, dm'). Inr dm')"

definition Process_req :: "u64 \<Rightarrow> u64 \<Rightarrow> ReqData \<Rightarrow> data_manager \<Rightarrow> data_manager res" where
  "Process_req now0 now1 req dm =
     (if \<not> Valid req then Inr dm
      else case req_type req of
          T_Append \<Rightarrow> Append_request req dm
        | T_Recent \<Rightarrow> Recent_req now0 now1 req dm
        | T_Getkey \<Rightarrow> Getkey_req now0 now1 req dm
        | T_Search \<Rightarrow> Search_req now0 now1 req dm
        | T_SearchTime \<Rightarrow> SearchTime_req now0 now1 req dm
        | T_Persistence \<Rightarrow> Persistence_req now0 now1 req dm
        | T_LogCount \<Rightarrow> LogCount_req now0 now1 req dm
        | T_Invalid \<Rightarrow> Inr dm)"

section \<open>One turn of the loop\<close>

text \<open>An empty queue is spun on; the processor is the queue's only reader.\<close>

definition processor_turn :: "u64 \<Rightarrow> u64 \<Rightarrow> ReqData MsgQueue \<times> data_manager \<Rightarrow> (ReqData MsgQueue \<times> data_manager) res" where
  "processor_turn now0 now1 st = (case st of (msg_queue, dm) \<Rightarrow>
     if Empty msg_queue then Inl Waits
     else case ReadAndDeleteFromMsgQueue msg_queue of
            Some (Suc _, Some (req # _), msg_queue') \<Rightarrow>
              bindE (Process_req now0 now1 req dm) (\<lambda>dm'. Inr (msg_queue', dm'))
          | Some (0, _, msg_queue') \<Rightarrow> Inr (msg_queue', dm)
          | _ \<Rightarrow> Inl Waits)"

definition start_processor :: "world \<Rightarrow> data_manager res" where
  "start_processor w = Init_data_manager (new_data_manager w)"

end
