(* ===== verification/Persistence_Worker.thy ===== *)
theory Persistence_Worker
  imports Log_Store
begin

text \<open>
  \<^verbatim>\<open>src/log_processor/Persistence_worker.cpp\<close>: the thread that persists the oldest bulks when the
  bulk-data queue fills up, and fires the two timer wheels.  Its loop is cut into steps at the places
  where the processor's thread can run in between: the test of the queue's size, one unit persisted,
  one unit released, a tick of each wheel, one timer's \<^verbatim>\<open>Act\<close>.
\<close>

section \<open>The operations\<close>

abbreviation the_queue :: "data_manager \<Rightarrow> nat option MsgQueue" where
  "the_queue dm \<equiv> bulk_data_queue (wld dm)"

definition set_queue :: "nat option MsgQueue \<Rightarrow> data_manager \<Rightarrow> data_manager" where
  "set_queue q dm = dm\<lparr>wld := (wld dm)\<lparr>bulk_data_queue := q\<rparr>\<rparr>"

definition persist_handler :: "nat \<Rightarrow> data_manager \<Rightarrow> data_manager res" where
  "persist_handler i dm = bindE (Persistence (bulk_handler_list dm ! i) (wld dm)) (\<lambda>(_, h, w). Inr (put_handler i h w dm))"

text \<open>\<^verbatim>\<open>Front_Unit\<close> of an empty queue is a null pointer, which is then dereferenced.\<close>

definition persist_front_unit :: "data_manager \<Rightarrow> data_manager res" where
  "persist_front_unit dm =
     (case Front_Unit (the_queue dm) of
        None \<Rightarrow> Inl Waits
      | Some (None, _) \<Rightarrow> Inl UB
      | Some (Some p, q) \<Rightarrow>
          (case hd (slots q ! p) of
             None \<Rightarrow> Inr (set_queue q dm)
           | Some i \<Rightarrow> persist_handler i (set_queue q dm)))"

definition release_front_unit :: "data_manager \<Rightarrow> data_manager res" where
  "release_front_unit dm =
     (case Release_front_unit (the_queue dm) of
        None \<Rightarrow> Inl Waits
      | Some (_, q) \<Rightarrow> Inr (set_queue q dm))"

definition queue_is_full :: "data_manager \<Rightarrow> bool" where
  "queue_is_full dm \<longleftrightarrow> Size (the_queue dm) \<ge> PERSISTENCE_THRESHOLD"

definition tick_bulk_data :: "data_manager \<Rightarrow> nat list \<times> data_manager" where
  "tick_bulk_data dm = (let (fired, s) = Tick (bulk_data_timer_wheel (wld dm))
     in (map tu_member fired, dm\<lparr>wld := (wld dm)\<lparr>bulk_data_timer_wheel := s\<rparr>\<rparr>))"

definition tick_auto_persistence :: "data_manager \<Rightarrow> nat list \<times> data_manager" where
  "tick_auto_persistence dm = (let (fired, s) = Tick (bulk_auto_persistence_timer_wheel (wld dm))
     in (map tu_member fired, dm\<lparr>wld := (wld dm)\<lparr>bulk_auto_persistence_timer_wheel := s\<rparr>\<rparr>))"

definition BulkTimeout_Act :: "nat \<Rightarrow> data_manager \<Rightarrow> data_manager res" where
  "BulkTimeout_Act i dm = bindE (Release_space (bulk_handler_list dm ! i)) (\<lambda>h. Inr (put_handler i h (wld dm) dm))"

definition BulkAutoPersistence_Act :: "nat \<Rightarrow> data_manager \<Rightarrow> data_manager res" where
  "BulkAutoPersistence_Act i dm = persist_handler i dm"

section \<open>The loop, one step at a time\<close>

text \<open>
  Where the worker stands: about to test the queue, with so many units still to persist or just
  persisted, about to tick a wheel, or with the members whose timers have fired still to act.
\<close>

datatype worker_pc = Woken | Draining nat | Persisted nat | TickingBulkData | TimingOut "nat list"
  | TickingAuto | AutoSaving "nat list"

fun worker_step :: "worker_pc \<Rightarrow> data_manager \<Rightarrow> (worker_pc \<times> data_manager) res" where
  "worker_step Woken dm = Inr (if queue_is_full dm then Draining (PERSISTENCE_THRESHOLD - 1) else TickingBulkData, dm)"
| "worker_step (Draining 0) dm = Inr (TickingBulkData, dm)"
| "worker_step (Draining (Suc n)) dm = bindE (persist_front_unit dm) (\<lambda>dm'. Inr (Persisted n, dm'))"
| "worker_step (Persisted n) dm = bindE (release_front_unit dm) (\<lambda>dm'. Inr (Draining n, dm'))"
| "worker_step TickingBulkData dm = (let (fired, dm') = tick_bulk_data dm in Inr (TimingOut fired, dm'))"
| "worker_step (TimingOut []) dm = Inr (TickingAuto, dm)"
| "worker_step (TimingOut (i # is)) dm = bindE (BulkTimeout_Act i dm) (\<lambda>dm'. Inr (TimingOut is, dm'))"
| "worker_step TickingAuto dm = (let (fired, dm') = tick_auto_persistence dm in Inr (AutoSaving fired, dm'))"
| "worker_step (AutoSaving []) dm = Inr (Woken, dm)"
| "worker_step (AutoSaving (i # is)) dm = bindE (BulkAutoPersistence_Act i dm) (\<lambda>dm'. Inr (AutoSaving is, dm'))"

end
