(* ===== verification/Service_Inv.thy ===== *)
theory Service_Inv
  imports Log_Query Log_Processor Persistence_Worker
begin

text \<open>
  The invariant of the processor, shared by its two threads: the bulks stand for the log, every unit
  of the bulk-data queue belongs to the handler it names or to none, and the timers that are pending
  are timers of bulks they may act on.  Every request and every step of the worker keeps it.
\<close>

section \<open>The invariant\<close>

definition units_match :: "nat option MsgQueue \<Rightarrow> nat option list \<Rightarrow> bool" where
  "units_match q us \<longleftrightarrow> queue_inv q \<and> one_msg_size q = 1 \<and> size_q q = BULK_QUEUE_LEN
     \<and> (\<forall>i < length us. \<forall>p. us ! i = Some p \<longrightarrow> p \<in> set (slot_order q) \<and> slots q ! p = [Some i])
     \<and> (\<forall>p \<in> set (slot_order q). slots q ! p = [None] \<or> (\<exists>i < length us. slots q ! p = [Some i] \<and> us ! i = Some p))
     \<and> (\<forall>p. us \<noteq> [] \<and> last us = Some p \<longrightarrow> slot_order q \<noteq> [] \<and> last (slot_order q) = p)"

abbreviation unit_slots :: "data_manager \<Rightarrow> nat option list" where
  "unit_slots dm \<equiv> map unit_slot (bulk_handler_list dm)"

text \<open>The bulks whose memory may be released, and those with something to save.\<close>

definition releasable :: "data_manager \<Rightarrow> nat set" where
  "releasable dm = {i. i < length (bulk_handler_list dm) \<and> bh_state (bulk_handler_list dm ! i) \<in> {InMemory, Saved}}"

definition nonempty_bulks :: "data_manager \<Rightarrow> nat set" where
  "nonempty_bulks dm = {i. i < length (bulk_handler_list dm) \<and> mb_size (bulk (bulk_handler_list dm ! i)) \<noteq> 0}"

definition timers_ok :: "data_manager \<Rightarrow> bool" where
  "timers_ok dm \<longleftrightarrow> set_wf (bulk_data_timer_wheel (wld dm)) \<and> set_wf (bulk_auto_persistence_timer_wheel (wld dm))
     \<and> held (wheels (bulk_data_timer_wheel (wld dm))) \<subseteq> releasable dm
     \<and> held (wheels (bulk_auto_persistence_timer_wheel (wld dm))) \<subseteq> nonempty_bulks dm"

definition served :: "data_manager \<Rightarrow> log_entry list list \<Rightarrow> bool" where
  "served dm logs \<longleftrightarrow> dm_repr dm logs \<and> units_match (the_queue dm) (unit_slots dm) \<and> timers_ok dm"

text \<open>What the other thread may rely on: units stay where they are, and a bulk that may be released or
  saved stays so.\<close>

definition queue_grows :: "nat option MsgQueue \<Rightarrow> nat option MsgQueue \<Rightarrow> bool" where
  "queue_grows q q' \<longleftrightarrow> (\<exists>ps. slot_order q' = slot_order q @ ps) \<and> (\<forall>p \<in> set (slot_order q). slots q' ! p = slots q ! p)"

definition dm_grows :: "data_manager \<Rightarrow> data_manager \<Rightarrow> bool" where
  "dm_grows dm dm' \<longleftrightarrow> releasable dm \<subseteq> releasable dm' \<and> nonempty_bulks dm \<subseteq> nonempty_bulks dm'
     \<and> queue_grows (the_queue dm) (the_queue dm')"

lemma queue_grows_refl [simp]: "queue_grows q q"
  by (simp add: queue_grows_def)

lemma queue_grows_trans: "queue_grows q q1 \<Longrightarrow> queue_grows q1 q2 \<Longrightarrow> queue_grows q q2"
  by (auto simp: queue_grows_def)

lemma dm_grows_refl [simp]: "dm_grows dm dm"
  by (simp add: dm_grows_def)

lemma dm_grows_trans: "dm_grows dm dm1 \<Longrightarrow> dm_grows dm1 dm2 \<Longrightarrow> dm_grows dm dm2"
  by (auto simp: dm_grows_def intro: queue_grows_trans)

definition later :: "data_manager \<Rightarrow> data_manager \<Rightarrow> log_entry list list \<Rightarrow> bool" where
  "later dm0 dm logs \<longleftrightarrow> served dm logs \<and> dm_grows dm0 dm"

lemma set_result_blocks [simp]: "later dm0 (dm\<lparr>result_blocks := bs\<rparr>) logs = later dm0 dm logs"
  by (simp add: later_def dm_grows_def served_def dm_repr_def bulk_at_def timers_ok_def releasable_def nonempty_bulks_def)

lemma at_handler:
  assumes "dm_repr dm logs" "i < length logs"
  shows "i < length (bulk_handler_list dm)" "hid (bulk_handler_list dm ! i) = i"
    "handler_repr (bulk_handler_list dm ! i) (files (wld dm)) (logs ! i)"
    "start_serial (bulk (bulk_handler_list dm ! i)) = of_nat (first_serial logs i)"
    "mb_size (bulk (bulk_handler_list dm ! i)) = length (logs ! i)"
    "logs ! i = [] \<longrightarrow> bh_state (bulk_handler_list dm ! i) = Appending"
  using assms by (auto simp: dm_repr_def bulk_at_def Let_def handler_repr_def header_ok_def)

lemma handler_size: "handler_repr h d ls \<Longrightarrow> mb_size (bulk h) = length ls"
  by (simp add: handler_repr_def header_ok_def)

section \<open>Timers are set for the right bulks\<close>

text \<open>Both times are whole numbers of ticks below 40 s.\<close>

lemma RELEASE_wf: "set_wf s \<Longrightarrow> set_wf (AddTimer m RELEASE_TIME (DelTimer m s))"
  using AddTimer_wf [OF DelTimer_wf, of s 120 m m] by (simp add: RELEASE_TIME_def)

lemma AUTOSAVE_wf: "set_wf s \<Longrightarrow> set_wf (AddTimer m AUTOSAVE_TIME (DelTimer m s))"
  using AddTimer_wf [OF DelTimer_wf, of s 300 m m] by (simp add: AUTOSAVE_TIME_def)

lemma reset_held:
  assumes "set_wf s" "held (wheels s) \<subseteq> M" "m \<in> M"
  shows "held (wheels (AddTimer m t (DelTimer m s))) \<subseteq> M"
  using AddTimer_held [OF _ DelTimer_held [OF assms(2)] assms(3)] DelTimer_wf [OF assms(1), of m]
  by (simp add: set_wf_def)

lemma Set_timer_ok:
  assumes "set_wf (bulk_data_timer_wheel w)" "held (wheels (bulk_data_timer_wheel w)) \<subseteq> M"
    and "bh_state h \<noteq> Appending \<and> bh_state h \<noteq> InQueue \<longrightarrow> hid h \<in> M"
  shows "set_wf (bulk_data_timer_wheel (Set_timer h w)) \<and> held (wheels (bulk_data_timer_wheel (Set_timer h w))) \<subseteq> M"
proof (cases "bh_state h = Appending \<or> bh_state h = InQueue")
  case False
  with assms RELEASE_wf [OF assms(1)] reset_held [OF assms(1,2)] show ?thesis by (simp add: Set_timer_def)
qed (use assms in \<open>simp add: Set_timer_def\<close>)

section \<open>A query's step on one handler\<close>

definition query_step :: "MemoryBulkHandler \<Rightarrow> world \<Rightarrow> MemoryBulkHandler \<Rightarrow> world \<Rightarrow> log_entry list \<Rightarrow> bool" where
  "query_step h w h' w' ls \<longleftrightarrow> query_keeps h w h' w' ls \<and> (w' = w \<or> w' = Set_timer h' w)"

lemma map_update_same: "f y = f (xs ! i) \<Longrightarrow> map f (xs[i := y]) = map f xs"
  by (cases "i < length xs") (auto intro!: nth_equalityI simp: nth_list_update list_update_beyond)

lemma put_served:
  assumes s: "later dm0 dm logs" and i: "i < length logs"
    and q: "query_step (bulk_handler_list dm ! i) (wld dm) h w (logs ! i)"
  shows "later dm0 (put_handler i h w dm) logs"
proof -
  let ?h = "bulk_handler_list dm ! i"
  have dm: "dm_repr dm logs" and t: "timers_ok dm" using s by (simp_all add: later_def served_def)
  note a = at_handler [OF dm i]
  have k: "query_keeps ?h (wld dm) h w (logs ! i)" and w: "w = wld dm \<or> w = Set_timer h (wld dm)"
    using q by (simp_all add: query_step_def)
  have h: "unit_slot h = unit_slot ?h" "hid h = i" "handler_repr h (files w) (logs ! i)"
    "bh_state h = bh_state ?h \<or> bh_state ?h = Saved \<and> bh_state h = InMemory"
    "bulk_data_queue w = the_queue dm" "bulk_auto_persistence_timer_wheel w = bulk_auto_persistence_timer_wheel (wld dm)"
    using k a(2) by (auto simp: query_keeps_def)
  have "mb_size (bulk h) = mb_size (bulk ?h)" using handler_size [OF h(3)] a(5) by simp
  then have ne: "nonempty_bulks (put_handler i h w dm) = nonempty_bulks dm"
    using a(1) by (auto simp: nonempty_bulks_def nth_list_update)
  have rel: "releasable (put_handler i h w dm) = releasable dm"
    using h(4) a(1) by (auto simp: releasable_def nth_list_update)
  have "bh_state h \<noteq> Appending \<and> bh_state h \<noteq> InQueue \<longrightarrow> hid h \<in> releasable (put_handler i h w dm)"
    using h(2,3) a(1) by (cases "bh_state h") (auto simp: releasable_def handler_repr_def)
  then have "timers_ok (put_handler i h w dm)"
    using t w h(6) Set_timer_ok [of "wld dm" "releasable dm" h] unfolding timers_ok_def ne rel by auto
  with s query_keeps_repr [OF dm i k] h(1,5) show ?thesis
    by (simp add: later_def served_def dm_grows_def rel ne map_update_same)
qed

text \<open>The operations the queries call, when they return.\<close>

lemma query_stepI:
  "query_keeps h w h' w' ls \<Longrightarrow> w' = w \<or> w' = Set_timer h' w \<Longrightarrow> query_step h w h' w' ls"
  by (simp add: query_step_def)

lemma Search_key_step: "bh_Search_key key h w = Inr (r, h', w') \<Longrightarrow> handler_repr h (files w) ls \<Longrightarrow> query_step h w h' w' ls"
  using Search_key_repr [of h w ls key] by (intro query_stepI) (auto simp: bh_Search_key_def res_simps)

lemma Search_keyword_step:
  "bh_Search_keyword q h w = Inr (r, h', w') \<Longrightarrow> handler_repr h (files w) ls \<Longrightarrow> query_step h w h' w' ls"
  using Search_keyword_repr [of h w ls q] by (intro query_stepI) (auto simp: bh_Search_keyword_def res_simps)

lemma Join_search_step:
  "bh_Join_search ws h w = Inr (r, h', w') \<Longrightarrow> handler_repr h (files w) ls \<Longrightarrow> query_step h w h' w' ls"
proof (rule query_stepI)
  assume r: "bh_Join_search ws h w = Inr (r, h', w')" and h: "handler_repr h (files w) ls"
  obtain h1 where h1: "(if \<not> word_read h then Read_word_trie h w else Inr h) = Inr h1" "query_keeps h w h1 w ls"
    using Read_word_trie_keeps [OF h] by auto
  then have "h' = h1" "w' = Set_timer h1 w" using r by (auto simp: bh_Join_search_def res_simps)
  with Set_timer_keeps [OF h1(2)] show "query_keeps h w h' w' ls" "w' = w \<or> w' = Set_timer h' w" by simp_all
qed

lemma Search_time_key_step:
  "bh_Search_time_key t0 t1 key flag h w = Inr (r, h', w') \<Longrightarrow> handler_repr h (files w) ls \<Longrightarrow> query_step h w h' w' ls"
proof (rule query_stepI)
  assume r: "bh_Search_time_key t0 t1 key flag h w = Inr (r, h', w')" and h: "handler_repr h (files w) ls"
  obtain h1 where h1: "(if \<not> key_read h then Read_key_trie h w else Inr h) = Inr h1" "query_keeps h w h1 w ls"
    using Read_key_trie_keeps [OF h] by auto
  have "handler_repr h1 (files w) ls" using h1(2) by (simp add: query_keeps_def)
  then obtain h2 where h2: "(if \<not> timestamp_read h1 then Read_timestamp h1 w else Inr h1) = Inr h2" "query_keeps h1 w h2 w ls"
    using Read_timestamp_keeps [of h1 w ls] by auto
  have "h' = h \<and> w' = w \<or> h' = h2 \<and> w' = Set_timer h2 w"
    using r h1(1) h2(1) by (auto simp: bh_Search_time_key_def res_simps split: if_splits)
  with query_keeps_refl [OF h] Set_timer_keeps [OF query_keeps_trans [OF h1(2) h2(2)]]
  show "query_keeps h w h' w' ls" "w' = w \<or> w' = Set_timer h' w" by auto
qed

lemma Get_content_ref_step:
  "Get_content_ref s h w = Inr (r, h', w') \<Longrightarrow> handler_repr h (files w) ls \<Longrightarrow> query_step h w h' w' ls"
proof (rule query_stepI)
  assume r: "Get_content_ref s h w = Inr (r, h', w')" and h: "handler_repr h (files w) ls"
  obtain h1 where h1: "(if \<not> offset_read h then Read_index h w else Inr h) = Inr h1" "query_keeps h w h1 w ls"
    using Read_index_keeps [OF h] by auto
  have r1: "handler_repr h1 (files w) ls" using h1(2) by (simp add: query_keeps_def)
  obtain h2 w2 where h2: "Get_data h1 w = Inr (text_of ls, h2, w2)" "query_keeps h1 w h2 w2 ls"
    using Get_data_keeps [OF r1] by blast
  have e: "h' = h2" "w' = w2"
    using r h1(1) h2(1) by (auto simp: Get_content_ref_def bh_Get_offset_by_serial_def res_simps)
  with query_keeps_trans [OF h1(2) h2(2)] show "query_keeps h w h' w' ls" by simp
  show "w' = w \<or> w' = Set_timer h' w"
    using h2(1) by (auto simp: e Get_data_def Let_def res_simps split: if_splits option.splits)
qed

section \<open>Queries keep the invariant\<close>

text \<open>Whatever a query finds, and whether or not its answer is right: when it returns, the invariant holds.\<close>

lemma answer_entry_served:
  assumes "answer_entry i s qs = Inr qs'" "later dm0 (fst qs) logs" "i < length logs"
  shows "later dm0 (fst qs') logs"
proof -
  obtain dm hr where qs: "qs = (dm, hr)" by (cases qs)
  then obtain r h w hr' where g: "Get_content_ref s (bulk_handler_list dm ! i) (wld dm) = Inr (r, h, w)"
    "qs' = (put_handler i h w dm, hr')"
    using assms(1) by (auto simp: answer_entry_def res_simps split: prod.splits)
  have "handler_repr (bulk_handler_list dm ! i) (files (wld dm)) (logs ! i)"
    using assms(2,3) qs at_handler(3) by (simp add: later_def served_def)
  from put_served [OF _ assms(3) Get_content_ref_step [OF g(1) this]] assms(2) qs g(2) show ?thesis by simp
qed

lemma answer_range_served:
  "answer_range i ss qs = Inr qs' \<Longrightarrow> later dm0 (fst qs) logs \<Longrightarrow> i < length logs \<Longrightarrow> later dm0 (fst qs') logs"
  by (induction ss arbitrary: qs) (auto simp: res_simps dest: answer_entry_served)

lemma answer_serials_served:
  "answer_serials i ss num qs = Inr (num', qs') \<Longrightarrow> later dm0 (fst qs) logs \<Longrightarrow> i < length logs \<Longrightarrow> later dm0 (fst qs') logs"
  using answer_range_served [of i _ qs _ dm0 logs] by (auto simp: answer_serials_range res_simps)

lemma answer_single_served:
  "answer_single i ss num qs = Inr (num', qs') \<Longrightarrow> later dm0 (fst qs) logs \<Longrightarrow> later dm0 (fst qs') logs"
  by (auto simp: answer_single_def res_simps split: list.splits if_splits)

lemma recent_entries_served:
  "recent_entries i n num qs = Inr (num', qs') \<Longrightarrow> later dm0 (fst qs) logs \<Longrightarrow> i < length logs \<Longrightarrow> later dm0 (fst qs') logs"
  by (induction n arbitrary: num qs) (auto simp: res_simps split: if_splits dest: answer_entry_served)

lemma recent_bulks_served:
  "recent_bulks n num qs = Inr qs' \<Longrightarrow> later dm0 (fst qs) logs \<Longrightarrow> n \<le> length logs \<Longrightarrow> later dm0 (fst qs') logs"
proof (induction n arbitrary: num qs)
  case (Suc n)
  then show ?case by (auto simp: res_simps split: if_splits dest!: recent_entries_served [where logs = logs])
qed simp

text \<open>One bulk of a search: the handler's search, then the answers from its serials.\<close>

lemma bulk_search_served:
  assumes s: "later dm0 dm logs" and i: "i < length logs"
    and q: "query_step (bulk_handler_list dm ! i) (wld dm) h w (logs ! i)"
    and "(case r of None \<Rightarrow> Inr (num, put_handler i h w dm, hr)
           | Some serials \<Rightarrow> answer_serials i (rev serials) num (put_handler i h w dm, hr)) = Inr (num', qs')
       \<or> (case r of None \<Rightarrow> Inr (num, put_handler i h w dm, hr)
           | Some serials \<Rightarrow> answer_single i (rev serials) num (put_handler i h w dm, hr)) = Inr (num', qs')"
  shows "later dm0 (fst qs') logs"
proof (cases r)
  case None
  with put_served [OF s i q] assms(4) show ?thesis by auto
next
  case (Some serials)
  then have "answer_serials i (rev serials) num (put_handler i h w dm, hr) = Inr (num', qs')
      \<or> answer_single i (rev serials) num (put_handler i h w dm, hr) = Inr (num', qs')"
    using assms(4) by simp
  with put_served [OF s i q] show ?thesis
    using answer_serials_served [OF _ _ i] answer_single_served by (metis fst_conv)
qed

lemma key_bulks_served:
  "key_bulks key is num qs = Inr (num', qs') \<Longrightarrow> later dm0 (fst qs) logs \<Longrightarrow> \<forall>i \<in> set is. i < length logs \<Longrightarrow> later dm0 (fst qs') logs"
proof (induction "is" arbitrary: num qs)
  case (Cons i "is")
  obtain dm hr where qs: "qs = (dm, hr)" by (cases qs)
  have i: "i < length logs" and s: "later dm0 dm logs" using Cons.prems(2,3) qs by simp_all
  have repr: "handler_repr (bulk_handler_list dm ! i) (files (wld dm)) (logs ! i)"
    using s i at_handler(3) by (simp add: later_def served_def)
  show ?case
  proof (cases "num \<ge> 0")
    case True
    then obtain r h w num1 qs1 where b: "bh_Search_key key (bulk_handler_list dm ! i) (wld dm) = Inr (r, h, w)"
      "(case r of None \<Rightarrow> Inr (num, put_handler i h w dm, hr)
          | Some serials \<Rightarrow> answer_serials i (rev serials) num (put_handler i h w dm, hr)) = Inr (num1, qs1)"
      "key_bulks key is num1 qs1 = Inr (num', qs')"
      using Cons.prems(1) qs by (auto simp: res_simps)
    from bulk_search_served [OF s i Search_key_step [OF b(1) repr] disjI1 [OF b(2)]] Cons.IH [OF b(3)] Cons.prems(3)
    show ?thesis by simp
  qed (use Cons.prems(1,2) qs in simp)
qed simp

lemma single_bulks_served:
  "single_bulks q n num qs = Inr (num', qs') \<Longrightarrow> later dm0 (fst qs) logs \<Longrightarrow> n \<le> length logs \<Longrightarrow> later dm0 (fst qs') logs"
proof (induction n arbitrary: num qs)
  case (Suc n)
  obtain dm hr where qs: "qs = (dm, hr)" by (cases qs)
  have i: "n < length logs" and s: "later dm0 dm logs" using Suc.prems(2,3) qs by simp_all
  have repr: "handler_repr (bulk_handler_list dm ! n) (files (wld dm)) (logs ! n)"
    using s i at_handler(3) by (simp add: later_def served_def)
  show ?case
  proof (cases "num \<ge> 0")
    case True
    then obtain r h w num1 qs1 where b: "bh_Search_keyword q (bulk_handler_list dm ! n) (wld dm) = Inr (r, h, w)"
      "(case r of None \<Rightarrow> Inr (num, put_handler n h w dm, hr)
          | Some serials \<Rightarrow> answer_single n (rev serials) num (put_handler n h w dm, hr)) = Inr (num1, qs1)"
      "single_bulks q n num1 qs1 = Inr (num', qs')"
      using Suc.prems(1) qs by (auto simp: res_simps)
    from bulk_search_served [OF s i Search_keyword_step [OF b(1) repr] disjI2 [OF b(2)]] Suc.IH [OF b(3)] Suc.prems(3)
    show ?thesis by simp
  qed (use Suc.prems(1,2) qs in simp)
qed (auto split: prod.splits)

lemma join_bulks_served:
  "join_bulks ws n num qs = Inr (num', qs') \<Longrightarrow> later dm0 (fst qs) logs \<Longrightarrow> n \<le> length logs \<Longrightarrow> later dm0 (fst qs') logs"
proof (induction n arbitrary: num qs)
  case (Suc n)
  obtain dm hr where qs: "qs = (dm, hr)" by (cases qs)
  have i: "n < length logs" and s: "later dm0 dm logs" using Suc.prems(2,3) qs by simp_all
  have repr: "handler_repr (bulk_handler_list dm ! n) (files (wld dm)) (logs ! n)"
    using s i at_handler(3) by (simp add: later_def served_def)
  show ?case
  proof (cases "num \<ge> 0")
    case True
    then obtain r h w num1 qs1 where b: "bh_Join_search ws (bulk_handler_list dm ! n) (wld dm) = Inr (r, h, w)"
      "answer_serials n (rev r) num (put_handler n h w dm, hr) = Inr (num1, qs1)"
      "join_bulks ws n num1 qs1 = Inr (num', qs')"
      using Suc.prems(1) qs by (auto simp: res_simps)
    have "later dm0 (fst qs1) logs"
      using answer_serials_served [OF b(2) _ i] put_served [OF s i Join_search_step [OF b(1) repr]] by simp
    with Suc.IH [OF b(3)] Suc.prems(3) show ?thesis by simp
  qed (use Suc.prems(1,2) qs in simp)
qed (auto split: prod.splits)

lemma time_bulks_served:
  "time_bulks t0 t1 key is flag num qs = Inr (num', qs') \<Longrightarrow> later dm0 (fst qs) logs \<Longrightarrow> \<forall>i \<in> set is. i < length logs \<Longrightarrow>
   later dm0 (fst qs') logs"
proof (induction "is" arbitrary: flag num qs)
  case (Cons i "is")
  obtain dm hr where qs: "qs = (dm, hr)" by (cases qs)
  have i: "i < length logs" and s: "later dm0 dm logs" using Cons.prems(2,3) qs by simp_all
  have repr: "handler_repr (bulk_handler_list dm ! i) (files (wld dm)) (logs ! i)"
    using s i at_handler(3) by (simp add: later_def served_def)
  obtain flag1 r h w num1 qs1 where b: "bh_Search_time_key t0 t1 key flag (bulk_handler_list dm ! i) (wld dm) = Inr ((flag1, r), h, w)"
    "(if \<not> flag1 then bindE (answer_range i (selected r) (put_handler i h w dm, hr)) (\<lambda>qs. Inr (num + length (selected r), qs))
      else Inr (num, put_handler i h w dm, hr)) = Inr (num1, qs1)"
    "time_bulks t0 t1 key is flag1 num1 qs1 = Inr (num', qs')"
    using Cons.prems(1) qs by (auto simp: bindE_eq_Inr)
  have "later dm0 (put_handler i h w dm) logs" by (rule put_served [OF s i Search_time_key_step [OF b(1) repr]])
  then have "later dm0 (fst qs1) logs"
    using b(2) answer_range_served [OF _ _ i] by (auto simp: res_simps split: if_splits)
  with Cons.IH [OF b(3)] Cons.prems(3) show ?case by simp
qed simp

lemma finish_served: "finish_answer now hr dm = Inr dm' \<Longrightarrow> later dm0 dm logs \<Longrightarrow> later dm0 dm' logs"
  by (auto simp: finish_answer_def res_simps)

lemma refuse_served: "refuse now hr dm = Inr (n, dm') \<Longrightarrow> later dm0 dm logs \<Longrightarrow> later dm0 dm' logs"
  by (auto simp: refuse_def res_simps dest: finish_served)

lemma close_served:
  "bindE (answer_no_result b qs) (\<lambda>(dm1, hr1). bindE (finish_answer now hr1 dm1) (\<lambda>dm2. Inr (n, dm2))) = Inr (n', dm') \<Longrightarrow>
   later dm0 (fst qs) logs \<Longrightarrow> later dm0 dm' logs"
  by (auto simp: answer_no_result_def res_simps split: prod.splits if_splits dest: finish_served)

lemma known_bulks:
  assumes "later dm0 dm logs" "Find_key_in_global_trie key dm = Some bulks"
  shows "\<forall>i \<in> set bulks. i < length logs"
proof -
  have "bulks = trie_list (Global_key_bulk_handler_trie dm) key"
    using assms(2) by (simp add: Find_key_in_global_trie_def trie_list_def)
  also have "\<dots> = bulks_of_key key logs" using assms(1) by (simp add: later_def served_def dm_repr_def)
  finally show ?thesis using bulks_of_key_less by blast
qed

lemma served_length: "later dm0 dm logs \<Longrightarrow> length (bulk_handler_list dm) = length logs"
  by (simp add: later_def served_def dm_repr_def)

lemma Get_recent_log_served:
  assumes "Get_recent_log t0 t1 req dm = Inr (n, dm')" "later dm0 dm logs"
  shows "later dm0 dm' logs"
proof -
  let ?hr = "new_QueryResultHandler (req_client_id req) t0"
  from assms(1) obtain qs qs1 where q: "(if \<not> Valid req \<or> req_type req \<noteq> T_Recent
        then bindE (hr_Append invalid_answer (length invalid_answer) ?hr) (\<lambda>hr1.
             bindE (hr_Finish t1 hr1) (\<lambda>hr2. Inr (dm\<lparr>result_blocks := result_blocks dm @ sent hr2\<rparr>, hr2\<lparr>sent := []\<rparr>)))
        else Inr (dm, ?hr)) = Inr qs"
    "recent_bulks (length (bulk_handler_list dm)) (to_int32 (req_count req)) qs = Inr qs1"
    "finish_answer t1 (snd qs1) (fst qs1) = Inr dm'"
    unfolding Get_recent_log_def Let_def by (auto simp: bindE_eq_Inr split: prod.splits)
  have "later dm0 (fst qs) logs" using q(1) assms(2) by (auto simp: bindE_eq_Inr split: if_splits)
  with recent_bulks_served [OF q(2)] finish_served [OF q(3)] served_length [OF assms(2)] show ?thesis by simp
qed

lemma Getkey_log_served:
  assumes "Getkey_log t0 t1 req dm = Inr (n, dm')" "later dm0 dm logs"
  shows "later dm0 dm' logs"
proof (cases "\<not> Valid req \<or> req_type req \<noteq> T_Getkey")
  case True
  with assms refuse_served show ?thesis by (auto simp: Getkey_log_def Let_def)
next
  case False
  define hr where "hr = new_QueryResultHandler (req_client_id req) t0"
  obtain num qs where q: "(case Find_key_in_global_trie (req_key req) dm of None \<Rightarrow> Inr (MAX_NUM_RESULT, dm, hr)
         | Some bulks \<Rightarrow> key_bulks (req_key req) (rev bulks) MAX_NUM_RESULT (dm, hr)) = Inr (num, qs)"
    "bindE (answer_no_result (num = 0) qs) (\<lambda>(dm1, hr1). bindE (finish_answer t1 hr1 dm1) (\<lambda>dm2. Inr (1, dm2))) = Inr (n, dm')"
    using assms(1) False unfolding hr_def by (auto simp: Getkey_log_def Let_def bindE_eq_Inr split: if_splits)
  have "later dm0 (fst qs) logs"
  proof (cases "Find_key_in_global_trie (req_key req) dm")
    case (Some bulks)
    with q(1) key_bulks_served [of "req_key req" "rev bulks" MAX_NUM_RESULT "(dm, hr)" num qs dm0 logs]
      known_bulks [OF assms(2) Some] assms(2) show ?thesis by simp
  qed (use q(1) assms(2) in auto)
  with close_served [OF q(2)] show ?thesis by simp
qed

lemma Search_log_served:
  assumes "Search_log t0 t1 req dm = Inr (n, dm')" "later dm0 dm logs"
  shows "later dm0 dm' logs"
proof (cases "\<not> Valid req \<or> req_type req \<noteq> T_Search")
  case True
  with assms refuse_served show ?thesis by (auto simp: Search_log_def Let_def)
next
  case False
  define hr where "hr = new_QueryResultHandler (req_client_id req) t0"
  define ws where "ws = Split_key_word (req_keyword req)"
  obtain num qs where q: "(if length ws = 1 then single_bulks (req_keyword req) (length (bulk_handler_list dm)) MAX_NUM_RESULT (dm, hr)
        else if length ws > 1 then join_bulks ws (length (bulk_handler_list dm)) MAX_NUM_RESULT (dm, hr)
        else Inr (MAX_NUM_RESULT, dm, hr)) = Inr (num, qs)"
    "bindE (answer_no_result (num = 0) qs) (\<lambda>(dm1, hr1). bindE (finish_answer t1 hr1 dm1) (\<lambda>dm2. Inr (num, dm2))) = Inr (n, dm')"
    using assms(1) False unfolding hr_def ws_def by (auto simp: Search_log_def Let_def bindE_eq_Inr split: if_splits)
  have "later dm0 (fst qs) logs"
    using q(1) assms(2) served_length [OF assms(2)] single_bulks_served [of _ _ _ "(dm, hr)"] join_bulks_served [of _ _ _ "(dm, hr)"]
    by (auto split: if_splits)
  with close_served [OF q(2)] show ?thesis by simp
qed

lemma SearchTime_log_served:
  assumes "SearchTime_log t0 t1 req dm = Inr (n, dm')" "later dm0 dm logs"
  shows "later dm0 dm' logs"
proof (cases "\<not> Valid req \<or> req_type req \<noteq> T_SearchTime")
  case True
  with assms refuse_served show ?thesis by (auto simp: SearchTime_log_def Let_def)
next
  case False
  define hr where "hr = new_QueryResultHandler (req_client_id req) t0"
  define a where "a = to_uint64 (to_int32 (req_start req))"
  define b where "b = to_uint64 (to_int32 (req_end req))"
  obtain num qs where q: "(case Find_key_in_global_trie (req_key req) dm of None \<Rightarrow> Inr (0, dm, hr)
      | Some bulks \<Rightarrow> bindE (Find_start_time_bulkhandler a (map (\<lambda>i. bh_end_time (bulk_handler_list dm ! i)) bulks)) (\<lambda>index.
           if index < 0 then Inl UB
           else time_bulks a b (req_key req) (drop (nat index) bulks) False 0 (dm, hr))) = Inr (num, qs)"
    "bindE (answer_no_result (num = 0) qs) (\<lambda>(dm1, hr1). bindE (finish_answer t1 hr1 dm1) (\<lambda>dm2. Inr (1, dm2))) = Inr (n, dm')"
    using assms(1) False unfolding hr_def a_def b_def by (auto simp: SearchTime_log_def Let_def bindE_eq_Inr split: if_splits)
  have "later dm0 (fst qs) logs"
  proof (cases "Find_key_in_global_trie (req_key req) dm")
    case (Some bulks)
    with q(1) obtain index where "time_bulks a b (req_key req) (drop (nat index) bulks) False 0 (dm, hr) = Inr (num, qs)"
      by (auto simp: bindE_eq_Inr split: if_splits)
    from time_bulks_served [OF this, of dm0 logs] known_bulks [OF assms(2) Some] assms(2) show ?thesis
      by (auto dest: in_set_dropD)
  qed (use q(1) assms(2) in auto)
  with close_served [OF q(2)] show ?thesis by simp
qed

lemma LogCount_log_served: "LogCount_log t0 t1 req dm = Inr (n, dm') \<Longrightarrow> later dm0 dm logs \<Longrightarrow> later dm0 dm' logs"
  by (auto simp: LogCount_log_def Let_def res_simps split: if_splits dest: refuse_served finish_served)

lemma Persistence_log_served: "Persistence_log t0 t1 req dm = Inr dm' \<Longrightarrow> later dm0 dm logs \<Longrightarrow> later dm0 dm' logs"
  by (auto simp: Persistence_log_def res_simps dest: finish_served)

end
