(* ===== verification/Service_Append.thy ===== *)
theory Service_Append
  imports Service_Inv
begin

text \<open>Appending keeps the invariant of the processor, through the opening of a new bulk.\<close>

definition threads_ok :: "data_manager \<Rightarrow> bool" where
  "threads_ok dm \<longleftrightarrow> units_match (the_queue dm) (unit_slots dm) \<and> timers_ok dm"

lemma served_threads: "served dm logs \<longleftrightarrow> dm_repr dm logs \<and> threads_ok dm"
  by (simp add: served_def threads_ok_def)

section \<open>The pieces of an append\<close>

text \<open>
  Between \<^verbatim>\<open>Append\<close> and \<^verbatim>\<open>Build_index\<close> the timer of bulk \<open>j\<close> is set although the bulk may not
  have an entry yet.
\<close>

definition pending :: "nat \<Rightarrow> data_manager \<Rightarrow> bool" where
  "pending j dm \<longleftrightarrow> units_match (the_queue dm) (unit_slots dm)
     \<and> set_wf (bulk_data_timer_wheel (wld dm)) \<and> set_wf (bulk_auto_persistence_timer_wheel (wld dm))
     \<and> held (wheels (bulk_data_timer_wheel (wld dm))) \<subseteq> releasable dm
     \<and> held (wheels (bulk_auto_persistence_timer_wheel (wld dm))) \<subseteq> insert j (nonempty_bulks dm)
     \<and> bh_state (bulk_handler_list dm ! j) = Appending"

lemma Set_auto_ok:
  assumes "set_wf (bulk_auto_persistence_timer_wheel w)" "held (wheels (bulk_auto_persistence_timer_wheel w)) \<subseteq> M"
  shows "set_wf (bulk_auto_persistence_timer_wheel (Set_auto_persistence_timer h w))
     \<and> held (wheels (bulk_auto_persistence_timer_wheel (Set_auto_persistence_timer h w))) \<subseteq> insert (hid h) M"
proof (cases "bh_state h = Appending")
  case True
  have "held (wheels (bulk_auto_persistence_timer_wheel w)) \<subseteq> insert (hid h) M" using assms(2) by blast
  from reset_held [OF assms(1) this insertI1] AUTOSAVE_wf [OF assms(1)] True show ?thesis
    by (simp add: Set_auto_persistence_timer_def)
qed (use assms in \<open>auto simp: Set_auto_persistence_timer_def\<close>)

lemma bh_Append_cases:
  assumes "bh_Append line len h w = Inr (off, h1, w1)"
  shows "hid h1 = hid h \<and> unit_slot h1 = unit_slot h \<and> mb_size (bulk h1) = mb_size (bulk h)
     \<and> (bh_state h \<noteq> Appending \<longrightarrow> bh_state h1 = bh_state h) \<and> bh_state h1 \<in> {bh_state h, InQueue}
     \<and> (if off = None then w1 = w else bh_state h1 = Appending \<and> bh_state h = Appending \<and> w1 = Set_auto_persistence_timer h1 w)"
proof (cases "bh_state h = Appending")
  case True
  then obtain b where b: "mb_Append line len (bulk h) = Inr (off, b)"
    "h1 = (if off = None then h\<lparr>bulk := b, bh_state := InQueue\<rparr> else h\<lparr>bulk := b\<rparr>)"
    "w1 = Set_auto_persistence_timer h1 w"
    using assms by (auto simp: bh_Append_def Let_def res_simps)
  have "mb_size b = mb_size (bulk h)" using b(1) by (auto simp: mb_Append_def split: if_splits option.splits)
  with b True show ?thesis by (auto simp: Set_auto_persistence_timer_def)
qed (use assms in \<open>simp add: bh_Append_def\<close>)

lemma dm_Append_threads:
  assumes a: "dm_Append j line dm = Inr (off, dm1)" and t: "threads_ok dm"
    and j: "j < length (bulk_handler_list dm)" "hid (bulk_handler_list dm ! j) = j"
  shows "(if off = None then threads_ok dm1 else pending j dm1)
     \<and> length (bulk_handler_list dm1) = length (bulk_handler_list dm) \<and> dm_grows dm dm1"
proof -
  let ?h = "bulk_handler_list dm ! j"
  obtain h1 w1 where b: "bh_Append line (length line) ?h (wld dm) = Inr (off, h1, w1)" "dm1 = put_handler j h1 w1 dm"
    using a by (auto simp: dm_Append_def res_simps)
  note c = bh_Append_cases [OF b(1)]
  have us: "unit_slots dm1 = unit_slots dm" using c b(2) by (simp add: map_update_same)
  have w: "the_queue dm1 = the_queue dm" "bulk_data_timer_wheel (wld dm1) = bulk_data_timer_wheel (wld dm)"
    using c b(2) Set_auto_same by (auto split: if_splits)
  have ne: "nonempty_bulks dm1 = nonempty_bulks dm"
    using c b(2) j(1) by (auto simp: nonempty_bulks_def nth_list_update)
  have rel: "releasable dm \<subseteq> releasable dm1"
    using c b(2) j(1) by (auto simp: releasable_def nth_list_update)
  have auto: "if off = None then wld dm1 = wld dm
      else set_wf (bulk_auto_persistence_timer_wheel (wld dm1))
        \<and> held (wheels (bulk_auto_persistence_timer_wheel (wld dm1))) \<subseteq> insert j (nonempty_bulks dm1)"
    using c b(2) t j(2) Set_auto_ok [of "wld dm" "nonempty_bulks dm" h1] ne by (auto simp: threads_ok_def timers_ok_def)
  have "bh_state (bulk_handler_list dm1 ! j) = bh_state h1" using b(2) j(1) by simp
  with us w ne rel auto t c show ?thesis
    unfolding threads_ok_def timers_ok_def pending_def dm_grows_def by (auto simp: b(2) split: if_splits)
qed

lemma index_threads:
  assumes p: "pending j dm" and j: "j < length (bulk_handler_list dm)"
  shows "let dm' = Add_key_global_trie k j (put_handler j (bh_Build_index o1 c k' t (bulk_handler_list dm ! j)) (wld dm) dm)
     in threads_ok dm' \<and> dm_grows dm dm'"
proof -
  let ?h = "bulk_handler_list dm ! j"
  let ?h' = "bh_Build_index o1 c k' t ?h" and ?dm = "put_handler j (bh_Build_index o1 c k' t ?h) (wld dm) dm"
  have h: "bh_state ?h' = Appending" "unit_slot ?h' = unit_slot ?h" "mb_size (bulk ?h') = Suc (mb_size (bulk ?h))" "bh_state ?h = Appending"
    using p by (simp_all add: pending_def bh_Build_index_def mb_Build_index_def Let_def)
  have us: "unit_slots ?dm = unit_slots dm" using h(2) by (simp add: map_update_same)
  have ne: "insert j (nonempty_bulks dm) \<subseteq> nonempty_bulks ?dm"
    using h(3) j by (auto simp: nonempty_bulks_def nth_list_update)
  have rel: "releasable dm \<subseteq> releasable ?dm"
    using h(1,4) j by (auto simp: releasable_def nth_list_update)
  have "threads_ok ?dm" "dm_grows dm ?dm"
    using p us ne rel unfolding threads_ok_def timers_ok_def pending_def dm_grows_def by auto
  then show ?thesis by (simp add: Let_def threads_ok_def timers_ok_def releasable_def nonempty_bulks_def dm_grows_def)
qed

section \<open>A new bulk\<close>

lemma units_match_push:
  assumes m: "units_match q us" and free: "\<not> Full q"
    and q': "q' = q\<lparr>slots := (slots q)[write_position q := [Some (length us)]], write_position := advance (size_q q) (write_position q)\<rparr>"
  shows "units_match q' (us @ [Some (write_position q)]) \<and> queue_grows q q'"
proof -
  let ?p = "write_position q" and ?n = "length us"
  have inv: "queue_inv q" "one_msg_size q = 1" "size_q q = BULK_QUEUE_LEN"
    and owned: "\<And>i p. i < ?n \<Longrightarrow> us ! i = Some p \<Longrightarrow> p \<in> set (slot_order q) \<and> slots q ! p = [Some i]"
    and cells: "\<And>p. p \<in> set (slot_order q) \<Longrightarrow> slots q ! p = [None] \<or> (\<exists>i < ?n. slots q ! p = [Some i] \<and> us ! i = Some p)"
    using m unfolding units_match_def by blast+
  have fresh: "?p \<notin> set (slot_order q)" by (rule write_position_free [OF inv(1)])
  have so: "slot_order q' = slot_order q @ [?p]" unfolding q' by (rule slot_order_write [OF inv(1) free])
  have qi: "queue_inv q'" unfolding q' using inv by (intro queue_inv_write) simp_all
  have sl: "slots q' ! p = (if p = ?p then [Some ?n] else slots q ! p)" for p
    using inv(1) by (simp add: q' queue_inv_def nth_list_update)
  have "p \<in> set (slot_order q') \<and> slots q' ! p = [Some i]"
    if "i < length (us @ [Some ?p])" "(us @ [Some ?p]) ! i = Some p" for i p
  proof (cases "i = ?n")
    case True
    with that so sl show ?thesis by auto
  next
    case False
    with that have "i < ?n" "us ! i = Some p" by (simp_all add: nth_append)
    with owned fresh so sl show ?thesis by (metis Un_iff set_append)
  qed
  moreover have "slots q' ! p = [None] \<or> (\<exists>i < length (us @ [Some ?p]). slots q' ! p = [Some i] \<and> (us @ [Some ?p]) ! i = Some p)"
    if "p \<in> set (slot_order q')" for p
  proof (cases "p = ?p")
    case True
    with sl show ?thesis by (intro disjI2 exI [of _ ?n]) simp
  next
    case False
    with that so have "p \<in> set (slot_order q)" by auto
    from cells [OF this] False sl show ?thesis by (auto simp: nth_append intro: less_SucI)
  qed
  moreover have "queue_grows q q'" using so sl fresh by (auto simp: queue_grows_def)
  ultimately show ?thesis
    using qi inv(2,3) so unfolding units_match_def by (simp add: q')
qed

lemma push_threads:
  assumes p: "push_new_handler serial dm = Inr dm'" and t: "threads_ok dm"
  shows "threads_ok dm' \<and> length (bulk_handler_list dm') = Suc (length (bulk_handler_list dm))
     \<and> hid (last (bulk_handler_list dm')) = length (bulk_handler_list dm) \<and> dm_grows dm dm'"
proof -
  let ?n = "length (bulk_handler_list dm)" and ?q = "the_queue dm"
  obtain h w where n: "new_MemoryBulkHandler ?n (new_MemoryBulk serial) (wld dm) = Some (h, w)"
    "dm' = dm\<lparr>bulk_handler_list := bulk_handler_list dm @ [h], wld := w\<rparr>"
    using p by (auto simp: push_new_handler_def split: option.splits)
  have m: "units_match ?q (unit_slots dm)" and ti: "timers_ok dm" using t by (simp_all add: threads_ok_def)
  have free: "\<not> Full ?q"
    using n(1) by (auto simp: new_MemoryBulkHandler_def New_BulkData_init_def Let_def Get_Unit_def split: if_splits)
  have hw: "unit_slot h = Some (write_position ?q)" "hid h = ?n" "bh_state h = Appending"
    "bulk_data_queue w = ?q\<lparr>slots := (slots ?q)[write_position ?q := [Some ?n]], write_position := advance (size_q ?q) (write_position ?q)\<rparr>"
    "bulk_data_timer_wheel w = bulk_data_timer_wheel (wld dm)"
    "bulk_auto_persistence_timer_wheel w = bulk_auto_persistence_timer_wheel (wld dm)"
    using n(1) free by (auto simp: new_MemoryBulkHandler_def New_BulkData_init_def Let_def Get_Unit_def set_unit_handler_def)
  have "units_match (the_queue dm') (unit_slots dm')" "queue_grows ?q (the_queue dm')"
    using units_match_push [OF m free refl] hw(1,4) n(2) by simp_all
  moreover have "releasable dm \<subseteq> releasable dm'" "nonempty_bulks dm \<subseteq> nonempty_bulks dm'"
    using n(2) by (auto simp: releasable_def nonempty_bulks_def nth_append)
  moreover from this ti hw(5,6) n(2) have "timers_ok dm'" unfolding timers_ok_def by auto
  ultimately show ?thesis using hw(2) n(2) by (simp add: threads_ok_def dm_grows_def)
qed

section \<open>The whole append\<close>

lemma Append_log_threads:
  assumes a: "Append_log req dm = Inr (n, dm')" and s: "served dm logs"
  shows "threads_ok dm' \<and> dm_grows dm dm'"
proof (cases "Valid req")
  case False
  with a s show ?thesis by (simp add: Append_log_def served_threads)
next
  case True
  define line where "line = cstr (format_line (req_key req) (req_time req) (req_content req))"
  define j where "j = length (bulk_handler_list dm) - 1"
  have dm: "dm_repr dm logs" "threads_ok dm" using s by (simp_all add: served_threads)
  have ne: "bulk_handler_list dm \<noteq> []" by (rule dm_repr_last(1) [OF dm(1)])
  then have j: "j < length (bulk_handler_list dm)" by (simp add: j_def)
  then have "hid (bulk_handler_list dm ! j) = j" using at_handler(2) [OF dm(1)] dm(1) by (simp add: dm_repr_def)
  note first = dm_Append_threads [OF _ dm(2) j this]
  define second where "second = (\<lambda>(off, dm2). case off of Some o1 \<Rightarrow> Inr (j, Some o1, dm2)
        | None \<Rightarrow> bindE (New_memory_bulk dm2) (\<lambda>dm3.
             let j' = length (bulk_handler_list dm3) - 1 in bindE (dm_Append j' line dm3) (\<lambda>(off', dm4). Inr (j', off', dm4))))"
  define index where "index = (\<lambda>(k, off', dm5). case off' of None \<Rightarrow> Inl UB
     | Some o1 \<Rightarrow> Inr (1::int, Add_key_global_trie (req_key req) k
       (put_handler k (bh_Build_index o1 (req_content req) (req_key req) (req_time req) (bulk_handler_list dm5 ! k)) (wld dm5) dm5)))"
  have "Append_log req dm = bindE (dm_Append j line dm) (\<lambda>x. bindE (second x) index)"
    using True ne unfolding Append_log_def Get_available_memory_bulk_def line_def j_def second_def index_def Let_def split_def
    by (simp cong: option.case_cong)
  with a obtain off dm2 k off' dm5 where r0: "dm_Append j line dm = Inr (off, dm2)" "second (off, dm2) = Inr (k, off', dm5)"
    "index (k, off', dm5) = Inr (n, dm')"
    by (auto simp: bindE_eq_Inr)
  then obtain o1 where o1: "off' = Some o1" by (cases off') (simp_all add: index_def)
  have r: "dm_Append j line dm = Inr (off, dm2)" "second (off, dm2) = Inr (k, Some o1, dm5)"
    "dm' = Add_key_global_trie (req_key req) k
       (put_handler k (bh_Build_index o1 (req_content req) (req_key req) (req_time req) (bulk_handler_list dm5 ! k)) (wld dm5) dm5)"
    using r0 o1 by (simp_all add: index_def)
  have "pending k dm5 \<and> k < length (bulk_handler_list dm5) \<and> dm_grows dm dm5"
  proof (cases off)
    case (Some o2)
    with r(2) first [OF r(1)] j show ?thesis by (auto simp: second_def)
  next
    case None
    with r(2) obtain dm3 where n: "New_memory_bulk dm2 = Inr dm3" "k = length (bulk_handler_list dm3) - 1"
      "dm_Append k line dm3 = Inr (Some o1, dm5)"
      by (auto simp: second_def bindE_eq_Inr Let_def)
    have d2: "threads_ok dm2" "dm_grows dm dm2" using first [OF r(1)] None by simp_all
    obtain serial dm2' where p: "push_new_handler serial dm2' = Inr dm3" "threads_ok dm2'" "dm_grows dm dm2'"
      using n(1) d2 by (auto simp: New_memory_bulk_def LogSerialAdd_def Let_def threads_ok_def timers_ok_def
          releasable_def nonempty_bulks_def dm_grows_def split: if_splits)
    note t3 = push_threads [OF p(1,2)]
    then have k: "k < length (bulk_handler_list dm3)" "hid (bulk_handler_list dm3 ! k) = k"
      using n(2) by (cases "bulk_handler_list dm3 = []"; simp add: last_conv_nth)+
    from dm_Append_threads [OF n(3) _ k] t3 k(1) p(3) show ?thesis by (auto intro: dm_grows_trans)
  qed
  with index_threads [of k dm5 "req_key req" o1 "req_content req" "req_key req" "req_time req"] show ?thesis
    unfolding r(3) Let_def by (auto intro: dm_grows_trans)
qed

end
