(* ===== verification/Service_Work.thy ===== *)
theory Service_Work
  imports Service_Append
begin

text \<open>Every step of the persistence worker is defined and keeps the invariant of the processor.\<close>

section \<open>Replacing a handler from the worker's side\<close>

lemma replace_served:
  assumes s: "served dm logs" and i: "i < length logs" "logs ! i \<noteq> []"
    and h: "hid h = i" "handler_repr h (files w) (logs ! i)" "start_serial (bulk h) = of_nat (first_serial logs i)"
      "bh_state h \<in> {InMemory, Saved}"
    and others: "\<forall>p. p \<notin> own_paths (file_num (bulk_handler_list dm ! i)) \<longrightarrow> files w p = files (wld dm) p"
    and wheels: "bulk_data_timer_wheel w = bulk_data_timer_wheel (wld dm)"
      "bulk_auto_persistence_timer_wheel w = bulk_auto_persistence_timer_wheel (wld dm)"
    and units: "units_match (bulk_data_queue w) ((unit_slots dm)[i := unit_slot h])"
  shows "served (put_handler i h w dm) logs \<and> releasable dm \<subseteq> releasable (put_handler i h w dm)
     \<and> nonempty_bulks dm \<subseteq> nonempty_bulks (put_handler i h w dm)"
proof -
  have dm: "dm_repr dm logs" using s by (simp add: served_def)
  note a = at_handler [OF dm i(1)]
  have "dm_repr (put_handler i h w dm) logs"
    by (rule put_handler_repr [OF dm i(1) h(1-3) _ others]) (use i(2) in simp)
  moreover have rel: "releasable dm \<subseteq> releasable (put_handler i h w dm)"
    using h(4) a(1) by (auto simp: releasable_def nth_list_update)
  moreover have ne: "nonempty_bulks dm \<subseteq> nonempty_bulks (put_handler i h w dm)"
    using handler_size [OF h(2)] i(2) a(1) by (auto simp: nonempty_bulks_def nth_list_update)
  ultimately show ?thesis
    using s wheels units unfolding served_def timers_ok_def by (auto simp: map_update)
qed

section \<open>Persisting a bulk\<close>

lemma units_match_clear:
  assumes m: "units_match q us" and i: "i < length us" "us ! i = Some p"
  shows "units_match (q\<lparr>slots := (slots q)[p := [None]]\<rparr>) (us[i := None])"
proof -
  let ?q = "q\<lparr>slots := (slots q)[p := [None]]\<rparr>"
  have inv: "queue_inv q" "one_msg_size q = 1" "size_q q = BULK_QUEUE_LEN"
    and owned: "\<And>j r. j < length us \<Longrightarrow> us ! j = Some r \<Longrightarrow> r \<in> set (slot_order q) \<and> slots q ! r = [Some j]"
    and cells: "\<And>r. r \<in> set (slot_order q) \<Longrightarrow> slots q ! r = [None] \<or> (\<exists>j < length us. slots q ! r = [Some j] \<and> us ! j = Some r)"
    and last: "\<And>r. us \<noteq> [] \<Longrightarrow> last us = Some r \<Longrightarrow> slot_order q \<noteq> [] \<and> last (slot_order q) = r"
    using m unfolding units_match_def by blast+
  have so: "slot_order ?q = slot_order q" by (simp add: slot_order_def Size_def)
  have p: "p < length (slots q)" using owned [OF i] slot_order_bound [OF inv(1)] inv(1) by (simp add: queue_inv_def)
  have sl: "slots ?q ! r = (if r = p then [None] else slots q ! r)" for r using p by (simp add: nth_list_update)
  have qi: "queue_inv ?q"
    using inv(1,2) set_update_subset_insert [of "slots q" p "[None]"] by (auto simp: queue_inv_def)
  have only: "j = i" if "j < length us" "us ! j = Some p" for j using owned [OF that] owned [OF i] by simp
  have "r \<in> set (slot_order ?q) \<and> slots ?q ! r = [Some j]" if "j < length us" "us[i := None] ! j = Some r" for j r
  proof -
    have "us ! j = Some r" "j \<noteq> i" using that i(1) by (auto simp: nth_list_update split: if_splits)
    then have "p \<noteq> r" using only that(1) by auto
    with owned [OF that(1) \<open>us ! j = Some r\<close>] show ?thesis by (simp add: so)
  qed
  moreover have "slots ?q ! r = [None] \<or> (\<exists>j < length us. slots ?q ! r = [Some j] \<and> us[i := None] ! j = Some r)"
    if r: "r \<in> set (slot_order ?q)" for r
  proof (cases "r = p")
    case False
    with cells [of r] r obtain j where "slots q ! r = [None] \<or> (j < length us \<and> slots q ! r = [Some j] \<and> us ! j = Some r)"
      by (auto simp: so)
    with False i(2) have "slots q ! r = [None] \<or> (j < length us \<and> slots q ! r = [Some j] \<and> us[i := None] ! j = Some r)"
      by (cases "j = i") auto
    with False show ?thesis unfolding sl by auto
  qed (use p in simp)
  moreover have "slot_order ?q \<noteq> [] \<and> last (slot_order ?q) = r" if "us[i := None] \<noteq> []" "last (us[i := None]) = Some r" for r
  proof -
    have "us \<noteq> []" "last us = Some r" using that i(1) by (auto simp: last_conv_nth nth_list_update split: if_splits)
    with last so show ?thesis by simp
  qed
  ultimately show ?thesis using qi inv(2,3) unfolding units_match_def by simp
qed

lemma persist_handler_served:
  assumes s: "served dm logs" and i: "i < length logs" "logs ! i \<noteq> []"
  shows "\<exists>dm'. persist_handler i dm = Inr dm' \<and> served dm' logs
     \<and> releasable dm \<subseteq> releasable dm' \<and> nonempty_bulks dm \<subseteq> nonempty_bulks dm'
     \<and> slot_order (the_queue dm') = slot_order (the_queue dm)
     \<and> (\<forall>p. unit_slot (bulk_handler_list dm ! i) = Some p \<longrightarrow> slots (the_queue dm') ! p = [None])"
proof -
  let ?h = "bulk_handler_list dm ! i"
  have dm: "dm_repr dm logs" and m: "units_match (the_queue dm) (unit_slots dm)" using s by (simp_all add: served_def)
  note a = at_handler [OF dm i(1)]
  show ?thesis
  proof (cases "bh_state ?h = Saved")
    case True
    then have "Persistence ?h (wld dm) = Inr (False, ?h, wld dm)" by (simp add: Persistence_def)
    moreover have "put_handler i ?h (wld dm) dm = dm" by (simp add: put_handler_def)
    moreover have "unit_slot ?h = None" using a(3) True by (simp add: handler_repr_def)
    ultimately have "persist_handler i dm = Inr dm" unfolding persist_handler_def bindE.simps by simp
    with s \<open>unit_slot ?h = None\<close> show ?thesis by simp
  next
    case False
    obtain h w where p: "Persistence ?h (wld dm) = Inr (True, h, w)" "handler_repr h (files w) (logs ! i)" "bh_state h = Saved"
      "hid h = hid ?h" "file_num h = file_num ?h" "start_serial (bulk h) = start_serial (bulk ?h)"
      "\<forall>p. p \<notin> own_paths (file_num ?h) \<longrightarrow> files w p = files (wld dm) p"
      "bulk_data_timer_wheel w = bulk_data_timer_wheel (wld dm)"
      "bulk_auto_persistence_timer_wheel w = bulk_auto_persistence_timer_wheel (wld dm)"
      "bulk_data_queue w = (case unit_slot ?h of None \<Rightarrow> the_queue dm
          | Some p \<Rightarrow> (the_queue dm)\<lparr>slots := (slots (the_queue dm))[p := [None]]\<rparr>)"
      using Persistence_repr [OF a(3) False] by blast
    have us: "i < length (unit_slots dm)" "unit_slots dm ! i = unit_slot ?h" using a(1) by simp_all
    have none: "unit_slot h = None" using p(2,3) by (simp add: handler_repr_def)
    have match: "units_match (bulk_data_queue w) ((unit_slots dm)[i := unit_slot h])"
    proof (cases "unit_slot ?h")
      case None
      then have "(unit_slots dm)[i := None] = unit_slots dm" using us by (metis list_update_id)
      with None m p(10) none show ?thesis by simp
    next
      case (Some x)
      with units_match_clear [OF m us(1)] us(2) p(10) none show ?thesis by simp
    qed
    have st: "hid h = i" "start_serial (bulk h) = of_nat (first_serial logs i)" "bh_state h \<in> {InMemory, Saved}"
      using p(3,4,6) a(2,4) by simp_all
    have "slots (bulk_data_queue w) ! x = [None]" if x: "unit_slot ?h = Some x" for x
    proof -
      have "queue_inv (the_queue dm)" "x \<in> set (slot_order (the_queue dm))"
        using m us x unfolding units_match_def by auto
      then have "x < length (slots (the_queue dm))" using slot_order_bound by (simp add: queue_inv_def)
      with p(10) x show ?thesis by simp
    qed
    moreover have "slot_order (bulk_data_queue w) = slot_order (the_queue dm)"
      using p(10) by (simp add: slot_order_def Size_def split: option.split)
    ultimately show ?thesis
      using replace_served [OF s i st(1) p(2) st(2,3) p(7-9) match] p(1) by (simp add: persist_handler_def)
  qed
qed

section \<open>The worker's place in its loop\<close>

definition front_free :: "data_manager \<Rightarrow> bool" where
  "front_free dm \<longleftrightarrow> slots (the_queue dm) ! hd (slot_order (the_queue dm)) = [None]"

fun pc_ok :: "worker_pc \<Rightarrow> data_manager \<Rightarrow> bool" where
  "pc_ok (Draining n) dm \<longleftrightarrow> n < Size (the_queue dm)"
| "pc_ok (Persisted n) dm \<longleftrightarrow> Suc n < Size (the_queue dm) \<and> front_free dm"
| "pc_ok (TimingOut is) dm \<longleftrightarrow> set is \<subseteq> releasable dm"
| "pc_ok (AutoSaving is) dm \<longleftrightarrow> set is \<subseteq> nonempty_bulks dm"
| "pc_ok _ dm \<longleftrightarrow> True"

lemma queue_grows_size:
  assumes "queue_grows q q'"
  shows "Size q \<le> Size q'" "0 < Size q \<Longrightarrow> hd (slot_order q') = hd (slot_order q)
    \<and> slots q' ! hd (slot_order q) = slots q ! hd (slot_order q)"
proof -
  obtain ps where ps: "slot_order q' = slot_order q @ ps" "\<forall>p \<in> set (slot_order q). slots q' ! p = slots q ! p"
    using assms by (auto simp: queue_grows_def)
  show "Size q \<le> Size q'" using arg_cong [OF ps(1), of length] by simp
  assume "0 < Size q"
  then have ne: "slot_order q \<noteq> []" by (metis length_greater_0_conv length_slot_order)
  then have "hd (slot_order q') = hd (slot_order q)" using ps(1) by simp
  with ps(2) ne show "hd (slot_order q') = hd (slot_order q) \<and> slots q' ! hd (slot_order q) = slots q ! hd (slot_order q)"
    by simp
qed

text \<open>What a request leaves as the worker found it.\<close>

lemma pc_ok_grows:
  assumes "pc_ok pc dm" "dm_grows dm dm'"
  shows "pc_ok pc dm'"
proof -
  have g: "queue_grows (the_queue dm) (the_queue dm')" "releasable dm \<subseteq> releasable dm'" "nonempty_bulks dm \<subseteq> nonempty_bulks dm'"
    using assms(2) by (simp_all add: dm_grows_def)
  note q = queue_grows_size [OF g(1)]
  show ?thesis
  proof (cases pc)
    case (Persisted n)
    with assms(1) q show ?thesis by (simp add: front_free_def)
  qed (use assms(1) g q(1) in auto)
qed

lemma persist_front_served:
  assumes s: "served dm logs" and n: "Suc n < Size (the_queue dm)"
  shows "\<exists>dm'. persist_front_unit dm = Inr dm' \<and> served dm' logs \<and> pc_ok (Persisted n) dm'"
proof -
  let ?q = "the_queue dm"
  have m: "units_match ?q (unit_slots dm)" and dm: "dm_repr dm logs" using s by (simp_all add: served_def)
  then have inv: "queue_inv ?q" by (simp add: units_match_def)
  have "\<not> Empty ?q" using n Empty_iff [OF inv] by simp
  from Front_Release [OF inv this] have front: "Front_Unit ?q = Some (Some (hd (slot_order ?q)), ?q)" by blast
  have two: "length (slot_order ?q) > 1" using n by simp
  have ne: "slot_order ?q \<noteq> []" using n by (intro slot_order_ne) simp
  then have p: "hd (slot_order ?q) \<in> set (slot_order ?q)" by simp
  let ?p = "hd (slot_order ?q)"
  have same: "set_queue ?q dm = dm" by (simp add: set_queue_def)
  have cell: "slots ?q ! ?p = [None] \<or> (\<exists>i < length (unit_slots dm). slots ?q ! ?p = [Some i] \<and> unit_slots dm ! i = Some ?p)"
    using m p unfolding units_match_def by blast
  show ?thesis
  proof (cases "slots ?q ! ?p = [None]")
    case True
    with front same s n show ?thesis by (simp add: persist_front_unit_def front_free_def)
  next
    case False
    with cell obtain i where i: "i < length logs" "slots ?q ! ?p = [Some i]" "unit_slot (bulk_handler_list dm ! i) = Some ?p"
      using dm by (auto simp: dm_repr_def)
    have "logs ! i \<noteq> []"
    proof
      assume "logs ! i = []"
      then have "Suc i = length logs" using dm i(1) by (fastforce simp: dm_repr_def)
      then have len: "length (bulk_handler_list dm) = Suc i" using dm by (simp add: dm_repr_def)
      then have l: "unit_slots dm \<noteq> []" by auto
      with i(3) len have "last (unit_slots dm) = Some ?p" by (simp add: last_conv_nth)
      with m l have "last (slot_order ?q) = ?p" unfolding units_match_def by blast
      with slot_order_distinct [OF inv] two show False
        by (cases "slot_order ?q") (auto split: if_splits)
    qed
    from persist_handler_served [OF s i(1) this] obtain dm' where d: "persist_handler i dm = Inr dm'" "served dm' logs"
      "slot_order (the_queue dm') = slot_order ?q" "slots (the_queue dm') ! ?p = [None]"
      using i(3) by blast
    have "Size (the_queue dm') = Size ?q" using arg_cong [OF d(3), of length] by simp
    with d n front same i(2) show ?thesis by (simp add: persist_front_unit_def front_free_def)
  qed
qed

lemma set_queue_repr: "dm_repr (set_queue q dm) logs = dm_repr dm logs"
  by (simp add: dm_repr_def bulk_at_def set_queue_def)

lemma release_front_served:
  assumes s: "served dm logs" and n: "Suc n < Size (the_queue dm)" and free: "front_free dm"
  shows "\<exists>dm'. release_front_unit dm = Inr dm' \<and> served dm' logs \<and> pc_ok (Draining n) dm' \<and> \<not> Full (the_queue dm')"
proof -
  let ?q = "the_queue dm" and ?us = "unit_slots dm"
  have m: "units_match ?q ?us" and dm: "dm_repr dm logs" and t: "timers_ok dm" using s by (simp_all add: served_def)
  then have inv: "queue_inv ?q" by (simp add: units_match_def)
  have "\<not> Empty ?q" using n Empty_iff [OF inv] by simp
  from Front_Release [OF inv this] obtain q where q: "Release_front_unit ?q = Some (Some (hd (slot_order ?q)), q)"
    "slot_order q = tl (slot_order ?q)" "slots q = slots ?q" "queue_inv q" "size_q q = size_q ?q" "one_msg_size q = one_msg_size ?q"
    by blast
  have sz: "Size q = Size ?q - 1" using arg_cong [OF q(2), of length] by simp
  have ne: "slot_order ?q \<noteq> []" using n by (intro slot_order_ne) simp
  then have so: "slot_order ?q = hd (slot_order ?q) # slot_order q" by (simp add: q(2))
  have tl: "slot_order q \<noteq> []" using n sz by (intro slot_order_ne) simp
  have owned: "p \<in> set (slot_order ?q) \<and> slots ?q ! p = [Some i]" if "i < length ?us" "?us ! i = Some p" for i p
    using m that unfolding units_match_def by blast
  have "p \<in> set (slot_order q) \<and> slots q ! p = [Some i]" if "i < length ?us" "?us ! i = Some p" for i p
  proof -
    have "p \<noteq> hd (slot_order ?q)" using owned [OF that] free by (auto simp: front_free_def)
    with owned [OF that] so q(3) show ?thesis by (metis set_ConsD)
  qed
  moreover have "slots q ! p = [None] \<or> (\<exists>i < length ?us. slots q ! p = [Some i] \<and> ?us ! i = Some p)"
    if "p \<in> set (slot_order q)" for p
  proof -
    have "p \<in> set (slot_order ?q)" using that so by (metis list.set_intros(2))
    with m q(3) show ?thesis unfolding units_match_def by auto
  qed
  moreover have "slot_order q \<noteq> [] \<and> last (slot_order q) = p" if "?us \<noteq> []" "last ?us = Some p" for p
  proof -
    have "last (slot_order ?q) = p" using m that unfolding units_match_def by blast
    with tl so show ?thesis by (metis last_ConsR)
  qed
  ultimately have "units_match q ?us" using m q unfolding units_match_def by simp
  then have "served (set_queue q dm) logs"
    using dm t set_queue_repr by (simp add: served_def timers_ok_def set_queue_def releasable_def nonempty_bulks_def)
  moreover have "\<not> Full q" using Full_iff [OF q(4)] sz n Size_bound [OF inv] q(5) by simp
  ultimately show ?thesis using q(1) sz n by (simp add: release_front_unit_def set_queue_def)
qed

section \<open>Timers\<close>

lemma tick_bulk_served:
  assumes s: "served dm logs" and t: "tick_bulk_data dm = (fired, dm')"
  shows "served dm' logs \<and> set fired \<subseteq> releasable dm'"
proof -
  obtain us s1 where u: "Tick (bulk_data_timer_wheel (wld dm)) = (us, s1)" "fired = map tu_member us"
    "dm' = dm\<lparr>wld := (wld dm)\<lparr>bulk_data_timer_wheel := s1\<rparr>\<rparr>"
    using t by (auto simp: tick_bulk_data_def split: prod.splits)
  have ok: "set_wf (bulk_data_timer_wheel (wld dm))" "held (wheels (bulk_data_timer_wheel (wld dm))) \<subseteq> releasable dm"
    using s by (simp_all add: served_def timers_ok_def)
  have h: "tu_member ` set us \<subseteq> releasable dm \<and> held (wheels s1) \<subseteq> releasable dm"
    using Tick_held [OF ok u(1)] .
  have same: "releasable dm' = releasable dm" "nonempty_bulks dm' = nonempty_bulks dm"
    by (simp_all add: u(3) releasable_def nonempty_bulks_def)
  have "dm_repr dm' logs = dm_repr dm logs" by (simp add: u(3) dm_repr_def bulk_at_def)
  with s h Tick_wf [OF ok(1) u(1)] same u(2,3) show ?thesis by (simp add: served_def timers_ok_def)
qed

lemma tick_auto_served:
  assumes s: "served dm logs" and t: "tick_auto_persistence dm = (fired, dm')"
  shows "served dm' logs \<and> set fired \<subseteq> nonempty_bulks dm'"
proof -
  obtain us s1 where u: "Tick (bulk_auto_persistence_timer_wheel (wld dm)) = (us, s1)" "fired = map tu_member us"
    "dm' = dm\<lparr>wld := (wld dm)\<lparr>bulk_auto_persistence_timer_wheel := s1\<rparr>\<rparr>"
    using t by (auto simp: tick_auto_persistence_def split: prod.splits)
  have ok: "set_wf (bulk_auto_persistence_timer_wheel (wld dm))"
    "held (wheels (bulk_auto_persistence_timer_wheel (wld dm))) \<subseteq> nonempty_bulks dm"
    using s by (simp_all add: served_def timers_ok_def)
  have h: "tu_member ` set us \<subseteq> nonempty_bulks dm \<and> held (wheels s1) \<subseteq> nonempty_bulks dm"
    using Tick_held [OF ok u(1)] .
  have same: "releasable dm' = releasable dm" "nonempty_bulks dm' = nonempty_bulks dm"
    by (simp_all add: u(3) releasable_def nonempty_bulks_def)
  have "dm_repr dm' logs = dm_repr dm logs" by (simp add: u(3) dm_repr_def bulk_at_def)
  with s h Tick_wf [OF ok(1) u(1)] same u(2,3) show ?thesis by (simp add: served_def timers_ok_def)
qed

lemma timeout_served:
  assumes s: "served dm logs" and i: "i \<in> releasable dm"
  shows "\<exists>dm'. BulkTimeout_Act i dm = Inr dm' \<and> served dm' logs \<and> releasable dm \<subseteq> releasable dm'"
proof -
  let ?h = "bulk_handler_list dm ! i"
  have dm: "dm_repr dm logs" and m: "units_match (the_queue dm) (unit_slots dm)" using s by (simp_all add: served_def)
  have l: "i < length logs" "bh_state ?h \<in> {InMemory, Saved}" using i dm by (auto simp: releasable_def dm_repr_def)
  note a = at_handler [OF dm l(1)]
  obtain h where h: "Release_space ?h = Inr h" "handler_repr h (files (wld dm)) (logs ! i)" "bh_state h = Saved" "hid h = hid ?h"
    "start_serial (bulk h) = start_serial (bulk ?h)" "unit_slot h = None"
    using Release_repr [OF a(3)] l(2) by auto
  have ne: "logs ! i \<noteq> []" using a(6) l(2) by auto
  have "unit_slot ?h = None" using a(3) l(2) by (auto simp: handler_repr_def)
  then have "(unit_slots dm)[i := unit_slot h] = unit_slots dm" using h(6) a(1) by (metis list_update_id nth_map)
  then have match: "units_match (bulk_data_queue (wld dm)) ((unit_slots dm)[i := unit_slot h])" using m by simp
  have "hid h = i" "start_serial (bulk h) = of_nat (first_serial logs i)" "bh_state h \<in> {InMemory, Saved}"
    using h a by simp_all
  from replace_served [OF s l(1) ne this(1) h(2) this(2,3) _ refl refl match] h(1) show ?thesis
    by (simp add: BulkTimeout_Act_def)
qed

section \<open>Every step\<close>

lemma worker_step_served:
  assumes s: "served dm logs" and pc: "pc_ok pc dm"
  shows "\<exists>pc' dm'. worker_step pc dm = Inr (pc', dm') \<and> served dm' logs \<and> pc_ok pc' dm'"
proof (cases "(pc, dm)" rule: worker_step.cases)
  case (1 dm1)
  with s show ?thesis by (auto simp: queue_is_full_def PERSISTENCE_THRESHOLD_def)
next
  case (3 n dm1)
  with persist_front_served [OF s, of n] pc show ?thesis by auto
next
  case (4 n dm1)
  with release_front_served [OF s, of n] pc show ?thesis by auto
next
  case (5 dm1)
  with tick_bulk_served [OF s] show ?thesis by (auto split: prod.splits)
next
  case (7 i others dm1)
  have "i \<in> releasable dm" "set others \<subseteq> releasable dm" using pc 7 by simp_all
  with timeout_served [OF s] 7 show ?thesis by fastforce
next
  case (8 dm1)
  with tick_auto_served [OF s] show ?thesis by (auto split: prod.splits)
next
  case (10 i others dm1)
  have i: "i \<in> nonempty_bulks dm" "set others \<subseteq> nonempty_bulks dm" using pc 10 by simp_all
  have dm: "dm_repr dm logs" using s by (simp add: served_def)
  have l: "i < length logs" using i(1) dm by (simp add: nonempty_bulks_def dm_repr_def)
  have "logs ! i \<noteq> []" using i(1) at_handler(5) [OF dm l] by (auto simp: nonempty_bulks_def)
  from persist_handler_served [OF s l this] i(2) 10 show ?thesis by (fastforce simp: BulkAutoPersistence_Act_def)
qed (use s in simp_all)

end
