(* ===== verification/Query_Turns.thy ===== *)
theory Query_Turns
  imports Service_Work Log_Search
begin

text \<open>
  The queries that go from bulk to bulk (\<^verbatim>\<open>Getkey_log\<close>, \<^verbatim>\<open>Get_recent_log\<close> and \<^verbatim>\<open>Search_log\<close> with several
  words, \<^verbatim>\<open>src/log_processor/data_manager.cpp\<close>) while the persistence worker runs.  \<open>Data_Manager\<close> takes a
  query as a whole; here it is cut at the calls of \<^verbatim>\<open>Get_read_lock\<close> and \<^verbatim>\<open>Drop_read_lock\<close> and between any two
  answered lines, and steps of the worker come in between.  A step of the worker that needs the write
  lock of the bulk the query is reading waits.
\<close>

section \<open>A query, step by step\<close>

datatype visit = By_key string | By_words "string list" | Most_recent

text \<open>
  The bulks still to visit, newest first; the bulk whose read lock is held, with the serials still to
  answer; how many results are left; the answer so far.
\<close>

record visiting =
  kind :: visit
  todo :: "nat list"
  in_hand :: "(nat \<times> nat list) option"
  num_left :: int
  vs_answer :: QueryResultHandler

fun more :: "visit \<Rightarrow> int \<Rightarrow> bool" where
  "more Most_recent num \<longleftrightarrow> num > 0"
| "more _ num \<longleftrightarrow> num \<ge> 0"

text \<open>The serials one bulk contributes, in the order in which they are answered.\<close>

fun visit_search :: "visit \<Rightarrow> nat \<Rightarrow> data_manager \<Rightarrow> (nat list \<times> data_manager) res" where
  "visit_search (By_key key) i dm =
     bindE (bh_Search_key key (bulk_handler_list dm ! i) (wld dm)) (\<lambda>(r, h, w).
       Inr (case r of None \<Rightarrow> [] | Some serials \<Rightarrow> rev serials, put_handler i h w dm))"
| "visit_search (By_words words) i dm =
     bindE (bh_Join_search words (bulk_handler_list dm ! i) (wld dm)) (\<lambda>(serials, h, w).
       Inr (rev serials, put_handler i h w dm))"
| "visit_search Most_recent i dm = Inr (rev [0..<mb_size (bulk (bulk_handler_list dm ! i))], dm)"

text \<open>
  The list \<^verbatim>\<open>tmp_serial_list\<close> of a key is in the bulk's trie, and gone with it; the one of a join is a
  copy.
\<close>

fun list_lost :: "visit \<Rightarrow> MemoryBulkHandler \<Rightarrow> bool" where
  "list_lost (By_key key) h \<longleftrightarrow> \<not> key_read h"
| "list_lost _ h \<longleftrightarrow> False"

definition visit_step :: "visiting \<Rightarrow> data_manager \<Rightarrow> (visiting \<times> data_manager) res" where
  "visit_step v dm =
     (case in_hand v of
        None \<Rightarrow>
          (case todo v of
             [] \<Rightarrow> Inr (v, dm)
           | i # is \<Rightarrow>
               if more (kind v) (num_left v)
               then bindE (visit_search (kind v) i dm) (\<lambda>(ss, dm'). Inr (v\<lparr>todo := is, in_hand := Some (i, ss)\<rparr>, dm'))
               else Inr (v\<lparr>todo := []\<rparr>, dm))
      | Some (i, serials) \<Rightarrow>
          if list_lost (kind v) (bulk_handler_list dm ! i) then Inl UB
          else (case serials of
                  [] \<Rightarrow> Inr (v\<lparr>in_hand := None\<rparr>, dm)
                | s # ss \<Rightarrow>
                    if more (kind v) (num_left v)
                    then bindE (answer_entry i s (dm, vs_answer v)) (\<lambda>(dm', hr).
                           Inr (v\<lparr>in_hand := Some (i, ss), num_left := num_left v - 1, vs_answer := hr\<rparr>, dm'))
                    else Inr (v\<lparr>in_hand := None\<rparr>, dm)))"

definition finished :: "visiting \<Rightarrow> bool" where
  "finished v \<longleftrightarrow> todo v = [] \<and> in_hand v = None"

section \<open>The worker in between\<close>

text \<open>The handler whose write lock the next step of the worker takes; \<^verbatim>\<open>Persistence\<close> turns away before it does.\<close>

definition saves_under_lock :: "nat \<Rightarrow> data_manager \<Rightarrow> bool" where
  "saves_under_lock i dm \<longleftrightarrow> bh_state (bulk_handler_list dm ! i) \<in> {InMemory, InQueue, Appending}"

fun worker_locks :: "worker_pc \<Rightarrow> data_manager \<Rightarrow> nat option" where
  "worker_locks (Draining (Suc n)) dm =
     (case Front_Unit (the_queue dm) of
        Some (Some p, q) \<Rightarrow> (case hd (slots q ! p) of
            Some i \<Rightarrow> if saves_under_lock i dm then Some i else None
          | None \<Rightarrow> None)
      | _ \<Rightarrow> None)"
| "worker_locks (TimingOut (i # is)) dm = Some i"
| "worker_locks (AutoSaving (i # is)) dm = (if saves_under_lock i dm then Some i else None)"
| "worker_locks _ dm = None"

datatype turn = Query_goes | Worker_goes

fun go :: "turn \<Rightarrow> visiting \<times> worker_pc \<times> data_manager \<Rightarrow> (visiting \<times> worker_pc \<times> data_manager) res" where
  "go Query_goes (v, pc, dm) = bindE (visit_step v dm) (\<lambda>(v', dm'). Inr (v', pc, dm'))"
| "go Worker_goes (v, pc, dm) =
     (if worker_locks pc dm \<noteq> None \<and> worker_locks pc dm = map_option fst (in_hand v) then Inr (v, pc, dm)
      else bindE (worker_step pc dm) (\<lambda>(pc', dm'). Inr (v, pc', dm')))"

fun take_turns :: "turn list \<Rightarrow> visiting \<times> worker_pc \<times> data_manager \<Rightarrow> (visiting \<times> worker_pc \<times> data_manager) res" where
  "take_turns [] st = Inr st"
| "take_turns (t # ts) st = bindE (go t st) (take_turns ts)"

section \<open>The handlers\<close>

text \<open>A list of turns that does not bring the query to its end leaves it waiting.\<close>

definition visit_bulks ::
  "turn list \<Rightarrow> visit \<Rightarrow> nat list \<Rightarrow> int \<Rightarrow> QueryResultHandler \<Rightarrow> worker_pc \<times> data_manager
    \<Rightarrow> (int \<times> QueryResultHandler \<times> worker_pc \<times> data_manager) res" where
  "visit_bulks ts k is num hr st =
     bindE (take_turns ts (\<lparr>kind = k, todo = is, in_hand = None, num_left = num, vs_answer = hr\<rparr>, st)) (\<lambda>(v, pc, dm).
       if finished v then Inr (num_left v, vs_answer v, pc, dm) else Inl Waits)"

definition close_turns :: "u64 \<Rightarrow> bool \<Rightarrow> QueryResultHandler \<Rightarrow> worker_pc \<times> data_manager \<Rightarrow> (worker_pc \<times> data_manager) res" where
  "close_turns now none hr st = (case st of (pc, dm) \<Rightarrow>
     bindE (answer_no_result none (dm, hr)) (\<lambda>(dm1, hr1).
     bindE (finish_answer now hr1 dm1) (\<lambda>dm2. Inr (pc, dm2))))"

definition Getkey_log_turns :: "u64 \<Rightarrow> u64 \<Rightarrow> turn list \<Rightarrow> ReqData \<Rightarrow> worker_pc \<times> data_manager \<Rightarrow> (worker_pc \<times> data_manager) res" where
  "Getkey_log_turns now0 now1 ts req st =
     (let hr = new_QueryResultHandler (req_client_id req) now0
      in if \<not> Valid req \<or> req_type req \<noteq> T_Getkey then bindE (refuse now1 hr (snd st)) (\<lambda>(_, dm). Inr (fst st, dm))
         else bindE (case Find_key_in_global_trie (req_key req) (snd st) of
                       None \<Rightarrow> Inr (MAX_NUM_RESULT, hr, st)
                     | Some bulks \<Rightarrow> visit_bulks ts (By_key (req_key req)) (rev bulks) MAX_NUM_RESULT hr st) (\<lambda>(num, hr1, st1).
              close_turns now1 (num = 0) hr1 st1))"

definition Search_log_turns :: "u64 \<Rightarrow> u64 \<Rightarrow> turn list \<Rightarrow> ReqData \<Rightarrow> worker_pc \<times> data_manager \<Rightarrow> (worker_pc \<times> data_manager) res" where
  "Search_log_turns now0 now1 ts req st =
     (let words = Split_key_word (req_keyword req); hr = new_QueryResultHandler (req_client_id req) now0;
          is = rev [0..<length (bulk_handler_list (snd st))]
      in if \<not> Valid req \<or> req_type req \<noteq> T_Search \<or> length words \<le> 1
         then bindE (Search_log now0 now1 req (snd st)) (\<lambda>(_, dm). Inr (fst st, dm))
         else bindE (visit_bulks ts (By_words words) is MAX_NUM_RESULT hr st) (\<lambda>(num, hr1, st1).
              close_turns now1 (num = 0) hr1 st1))"

definition Get_recent_log_turns :: "u64 \<Rightarrow> u64 \<Rightarrow> turn list \<Rightarrow> ReqData \<Rightarrow> worker_pc \<times> data_manager \<Rightarrow> (worker_pc \<times> data_manager) res" where
  "Get_recent_log_turns now0 now1 ts req st =
     (let hr = new_QueryResultHandler (req_client_id req) now0; is = rev [0..<length (bulk_handler_list (snd st))]
      in if \<not> Valid req \<or> req_type req \<noteq> T_Recent
         then bindE (Get_recent_log now0 now1 req (snd st)) (\<lambda>(_, dm). Inr (fst st, dm))
         else bindE (visit_bulks ts Most_recent is (to_int32 (req_count req)) hr st) (\<lambda>(num, hr1, st1).
              close_turns now1 False hr1 st1))"

definition Process_req_turns :: "u64 \<Rightarrow> u64 \<Rightarrow> turn list \<Rightarrow> ReqData \<Rightarrow> worker_pc \<times> data_manager \<Rightarrow> (worker_pc \<times> data_manager) res" where
  "Process_req_turns now0 now1 ts req st =
     (if \<not> Valid req then Inr st
      else case req_type req of
          T_Recent \<Rightarrow> Get_recent_log_turns now0 now1 ts req st
        | T_Getkey \<Rightarrow> Getkey_log_turns now0 now1 ts req st
        | T_Search \<Rightarrow> Search_log_turns now0 now1 ts req st
        | _ \<Rightarrow> bindE (Process_req now0 now1 req (snd st)) (\<lambda>dm. Inr (fst st, dm)))"

section \<open>The turns keep the processor's invariant\<close>

definition in_range :: "nat \<Rightarrow> visiting \<Rightarrow> bool" where
  "in_range n v \<longleftrightarrow> (\<forall>i \<in> set (todo v). i < n) \<and> (\<forall>i ss. in_hand v = Some (i, ss) \<longrightarrow> i < n)"

lemma visit_search_served:
  assumes "visit_search k i dm = Inr (ss, dm')" "served dm logs" "i < length logs"
  shows "later dm dm' logs"
proof -
  have s: "later dm dm logs" using assms(2) by (simp add: later_def)
  have repr: "handler_repr (bulk_handler_list dm ! i) (files (wld dm)) (logs ! i)"
    using assms(2,3) at_handler(3) by (simp add: served_def)
  show ?thesis
  proof (cases k)
    case (By_key key)
    with assms(1) obtain r h w where "bh_Search_key key (bulk_handler_list dm ! i) (wld dm) = Inr (r, h, w)"
      "dm' = put_handler i h w dm" by (auto simp: bindE_eq_Inr)
    with put_served [OF s assms(3) Search_key_step [OF _ repr]] show ?thesis by simp
  next
    case (By_words ws)
    with assms(1) obtain r h w where "bh_Join_search ws (bulk_handler_list dm ! i) (wld dm) = Inr (r, h, w)"
      "dm' = put_handler i h w dm" by (auto simp: bindE_eq_Inr)
    with put_served [OF s assms(3) Join_search_step [OF _ repr]] show ?thesis by simp
  qed (use assms s in simp)
qed

lemma visit_step_served:
  assumes "visit_step v dm = Inr (v', dm')" "served dm logs" "in_range (length logs) v"
  shows "later dm dm' logs \<and> in_range (length logs) v'"
proof -
  have s: "later dm dm logs" using assms(2) by (simp add: later_def)
  show ?thesis
  proof (cases "in_hand v")
    case None
    with assms s show ?thesis
      by (auto simp: visit_step_def in_range_def bindE_eq_Inr split: list.splits if_splits dest: visit_search_served)
  next
    case (Some j)
    obtain i ss where "j = (i, ss)" by (cases j)
    with Some assms s show ?thesis
      by (auto simp: visit_step_def in_range_def bindE_eq_Inr split: list.splits if_splits
          dest!: answer_entry_served [where ?dm0.0 = dm and logs = logs])
  qed
qed

lemma go_served:
  assumes "go t (v, pc, dm) = Inr (v', pc', dm')" "served dm logs" "pc_ok pc dm" "in_range (length logs) v"
  shows "served dm' logs \<and> pc_ok pc' dm' \<and> in_range (length logs) v'"
proof (cases t)
  case Query_goes
  with assms(1) have "visit_step v dm = Inr (v', dm')" "pc' = pc" by (auto simp: bindE_eq_Inr)
  with visit_step_served [OF _ assms(2,4)] pc_ok_grows [OF assms(3)] show ?thesis by (auto simp: later_def)
next
  case Worker_goes
  with assms worker_step_served [OF assms(2,3)] show ?thesis by (auto simp: bindE_eq_Inr split: if_splits)
qed

lemma take_turns_served:
  "take_turns ts (v, pc, dm) = Inr (v', pc', dm') \<Longrightarrow> served dm logs \<Longrightarrow> pc_ok pc dm \<Longrightarrow> in_range (length logs) v \<Longrightarrow>
   served dm' logs \<and> pc_ok pc' dm' \<and> in_range (length logs) v'"
proof (induction ts arbitrary: v pc dm)
  case (Cons t ts)
  from Cons.prems(1) obtain v1 pc1 dm1 where g: "go t (v, pc, dm) = Inr (v1, pc1, dm1)"
    "take_turns ts (v1, pc1, dm1) = Inr (v', pc', dm')" by (auto simp: bindE_eq_Inr)
  from Cons.IH [OF g(2)] go_served [OF g(1) Cons.prems(2-4)] show ?case by blast
qed simp

lemma visit_bulks_served:
  assumes "visit_bulks ts k is num hr (pc, dm) = Inr (n, hr', pc', dm')" "served dm logs" "pc_ok pc dm" "\<forall>i \<in> set is. i < length logs"
  shows "served dm' logs \<and> pc_ok pc' dm'"
proof -
  let ?v = "\<lparr>kind = k, todo = is, in_hand = None, num_left = num, vs_answer = hr\<rparr>"
  obtain v where t: "take_turns ts (?v, pc, dm) = Inr (v, pc', dm')"
    using assms(1) by (auto simp: visit_bulks_def bindE_eq_Inr split: if_splits)
  have "in_range (length logs) ?v" using assms(4) by (simp add: in_range_def)
  from take_turns_served [OF t assms(2,3) this] show ?thesis by simp
qed

lemma close_turns_served:
  assumes "close_turns now none hr (pc, dm) = Inr (pc', dm')" "served dm logs" "pc_ok pc dm"
  shows "served dm' logs \<and> pc_ok pc' dm'"
proof -
  have "later dm dm logs" using assms(2) by (simp add: later_def)
  with assms(1) have "later dm dm' logs" "pc' = pc"
    by (auto simp: close_turns_def answer_no_result_def res_simps split: if_splits dest: finish_served)
  with pc_ok_grows [OF assms(3)] show ?thesis by (auto simp: later_def)
qed

lemma visit_request_served:
  assumes "bindE (visit_bulks ts k is num hr (pc, dm)) (\<lambda>(n, hr1, st1). close_turns t (none n) hr1 st1) = Inr (pc', dm')"
    and "served dm logs" "pc_ok pc dm" "\<forall>i \<in> set is. i < length logs"
  shows "served dm' logs \<and> pc_ok pc' dm'"
proof -
  obtain n hr1 pc1 dm1 where "visit_bulks ts k is num hr (pc, dm) = Inr (n, hr1, pc1, dm1)"
    "close_turns t (none n) hr1 (pc1, dm1) = Inr (pc', dm')" using assms(1) by (auto simp: bindE_eq_Inr)
  with visit_bulks_served [OF _ assms(2-4)] close_turns_served show ?thesis by blast
qed

lemma whole_request_served:
  assumes "bindE m (\<lambda>(_, dm). Inr (pc, dm)) = Inr (pc', dm')" "\<And>n dm1. m = Inr (n, dm1) \<Longrightarrow> later dm dm1 logs" "pc_ok pc dm"
  shows "served dm' logs \<and> pc_ok pc' dm'"
  using assms pc_ok_grows [OF assms(3)] by (auto simp: later_def bindE_eq_Inr)

lemma Getkey_log_turns_served:
  assumes "Getkey_log_turns t0 t1 ts req (pc, dm) = Inr (pc', dm')" "served dm logs" "pc_ok pc dm"
  shows "served dm' logs \<and> pc_ok pc' dm'"
proof -
  have s: "later dm dm logs" using assms(2) by (simp add: later_def)
  let ?hr = "new_QueryResultHandler (req_client_id req) t0"
  show ?thesis
  proof (cases "\<not> Valid req \<or> req_type req \<noteq> T_Getkey")
    case True
    with assms(1) have "bindE (refuse t1 ?hr dm) (\<lambda>(_, dm). Inr (pc, dm)) = Inr (pc', dm')"
      by (auto simp: Getkey_log_turns_def Let_def)
    from whole_request_served [OF this refuse_served [OF _ s] assms(3)] show ?thesis .
  next
    case False
    note valid = False
    show ?thesis
    proof (cases "Find_key_in_global_trie (req_key req) dm")
      case None
      with assms valid close_turns_served show ?thesis by (auto simp: Getkey_log_turns_def Let_def)
    next
      case (Some bulks)
      with assms(1) valid have "bindE (visit_bulks ts (By_key (req_key req)) (rev bulks) MAX_NUM_RESULT ?hr (pc, dm))
          (\<lambda>(n, hr1, st1). close_turns t1 (n = 0) hr1 st1) = Inr (pc', dm')"
        by (simp add: Getkey_log_turns_def Let_def)
      from visit_request_served [OF this assms(2,3)] known_bulks [OF s Some] show ?thesis by simp
    qed
  qed
qed

lemma Search_log_turns_served:
  assumes "Search_log_turns t0 t1 ts req (pc, dm) = Inr (pc', dm')" "served dm logs" "pc_ok pc dm"
  shows "served dm' logs \<and> pc_ok pc' dm'"
proof -
  have s: "later dm dm logs" using assms(2) by (simp add: later_def)
  let ?words = "Split_key_word (req_keyword req)"
  show ?thesis
  proof (cases "\<not> Valid req \<or> req_type req \<noteq> T_Search \<or> length ?words \<le> 1")
    case True
    with assms(1) have "bindE (Search_log t0 t1 req dm) (\<lambda>(_, dm). Inr (pc, dm)) = Inr (pc', dm')"
      by (auto simp: Search_log_turns_def Let_def)
    from whole_request_served [OF this Search_log_served [OF _ s] assms(3)] show ?thesis .
  next
    case False
    with assms(1) have "bindE (visit_bulks ts (By_words ?words) (rev [0..<length (bulk_handler_list dm)]) MAX_NUM_RESULT
        (new_QueryResultHandler (req_client_id req) t0) (pc, dm))
        (\<lambda>(n, hr1, st1). close_turns t1 (n = 0) hr1 st1) = Inr (pc', dm')"
      by (simp add: Search_log_turns_def Let_def)
    from visit_request_served [OF this assms(2,3)] served_length [OF s] show ?thesis by simp
  qed
qed

lemma Get_recent_log_turns_served:
  assumes "Get_recent_log_turns t0 t1 ts req (pc, dm) = Inr (pc', dm')" "served dm logs" "pc_ok pc dm"
  shows "served dm' logs \<and> pc_ok pc' dm'"
proof -
  have s: "later dm dm logs" using assms(2) by (simp add: later_def)
  show ?thesis
  proof (cases "\<not> Valid req \<or> req_type req \<noteq> T_Recent")
    case True
    with assms(1) have "bindE (Get_recent_log t0 t1 req dm) (\<lambda>(_, dm). Inr (pc, dm)) = Inr (pc', dm')"
      by (auto simp: Get_recent_log_turns_def Let_def)
    from whole_request_served [OF this Get_recent_log_served [OF _ s] assms(3)] show ?thesis .
  next
    case False
    with assms(1) have "bindE (visit_bulks ts Most_recent (rev [0..<length (bulk_handler_list dm)]) (to_int32 (req_count req))
        (new_QueryResultHandler (req_client_id req) t0) (pc, dm))
        (\<lambda>(n, hr1, st1). close_turns t1 False hr1 st1) = Inr (pc', dm')"
      by (simp add: Get_recent_log_turns_def Let_def)
    from visit_request_served [OF this assms(2,3)] served_length [OF s] show ?thesis by simp
  qed
qed

lemma Process_req_turns_served:
  assumes "Process_req_turns t0 t1 ts req (pc, dm) = Inr (pc', dm')" "served dm logs" "pc_ok pc dm"
    and "req_type req = T_Getkey \<or> req_type req = T_Recent \<or> req_type req = T_Search"
  shows "served dm' logs \<and> pc_ok pc' dm'"
  using assms(1,4) Getkey_log_turns_served [OF _ assms(2,3)] Search_log_turns_served [OF _ assms(2,3)]
    Get_recent_log_turns_served [OF _ assms(2,3)] assms(2,3)
  by (auto simp: Process_req_turns_def split: if_splits)

section \<open>The answer does not depend on the turns\<close>

fun entries_of_visit :: "visit \<Rightarrow> log_entry list \<Rightarrow> log_entry list" where
  "entries_of_visit (By_key key) l = rev (filter (\<lambda>e. le_key e = key) l)"
| "entries_of_visit (By_words ws) l = rev (repeated ws l)"
| "entries_of_visit Most_recent l = rev l"

text \<open>How many more results fit the limit.\<close>

fun budget :: "visit \<Rightarrow> int \<Rightarrow> nat" where
  "budget Most_recent num = nat num"
| "budget _ num = nat (num + 1)"

lemma more_budget: "more k num \<longleftrightarrow> 0 < budget k num" "more k num \<Longrightarrow> budget k (num - 1) = budget k num - 1"
  by (cases k; simp add: nat_diff_distrib)+

definition still_due :: "log_entry list list \<Rightarrow> visiting \<Rightarrow> log_entry list" where
  "still_due logs v = (case in_hand v of None \<Rightarrow> [] | Some (i, ss) \<Rightarrow> map (\<lambda>s. logs ! i ! s) ss)
     @ concat (map (\<lambda>i. entries_of_visit (kind v) (logs ! i)) (todo v))"

definition serials_in_range :: "log_entry list list \<Rightarrow> visiting \<Rightarrow> bool" where
  "serials_in_range logs v \<longleftrightarrow> in_range (length logs) v
     \<and> (\<forall>i ss. in_hand v = Some (i, ss) \<longrightarrow> (\<forall>s \<in> set ss. s < length (logs ! i)))"

definition list_there :: "visiting \<Rightarrow> data_manager \<Rightarrow> bool" where
  "list_there v dm \<longleftrightarrow> (\<forall>i ss. in_hand v = Some (i, ss) \<longrightarrow> \<not> list_lost (kind v) (bulk_handler_list dm ! i))"

text \<open>Since the start at \<open>qs0\<close> with the limit \<open>num0\<close>, what was answered together with what the limit leaves of the rest is \<open>all\<close>.\<close>

definition on_the_way :: "log_entry list list \<Rightarrow> query_state \<Rightarrow> int \<Rightarrow> log_entry list \<Rightarrow> visiting \<Rightarrow> data_manager \<Rightarrow> bool" where
  "on_the_way logs qs0 num0 all v dm \<longleftrightarrow> serials_in_range logs v \<and> list_there v dm \<and> kind v \<noteq> By_words []
     \<and> (\<exists>given. answered logs qs0 given (dm, vs_answer v) \<and> num_left v = num0 - int (length given) \<and> all = given @ take (budget (kind v) (num_left v)) (still_due logs v))"

text \<open>How many steps the query still has to make.\<close>

definition steps_left :: "log_entry list list \<Rightarrow> visiting \<Rightarrow> nat" where
  "steps_left logs v = (case in_hand v of None \<Rightarrow> 0 | Some (i, ss) \<Rightarrow> Suc (length ss))
     + sum_list (map (\<lambda>i. 2 + length (entries_of_visit (kind v) (logs ! i))) (todo v))"

text \<open>A search leaves the list in memory, and answering a line does not touch it.\<close>

lemma visit_search_there:
  "visit_search k i dm = Inr (ss, dm') \<Longrightarrow> i < length (bulk_handler_list dm) \<Longrightarrow> \<not> list_lost k (bulk_handler_list dm' ! i)"
  by (cases k) (auto simp: bindE_eq_Inr bh_Search_key_def Read_key_trie_def split: if_splits)

lemma Get_content_ref_key_read: "Get_content_ref s h w = Inr (r, h', w') \<Longrightarrow> key_read h' = key_read h"
  by (auto simp: Get_content_ref_def bh_Get_offset_by_serial_def Read_index_def Get_data_def Read_Content_def New_BulkData_def
      bindE_eq_Inr Let_def split: if_splits option.splits)

lemma answer_entry_there:
  "answer_entry i s (dm, hr) = Inr (dm', hr') \<Longrightarrow> i < length (bulk_handler_list dm) \<Longrightarrow>
   list_lost k (bulk_handler_list dm' ! i) = list_lost k (bulk_handler_list dm ! i) \<and> length (bulk_handler_list dm') = length (bulk_handler_list dm)"
  by (cases k) (auto simp: answer_entry_def bindE_eq_Inr dest: Get_content_ref_key_read)

lemma visit_search_entries:
  assumes "dm_repr dm logs" "handler_inv hr" "i < length logs" "k \<noteq> By_words []"
  shows "\<exists>ss dm'. visit_search k i dm = Inr (ss, dm') \<and> answered logs (dm, hr) [] (dm', hr)
     \<and> (\<forall>s \<in> set ss. s < length (logs ! i)) \<and> map (\<lambda>s. logs ! i ! s) ss = entries_of_visit k (logs ! i)"
proof (cases k)
  case (By_key key)
  from Search_key_repr [OF handler_at [OF assms(1,3)], of key] obtain r h w where
    sk: "bh_Search_key key (bulk_handler_list dm ! i) (wld dm) = Inr (r, h, w)" "as_list r = serials_of_key key (logs ! i)"
      "query_keeps (bulk_handler_list dm ! i) (wld dm) h w (logs ! i)" by blast
  have "visit_search k i dm = Inr (rev (as_list r), put_handler i h w dm)"
    using By_key sk(1) by (cases r) simp_all
  moreover have "map (\<lambda>s. logs ! i ! s) (rev (as_list r)) = entries_of_visit k (logs ! i)"
    using By_key sk(2) serials_of_key_entries [of "logs ! i" key] by (simp add: rev_map [symmetric])
  moreover have "\<forall>s \<in> set (rev (as_list r)). s < length (logs ! i)" using sk(2) by (simp add: serials_of_key_def)
  ultimately show ?thesis using answered_put [OF assms(1-3) sk(3)] by blast
next
  case (By_words ws)
  with assms(4) have "ws \<noteq> []" by simp
  from Join_answers [OF handler_at [OF assms(1,3)] this] obtain r h w where
    j: "bh_Join_search ws (bulk_handler_list dm ! i) (wld dm) = Inr (r, h, w)"
      "query_keeps (bulk_handler_list dm ! i) (wld dm) h w (logs ! i)" "\<forall>s \<in> set r. s < length (logs ! i)"
      "map (\<lambda>s. logs ! i ! s) r = repeated ws (logs ! i)" by blast
  with By_words answered_put [OF assms(1-3) j(2)] show ?thesis by (simp add: rev_map [symmetric])
next
  case Most_recent
  have "mb_size (bulk (bulk_handler_list dm ! i)) = length (logs ! i)" by (rule at_handler(5) [OF assms(1,3)])
  moreover have "map (\<lambda>s. logs ! i ! s) [0..<length (logs ! i)] = logs ! i" by (rule map_nth)
  ultimately show ?thesis using Most_recent answered_refl [of "(dm, hr)"] assms(1,2) by (simp add: rev_map [symmetric])
qed

lemma visit_step_on_the_way:
  assumes "on_the_way logs qs0 num0 all v dm"
  shows "\<exists>v' dm'. visit_step v dm = Inr (v', dm') \<and> on_the_way logs qs0 num0 all v' dm'
     \<and> (finished v \<or> steps_left logs v' < steps_left logs v) \<and> (finished v \<longrightarrow> v' = v)"
proof -
  obtain given where g: "answered logs qs0 given (dm, vs_answer v)"
    "all = given @ take (budget (kind v) (num_left v)) (still_due logs v)" "num_left v = num0 - int (length given)"
    using assms(1) by (auto simp: on_the_way_def)
  have r: "serials_in_range logs v" "kind v \<noteq> By_words []" using assms(1) by (simp_all add: on_the_way_def)
  have ready: "dm_repr dm logs" "handler_inv (vs_answer v)" using answered_ready [OF g(1)] by simp_all
  have there: "list_there v dm" using assms(1) by (simp add: on_the_way_def)
  show ?thesis
  proof (cases "in_hand v")
    case None
    show ?thesis
    proof (cases "todo v")
      case Nil
      with None assms(1) show ?thesis by (simp add: visit_step_def finished_def)
    next
      case (Cons i "is")
      have i: "i < length logs" using r(1) Cons by (simp add: serials_in_range_def in_range_def)
      show ?thesis
      proof (cases "more (kind v) (num_left v)")
        case True
        obtain ss dm' where ss: "visit_search (kind v) i dm = Inr (ss, dm')" "answered logs (dm, vs_answer v) [] (dm', vs_answer v)"
          "\<forall>s \<in> set ss. s < length (logs ! i)" "map (\<lambda>s. logs ! i ! s) ss = entries_of_visit (kind v) (logs ! i)"
          using visit_search_entries [OF ready i r(2)] by blast
        let ?v = "v\<lparr>todo := is, in_hand := Some (i, ss)\<rparr>"
        have "still_due logs ?v = still_due logs v" using None Cons ss(4) by (simp add: still_due_def)
        moreover have "serials_in_range logs ?v" using r(1) i ss(3) Cons by (simp add: serials_in_range_def in_range_def)
        moreover have "answered logs qs0 given (dm', vs_answer v)" using answered_trans [OF g(1) ss(2)] by simp
        moreover have "list_there ?v dm'"
          using visit_search_there [OF ss(1) at_handler(1) [OF ready(1) i]] by (simp add: list_there_def)
        ultimately have "on_the_way logs qs0 num0 all ?v dm'" using g(2,3) r(2) by (auto simp: on_the_way_def)
        moreover have "steps_left logs ?v < steps_left logs v"
          using None Cons arg_cong [OF ss(4), of length] by (simp add: steps_left_def)
        moreover have "visit_step v dm = Inr (?v, dm')" using None Cons True ss(1) by (simp add: visit_step_def)
        moreover have "\<not> finished v" using Cons by (simp add: finished_def)
        ultimately show ?thesis by blast
      next
        case False
        then have "budget (kind v) (num_left v) = 0" using more_budget(1) by blast
        with g r None have "on_the_way logs qs0 num0 all (v\<lparr>todo := []\<rparr>) dm"
          by (auto simp: on_the_way_def serials_in_range_def in_range_def list_there_def)
        with None Cons False show ?thesis by (simp add: visit_step_def finished_def steps_left_def)
      qed
    qed
  next
    case (Some j)
    obtain i ss where j: "in_hand v = Some (i, ss)" using Some by (cases j) simp
    have i: "i < length logs" "\<forall>s \<in> set ss. s < length (logs ! i)" using r(1) j by (simp_all add: serials_in_range_def in_range_def)
    have unf: "\<not> finished v" using j by (simp add: finished_def)
    have stop: "on_the_way logs qs0 num0 all (v\<lparr>in_hand := None\<rparr>) dm" if "ss = [] \<or> budget (kind v) (num_left v) = 0"
      using that g r j by (auto simp: on_the_way_def serials_in_range_def in_range_def still_due_def list_there_def)
    have list: "\<not> list_lost (kind v) (bulk_handler_list dm ! i)" using there j by (simp add: list_there_def)
    have less: "steps_left logs (v\<lparr>in_hand := None\<rparr>) < steps_left logs v" using j by (simp add: steps_left_def)
    show ?thesis
    proof (cases ss)
      case Nil
      with j list stop less unf show ?thesis by (simp add: visit_step_def)
    next
      case (Cons s ss1)
      show ?thesis
      proof (cases "more (kind v) (num_left v)")
        case True
        have "s < length (logs ! i)" using i(2) Cons by simp
        from answer_entry_repr [OF ready i(1) this] obtain dm' hr where
          a: "answer_entry i s (dm, vs_answer v) = Inr (dm', hr)" "answered logs (dm, vs_answer v) [logs ! i ! s] (dm', hr)"
          by (metis surj_pair)
        let ?v = "v\<lparr>in_hand := Some (i, ss1), num_left := num_left v - 1, vs_answer := hr\<rparr>"
        have "still_due logs v = logs ! i ! s # still_due logs ?v" using j Cons by (simp add: still_due_def)
        moreover obtain n where "budget (kind v) (num_left v) = Suc n" using True more_budget(1) gr0_implies_Suc by blast
        ultimately have "all = (given @ [logs ! i ! s]) @ take (budget (kind ?v) (num_left ?v)) (still_due logs ?v)"
          using g(2) more_budget(2) [OF True] by simp
        moreover have "serials_in_range logs ?v" using r(1) j Cons by (simp add: serials_in_range_def in_range_def)
        moreover have "answered logs qs0 (given @ [logs ! i ! s]) (dm', vs_answer ?v)" using answered_trans [OF g(1) a(2)] by simp
        moreover have "list_there ?v dm'"
          using answer_entry_there [OF a(1) at_handler(1) [OF ready(1) i(1)]] list by (simp add: list_there_def)
        ultimately have "on_the_way logs qs0 num0 all ?v dm'"
          using r(2) g(3) unfolding on_the_way_def by (intro conjI exI [of _ "given @ [logs ! i ! s]"]) simp_all
        moreover have "steps_left logs ?v < steps_left logs v" using j Cons by (simp add: steps_left_def)
        ultimately show ?thesis using j list Cons True a(1) unf by (simp add: visit_step_def)
      next
        case False
        then have "budget (kind v) (num_left v) = 0" using more_budget(1) by blast
        with j list Cons False stop less unf show ?thesis by (simp add: visit_step_def)
      qed
    qed
  qed
qed

lemma worker_step_same:
  "worker_step pc dm = Inr (pc', dm') \<Longrightarrow> result_blocks dm' = result_blocks dm
     \<and> Global_key_bulk_handler_trie dm' = Global_key_bulk_handler_trie dm
     \<and> length (bulk_handler_list dm') = length (bulk_handler_list dm)"
  by (cases "(pc, dm)" rule: worker_step.cases)
     (auto simp: bindE_eq_Inr persist_front_unit_def release_front_unit_def persist_handler_def set_queue_def tick_bulk_data_def
        tick_auto_persistence_def BulkTimeout_Act_def BulkAutoPersistence_Act_def
      split: prod.splits option.splits if_splits)

text \<open>A step that does not take the lock of a bulk leaves its handler alone.\<close>

lemma set_queue_handlers:
  "bulk_handler_list (set_queue q dm) = bulk_handler_list dm" "saves_under_lock j (set_queue q dm) = saves_under_lock j dm"
  by (simp_all add: saves_under_lock_def set_queue_def)

lemma saved_elsewhere:
  "persist_handler j dm = Inr dm' \<Longrightarrow> saves_under_lock j dm \<longrightarrow> j \<noteq> i \<Longrightarrow> bulk_handler_list dm' ! i = bulk_handler_list dm ! i"
  by (cases "j = i") (auto simp: persist_handler_def Persistence_def saves_under_lock_def bindE_eq_Inr)

lemma worker_step_elsewhere:
  assumes "worker_step pc dm = Inr (pc', dm')" "worker_locks pc dm \<noteq> Some i"
  shows "bulk_handler_list dm' ! i = bulk_handler_list dm ! i"
proof (cases "(pc, dm)" rule: worker_step.cases)
  case (3 n dm1)
  with assms show ?thesis
    by (auto simp: bindE_eq_Inr persist_front_unit_def set_queue_handlers split: option.splits if_splits dest!: saved_elsewhere [of _ _ _ i])
next
  case (10 j others dm1)
  with assms show ?thesis
    by (auto simp: bindE_eq_Inr BulkAutoPersistence_Act_def split: if_splits dest!: saved_elsewhere [of _ _ _ i])
qed (use assms in \<open>auto simp: bindE_eq_Inr release_front_unit_def set_queue_def tick_bulk_data_def tick_auto_persistence_def
      BulkTimeout_Act_def split: prod.splits option.splits\<close>)

lemma go_on_the_way:
  assumes "served dm logs" "pc_ok pc dm" "on_the_way logs qs0 num0 all v dm"
  shows "\<exists>v' pc' dm'. go t (v, pc, dm) = Inr (v', pc', dm') \<and> served dm' logs \<and> pc_ok pc' dm' \<and> on_the_way logs qs0 num0 all v' dm'
     \<and> steps_left logs v' \<le> steps_left logs v - (if t = Query_goes then 1 else 0)"
proof -
  have range: "in_range (length logs) v" using assms(3) by (simp add: on_the_way_def serials_in_range_def)
  show ?thesis
  proof (cases t)
    case Query_goes
    obtain v' dm' where v: "visit_step v dm = Inr (v', dm')" "on_the_way logs qs0 num0 all v' dm'"
      "finished v \<or> steps_left logs v' < steps_left logs v" "finished v \<longrightarrow> v' = v"
      using visit_step_on_the_way [OF assms(3)] by blast
    have g: "go t (v, pc, dm) = Inr (v', pc, dm')" using Query_goes v(1) by simp
    have "finished v \<Longrightarrow> steps_left logs v = 0" by (simp add: finished_def steps_left_def)
    then have "steps_left logs v' \<le> steps_left logs v - 1" using v(3,4) by auto
    with go_served [OF g assms(1,2) range] v(2) g Query_goes show ?thesis by simp
  next
    case Worker_goes
    obtain pc' dm' where w: "worker_step pc dm = Inr (pc', dm')" "served dm' logs" "pc_ok pc' dm'"
      using worker_step_served [OF assms(1,2)] by blast
    show ?thesis
    proof (cases "worker_locks pc dm \<noteq> None \<and> worker_locks pc dm = map_option fst (in_hand v)")
      case True
      then have "go t (v, pc, dm) = Inr (v, pc, dm)" unfolding Worker_goes go.simps by (rule if_P)
      with assms(1-3) Worker_goes show ?thesis by simp
    next
      case False
      then have "in_hand v = Some (i, ss) \<Longrightarrow> bulk_handler_list dm' ! i = bulk_handler_list dm ! i" for i ss
        by (intro worker_step_elsewhere [OF w(1)]) auto
      then have "list_there v dm'" using assms(3) by (auto simp: on_the_way_def list_there_def)
      then have "on_the_way logs qs0 num0 all v dm'"
        using assms(3) worker_step_same [OF w(1)] w(2) by (auto simp: on_the_way_def answered_def served_def)
      moreover have "go t (v, pc, dm) = Inr (v, pc', dm')" unfolding Worker_goes go.simps if_not_P [OF False] w(1) by simp
      ultimately show ?thesis using w(2,3) Worker_goes by auto
    qed
  qed
qed

lemma steps_left_0: "steps_left logs v = 0 \<Longrightarrow> finished v"
  by (cases "todo v") (auto simp: steps_left_def finished_def split: option.splits prod.splits)

abbreviation query_turns :: "turn list \<Rightarrow> nat" where
  "query_turns ts \<equiv> length (filter (\<lambda>t. t = Query_goes) ts)"

lemma take_turns_on_the_way:
  "served dm logs \<Longrightarrow> pc_ok pc dm \<Longrightarrow> on_the_way logs qs0 num0 all v dm \<Longrightarrow>
   \<exists>v' pc' dm'. take_turns ts (v, pc, dm) = Inr (v', pc', dm') \<and> served dm' logs \<and> pc_ok pc' dm' \<and> on_the_way logs qs0 num0 all v' dm'
     \<and> steps_left logs v' \<le> steps_left logs v - query_turns ts"
proof (induction ts arbitrary: v pc dm)
  case (Cons t ts)
  obtain v1 pc1 dm1 where g: "go t (v, pc, dm) = Inr (v1, pc1, dm1)" "served dm1 logs" "pc_ok pc1 dm1"
    "on_the_way logs qs0 num0 all v1 dm1" "steps_left logs v1 \<le> steps_left logs v - (if t = Query_goes then 1 else 0)"
    using go_on_the_way [OF Cons.prems] by blast
  obtain v' pc' dm' where "take_turns ts (v1, pc1, dm1) = Inr (v', pc', dm')" "served dm' logs" "pc_ok pc' dm'"
    "on_the_way logs qs0 num0 all v' dm'" "steps_left logs v' \<le> steps_left logs v1 - query_turns ts"
    using Cons.IH [OF g(2-4)] by blast
  with g(1,5) show ?case by (cases t) auto
qed simp

text \<open>Enough turns bring any of the three loops to its end, and to the same answer.\<close>

lemma visit_bulks_answers:
  assumes "served dm logs" "pc_ok pc dm" "handler_inv hr" "\<forall>i \<in> set is. i < length logs" "k \<noteq> By_words []"
    and "sum_list (map (\<lambda>i. 2 + length (entries_of_visit k (logs ! i))) is) \<le> query_turns ts"
    and "all = take (budget k num) (concat (map (\<lambda>i. entries_of_visit k (logs ! i)) is))"
  shows "\<exists>hr' pc' dm'. visit_bulks ts k is num hr (pc, dm) = Inr (num - int (length all), hr', pc', dm')
     \<and> served dm' logs \<and> pc_ok pc' dm' \<and> answered logs (dm, hr) all (dm', hr')"
proof -
  let ?v = "\<lparr>kind = k, todo = is, in_hand = None, num_left = num, vs_answer = hr\<rparr>"
  have "answered logs (dm, hr) [] (dm, hr)" using assms(1,3) by (simp add: answered_refl served_def)
  moreover have "still_due logs ?v = concat (map (\<lambda>i. entries_of_visit k (logs ! i)) is)" by (simp add: still_due_def)
  ultimately have "on_the_way logs (dm, hr) num all ?v dm"
    using assms(4,5,7) unfolding on_the_way_def by (intro conjI exI [of _ "[]"]) (simp_all add: serials_in_range_def in_range_def list_there_def)
  from take_turns_on_the_way [OF assms(1,2) this, of ts] obtain v' pc' dm' where
    t: "take_turns ts (?v, pc, dm) = Inr (v', pc', dm')" "served dm' logs" "pc_ok pc' dm'"
      "on_the_way logs (dm, hr) num all v' dm'" "steps_left logs v' \<le> steps_left logs ?v - query_turns ts" by blast
  have "finished v'" using t(5) assms(6) by (intro steps_left_0 [of logs]) (simp add: steps_left_def)
  moreover from this have "still_due logs v' = []" by (simp add: still_due_def finished_def)
  with t(4) have "answered logs (dm, hr) all (dm', vs_answer v')" "num_left v' = num - int (length all)"
    by (auto simp: on_the_way_def)
  ultimately show ?thesis using t(1-3) by (simp add: visit_bulks_def)
qed

lemma close_turns_answers:
  assumes "answered logs (dm, new_QueryResultHandler c now0) es (dm1, hr1)" "served dm1 logs" "pc_ok pc dm1" "length es < 10 ^ 19"
  shows "\<exists>dm'. close_turns now1 none hr1 (pc, dm1) = Inr (pc, dm') \<and> served dm' logs \<and> pc_ok pc dm'
     \<and> answer_sent dm dm' c (shown_text es @ no_result_bytes none) (length es + (if none then 1 else 0)) (now1 - now0)"
proof -
  obtain dm2 hr2 dm' where c: "answer_no_result none (dm1, hr1) = Inr (dm2, hr2)" "finish_answer now1 hr2 dm2 = Inr dm'"
    "answer_sent dm dm' c (shown_text es @ no_result_bytes none) (length es + (if none then 1 else 0)) (now1 - now0)"
    using close_answer [OF assms(1,4)] by blast
  then have "close_turns now1 none hr1 (pc, dm1) = Inr (pc, dm')" by (simp add: close_turns_def)
  with close_turns_served [OF this assms(2,3)] c(3) show ?thesis by blast
qed

section \<open>What is asked for\<close>

text \<open>The requests that go from bulk to bulk, all that fits them, newest first, and how much of it is answered.\<close>

definition bulk_query :: "ReqData \<Rightarrow> bool" where
  "bulk_query req \<longleftrightarrow> Valid req \<and> (req_type req = T_Getkey \<or> req_type req = T_Recent
     \<or> req_type req = T_Search \<and> 1 < length (Split_key_word (req_keyword req)))"

definition all_hits :: "ReqData \<Rightarrow> log_entry list \<Rightarrow> log_entry list" where
  "all_hits req es =
     (if req_type req = T_Getkey then rev (filter (\<lambda>e. le_key e = req_key req) es)
      else if req_type req = T_Search then rev (repeated (Split_key_word (req_keyword req)) es)
      else rev es)"

definition answer_limit :: "ReqData \<Rightarrow> nat" where
  "answer_limit req = (if req_type req = T_Recent then nat (to_int32 (req_count req)) else 50001)"

definition gets_no_result :: "ReqData \<Rightarrow> log_entry list \<Rightarrow> bool" where
  "gets_no_result req found \<longleftrightarrow> req_type req \<noteq> T_Recent \<and> length found = 50000"

lemma concat_rev_bulks:
  "concat (map (\<lambda>i. rev (g (logs ! i))) (rev [0..<length logs])) = rev (concat (map g logs))"
proof (induction logs rule: rev_induct)
  case (snoc l ls)
  let ?old = "map (\<lambda>i. rev (g ((ls @ [l]) ! i))) (rev [0..<length ls])"
  have eq: "?old = map (\<lambda>i. rev (g (ls ! i))) (rev [0..<length ls])"
    by (rule map_cong) (simp_all add: nth_append)
  have "concat (map (\<lambda>i. rev (g ((ls @ [l]) ! i))) (rev [0..<length (ls @ [l])])) = rev (g l) @ concat ?old" by simp
  also have "concat ?old = rev (concat (map g ls))" unfolding eq by (rule snoc)
  finally show ?case by simp
qed simp

lemma repeated_concat: "concat (map (repeated ws) logs) = repeated ws (concat logs)"
  by (induction logs) (simp_all add: repeated_def)

lemma steps_of_loop: "sum_list (map (\<lambda>i. 2 + length (f i)) is) = 2 * length is + length (concat (map f is))"
  by (induction "is") simp_all

lemma bulks_of_key_length: "length (bulks_of_key q logs) \<le> length logs"
  unfolding bulks_of_key_def by (metis length_filter_le length_upt minus_nat.diff_0)

lemma visit_request_answers:
  assumes s: "served dm logs" "pc_ok pc dm"
    and loop: "\<forall>i \<in> set is. i < length logs" "k \<noteq> By_words []"
      "2 * length is + length (concat (map (\<lambda>i. entries_of_visit k (logs ! i)) is)) \<le> query_turns ts"
    and all: "all = take (budget k num) (concat (map (\<lambda>i. entries_of_visit k (logs ! i)) is))" "length all < 10 ^ 19"
  shows "\<exists>pc' dm'. bindE (visit_bulks ts k is num (new_QueryResultHandler c t0) (pc, dm))
         (\<lambda>(n, hr1, st1). close_turns t1 (none n) hr1 st1) = Inr (pc', dm') \<and> served dm' logs \<and> pc_ok pc' dm'
     \<and> answer_sent dm dm' c (shown_text all @ no_result_bytes (none (num - int (length all))))
         (length all + (if none (num - int (length all)) then 1 else 0)) (t1 - t0)"
proof -
  have "sum_list (map (\<lambda>i. 2 + length (entries_of_visit k (logs ! i))) is) \<le> query_turns ts"
    using loop(3) by (simp only: steps_of_loop)
  from visit_bulks_answers [OF s _ loop(1,2) this all(1), of "new_QueryResultHandler c t0"] new_handler_inv
  obtain hr' pc' dm1 where
    v: "visit_bulks ts k is num (new_QueryResultHandler c t0) (pc, dm) = Inr (num - int (length all), hr', pc', dm1)"
      "served dm1 logs" "pc_ok pc' dm1" "answered logs (dm, new_QueryResultHandler c t0) all (dm1, hr')" by blast
  from close_turns_answers [OF v(4,2,3) all(2), of t1 "none (num - int (length all))"] v(1) show ?thesis by auto
qed

lemma Process_req_turns_answers:
  assumes s: "served dm logs" "pc_ok pc dm" and q: "bulk_query req"
    and turns: "2 * length (bulk_handler_list dm) + length (all_hits req (concat logs)) \<le> query_turns ts"
    and found: "found = take (answer_limit req) (all_hits req (concat logs))"
  shows "\<exists>pc' dm'. Process_req_turns t0 t1 ts req (pc, dm) = Inr (pc', dm') \<and> served dm' logs \<and> pc_ok pc' dm'
     \<and> answer_sent dm dm' (req_client_id req) (shown_text found @ no_result_bytes (gets_no_result req found))
         (length found + (if gets_no_result req found then 1 else 0)) (t1 - t0)"
proof -
  have dm: "dm_repr dm logs" using s(1) by (simp add: served_def)
  have len: "length (bulk_handler_list dm) = length logs" using dm by (simp add: dm_repr_def)
  have none: "(50000 - int (length (take 50001 xs)) = 0) = (length (take 50001 xs) = 50000)" for xs :: "log_entry list" by auto
  have every: "\<forall>i \<in> set (rev [0..<length logs]). i < length logs" by simp
  consider (key) "req_type req = T_Getkey" | (recent) "req_type req = T_Recent"
    | (words) "req_type req = T_Search" "1 < length (Split_key_word (req_keyword req))"
    using q by (auto simp: bulk_query_def)
  then show ?thesis
  proof cases
    case key
    let ?k = "By_key (req_key req)" and ?is = "rev (bulks_of_key (req_key req) logs)"
    have all: "concat (map (\<lambda>i. entries_of_visit ?k (logs ! i)) ?is) = all_hits req (concat logs)"
      using newest_first_of_key [of "req_key req" logs] key by (simp add: all_hits_def)
    have "2 * length ?is + length (all_hits req (concat logs)) \<le> query_turns ts"
      using turns len bulks_of_key_length [of "req_key req" logs] by simp
    from visit_request_answers [OF s _ _ this [folded all] _ _, of found MAX_NUM_RESULT "req_client_id req" t0 t1 "\<lambda>n. n = 0"]
      bulks_of_key_less found key have some: "\<exists>pc' dm'. bindE (visit_bulks ts ?k ?is MAX_NUM_RESULT (new_QueryResultHandler (req_client_id req) t0) (pc, dm))
          (\<lambda>(n, hr1, st1). close_turns t1 (n = 0) hr1 st1) = Inr (pc', dm') \<and> served dm' logs \<and> pc_ok pc' dm'
        \<and> answer_sent dm dm' (req_client_id req) (shown_text found @ no_result_bytes (gets_no_result req found))
            (length found + (if gets_no_result req found then 1 else 0)) (t1 - t0)"
      unfolding all by (simp add: answer_limit_def MAX_NUM_RESULT_def none gets_no_result_def)
    show ?thesis
    proof (cases "Find_key_in_global_trie (req_key req) dm")
      case None
      with Find_key_bulks [OF dm, of "req_key req"] have "bulks_of_key (req_key req) logs = []" by simp
      with newest_first_of_key [of "req_key req" logs] key found have e: "found = []" by (simp add: all_hits_def)
      have "answered logs (dm, new_QueryResultHandler (req_client_id req) t0) [] (dm, new_QueryResultHandler (req_client_id req) t0)"
        by (rule answered_new [OF dm])
      from close_turns_answers [OF this s(1,2), of t1 False] None e key q show ?thesis
        by (auto simp: Process_req_turns_def Getkey_log_turns_def Let_def bulk_query_def MAX_NUM_RESULT_def gets_no_result_def)
    next
      case (Some bulks)
      with Find_key_bulks [OF dm, of "req_key req"] have "bulks = bulks_of_key (req_key req) logs" by simp
      with Some some key q show ?thesis by (simp add: Process_req_turns_def Getkey_log_turns_def Let_def bulk_query_def)
    qed
  next
    case recent
    have all: "concat (map (\<lambda>i. entries_of_visit Most_recent (logs ! i)) (rev [0..<length logs])) = all_hits req (concat logs)"
      using concat_rev_bulks [of "\<lambda>l. l" logs] recent by (simp add: all_hits_def)
    have "2 * length (rev [0..<length logs]) + length (all_hits req (concat logs)) \<le> query_turns ts" using turns len by simp
    moreover have "length found < 10 ^ 19"
      using found recent log_short [OF dm] by (simp add: all_hits_def)
    ultimately show ?thesis
      using visit_request_answers [OF s every, of Most_recent ts found "to_int32 (req_count req)" "req_client_id req" t0 t1 "\<lambda>n. False"]
        found recent q len unfolding all
      by (simp add: Process_req_turns_def Get_recent_log_turns_def Let_def bulk_query_def answer_limit_def gets_no_result_def)
  next
    case words
    let ?ws = "Split_key_word (req_keyword req)"
    have all: "concat (map (\<lambda>i. entries_of_visit (By_words ?ws) (logs ! i)) (rev [0..<length logs])) = all_hits req (concat logs)"
      using concat_rev_bulks [of "repeated ?ws" logs] words by (simp add: all_hits_def repeated_concat)
    have "2 * length (rev [0..<length logs]) + length (all_hits req (concat logs)) \<le> query_turns ts" using turns len by simp
    moreover have "By_words ?ws \<noteq> By_words []" using words(2) by auto
    ultimately show ?thesis
      using visit_request_answers [OF s every, of "By_words ?ws" ts found MAX_NUM_RESULT "req_client_id req" t0 t1 "\<lambda>n. n = 0"]
        found words q len unfolding all
      by (simp add: Process_req_turns_def Search_log_turns_def Let_def bulk_query_def answer_limit_def MAX_NUM_RESULT_def
          none gets_no_result_def)
  qed
qed

section \<open>A query nobody disturbs\<close>

text \<open>The loops of \<open>Data_Manager\<close> in one form.\<close>

fun answer_more :: "visit \<Rightarrow> nat \<Rightarrow> nat list \<Rightarrow> int \<Rightarrow> query_state \<Rightarrow> (int \<times> query_state) res" where
  "answer_more k i [] num qs = Inr (num, qs)"
| "answer_more k i (s # ss) num qs =
     (if more k num then bindE (answer_entry i s qs) (answer_more k i ss (num - 1)) else Inr (num, qs))"

fun visit_loop :: "visit \<Rightarrow> nat list \<Rightarrow> int \<Rightarrow> query_state \<Rightarrow> (int \<times> query_state) res" where
  "visit_loop k [] num qs = Inr (num, qs)"
| "visit_loop k (i # is) num (dm, hr) =
     (if more k num
      then bindE (visit_search k i dm) (\<lambda>(ss, dm'). bindE (answer_more k i ss num (dm', hr)) (\<lambda>(num', qs'). visit_loop k is num' qs'))
      else Inr (num, dm, hr))"

lemma answer_serials_more: "k \<noteq> Most_recent \<Longrightarrow> answer_serials i ss num qs = answer_more k i ss num qs"
proof (induction ss arbitrary: num qs)
  case (Cons s ss)
  then have "answer_serials i ss (num - 1) = answer_more k i ss (num - 1)" by (simp add: fun_eq_iff)
  moreover have "more k num \<longleftrightarrow> num \<ge> 0" using Cons.prems by (cases k) simp_all
  ultimately show ?case by simp
qed simp

lemma recent_entries_more: "recent_entries i n num qs = answer_more Most_recent i (rev [0..<n]) num qs"
proof (induction n arbitrary: num qs)
  case (Suc n)
  then have "recent_entries i n (num - 1) = answer_more Most_recent i (rev [0..<n]) (num - 1)" by (simp add: fun_eq_iff)
  then show ?case by simp
qed simp

lemma key_bulks_loop: "key_bulks key is num qs = visit_loop (By_key key) is num qs"
proof (induction "is" arbitrary: num qs)
  case (Cons i "is")
  obtain dm hr where qs: "qs = (dm, hr)" by (cases qs)
  have "(case r of None \<Rightarrow> Inr (num, st) | Some serials \<Rightarrow> answer_serials i (rev serials) num st)
      = answer_more (By_key key) i (case r of None \<Rightarrow> [] | Some serials \<Rightarrow> rev serials) num st" for r num st
    by (cases r) (simp_all add: answer_serials_more [of "By_key key"])
  then show ?case using Cons by (auto simp: qs bindE_assoc intro!: bindE_cong)
qed simp

lemma join_bulks_loop: "join_bulks ws n num qs = visit_loop (By_words ws) (rev [0..<n]) num qs"
proof (induction n arbitrary: num qs)
  case (Suc n)
  obtain dm hr where qs: "qs = (dm, hr)" by (cases qs)
  show ?case using Suc by (auto simp: qs bindE_assoc answer_serials_more [of "By_words ws"] intro!: bindE_cong)
qed simp

lemma recent_bulks_loop: "recent_bulks n num qs = bindE (visit_loop Most_recent (rev [0..<n]) num qs) (\<lambda>(_, qs'). Inr qs')"
proof (induction n arbitrary: num qs)
  case (Suc n)
  obtain dm hr where qs: "qs = (dm, hr)" by (cases qs)
  show ?case using Suc by (auto simp: qs bindE_assoc recent_entries_more intro!: bindE_cong)
qed simp

lemma take_turns_append: "take_turns (ts @ us) st = bindE (take_turns ts st) (take_turns us)"
proof (induction ts arbitrary: st)
  case (Cons t ts)
  then show ?case by (cases "go t st") simp_all
qed simp

definition alone :: "visiting \<times> data_manager \<Rightarrow> visiting \<times> data_manager \<Rightarrow> bool" where
  "alone a b \<longleftrightarrow> (\<exists>n. \<forall>pc. take_turns (replicate n Query_goes) (fst a, pc, snd a) = Inr (fst b, pc, snd b))"

lemma alone_refl: "alone a a"
  unfolding alone_def by (intro exI [of _ 0]) simp

lemma alone_step: "visit_step v dm = Inr (v', dm') \<Longrightarrow> alone (v', dm') b \<Longrightarrow> alone (v, dm) b"
proof -
  assume st: "visit_step v dm = Inr (v', dm')" and "alone (v', dm') b"
  then obtain n where "\<forall>pc. take_turns (replicate n Query_goes) (v', pc, dm') = Inr (fst b, pc, snd b)" by (auto simp: alone_def)
  with st show ?thesis unfolding alone_def by (intro exI [of _ "Suc n"]) simp
qed

lemma alone_trans: "alone a b \<Longrightarrow> alone b c \<Longrightarrow> alone a c"
proof -
  assume "alone a b" "alone b c"
  then obtain n m where "\<forall>pc. take_turns (replicate n Query_goes) (fst a, pc, snd a) = Inr (fst b, pc, snd b)"
    "\<forall>pc. take_turns (replicate m Query_goes) (fst b, pc, snd b) = Inr (fst c, pc, snd c)" by (auto simp: alone_def)
  then show ?thesis unfolding alone_def by (intro exI [of _ "n + m"]) (simp add: replicate_add take_turns_append)
qed

lemma alone_answers:
  "answer_more (kind v) i ss num (dm, hr) = Inr (num', dm', hr') \<Longrightarrow> i < length (bulk_handler_list dm) \<Longrightarrow>
   \<not> list_lost (kind v) (bulk_handler_list dm ! i) \<Longrightarrow>
   alone (v\<lparr>in_hand := Some (i, ss), num_left := num, vs_answer := hr\<rparr>, dm)
     (v\<lparr>in_hand := None, num_left := num', vs_answer := hr'\<rparr>, dm') \<and> length (bulk_handler_list dm') = length (bulk_handler_list dm)"
proof (induction ss arbitrary: num dm hr)
  case Nil
  then show ?case by (intro conjI alone_step [OF _ alone_refl]) (auto simp: visit_step_def)
next
  case (Cons s ss)
  show ?case
  proof (cases "more (kind v) num")
    case True
    with Cons.prems obtain dm1 hr1 where a: "answer_entry i s (dm, hr) = Inr (dm1, hr1)"
      "answer_more (kind v) i ss (num - 1) (dm1, hr1) = Inr (num', dm', hr')" by (auto simp: bindE_eq_Inr)
    note t = answer_entry_there [OF a(1) Cons.prems(2), of "kind v"]
    have "visit_step (v\<lparr>in_hand := Some (i, s # ss), num_left := num, vs_answer := hr\<rparr>) dm
        = Inr (v\<lparr>in_hand := Some (i, ss), num_left := num - 1, vs_answer := hr1\<rparr>, dm1)"
      using True a(1) Cons.prems(3) by (simp add: visit_step_def)
    from alone_step [OF this] Cons.IH [OF a(2)] t Cons.prems(2,3) show ?thesis by simp
  next
    case False
    with Cons.prems show ?thesis by (intro conjI alone_step [OF _ alone_refl]) (auto simp: visit_step_def)
  qed
qed

lemma visit_search_length: "visit_search k i dm = Inr (ss, dm') \<Longrightarrow> length (bulk_handler_list dm') = length (bulk_handler_list dm)"
  by (cases k) (auto simp: bindE_eq_Inr)

lemma alone_loop:
  "visit_loop k is num (dm, hr) = Inr (num', dm', hr') \<Longrightarrow> \<forall>i \<in> set is. i < length (bulk_handler_list dm) \<Longrightarrow>
   alone (\<lparr>kind = k, todo = is, in_hand = None, num_left = num, vs_answer = hr\<rparr>, dm)
     (\<lparr>kind = k, todo = [], in_hand = None, num_left = num', vs_answer = hr'\<rparr>, dm')"
proof (induction "is" arbitrary: num dm hr)
  case (Cons i "is")
  let ?v = "\<lparr>kind = k, todo = i # is, in_hand = None, num_left = num, vs_answer = hr\<rparr>"
  show ?case
  proof (cases "more k num")
    case True
    with Cons.prems(1) obtain ss dm1 num2 dm2 hr2 where l: "visit_search k i dm = Inr (ss, dm1)"
      "answer_more k i ss num (dm1, hr) = Inr (num2, dm2, hr2)" "visit_loop k is num2 (dm2, hr2) = Inr (num', dm', hr')"
      by (auto simp: bindE_eq_Inr)
    have i: "i < length (bulk_handler_list dm)" using Cons.prems(2) by simp
    note len = visit_search_length [OF l(1)]
    have "visit_step ?v dm = Inr (?v\<lparr>todo := is, in_hand := Some (i, ss)\<rparr>, dm1)" using True l(1) by (simp add: visit_step_def)
    moreover from alone_answers [of "?v\<lparr>todo := is\<rparr>"] l(2) visit_search_there [OF l(1) i] i len
    have "alone (?v\<lparr>todo := is, in_hand := Some (i, ss)\<rparr>, dm1)
        (\<lparr>kind = k, todo = is, in_hand = None, num_left = num2, vs_answer = hr2\<rparr>, dm2)
      \<and> length (bulk_handler_list dm2) = length (bulk_handler_list dm)" by simp
    moreover from this Cons.prems(2) Cons.IH [OF l(3)] have "alone
        (\<lparr>kind = k, todo = is, in_hand = None, num_left = num2, vs_answer = hr2\<rparr>, dm2)
        (\<lparr>kind = k, todo = [], in_hand = None, num_left = num', vs_answer = hr'\<rparr>, dm')" by simp
    ultimately show ?thesis using alone_step alone_trans by blast
  next
    case False
    with Cons.prems(1) show ?thesis by (intro alone_step [OF _ alone_refl]) (simp add: visit_step_def)
  qed
qed (simp add: alone_refl)

lemma visit_bulks_alone:
  assumes "visit_loop k is num (dm, hr) = Inr (num', dm', hr')" "\<forall>i \<in> set is. i < length (bulk_handler_list dm)"
  shows "\<exists>n. visit_bulks (replicate n Query_goes) k is num hr (pc, dm) = Inr (num', hr', pc, dm')"
proof -
  obtain n where "\<forall>pc. take_turns (replicate n Query_goes) (\<lparr>kind = k, todo = is, in_hand = None, num_left = num, vs_answer = hr\<rparr>, pc, dm)
      = Inr (\<lparr>kind = k, todo = [], in_hand = None, num_left = num', vs_answer = hr'\<rparr>, pc, dm')"
    using alone_loop [OF assms] by (auto simp: alone_def)
  then show ?thesis by (intro exI [of _ n]) (simp add: visit_bulks_def finished_def)
qed

lemma visit_request_alone:
  assumes "visit_loop k is num (dm, hr) = Inr (num', dm1, hr1)" "\<forall>i \<in> set is. i < length (bulk_handler_list dm)"
    and "bindE (answer_no_result (none num') (dm1, hr1)) (\<lambda>(dm2, hr2). bindE (finish_answer t hr2 dm2) (\<lambda>dm3. Inr (r, dm3))) = Inr (r', dm')"
  shows "\<exists>n. bindE (visit_bulks (replicate n Query_goes) k is num hr (pc, dm)) (\<lambda>(n, hr1, st1). close_turns t (none n) hr1 st1)
    = Inr (pc, dm')"
proof -
  obtain n where "visit_bulks (replicate n Query_goes) k is num hr (pc, dm) = Inr (num', hr1, pc, dm1)"
    using visit_bulks_alone [OF assms(1,2)] by blast
  with assms(3) show ?thesis by (intro exI [of _ n]) (auto simp: close_turns_def bindE_eq_Inr)
qed

lemma Process_req_turns_alone:
  assumes "bulk_query req" "Process_req t0 t1 req dm = Inr dm'" "served dm logs"
  shows "\<exists>n. Process_req_turns t0 t1 (replicate n Query_goes) req (pc, dm) = Inr (pc, dm')"
proof -
  have v: "Valid req" using assms(1) by (simp add: bulk_query_def)
  let ?hr = "new_QueryResultHandler (req_client_id req) t0"
  have s: "later dm dm logs" using assms(3) by (simp add: later_def)
  have every: "\<forall>i \<in> set (rev [0..<length (bulk_handler_list dm)]). i < length (bulk_handler_list dm)" by simp
  consider (key) "req_type req = T_Getkey" | (recent) "req_type req = T_Recent"
    | (words) "req_type req = T_Search" "1 < length (Split_key_word (req_keyword req))"
    using assms(1) by (auto simp: bulk_query_def)
  then show ?thesis
  proof cases
    case key
    then obtain r where g: "Getkey_log t0 t1 req dm = Inr (r, dm')"
      using assms(2) v by (auto simp: Process_req_def Getkey_req_def bindE_eq_Inr)
    show ?thesis
    proof (cases "Find_key_in_global_trie (req_key req) dm")
      case None
      with g key v show ?thesis
        by (auto simp: Process_req_turns_def Getkey_log_turns_def Getkey_log_def Let_def close_turns_def bindE_eq_Inr)
    next
      case (Some bulks)
      with g key v obtain num dm1 hr1 where l: "visit_loop (By_key (req_key req)) (rev bulks) MAX_NUM_RESULT (dm, ?hr) = Inr (num, dm1, hr1)"
        "bindE (answer_no_result (num = 0) (dm1, hr1)) (\<lambda>(dm1, hr1). bindE (finish_answer t1 hr1 dm1) (\<lambda>dm2. Inr (1, dm2))) = Inr (r, dm')"
        by (auto simp: Getkey_log_def Let_def bindE_eq_Inr key_bulks_loop)
      have "\<forall>i \<in> set (rev bulks). i < length (bulk_handler_list dm)"
        using known_bulks [OF s Some] served_length [OF s] by simp
      from visit_request_alone [where none = "\<lambda>n. n = 0", OF l(1) this l(2), of pc] Some key v show ?thesis
        by (simp add: Process_req_turns_def Getkey_log_turns_def Let_def)
    qed
  next
    case recent
    let ?is = "rev [0..<length (bulk_handler_list dm)]"
    obtain r where g: "Get_recent_log t0 t1 req dm = Inr (r, dm')"
      using recent assms(2) v by (auto simp: Process_req_def Recent_req_def bindE_eq_Inr)
    then obtain num dm1 hr1 where l: "visit_loop Most_recent ?is (to_int32 (req_count req)) (dm, ?hr) = Inr (num, dm1, hr1)"
      "finish_answer t1 hr1 dm1 = Inr dm'"
      using recent v by (auto simp: Get_recent_log_def Let_def bindE_eq_Inr recent_bulks_loop)
    then have "bindE (answer_no_result False (dm1, hr1)) (\<lambda>(dm2, hr2). bindE (finish_answer t1 hr2 dm2) (\<lambda>dm3. Inr ((), dm3))) = Inr ((), dm')"
      by (simp add: answer_no_result_def)
    from visit_request_alone [where none = "\<lambda>n. False", OF l(1) every this, of pc] recent v show ?thesis
      by (simp add: Process_req_turns_def Get_recent_log_turns_def Let_def)
  next
    case words
    let ?is = "rev [0..<length (bulk_handler_list dm)]" and ?ws = "Split_key_word (req_keyword req)"
    obtain r where "Search_log t0 t1 req dm = Inr (r, dm')"
      using words assms(2) v by (auto simp: Process_req_def Search_req_def bindE_eq_Inr)
    then obtain num dm1 hr1 where l: "visit_loop (By_words ?ws) ?is MAX_NUM_RESULT (dm, ?hr) = Inr (num, dm1, hr1)"
      "bindE (answer_no_result (num = 0) (dm1, hr1)) (\<lambda>(dm1, hr1). bindE (finish_answer t1 hr1 dm1) (\<lambda>dm2. Inr (num, dm2))) = Inr (r, dm')"
      using words v by (auto simp: Search_log_def Let_def bindE_eq_Inr join_bulks_loop split: if_splits)
    from visit_request_alone [where none = "\<lambda>n. n = 0", OF l(1) every l(2), of pc] words v show ?thesis
      by (simp add: Process_req_turns_def Search_log_turns_def Let_def)
  qed
qed

end
