(* ===== verification/Service_Run.thy ===== *)
theory Service_Run
  imports Query_Turns
begin

text \<open>
  The running processor: requests, each dispatched as a whole, and steps of the persistence worker in
  any order.  Whatever the order, the stored log is the list of appended entries, the worker never
  fails, and an append that waits for a free unit gets one.
\<close>

section \<open>The reachable states\<close>

text \<open>Requests other than appends are unrestricted; an entry has to be storable and to fit a bulk.\<close>

definition acceptable :: "ReqData \<Rightarrow> bool" where
  "acceptable req \<longleftrightarrow> (Valid req \<and> req_type req = T_Append
     \<longrightarrow> storable (entry_of req) \<and> length (line_of (entry_of req)) + 1 < BULKSIZE)"

definition appended :: "ReqData \<Rightarrow> log_entry list" where
  "appended req = (if Valid req \<and> req_type req = T_Append then [entry_of req] else [])"

inductive service :: "log_entry list \<Rightarrow> worker_pc \<Rightarrow> data_manager \<Rightarrow> bool" where
  start: "start_processor new_world = Inr dm \<Longrightarrow> service [] Woken dm"
| request: "service es pc dm \<Longrightarrow> acceptable req \<Longrightarrow> Suc (length es) < 2 ^ 31 \<Longrightarrow> Process_req t0 t1 req dm = Inr dm' \<Longrightarrow>
     service (es @ appended req) pc dm'"
| query: "service es pc dm \<Longrightarrow> bulk_query req \<Longrightarrow> Process_req_turns t0 t1 ts req (pc, dm) = Inr (pc', dm') \<Longrightarrow> service es pc' dm'"
| work: "service es pc dm \<Longrightarrow> worker_step pc dm = Inr (pc', dm') \<Longrightarrow> service es pc' dm'"

text \<open>So many steps of the worker alone.\<close>

fun worker_steps :: "nat \<Rightarrow> worker_pc \<times> data_manager \<Rightarrow> (worker_pc \<times> data_manager) res" where
  "worker_steps 0 st = Inr st"
| "worker_steps (Suc n) (pc, dm) = bindE (worker_step pc dm) (worker_steps n)"

section \<open>The invariant of a run\<close>

lemma Process_req_later:
  assumes s: "served dm logs" and req: "acceptable req" "Suc (length (concat logs)) < 2 ^ 31"
    and p: "Process_req t0 t1 req dm = Inr dm'"
  shows "\<exists>logs'. later dm dm' logs' \<and> concat logs' = concat logs @ appended req"
proof (cases "Valid req \<and> req_type req = T_Append")
  case True
  then obtain n where a: "Append_log req dm = Inr (n, dm')"
    using p by (auto simp: Process_req_def Append_request_def res_simps)
  have dm: "dm_repr dm logs" using s by (simp add: served_def)
  have e: "storable (entry_of req)" "length (line_of (entry_of req)) + 1 < BULKSIZE"
    using req(1) True by (simp_all add: acceptable_def)
  obtain logs' where l: "dm_repr dm' logs'" "concat logs' = concat logs @ [entry_of req]"
    using Append_log_log [OF dm _ e req(2)] True a by (auto split: if_splits)
  with Append_log_threads [OF a s] True show ?thesis
    by (auto simp: later_def served_threads appended_def)
next
  case False
  have "later dm dm logs" using s by (simp add: later_def)
  with p False have "later dm dm' logs"
    by (auto simp: Process_req_def Recent_req_def Getkey_req_def Search_req_def SearchTime_req_def
        LogCount_req_def Persistence_req_def res_simps split: if_splits ReqType.splits
        dest: Get_recent_log_served Getkey_log_served Search_log_served SearchTime_log_served
          LogCount_log_served Persistence_log_served)
  with False show ?thesis by (auto simp: appended_def)
qed

lemma start_served:
  assumes "start_processor new_world = Inr dm"
  shows "served dm [[]]"
proof -
  let ?q = "bulk_data_queue new_world"
  have "\<not> Full ?q" by (simp add: new_world_def new_MsgQueue_def Full_def BULK_QUEUE_LEN_def)
  from Init_repr [OF this] assms have dm: "dm_repr dm [[]]" by (auto simp: start_processor_def)
  have "queue_inv ?q"
    using new_MsgQueue_inv [of BULK_QUEUE_LEN 1 "None :: nat option"] by (simp add: new_world_def BULK_QUEUE_LEN_def)
  then have "units_match ?q []"
    by (simp add: units_match_def slot_order_def Size_def) (simp add: new_world_def new_MsgQueue_def)
  moreover have "held (wheels (new_TimerWheelSet :: nat TimerWheelSet)) = {}"
    by (auto simp: held_def units_def new_TimerWheelSet_def new_TimerWheel_def)
  ultimately have "threads_ok (new_data_manager new_world)"
    using set_wf_new [where 'a = nat] by (simp add: threads_ok_def timers_ok_def new_data_manager_def new_world_def)
  then have "threads_ok dm"
    using push_threads assms unfolding start_processor_def Init_data_manager_def by blast
  with dm show ?thesis by (simp add: served_threads)
qed

lemma service_inv: "service es pc dm \<Longrightarrow> \<exists>logs. served dm logs \<and> concat logs = es \<and> pc_ok pc dm"
proof (induction rule: service.induct)
  case (start dm)
  with start_served [OF start] show ?case by (intro exI [of _ "[[]]"]) simp
next
  case (request es pc dm req t0 t1 dm')
  then obtain logs where l: "served dm logs" "concat logs = es" "pc_ok pc dm" by blast
  obtain logs' where "later dm dm' logs'" "concat logs' = es @ appended req"
    using Process_req_later [OF l(1) request(2) _ request(4)] l(2) request(3) by auto
  with pc_ok_grows [OF l(3)] show ?case by (auto simp: later_def)
next
  case (query es pc dm req t0 t1 ts pc' dm')
  then obtain logs where l: "served dm logs" "concat logs = es" "pc_ok pc dm" by blast
  have "req_type req = T_Getkey \<or> req_type req = T_Recent \<or> req_type req = T_Search"
    using query(2) by (auto simp: bulk_query_def)
  from Process_req_turns_served [OF query(3) l(1,3) this] l(2) show ?case by blast
next
  case (work es pc dm pc' dm')
  then obtain logs where l: "served dm logs" "concat logs = es" "pc_ok pc dm" by blast
  with worker_step_served [OF l(1,3)] work(2) show ?case by auto
qed

section \<open>The worker comes round\<close>

lemma worker_steps_add:
  "worker_steps n st = Inr st1 \<Longrightarrow> worker_steps m st1 = r \<Longrightarrow> worker_steps (n + m) st = r"
  by (induction n arbitrary: st) (auto simp: bindE_eq_Inr)

lemma worker_steps_step:
  "worker_step pc dm = Inr (pc1, dm1) \<Longrightarrow> worker_steps n (pc1, dm1) = r \<Longrightarrow> worker_steps (Suc n) (pc, dm) = r"
  by simp

text \<open>How far the worker is from its next test of the queue: the phases in order, then what is left of one.\<close>

fun phase :: "worker_pc \<Rightarrow> nat" where
  "phase Woken = 0"
| "phase (AutoSaving is) = 1"
| "phase TickingAuto = 2"
| "phase (TimingOut is) = 3"
| "phase TickingBulkData = 4"
| "phase (Draining n) = 5"
| "phase (Persisted n) = 5"

fun left :: "worker_pc \<Rightarrow> nat" where
  "left (AutoSaving is) = length is"
| "left (TimingOut is) = length is"
| "left (Draining n) = 2 * n"
| "left (Persisted n) = 2 * n + 1"
| "left _ = 0"

lemma worker_step_measure:
  "worker_step pc dm = Inr (pc', dm') \<Longrightarrow> pc \<noteq> Woken \<Longrightarrow> ((phase pc', left pc'), phase pc, left pc) \<in> less_than <*lex*> less_than"
  by (cases "(pc, dm)" rule: worker_step.cases) (auto simp: bindE_eq_Inr split: prod.splits)

lemma worker_wakes:
  "served dm logs \<Longrightarrow> pc_ok pc dm \<Longrightarrow> \<exists>n dm'. worker_steps n (pc, dm) = Inr (Woken, dm') \<and> served dm' logs"
proof (induction "(phase pc, left pc)" arbitrary: pc dm rule: wf_induct_rule [OF wf_lex_prod [OF wf_less_than wf_less_than]])
  case 1
  show ?case
  proof (cases "pc = Woken")
    case True
    with 1 show ?thesis by (intro exI [of _ 0]) simp
  next
    case False
    obtain pc1 dm1 where s: "worker_step pc dm = Inr (pc1, dm1)" "served dm1 logs" "pc_ok pc1 dm1"
      using worker_step_served [OF 1(2,3)] by blast
    obtain n dm2 where "worker_steps n (pc1, dm1) = Inr (Woken, dm2)" "served dm2 logs"
      using 1(1) [OF worker_step_measure [OF s(1) False] s(2,3)] by blast
    with worker_steps_step [OF s(1)] show ?thesis by blast
  qed
qed

lemma worker_makes_room:
  assumes "served dm logs" "pc_ok pc dm"
  shows "\<exists>n pc' dm'. worker_steps n (pc, dm) = Inr (pc', dm') \<and> served dm' logs \<and> \<not> Full (the_queue dm')"
proof -
  obtain n dm1 where w: "worker_steps n (pc, dm) = Inr (Woken, dm1)" "served dm1 logs"
    using worker_wakes [OF assms] by blast
  show ?thesis
  proof (cases "Full (the_queue dm1)")
    case True
    have m: "queue_inv (the_queue dm1)" "size_q (the_queue dm1) = 64"
      using w(2) by (simp_all add: served_def units_match_def BULK_QUEUE_LEN_def)
    then have sz: "Size (the_queue dm1) = 63" using True Full_iff [OF m(1)] by simp
    define k :: nat where "k = 46"
    have full: "worker_step Woken dm1 = Inr (Draining (Suc k), dm1)"
      using sz by (simp add: queue_is_full_def PERSISTENCE_THRESHOLD_def k_def)
    obtain dm2 where d2: "persist_front_unit dm1 = Inr dm2" "served dm2 logs" "pc_ok (Persisted k) dm2"
      using persist_front_served [OF w(2), of k] sz by (auto simp: k_def)
    then obtain dm3 where d3: "release_front_unit dm2 = Inr dm3" "served dm3 logs" "\<not> Full (the_queue dm3)"
      using release_front_served [OF d2(2), of k] by auto
    have "worker_steps (Suc (Suc (Suc 0))) (Woken, dm1) = Inr (Draining k, dm3)"
      using full d2(1) d3(1) by simp
    from worker_steps_add [OF w(1) this] d3(2,3) show ?thesis by blast
  next
    case False
    with w show ?thesis by blast
  qed
qed


section \<open>A run for the witnesses\<close>

lemma service_append:
  "service es pc dm \<Longrightarrow> \<forall>e \<in> set es'. storable e \<and> le_time e \<noteq> 0 \<and> length (line_of e) + 1 < BULKSIZE \<Longrightarrow>
   length es + length es' < 2 ^ 31 \<Longrightarrow> append_requests (map append_req es') dm = Inr dm' \<Longrightarrow> service (es @ es') pc dm'"
proof (induction es' arbitrary: es dm)
  case (Cons e es')
  obtain n dm1 where a: "Append_log (append_req e) dm = Inr (n, dm1)" "append_requests (map append_req es') dm1 = Inr dm'"
    using Cons.prems(4) by (auto simp: bindE_eq_Inr)
  have v: "Valid (append_req e)" "req_type (append_req e) = T_Append"
    using Cons.prems(2) by (simp_all add: append_req_def Valid_def storable_def)
  have "Process_req 0 0 (append_req e) dm = Inr dm1" using v a(1) by (simp add: Process_req_def Append_request_def)
  moreover have "acceptable (append_req e)" "appended (append_req e) = [e]"
    using v Cons.prems(2) by (simp_all add: acceptable_def appended_def)
  ultimately have "service (es @ [e]) pc dm1"
    using service.request [OF Cons.prems(1)] Cons.prems(3) by fastforce
  from Cons.IH [OF this] Cons.prems(2,3) a(2) show ?case by simp
qed simp

lemma sample_service: "\<exists>dm. sample_store = Inr dm \<and> service sample_log Woken dm"
proof -
  obtain dm where dm: "sample_store = Inr dm" using sample_store_repr by blast
  then obtain dm0 where i: "start_processor new_world = Inr dm0" "append_requests (map append_req sample_log) dm0 = Inr dm"
    by (auto simp: sample_store_def start_processor_def bindE_eq_Inr)
  have "\<forall>e \<in> set sample_log. storable e \<and> le_time e \<noteq> 0 \<and> length (line_of e) + 1 < BULKSIZE"
    using sample_storable
    by (simp add: sample_log_def line_of_def format_line_def show_nat.simps config_defs)
  moreover have "length ([] :: log_entry list) + length sample_log < 2 ^ 31" by (simp add: sample_log_def)
  ultimately have "service ([] @ sample_log) Woken dm" using service_append [OF service.start [OF i(1)] _ _ i(2)] by blast
  with dm show ?thesis unfolding append_Nil by blast
qed

lemma append_after_work:
  assumes "service es pc dm" and "Valid req" and "req_type req = T_Append" and "acceptable req" and "Suc (length es) < 2 ^ 31"
  shows "\<exists>n pc' dm' dm'' logs. worker_steps n (pc, dm) = Inr (pc', dm') \<and> Process_req t0 t1 req dm' = Inr dm''
     \<and> dm_repr dm'' logs \<and> concat logs = es @ [entry_of req]"
proof -
  obtain logs where l: "served dm logs" "concat logs = es" "pc_ok pc dm" using service_inv [OF assms(1)] by blast
  obtain n pc' dm' where w: "worker_steps n (pc, dm) = Inr (pc', dm')" "served dm' logs" "\<not> Full (the_queue dm')"
    using worker_makes_room [OF l(1,3)] by blast
  have "dm_repr dm' logs" "storable (entry_of req)" "length (line_of (entry_of req)) + 1 < BULKSIZE"
    using w(2) assms(2-4) by (simp_all add: served_def acceptable_def)
  from Append_log_log [OF this(1) assms(2) this(2,3)] l(2) assms(5) w(3) obtain dm'' logs' where
    "Append_log req dm' = Inr (1, dm'')" "dm_repr dm'' logs'" "concat logs' = es @ [entry_of req]" by auto
  moreover from this(1) have "Process_req t0 t1 req dm' = Inr dm''"
    using assms(2,3) by (simp add: Process_req_def Append_request_def)
  ultimately show ?thesis using w(1) by blast
qed

lemma getkey_answered:
  assumes "service es pc dm" and "Valid req" and "req_type req = T_Getkey"
  shows "let hits = take 50001 (rev (filter (\<lambda>e. le_key e = req_key req) es)); none = (length hits = 50000)
     in \<exists>dm'. Process_req t0 t1 req dm = Inr dm'
          \<and> answer_sent dm dm' (req_client_id req) (shown_text hits @ no_result_bytes none)
              (length hits + (if none then 1 else 0)) (t1 - t0)"
proof -
  obtain logs where l: "dm_repr dm logs" "concat logs = es" using service_inv [OF assms(1)] by (auto simp: served_def)
  from Getkey_log_log [OF l(1) assms(2,3), of t0 t1] assms(2,3) show ?thesis
    unfolding l(2) Let_def by (auto simp: Process_req_def Getkey_req_def)
qed

section \<open>Properties\<close>

text \<open>
  C4. The log is kept: after any requests whose entries are acceptable and any steps of the persistence
  worker in any order - bulks filled, persisted, released, read back -, the bulks, the files, the key
  index and the serial counter stand for exactly the entries appended, in the order in which their
  requests were processed.  Acceptable: an append has a non-empty key of visible characters, a text
  whose white space is the blanks, tabs and newlines that separate words (no carriage return, form feed
  or vertical tab), no NUL in either, and a line shorter than a bulk; there are fewer than \<open>2 ^ 31\<close> entries.  An append is
  taken as a whole against the worker.  What happens otherwise: \<open>blank_key_lost\<close> and
  \<open>append_against_persistence\<close>.
\<close>

theorem service_keeps_log:
  assumes "service es pc dm"
  shows "\<exists>logs. dm_repr dm logs \<and> concat logs = es"
  using service_inv [OF assms] by (auto simp: served_def)

theorem service_keeps_log_witness:
  "\<exists>dm pc' dm' logs. sample_store = Inr dm \<and> worker_step Woken dm = Inr (pc', dm') \<and> dm_repr dm' logs \<and> concat logs = sample_log"
proof -
  obtain dm where dm: "sample_store = Inr dm" "service sample_log Woken dm" using sample_service by blast
  obtain pc' dm' where w: "worker_step Woken dm = Inr (pc', dm')" by simp
  from service_keeps_log [OF service.work [OF dm(2) this]] dm(1) w show ?thesis by blast
qed

text \<open>
  C6. The persistence worker never fails: wherever it stands in its loop and whatever requests came in
  between, its next step is defined - the queue it takes a unit from is not empty, the buffer whose
  memory it frees is not one of the queue's, every save succeeds.
\<close>

theorem worker_never_fails:
  assumes "service es pc dm"
  shows "\<exists>pc' dm'. worker_step pc dm = Inr (pc', dm')"
  using service_inv [OF assms] worker_step_served by blast

theorem worker_never_fails_witness:
  "\<exists>dm pc' dm' pc'' dm''. sample_store = Inr dm \<and> worker_step Woken dm = Inr (pc', dm') \<and> worker_step pc' dm' = Inr (pc'', dm'')"
proof -
  obtain dm where dm: "sample_store = Inr dm" "service sample_log Woken dm" using sample_service by blast
  obtain pc' dm' where w: "worker_step Woken dm = Inr (pc', dm')" by simp
  from worker_never_fails [OF service.work [OF dm(2) this]] dm(1) w show ?thesis by blast
qed

text \<open>
  C5. No append waits for ever: from any reachable state, after finitely many steps of the worker the
  request of an acceptable entry is processed, and the log has grown by that entry.
\<close>

theorem append_gets_through:
  assumes "service es pc dm" and "Valid req" and "req_type req = T_Append" and "acceptable req" and "Suc (length es) < 2 ^ 31"
  shows "\<exists>n pc' dm' dm'' logs. worker_steps n (pc, dm) = Inr (pc', dm') \<and> Process_req t0 t1 req dm' = Inr dm''
     \<and> dm_repr dm'' logs \<and> concat logs = es @ [entry_of req]"
  by (rule append_after_work [OF assms])

theorem append_gets_through_witness:
  "\<exists>dm n pc' dm' dm'' logs. sample_store = Inr dm \<and> worker_steps n (Woken, dm) = Inr (pc', dm')
     \<and> Process_req 3 8 (append_req \<lparr>le_key = ''k3'', le_time = 20, le_content = ''Blue!''\<rparr>) dm' = Inr dm''
     \<and> dm_repr dm'' logs \<and> concat logs = sample_log @ [\<lparr>le_key = ''k3'', le_time = 20, le_content = ''Blue!''\<rparr>]"
proof -
  let ?e = "\<lparr>le_key = ''k3'', le_time = 20, le_content = ''Blue!''\<rparr>"
  obtain dm where dm: "sample_store = Inr dm" "service sample_log Woken dm" using sample_service by blast
  have "storable ?e" by code_simp
  then have r: "Valid (append_req ?e)" "req_type (append_req ?e) = T_Append" "acceptable (append_req ?e)"
    by (simp_all add: append_req_def Valid_def acceptable_def entry_of_def)
       (simp add: line_of_def format_line_def show_nat.simps config_defs)
  have "Suc (length sample_log) < 2 ^ 31" by (simp add: sample_log_def)
  from append_gets_through [OF dm(2) r this] dm(1) show ?thesis unfolding entry_of_append_req by blast
qed

text \<open>
  C8. The queries of the running service, with the worker at work in between: from any reachable state,
  a search for a key or for several words, and a request for the last entries, answers from all that
  was appended (acceptable entries, each appended as a whole), newest first and up to its limit, each
  entry with its line up to and with the first newline - the whole line, unless the key or the text
  holds a newline (\<open>shown_line\<close>) -, whatever steps the worker takes between the bulks
  and between the answered lines - bulks saved, freed, read back again -, as long as it takes the write
  lock of a bulk it touches; so many turns are enough, and the state reached is one of the service.
  Exactly 50000 results to a search get the message that there was none in addition (\<open>gets_no_result\<close>).
\<close>

theorem query_undisturbed:
  assumes "service es pc dm" and "bulk_query req"
    and "2 * length (bulk_handler_list dm) + length (all_hits req es) \<le> query_turns ts"
  shows "let found = take (answer_limit req) (all_hits req es); none = gets_no_result req found
     in \<exists>pc' dm'. Process_req_turns t0 t1 ts req (pc, dm) = Inr (pc', dm') \<and> service es pc' dm'
          \<and> answer_sent dm dm' (req_client_id req) (shown_text found @ no_result_bytes none)
              (length found + (if none then 1 else 0)) (t1 - t0)"
proof -
  obtain logs where l: "served dm logs" "concat logs = es" "pc_ok pc dm" using service_inv [OF assms(1)] by blast
  from Process_req_turns_answers [OF l(1,3) assms(2) _ refl, of ts t0 t1] assms(3) service.query [OF assms(1,2), of t0 t1 ts]
  show ?thesis unfolding l(2) Let_def by blast
qed

lemma sample_bulks: "sample_store = Inr dm \<Longrightarrow> length (bulk_handler_list dm) = 1"
proof -
  assume dm: "sample_store = Inr dm"
  obtain dm1 where "sample_store = Inr dm1" "dm_repr dm1 [sample_log]" using sample_store_repr by blast
  with dm have "dm_repr dm [sample_log]" by (metis sum.inject(2))
  then show ?thesis by (simp add: dm_repr_def)
qed

lemma sample_query:
  "bulk_query (query_req T_Getkey ''k1'')" "req_client_id (query_req T_Getkey ''k1'') = 7"
  "all_hits (query_req T_Getkey ''k1'') sample_log = [sample_log ! 2, sample_log ! 0]"
  "answer_limit (query_req T_Getkey ''k1'') = 50001"
  by (simp_all add: bulk_query_def query_req_def Valid_def all_hits_def answer_limit_def) (simp add: sample_log_def)

theorem query_undisturbed_witness:
  "\<exists>dm pc' dm'. sample_store = Inr dm
     \<and> Process_req_turns 3 8 [Worker_goes, Query_goes, Worker_goes, Query_goes, Query_goes, Worker_goes, Query_goes]
         (query_req T_Getkey ''k1'') (Woken, dm) = Inr (pc', dm')
     \<and> answer_sent dm dm' 7 (text_of [sample_log ! 2, sample_log ! 0]) 2 5"
proof -
  let ?ts = "[Worker_goes, Query_goes, Worker_goes, Query_goes, Query_goes, Worker_goes, Query_goes]"
  obtain dm where dm: "sample_store = Inr dm" "service sample_log Woken dm" using sample_service by blast
  have "2 * length (bulk_handler_list dm) + length (all_hits (query_req T_Getkey ''k1'') sample_log) \<le> query_turns ?ts"
    unfolding sample_bulks [OF dm(1)] sample_query by simp
  from query_undisturbed [OF dm(2) sample_query(1) this, of 3 8] dm(1) show ?thesis
    unfolding sample_query sample_answers [symmetric] by (auto simp: Let_def gets_no_result_def no_result_bytes_def numeral_2_eq_2)
qed

text \<open>
  C14. A round of the worker ends.  From wherever the worker stands, after at least one step and finitely
  many it is back at its test of the queue: the loop over the units, the two ticks and the calls of the
  timers that fired all come to their ends, and the log is what was appended.
\<close>

theorem worker_round_ends:
  assumes "service es pc dm"
  shows "\<exists>n dm' logs. worker_steps (Suc n) (pc, dm) = Inr (Woken, dm') \<and> dm_repr dm' logs \<and> concat logs = es"
proof -
  obtain logs where l: "served dm logs" "concat logs = es" "pc_ok pc dm" using service_inv [OF assms] by blast
  obtain pc1 dm1 where s: "worker_step pc dm = Inr (pc1, dm1)" "served dm1 logs" "pc_ok pc1 dm1"
    using worker_step_served [OF l(1,3)] by blast
  obtain n dm2 where n: "worker_steps n (pc1, dm1) = Inr (Woken, dm2)" "served dm2 logs"
    using worker_wakes [OF s(2,3)] by blast
  have "dm_repr dm2 logs" using n(2) by (simp add: served_def)
  with worker_steps_step [OF s(1) n(1)] l(2) show ?thesis by blast
qed

theorem worker_round_ends_witness:
  "\<exists>dm n dm' logs. sample_store = Inr dm \<and> worker_steps (Suc n) (Woken, dm) = Inr (Woken, dm')
     \<and> dm_repr dm' logs \<and> concat logs = sample_log"
proof -
  obtain dm where dm: "sample_store = Inr dm" "service sample_log Woken dm" using sample_service by blast
  from worker_round_ends [OF dm(2)] dm(1) show ?thesis by blast
qed




end
