(* ===== verification/End_To_End.thy ===== *)
theory End_To_End
  imports Log_Service Log_Sender Log_Server Log_Processor Service_Run
begin

text \<open>
  The path of a line through the system: from the client library through its queue and the sender, over
  a connection, through the server's parser and request queue, into the processor's log.
\<close>

section \<open>A message arrives\<close>

text \<open>However the stream is cut into reads, a whole message fills the buffer and is taken in one round.\<close>

lemma recv_loop_parts:
  assumes "\<forall>p \<in> set parts. p \<noteq> []" and "parts \<noteq> []" and "length buf = BUFFER_SIZE" and "i + length (concat parts) = BUFFER_SIZE"
  shows "recv_loop (map Received parts @ os) i buf = Some (False, False, BUFFER_SIZE, take i buf @ concat parts, os)"
  using assms
proof (induction parts arbitrary: i buf)
  case (Cons p ps)
  have p: "take (BUFFER_SIZE - i) p = p" "p \<noteq> []" using Cons.prems by auto
  show ?case
  proof (cases "ps = []")
    case True
    with Cons.prems p show ?thesis by (simp add: Let_def buf_write_def)
  next
    case False
    then obtain q qs where q: "ps = q # qs" by (cases ps) auto
    then have "0 < length q" using Cons.prems(1) by auto
    with q Cons.prems(4) have lt: "i + length p < BUFFER_SIZE"
      by (simp only: concat.simps length_append)
    have b: "length (buf_write i p buf) = BUFFER_SIZE" "take (i + length p) (buf_write i p buf) = take i buf @ p"
      using Cons.prems(3) lt by (auto simp: length_buf_write buf_write_def)
    have "recv_loop (map Received ps @ os) (i + length p) (buf_write i p buf)
        = Some (False, False, BUFFER_SIZE, take (i + length p) (buf_write i p buf) @ concat ps, os)"
      using Cons.prems False b(1) by (intro Cons.IH) auto
    with p lt b(2) show ?thesis by (simp add: Let_def)
  qed
qed simp

lemma ParseReq_first: "ParseReq m = Inr (Some req) \<Longrightarrow> \<exists>c m'. m = c # m' \<and> c \<noteq> nul"
  by (cases m) (auto simp: ParseReq_def method_str_def nul_def)

text \<open>What reading appends leaves of the server: the requests are behind those that waited.\<close>

definition takes_in :: "int \<Rightarrow> ReqData list \<Rightarrow> log_server \<Rightarrow> log_server \<Rightarrow> bool" where
  "takes_in fd reqs s s' \<longleftrightarrow> epoll_set s' fd \<noteq> None \<and> fd_result_map s' = fd_result_map s
     \<and> queue_inv (msg_queue s') \<and> one_msg_size (msg_queue s') = 1 \<and> size_q (msg_queue s') = size_q (msg_queue s)
     \<and> contents (msg_queue s') = contents (msg_queue s) @ map (\<lambda>r. [r]) reqs"

lemma append_message_taken:
  assumes s: "queue_inv (msg_queue s)" "one_msg_size (msg_queue s) = 1"
    and m: "length m = BUFFER_SIZE" "ParseReq m = Inr (Some req)" "req_type req = T_Append"
  shows "if Full (msg_queue s) then Write_msg_to_msgqueue m fd s = Inl Waits
     else \<exists>q. Write_msg_to_msgqueue m fd s = Inr (False, s\<lparr>msg_queue := q\<rparr>) \<and> queue_inv q \<and> one_msg_size q = 1
            \<and> size_q q = size_q (msg_queue s) \<and> contents q = contents (msg_queue s) @ [[req]]"
proof -
  obtain c m' where c: "m = c # m'" "c \<noteq> nul" using ParseReq_first [OF m(2)] by blast
  have n: "Need_send_back req = 0" using m(3) by (simp add: Need_send_back_def)
  show ?thesis
  proof (cases "Full (msg_queue s)")
    case True
    then have "WriteToMsgQueue_Wait (Some [req]) 0 (msg_queue s) = None" by (simp add: WriteToMsgQueue_Wait_def)
    with True m(2) c n show ?thesis by (simp add: Write_msg_to_msgqueue_def BUFFER_SIZE_def STR_LEN_def)
  next
    case False
    obtain q where q: "send [req] (msg_queue s) = (True, q)" "queue_inv q" "contents q = contents (msg_queue s) @ [[req]]"
        "size_q q = size_q (msg_queue s)" "one_msg_size q = one_msg_size (msg_queue s)"
      using send_free [OF s(1) _ False, of "[req]"] s(2) by auto
    have "clip_len (msg_queue s) 0 = 1" using s(2) by (simp add: clip_len_def)
    then have "WriteToMsgQueue_Wait (Some [req]) 0 (msg_queue s) = Some (1, q)"
      using q(1) False by (auto simp: send_def WriteToMsgQueue_def WriteToMsgQueue_Wait_def)
    with m(2) c n False q(2-5) s(2) show ?thesis
      by (auto simp: Write_msg_to_msgqueue_def BUFFER_SIZE_def STR_LEN_def numeral_2_eq_2)
  qed
qed

text \<open>A message the parser makes nothing of - a line cut off at the end - leaves the queue as it is.\<close>

lemma no_message_taken:
  assumes "m = c # m'" "c \<noteq> nul" "ParseReq m = Inr None"
  shows "Write_msg_to_msgqueue m fd s = Inr (False, s)"
  using assms by (simp add: Write_msg_to_msgqueue_def BUFFER_SIZE_def STR_LEN_def)

text \<open>
  A reading round takes in every whole message the connection has, however it is cut; it waits if the
  request queue has no room for one of them.  A message without a request is acknowledged like the others.
\<close>

definition whole_message :: "string list \<Rightarrow> bool" where
  "whole_message parts \<longleftrightarrow> [] \<notin> set parts \<and> length (concat parts) = BUFFER_SIZE"

definition append_parsed :: "string list \<Rightarrow> ReqData option \<Rightarrow> bool" where
  "append_parsed parts ro \<longleftrightarrow> hd (concat parts) \<noteq> nul \<and> ParseReq (concat parts) = Inr ro
     \<and> (\<forall>r. ro = Some r \<longrightarrow> req_type r = T_Append)"

fun given :: "'a option list \<Rightarrow> 'a list" where
  "given [] = []"
| "given (None # xs) = given xs"
| "given (Some x # xs) = x # given xs"

lemma message_read:
  assumes s: "epoll_set s fd \<noteq> None" "queue_inv (msg_queue s)" "one_msg_size (msg_queue s) = 1" "length buf = BUFFER_SIZE"
    and m: "whole_message parts" "append_parsed parts ro"
  shows "if ro \<noteq> None \<and> Full (msg_queue s) then read_rounds fd (map Received parts @ os) buf s = Inl Waits
     else \<exists>s'. read_rounds fd (map Received parts @ os) buf s = read_rounds fd os (concat parts) s' \<and> fd \<in> fd_ack_set s'
            \<and> fd_ack_set s \<subseteq> fd_ack_set s' \<and> takes_in fd (given [ro]) s s'"
proof -
  let ?m = "concat parts"
  have m': "length ?m = BUFFER_SIZE" "ParseReq ?m = Inr ro" "\<forall>p \<in> set parts. p \<noteq> []" "parts \<noteq> []" "hd ?m \<noteq> nul"
    using m by (auto simp: whole_message_def append_parsed_def BUFFER_SIZE_def)
  have loop: "recv_loop (map Received parts @ os) 0 buf = Some (False, False, BUFFER_SIZE, ?m, os)"
    using recv_loop_parts [OF m'(3,4) s(4), of 0 os] m'(1) by simp
  have pos: "BUFFER_SIZE \<noteq> 0" by (simp add: BUFFER_SIZE_def)
  have step: "\<exists>s'. read_rounds fd (map Received parts @ os) buf s = read_rounds fd os ?m s' \<and> fd \<in> fd_ack_set s'
        \<and> fd_ack_set s \<subseteq> fd_ack_set s' \<and> takes_in fd (given [ro]) s s'"
    if W: "Write_msg_to_msgqueue ?m fd s = Inr (False, s\<lparr>msg_queue := q\<rparr>)" "queue_inv q" "one_msg_size q = 1"
      "size_q q = size_q (msg_queue s)" "contents q = contents (msg_queue s) @ map (\<lambda>r. [r]) (given [ro])" for q
  proof -
    obtain s3 where s3: "on_epoll (SetWrite fd) (s\<lparr>msg_queue := q\<rparr>) = Inr s3" "msg_queue s3 = q" "epoll_set s3 fd \<noteq> None"
        "fd_result_map s3 = fd_result_map s" "fd_ack_set s3 = fd_ack_set s"
      using s(1) by (auto simp: on_epoll_def epoll_defs)
    let ?s4 = "s3\<lparr>fd_ack_set := insert fd (fd_ack_set s3)\<rparr>"
    have "read_rounds fd (map Received parts @ os) buf s = read_rounds fd os ?m ?s4"
      by (subst read_rounds.simps) (simp only: loop, simp add: pos W(1) s3(1))
    moreover have "takes_in fd (given [ro]) s ?s4" using W(2-5) s3(2-5) by (simp add: takes_in_def)
    ultimately show ?thesis using s3(5) by (intro exI [of _ ?s4]) auto
  qed
  show ?thesis
  proof (cases ro)
    case None
    obtain c m1 where "?m = c # m1" using m'(1) pos by (cases ?m) auto
    with m'(5) no_message_taken [of ?m c m1 fd s] m'(2) None
    have "Write_msg_to_msgqueue ?m fd s = Inr (False, s\<lparr>msg_queue := msg_queue s\<rparr>)" by simp
    from step [OF this s(2,3)] None show ?thesis by simp
  next
    case (Some req)
    have r: "ParseReq ?m = Inr (Some req)" "req_type req = T_Append" using m(2) Some by (simp_all add: append_parsed_def)
    note W = append_message_taken [OF s(2,3) m'(1) r, of fd]
    show ?thesis
    proof (cases "Full (msg_queue s)")
      case True
      then have "read_rounds fd (map Received parts @ os) buf s = Inl Waits"
        using W pos by (subst read_rounds.simps) (simp only: loop, simp)
      with True Some show ?thesis by simp
    next
      case False
      with W obtain q where "Write_msg_to_msgqueue ?m fd s = Inr (False, s\<lparr>msg_queue := q\<rparr>)" "queue_inv q" "one_msg_size q = 1"
          "size_q q = size_q (msg_queue s)" "contents q = contents (msg_queue s) @ [[req]]" by auto
      with step [OF this(1-4)] Some False show ?thesis by simp
    qed
  qed
qed

lemma read_rounds_appends:
  assumes "epoll_set s fd \<noteq> None" "queue_inv (msg_queue s)" "one_msg_size (msg_queue s) = 1" "length buf = BUFFER_SIZE"
    and "\<forall>parts \<in> set cuts. whole_message parts" "list_all2 append_parsed cuts ros"
  shows "if length (contents (msg_queue s)) + length (given ros) < size_q (msg_queue s)
     then \<exists>s'. read_rounds fd (map Received (concat cuts) @ [WouldBlock]) buf s = Inr s' \<and> takes_in fd (given ros) s s'
            \<and> (ros \<noteq> [] \<longrightarrow> fd \<in> fd_ack_set s') \<and> fd_ack_set s \<subseteq> fd_ack_set s'
     else read_rounds fd (map Received (concat cuts) @ [WouldBlock]) buf s = Inl Waits"
  using assms
proof (induction cuts arbitrary: ros s buf)
  case Nil
  have "length (contents (msg_queue s)) < size_q (msg_queue s)" using Size_bound [OF Nil(2)] by (simp add: contents_def)
  with Nil show ?case by (subst (1 2) read_rounds.simps) (auto simp: takes_in_def)
next
  case (Cons parts cuts)
  then obtain ro ros' where r: "ros = ro # ros'" "append_parsed parts ro" "list_all2 append_parsed cuts ros'"
    by (auto simp: list_all2_Cons1)
  let ?os = "map Received (concat cuts) @ [WouldBlock]"
  have whole: "whole_message parts" using Cons.prems(5) by simp
  have len: "length (contents (msg_queue s)) = Size (msg_queue s)" by (simp add: contents_def)
  have os: "map Received (concat (parts # cuts)) @ [WouldBlock] = map Received parts @ ?os" by simp
  note M = message_read [OF Cons.prems(1-4) whole r(2), of ?os]
  show ?case
  proof (cases "ro \<noteq> None \<and> Full (msg_queue s)")
    case True
    then have "\<not> length (contents (msg_queue s)) + length (given ros) < size_q (msg_queue s)"
      using r(1) Full_iff [OF Cons.prems(2)] by (cases ro) (simp_all add: len)
    then show ?thesis unfolding os using M True by simp
  next
    case False
    with M obtain s4 where s4: "read_rounds fd (map Received parts @ ?os) buf s = read_rounds fd ?os (concat parts) s4"
        "fd \<in> fd_ack_set s4" "fd_ack_set s \<subseteq> fd_ack_set s4" "takes_in fd (given [ro]) s s4" by auto
    have "if length (contents (msg_queue s4)) + length (given ros') < size_q (msg_queue s4)
       then \<exists>s'. read_rounds fd ?os (concat parts) s4 = Inr s' \<and> takes_in fd (given ros') s4 s'
            \<and> (ros' \<noteq> [] \<longrightarrow> fd \<in> fd_ack_set s') \<and> fd_ack_set s4 \<subseteq> fd_ack_set s'
       else read_rounds fd ?os (concat parts) s4 = Inl Waits"
      by (rule Cons.IH) (use Cons.prems(5) s4(4) whole r(3) in \<open>simp_all add: takes_in_def whole_message_def\<close>)
    moreover have g: "given ros = given [ro] @ given ros'" by (cases ro) (simp_all add: r(1))
    have "takes_in fd (given ros) s s'" if "takes_in fd (given ros') s4 s'" for s'
      using that s4(4) by (simp add: takes_in_def g)
    moreover have "length (contents (msg_queue s4)) + length (given ros') = length (contents (msg_queue s)) + length (given ros)"
      "size_q (msg_queue s4) = size_q (msg_queue s)"
      using s4(4) by (simp_all add: takes_in_def g)
    ultimately show ?thesis
      unfolding os s4(1) using s4(2,3) by (simp split: if_splits) blast
  qed
qed

lemma Read_fd_work_append:
  assumes s: "epoll_set s fd \<noteq> None" "queue_inv (msg_queue s)" "one_msg_size (msg_queue s) = 1" "\<not> Full (msg_queue s)"
    and m: "length m = BUFFER_SIZE" "ParseReq m = Inr (Some req)" "req_type req = T_Append"
    and parts: "concat parts = m" "[] \<notin> set parts"
  shows "\<exists>s'. Read_fd_work fd (map Received parts @ [WouldBlock]) s = Inr s' \<and> fd \<in> fd_ack_set s'
     \<and> queue_inv (msg_queue s') \<and> contents (msg_queue s') = contents (msg_queue s) @ [[req]]"
proof -
  have "length (contents (msg_queue s)) + 1 < size_q (msg_queue s)"
    using s(4) Full_iff [OF s(2)] Size_bound [OF s(2)] by (simp add: contents_def)
  moreover have "hd m \<noteq> nul" using ParseReq_first [OF m(2)] by auto
  ultimately show ?thesis
    using read_rounds_appends [OF s(1-3), of "replicate BUFFER_SIZE nul" "[parts]" "[Some req]"] m parts
    by (auto simp: Read_fd_work_def whole_message_def append_parsed_def takes_in_def)
qed

section \<open>The processor takes it\<close>

lemma processor_turn_takes:
  assumes "queue_inv q" "contents q = [req] # ms" "Process_req t0 t1 req dm = Inr dm'"
  shows "\<exists>q'. processor_turn t0 t1 (q, dm) = Inr (q', dm') \<and> contents q' = ms"
proof -
  obtain q' where q': "receive q = Some (Some [req], q')" "contents q' = ms"
    using receive_item [OF assms(1,2)] by blast
  then obtain n where n: "ReadAndDeleteFromMsgQueue q = Some (n, Some [req], q')" by (auto simp: receive_def)
  have "length (contents q) = Size q" by (simp add: contents_def)
  then have ne: "\<not> Empty q" using assms(1,2) by (simp add: Empty_iff)
  have "0 < one_msg_size q" using assms(1) by (simp add: queue_inv_def)
  then have "0 < n" using n ne by (auto simp: ReadAndDeleteFromMsgQueue_def split: option.splits)
  then obtain k where "n = Suc k" by (cases n) auto
  with n ne assms(3) q'(2) show ?thesis by (simp add: processor_turn_def)
qed

section \<open>From the client to the log\<close>

text \<open>Text that comes through unchanged, whichever key is drawn.\<close>

definition loggable :: "log_service \<Rightarrow> string \<Rightarrow> bool" where
  "loggable c body \<longleftrightarrow> nul_free body \<and> length body \<le> CLIENT_STR_LEN - 2 \<and> list_all (\<lambda>x. c_isspace x \<longrightarrow> is_delim x) body
     \<and> (\<forall>k \<in> set (key_list c). line_fits k (stamp c) body)"

definition logged_entry :: "log_service \<Rightarrow> string \<Rightarrow> string \<Rightarrow> log_entry" where
  "logged_entry c k body = \<lparr>le_key = take (KEY_LEN - 1) k, le_time = stamp c, le_content = body\<rparr>"

lemma unreserved_visible: "unreserved k \<Longrightarrow> visible k \<and> nul_free k"
  by (auto simp: unreserved_def visible_def nul_free_def list_all_iff needs_escape_def schar_def c_isspace_def nul_def)

lemma unreserved_take: "unreserved k \<Longrightarrow> unreserved (take n k)"
  by (auto simp: unreserved_def list_all_iff dest: in_set_takeD)

lemma request_acceptable:
  assumes k: "k \<noteq> []" "unreserved k" and t: "0 < t" "unat t < 2 ^ 63 - 1"
    and body: "nul_free body" "length body \<le> CLIENT_STR_LEN - 2" "list_all (\<lambda>x. c_isspace x \<longrightarrow> is_delim x) body"
  shows "Valid (line_of_request k t body)" "req_type (line_of_request k t body) = T_Append" "acceptable (line_of_request k t body)"
proof -
  let ?r = "line_of_request k t body"
  have key: "take (KEY_LEN - 1) k \<noteq> []" "length (take (KEY_LEN - 1) k) \<le> 15" using k(1) by (simp_all add: KEY_LEN_def)
  have e: "entry_of ?r = \<lparr>le_key = take (KEY_LEN - 1) k, le_time = t, le_content = body\<rparr>"
    by (simp add: entry_of_def line_of_request_def)
  show "Valid ?r" "req_type ?r = T_Append" using key(1) t(1) by (simp_all add: Valid_def line_of_request_def)
  have "storable (entry_of ?r)"
    using unreserved_visible [OF unreserved_take [OF k(2)], of "KEY_LEN - 1"] key(1) body(1,3)
    by (simp add: e storable_def entry_ok_def)
  moreover have "unat t < 10 ^ Suc 18" using t(2) by simp
  then have "length (show_nat (unat t)) \<le> 19" using length_show_nat [of "unat t" 18] by simp
  then have "length (line_of (entry_of ?r)) + 1 < BULKSIZE"
    using key(2) body(2) by (simp add: e line_of_def format_line_def BULKSIZE_def CLIENT_STR_LEN_def)
  ultimately show "acceptable ?r" by (simp add: acceptable_def)
qed

text \<open>
  A line a client logs is stored: \<^verbatim>\<open>cody_log\<close> puts one message into the queue it shares with the sender;
  the sender, when its connection takes the message whole, passes on exactly this message; however the
  connection then cuts it into pieces, the server that reads them hands one request to the processor and
  notes the acknowledgement; and once the persistence worker has made room, if it has to, one turn of the
  processor's loop makes exactly this entry - a key, the time and the text - the newest of the log.
\<close>

lemma logged_line_is_stored:
  assumes "client_ok c" and "clock_ok c" and "\<not> Full (client_queue c)" and "contents (client_queue c) = []" and "loggable c body"
    and "registered (sender_epoll sd) sock \<noteq> None" and "taken sd sock = []" and "CLIENT_STR_LEN \<le> room"
    and "epoll_set s fd \<noteq> None" and "queue_inv (msg_queue s)" and "one_msg_size (msg_queue s) = 1" and "\<not> Full (msg_queue s)"
    and "contents (msg_queue s) = []" and "service es pc dm" and "Suc (length es) < 2 ^ 31"
  shows "\<exists>c' sd' k. cody_log body c = Inr c' \<and> k \<in> set (key_list c)
     \<and> sender_turn sock [writable sock (replicate d SendLater @ [SentUpTo room])] (sd\<lparr>sender_queue := client_queue c'\<rparr>) = Inr sd'
     \<and> contents (sender_queue sd') = [] \<and> length (taken sd' sock) = BUFFER_SIZE
     \<and> (\<forall>parts. concat parts = taken sd' sock \<and> [] \<notin> set parts \<longrightarrow>
          (\<exists>s'. Read_fd_work fd (map Received parts @ [WouldBlock]) s = Inr s' \<and> fd \<in> fd_ack_set s'
             \<and> (\<exists>n pc' dm' q' dm'' logs. worker_steps n (pc, dm) = Inr (pc', dm')
                  \<and> processor_turn t0 t1 (msg_queue s', dm') = Inr (q', dm'') \<and> contents q' = []
                  \<and> dm_repr dm'' logs \<and> concat logs = es @ [logged_entry c k body])))"
proof -
  have b: "nul_free body" "length body \<le> CLIENT_STR_LEN - 2" "list_all (\<lambda>x. c_isspace x \<longrightarrow> is_delim x) body"
    and fits: "\<forall>k \<in> set (key_list c). line_fits k (stamp c) body"
    using assms(5) by (simp_all add: loggable_def)
  have whole: "cstr (take (CLIENT_STR_LEN - 2) body) = body" using b(1,2) by (simp add: cstr_nul_free)
  obtain c' where c': "cody_log body c = Inr c'" "line_went c body c'"
    using cody_log_sent [OF assms(1-3), of body] unfolding whole by blast
  obtain k m where k: "k \<in> set (key_list c)" and m: "contents (client_queue c') = [m]" "length m = BUFFER_SIZE"
      "ParseReq m = Inr (Some (line_of_request k (stamp c) body))"
    using c'(2) fits assms(4) by (auto simp: line_went_def BUFFER_SIZE_def CLIENT_STR_LEN_def)
  let ?sd = "sd\<lparr>sender_queue := client_queue c'\<rparr>"
  have "sender_ok ?sd" "contents (sender_queue ?sd) = [m]" "registered (sender_epoll ?sd) sock \<noteq> None"
    using c'(2) m(1) assms(6) by (simp_all add: line_went_def client_ok_def sender_ok_def)
  from sender_forwards [OF this assms(8), of d] assms(7) obtain sd' where
    sd': "sender_turn sock [writable sock (replicate d SendLater @ [SentUpTo room])] ?sd = Inr sd'"
      "contents (sender_queue sd') = []" "taken sd' sock = m" by auto
  have "k \<noteq> []" "unreserved k" using assms(1) k by (auto simp: client_ok_def)
  note req = request_acceptable [OF this stamp_range [OF assms(2)] b]
  obtain n pc' dm' dm'' logs where w: "worker_steps n (pc, dm) = Inr (pc', dm')"
      "Process_req t0 t1 (line_of_request k (stamp c) body) dm' = Inr dm''" "dm_repr dm'' logs"
      "concat logs = es @ [logged_entry c k body]"
    using append_after_work [OF assms(14) req assms(15), of t0 t1]
    by (auto simp: entry_of_def line_of_request_def logged_entry_def)
  have "\<exists>s'. Read_fd_work fd (map Received parts @ [WouldBlock]) s = Inr s' \<and> fd \<in> fd_ack_set s'
      \<and> (\<exists>n pc' dm' q' dm'' logs. worker_steps n (pc, dm) = Inr (pc', dm')
           \<and> processor_turn t0 t1 (msg_queue s', dm') = Inr (q', dm'') \<and> contents q' = []
           \<and> dm_repr dm'' logs \<and> concat logs = es @ [logged_entry c k body])"
    if parts: "concat parts = taken sd' sock" "[] \<notin> set parts" for parts
  proof -
    obtain s' where s': "Read_fd_work fd (map Received parts @ [WouldBlock]) s = Inr s'" "fd \<in> fd_ack_set s'"
        "queue_inv (msg_queue s')" "contents (msg_queue s') = [line_of_request k (stamp c) body] # []"
      using Read_fd_work_append [OF assms(9-12) m(2,3) req(2) parts(1) [unfolded sd'(3)] parts(2)] assms(13) by auto
    from processor_turn_takes [OF s'(3,4) w(2)] s'(1,2) w(1,3,4) show ?thesis by blast
  qed
  moreover have "length (taken sd' sock) = BUFFER_SIZE" using sd'(3) m(2) by simp
  ultimately show ?thesis using c'(1) k sd'(1,2) by (intro exI [of _ c'] exI [of _ sd'] exI [of _ k]) simp
qed

lemma listening_server_ok:
  "epoll_set listening_server 5 \<noteq> None" "queue_inv (msg_queue listening_server)" "one_msg_size (msg_queue listening_server) = 1"
  "\<not> Full (msg_queue listening_server)" "contents (msg_queue listening_server) = []"
  using new_MsgQueue_inv [of Q_LEN 1 new_ReqData]
  by (simp_all add: listening_server_def new_log_server_def Q_LEN_def Full_def new_MsgQueue_def)

lemma ready_service_loggable:
  "contents (client_queue ready_service) = []" "loggable ready_service ''Blue!''"
proof -
  show "contents (client_queue ready_service) = []"
    using new_MsgQueue_inv [of CLIENT_Q_LEN CLIENT_STR_LEN nul]
    by (simp add: ready_service_def new_log_service_def CLIENT_Q_LEN_def CLIENT_STR_LEN_def)
  have "line_fits k 1 ''Blue!''" if "k \<in> set table_keys" for k
    using that table_keys_ok(2)
    by (auto simp: line_fits_def append_params_def show_nat.simps hexchars_def needs_escape_def schar_def CLIENT_STR_LEN_def dest!: bspec)
  then show "loggable ready_service ''Blue!''"
    by (simp add: ready_service_def new_log_service_def loggable_def stamp_def c_isspace_def nul_def CLIENT_STR_LEN_def)
qed

lemma watching_sender: "registered (sender_epoll loaded_sender) 5 \<noteq> None" "taken loaded_sender 5 = []" "CLIENT_STR_LEN \<le> 4096"
  by (simp_all add: loaded_sender_def new_sender_def CLIENT_STR_LEN_def)

end
