(* ===== verification/Line_Stream.thy ===== *)
theory Line_Stream
  imports End_To_End
begin

text \<open>
  A client that logs lines for as long as it likes, its sender, the connection, the server, the processor
  and the persistence worker, each going on when it comes to it.  \<open>End_To_End\<close> follows one line through
  an idle system; here any number of lines are on the way, at every stage several at a time.
\<close>

section \<open>What a call logs\<close>

text \<open>
  The key \<^verbatim>\<open>Get_key\<close> draws, the time and the text, as much of it as \<^verbatim>\<open>cody_log\<close> prints.  A line whose encoded
  request does not fit a message loses its end, and with it everything: the parser makes no request of it.
\<close>

type_synonym call = "string \<times> u64 \<times> string"

definition printed_text :: "string \<Rightarrow> string" where
  "printed_text printed = cstr (take (CLIENT_STR_LEN - 2) printed)"

definition call_made :: "string \<Rightarrow> log_service \<Rightarrow> call" where
  "call_made printed c = (drawn_key c, stamp c, printed_text printed)"

fun fits_message :: "call \<Rightarrow> bool" where
  "fits_message (k, t, b) = line_fits k t b"

fun request_of :: "call \<Rightarrow> ReqData" where
  "request_of (k, t, b) = line_of_request k t b"

fun entry_of_call :: "call \<Rightarrow> log_entry" where
  "entry_of_call (k, t, b) = \<lparr>le_key = take (KEY_LEN - 1) k, le_time = t, le_content = b\<rparr>"

section \<open>The system\<close>

text \<open>
  The queue in shared memory is the client's \<open>client_queue\<close>; \<open>arrived\<close> counts the bytes of the connection
  the server has read; \<open>said\<close> records every call of \<^verbatim>\<open>cody_log\<close> that returned.
\<close>

record line_system =
  client :: log_service
  relay :: sender
  arrived :: nat
  serving :: log_server
  worker_at :: worker_pc
  stored_in :: data_manager
  said :: "call list"

definition in_flight :: "int \<Rightarrow> line_system \<Rightarrow> string" where
  "in_flight sock st = drop (arrived st) (taken (relay st) sock)"

text \<open>
  A line is logged; the connection is writable, after some delays, for so many bytes, or readable; so many
  messages reach the server, each cut into pieces of these lengths (each one more than the number says, the
  last what is left); the server finds its connection writable; the processor looks at its queue; the worker
  goes on.
\<close>

datatype line_event =
    Logs string
  | Sends nat nat
  | Hears "recv_outcome list"
  | Arrives "nat list list"
  | Acknowledges "send_outcome list"
  | Processes u64 u64
  | Works

text \<open>
  The events a run may have: white space in the text separates words - no carriage return, vertical tab or
  form feed, which the files do not keep - and the connection has room for a whole message when it is
  writable, without which the sender reads outside its buffer.
\<close>

fun within :: "line_event \<Rightarrow> bool" where
  "within (Logs printed) \<longleftrightarrow> list_all (\<lambda>x. c_isspace x \<longrightarrow> is_delim x) (printed_text printed)"
| "within (Sends d room) \<longleftrightarrow> CLIENT_STR_LEN \<le> room"
| "within _ \<longleftrightarrow> True"

text \<open>The pieces in which whole messages arrive.\<close>

fun cut_up :: "nat list \<Rightarrow> string \<Rightarrow> string list" where
  "cut_up ns [] = []"
| "cut_up [] s = [s]"
| "cut_up (n # ns) s = take (Suc n) s # cut_up ns (drop (Suc n) s)"

fun pieces :: "nat list list \<Rightarrow> string \<Rightarrow> string list list" where
  "pieces [] s = []"
| "pieces (ns # css) s = (if length s < BUFFER_SIZE then []
     else cut_up ns (take BUFFER_SIZE s) # pieces css (drop BUFFER_SIZE s))"

definition relay_turn :: "int \<Rightarrow> sender_event \<Rightarrow> line_system \<Rightarrow> line_system res" where
  "relay_turn sock ev st =
     bindE (sender_turn sock [ev] ((relay st)\<lparr>sender_queue := client_queue (client st)\<rparr>)) (\<lambda>sd.
       Inr (st\<lparr>relay := sd, client := (client st)\<lparr>client_queue := sender_queue sd\<rparr>\<rparr>))"

fun moves :: "int \<Rightarrow> int \<Rightarrow> line_event \<Rightarrow> line_system \<Rightarrow> line_system res" where
  "moves sock fd (Logs printed) st =
     bindE (cody_log printed (client st)) (\<lambda>c. Inr (st\<lparr>client := c, said := said st @ [call_made printed (client st)]\<rparr>))"
| "moves sock fd (Sends d room) st = relay_turn sock (writable sock (replicate d SendLater @ [SentUpTo room])) st"
| "moves sock fd (Hears os) st = relay_turn sock (heard sock os) st"
| "moves sock fd (Arrives css) st =
     (let cuts = pieces css (in_flight sock st)
      in bindE (Read_fd_work fd (map Received (concat cuts) @ [WouldBlock]) (serving st)) (\<lambda>s.
           Inr (st\<lparr>serving := s, arrived := arrived st + length (concat (concat cuts))\<rparr>)))"
| "moves sock fd (Acknowledges os) st =
     bindE (Write_fd_work fd ((serving st)\<lparr>sends := os\<rparr>)) (\<lambda>s. Inr (st\<lparr>serving := s\<rparr>))"
| "moves sock fd (Processes t0 t1) st =
     bindE (processor_turn t0 t1 (msg_queue (serving st), stored_in st)) (\<lambda>(q, dm).
       Inr (st\<lparr>serving := (serving st)\<lparr>msg_queue := q\<rparr>, stored_in := dm\<rparr>))"
| "moves sock fd Works st =
     bindE (worker_step (worker_at st) (stored_in st)) (\<lambda>(pc, dm). Inr (st\<lparr>worker_at := pc, stored_in := dm\<rparr>))"

text \<open>
  A process that would wait has not made its call yet and is left where it was; undefined behaviour and
  the end of a process are not left out.
\<close>

definition line_move :: "int \<Rightarrow> int \<Rightarrow> line_event \<Rightarrow> line_system \<Rightarrow> line_system res" where
  "line_move sock fd ev st =
     (case moves sock fd ev st of Inl e \<Rightarrow> if e = Waits then Inr st else Inl e | Inr st' \<Rightarrow> Inr st')"

fun line_run :: "int \<Rightarrow> int \<Rightarrow> line_event list \<Rightarrow> line_system \<Rightarrow> line_system res" where
  "line_run sock fd [] st = Inr st"
| "line_run sock fd (ev # evs) st = bindE (line_move sock fd ev st) (line_run sock fd evs)"

section \<open>Where the lines are\<close>

fun sound_call :: "call \<Rightarrow> bool" where
  "sound_call (k, t, b) \<longleftrightarrow> k \<noteq> [] \<and> unreserved k \<and> 0 < t \<and> unat t < 2 ^ 63 - 1 \<and> nul_free b
     \<and> length b \<le> CLIENT_STR_LEN - 2 \<and> list_all (\<lambda>x. c_isspace x \<longrightarrow> is_delim x) b"

text \<open>What a message of the client's queue or the connection is to the parser.\<close>

definition carried :: "string \<Rightarrow> call \<Rightarrow> bool" where
  "carried m l \<longleftrightarrow> length m = BUFFER_SIZE \<and> hd m \<noteq> nul
     \<and> ParseReq m = Inr (if fits_message l then Some (request_of l) else None)"

text \<open>The log has the oldest calls, then the server's queue, then the messages; of the first two only those that fit.\<close>

definition lines_placed :: "log_entry list \<Rightarrow> ReqData list list \<Rightarrow> string list \<Rightarrow> call list \<Rightarrow> bool" where
  "lines_placed new reqs msgs ls \<longleftrightarrow> list_all sound_call ls \<and> (\<exists>l1 l2 l3. ls = l1 @ l2 @ l3
     \<and> new = map entry_of_call (filter fits_message l1)
     \<and> reqs = map (\<lambda>l. [request_of l]) (filter fits_message l2) \<and> list_all2 carried msgs l3)"

definition processes_ok :: "int \<Rightarrow> int \<Rightarrow> line_system \<Rightarrow> bool" where
  "processes_ok sock fd st \<longleftrightarrow> client_ok (client st) \<and> registered (sender_epoll (relay st)) sock \<noteq> None
     \<and> arrived st \<le> length (taken (relay st) sock)
     \<and> epoll_set (serving st) fd \<noteq> None \<and> fd_result_map (serving st) fd = None
     \<and> queue_inv (msg_queue (serving st)) \<and> one_msg_size (msg_queue (serving st)) = 1 \<and> 1 < size_q (msg_queue (serving st))"

text \<open>The client's counter starts at 3 and is 64 bits wide.\<close>

definition clock_within :: "nat \<Rightarrow> log_service \<Rightarrow> bool" where
  "clock_within n c \<longleftrightarrow> 2 \<le> unat (key_counter c) \<and> unat (key_counter c) \<le> 2 ^ 63 + n"

definition line_inv :: "int \<Rightarrow> int \<Rightarrow> log_entry list \<Rightarrow> line_system \<Rightarrow> bool" where
  "line_inv sock fd es st \<longleftrightarrow> processes_ok sock fd st \<and> clock_within (length (said st)) (client st)
     \<and> (\<exists>new ws. service (es @ new) (worker_at st) (stored_in st) \<and> concat ws = in_flight sock st
          \<and> lines_placed new (contents (msg_queue (serving st))) (ws @ contents (client_queue (client st))) (said st))"

text \<open>Nothing on the way: the system the processes of \<open>System_Start\<close> make, or one that has come to rest.\<close>

definition at_rest :: "int \<Rightarrow> int \<Rightarrow> log_entry list \<Rightarrow> line_system \<Rightarrow> bool" where
  "at_rest sock fd es st \<longleftrightarrow> processes_ok sock fd st \<and> clock_within 0 (client st) \<and> in_flight sock st = []
     \<and> contents (msg_queue (serving st)) = [] \<and> contents (client_queue (client st)) = []
     \<and> service es (worker_at st) (stored_in st) \<and> said st = []"

definition in_transit :: "int \<Rightarrow> line_system \<Rightarrow> nat" where
  "in_transit sock st = length (contents (msg_queue (serving st))) + length (in_flight sock st) div BUFFER_SIZE
     + length (contents (client_queue (client st)))"

lemma rest_inv: "at_rest sock fd es st \<Longrightarrow> line_inv sock fd es st"
  by (auto simp: at_rest_def line_inv_def lines_placed_def intro!: exI [of _ "[]"])

section \<open>Moving on\<close>

lemma carried_lengths: "list_all2 carried ms ls \<Longrightarrow> \<forall>m \<in> set ms. length m = BUFFER_SIZE"
  by (induction rule: list_all2_induct) (auto simp: carried_def)

lemma placed_length: "lines_placed new reqs msgs ls \<Longrightarrow> length new + length reqs + length msgs \<le> length ls"
  unfolding lines_placed_def by (auto dest!: list_all2_lengthD intro!: add_mono length_filter_le)

lemma placed_said:
  assumes "lines_placed new reqs msgs ls" "carried m l" "sound_call l"
  shows "lines_placed new reqs (msgs @ [m]) (ls @ [l])"
proof -
  obtain l1 l2 l3 where "ls = l1 @ l2 @ l3" "new = map entry_of_call (filter fits_message l1)"
      "reqs = map (\<lambda>l. [request_of l]) (filter fits_message l2)" "list_all2 carried msgs l3" "list_all sound_call ls"
    using assms(1) by (auto simp: lines_placed_def)
  with assms(2,3) show ?thesis
    unfolding lines_placed_def
    by (intro conjI exI [of _ l1] exI [of _ l2] exI [of _ "l3 @ [l]"]) (auto intro: list_all2_appendI)
qed

lemma placed_arrives:
  assumes "lines_placed new reqs (m # msgs) ls"
  shows "\<exists>ro. length m = BUFFER_SIZE \<and> hd m \<noteq> nul \<and> ParseReq m = Inr ro \<and> (\<forall>r. ro = Some r \<longrightarrow> req_type r = T_Append)
     \<and> lines_placed new (reqs @ map (\<lambda>r. [r]) (given [ro])) msgs ls"
proof -
  obtain l1 l2 l l3 where l: "ls = l1 @ l2 @ l # l3" "new = map entry_of_call (filter fits_message l1)"
      "reqs = map (\<lambda>l. [request_of l]) (filter fits_message l2)" "carried m l" "list_all2 carried msgs l3" "list_all sound_call ls"
    using assms by (auto simp: lines_placed_def list_all2_Cons1)
  let ?ro = "if fits_message l then Some (request_of l) else None"
  have "reqs @ map (\<lambda>r. [r]) (given [?ro]) = map (\<lambda>l. [request_of l]) (filter fits_message (l2 @ [l]))"
    by (simp add: l(3))
  with l have "lines_placed new (reqs @ map (\<lambda>r. [r]) (given [?ro])) msgs ls"
    unfolding lines_placed_def by (intro conjI exI [of _ l1] exI [of _ "l2 @ [l]"] exI [of _ l3]) simp_all
  moreover have "req_type (request_of l) = T_Append" by (cases l) (simp add: line_of_request_def)
  ultimately show ?thesis using l(4) by (intro exI [of _ ?ro]) (simp add: carried_def)
qed

lemma placed_arrive:
  "lines_placed new reqs (map concat cuts @ msgs) ls \<Longrightarrow>
   \<exists>ros. list_all2 append_parsed cuts ros \<and> lines_placed new (reqs @ map (\<lambda>r. [r]) (given ros)) msgs ls"
proof (induction cuts arbitrary: reqs)
  case (Cons c cuts)
  have p: "lines_placed new reqs (concat c # map concat cuts @ msgs) ls" using Cons.prems by simp
  obtain ro where r: "hd (concat c) \<noteq> nul" "ParseReq (concat c) = Inr ro" "\<forall>r. ro = Some r \<longrightarrow> req_type r = T_Append"
      "lines_placed new (reqs @ map (\<lambda>r. [r]) (given [ro])) (map concat cuts @ msgs) ls"
    using placed_arrives [OF p] by blast
  from Cons.IH [OF r(4)] obtain ros where ros: "list_all2 append_parsed cuts ros"
    "lines_placed new ((reqs @ map (\<lambda>r. [r]) (given [ro])) @ map (\<lambda>r. [r]) (given ros)) msgs ls" by blast
  have "append_parsed c ro" using r(1-3) by (simp add: append_parsed_def)
  moreover have "given (ro # ros) = given [ro] @ given ros" by (cases ro) simp_all
  ultimately show ?case using ros by (intro exI [of _ "ro # ros"]) simp
qed auto

lemma placed_stored:
  assumes "lines_placed new (cell # reqs) msgs ls"
  shows "\<exists>l. cell = [request_of l] \<and> sound_call l \<and> lines_placed (new @ [entry_of_call l]) reqs msgs ls"
proof -
  obtain l1 l2 l3 where l: "ls = l1 @ l2 @ l3" "new = map entry_of_call (filter fits_message l1)"
      "cell # reqs = map (\<lambda>l. [request_of l]) (filter fits_message l2)" "list_all2 carried msgs l3" "list_all sound_call ls"
    using assms by (auto simp: lines_placed_def)
  obtain x xs where x: "filter fits_message l2 = x # xs" "cell = [request_of x]" "reqs = map (\<lambda>l. [request_of l]) xs"
    using l(3) by (cases "filter fits_message l2") auto
  obtain us vs where u: "l2 = us @ x # vs" "\<forall>u \<in> set us. \<not> fits_message u" "fits_message x" "xs = filter fits_message vs"
    using filter_eq_ConsD [OF x(1)] by blast
  then have "filter fits_message (l1 @ us @ [x]) = filter fits_message l1 @ [x]" by simp
  with l x u have "lines_placed (new @ [entry_of_call x]) reqs msgs ls"
    unfolding lines_placed_def by (intro conjI exI [of _ "l1 @ us @ [x]"] exI [of _ vs] exI [of _ l3]) simp_all
  moreover have "sound_call x" using l(1,5) u(1) by simp
  ultimately show ?thesis using x(2) by blast
qed

text \<open>Whole messages, however they are cut.\<close>

lemma cut_up_whole: "concat (cut_up ns s) = s" "[] \<notin> set (cut_up ns s)"
  by (induction ns s rule: cut_up.induct) simp_all

lemma pieces_whole: "\<forall>parts \<in> set (pieces css s). whole_message parts"
  by (induction css s rule: pieces.induct) (simp_all add: whole_message_def cut_up_whole)

lemma pieces_messages:
  "\<forall>w \<in> set ws. length w = BUFFER_SIZE \<Longrightarrow> map concat (pieces css (concat ws)) = take (length css) ws"
proof (induction css arbitrary: ws)
  case (Cons ns css)
  show ?case
  proof (cases ws)
    case Nil
    then show ?thesis by (simp add: BUFFER_SIZE_def)
  next
    case (Cons w ws')
    with Cons.prems Cons.IH [of ws'] show ?thesis by (simp add: cut_up_whole)
  qed
qed simp

lemma concat_even: "\<forall>w \<in> set ws. length w = n \<Longrightarrow> length (concat ws) = length ws * n"
  by (induction ws) simp_all

lemma placed_wire: "lines_placed new reqs (ws @ ms) ls \<Longrightarrow> \<forall>w \<in> set ws. length w = BUFFER_SIZE"
  unfolding lines_placed_def by (elim exE conjE) (drule carried_lengths, simp)

lemma concat_pieces: "concat (map concat xss) = concat (concat xss)"
  by (induction xss) simp_all

section \<open>Every move keeps the lines in order\<close>

text \<open>Whatever a process does, it waits or it goes on; nothing is undefined and nobody ends.\<close>

definition goes_on :: "int \<Rightarrow> int \<Rightarrow> log_entry list \<Rightarrow> call list \<Rightarrow> line_system res \<Rightarrow> bool" where
  "goes_on sock fd es ls r \<longleftrightarrow> r = Inl Waits \<or> (\<exists>st. r = Inr st \<and> line_inv sock fd es st \<and> said st = ls)"

lemma logs_go_on:
  assumes "line_inv sock fd es st" "length (said st) < 2 ^ 31" "within (Logs printed)"
  shows "goes_on sock fd es (said st @ [call_made printed (client st)]) (moves sock fd (Logs printed) st)"
proof (cases "Full (client_queue (client st))")
  case True
  with assms(1) cody_log_waits [of "client st" printed] show ?thesis
    by (simp add: goes_on_def line_inv_def processes_ok_def)
next
  case False
  let ?c = "client st" and ?l = "call_made printed (client st)"
  have c: "client_ok ?c" "clock_within (length (said st)) ?c" using assms(1) by (simp_all add: line_inv_def processes_ok_def)
  then have n: "unat (key_counter ?c) + 1 < 2 ^ 64" using assms(2) by (simp add: clock_within_def)
  then have ck: "clock_ok ?c" using c(2) by (simp add: clock_ok_def clock_within_def)
  obtain c' m where c': "cody_log printed ?c = Inr c'" "client_ok c'" "key_counter c' = key_counter ?c + 1"
      "drawn_key ?c \<in> set (key_list ?c)" "contents (client_queue c') = contents (client_queue ?c) @ [m]"
      "length m = BUFFER_SIZE" "hd m = CHR ''G''"
      "ParseReq m = Inr (if fits_message ?l then Some (request_of ?l) else None)"
    using cody_log_sent [OF c(1) ck False, of printed]
    by (auto simp: line_went_def BUFFER_SIZE_def CLIENT_STR_LEN_def call_made_def printed_text_def)
  have "drawn_key ?c \<noteq> []" "unreserved (drawn_key ?c)" using c(1) c'(4) by (auto simp: client_ok_def)
  moreover have "nul_free (printed_text printed)" by (simp add: printed_text_def)
  moreover have "length (printed_text printed) \<le> CLIENT_STR_LEN - 2"
    using length_takeWhile_le [of _ "take (CLIENT_STR_LEN - 2) printed"] by (fastforce simp: printed_text_def cstr_def)
  ultimately have sound: "sound_call ?l" using assms(3) stamp_range [OF ck] by (simp add: call_made_def)
  have m: "carried m ?l" using c'(6-8) by (simp add: carried_def nul_def)
  have "unat (key_counter c') = unat (key_counter ?c) + 1" using n c'(3) by (simp add: unat_word_ariths)
  then have clock: "clock_within (Suc (length (said st))) c'" using c(2) by (simp add: clock_within_def)
  let ?st = "st\<lparr>client := c', said := said st @ [?l]\<rparr>"
  obtain new ws where w: "service (es @ new) (worker_at st) (stored_in st)" "concat ws = in_flight sock st"
      "lines_placed new (contents (msg_queue (serving st))) (ws @ contents (client_queue ?c)) (said st)"
    using assms(1) unfolding line_inv_def by blast
  have "processes_ok sock fd ?st" using assms(1) c'(2) by (simp add: line_inv_def processes_ok_def)
  then have "line_inv sock fd es ?st"
    unfolding line_inv_def using clock w(1,2) placed_said [OF w(3) m sound] c'(5)
    by (intro conjI exI [of _ new] exI [of _ ws]) (simp_all add: in_flight_def)
  with c'(1) show ?thesis by (simp add: goes_on_def)
qed

lemma relay_goes_on:
  assumes "line_inv sock fd es st"
    and "sender_turn sock [ev] ((relay st)\<lparr>sender_queue := client_queue (client st)\<rparr>) = Inr sd"
    and "registered (sender_epoll sd) sock \<noteq> None" "taken sd sock = taken (relay st) sock @ concat out"
    and "queue_inv (sender_queue sd)" "one_msg_size (sender_queue sd) = CLIENT_STR_LEN"
    and "contents (client_queue (client st)) = out @ contents (sender_queue sd)"
  shows "goes_on sock fd es (said st) (relay_turn sock ev st)"
proof -
  let ?st = "st\<lparr>relay := sd, client := (client st)\<lparr>client_queue := sender_queue sd\<rparr>\<rparr>"
  have ok: "processes_ok sock fd ?st" "clock_within (length (said ?st)) (client ?st)"
    using assms(1,3-6) by (simp_all add: line_inv_def processes_ok_def client_ok_def clock_within_def)
  have "arrived st \<le> length (taken (relay st) sock)" using assms(1) by (simp add: line_inv_def processes_ok_def)
  then have flight: "in_flight sock ?st = in_flight sock st @ concat out" using assms(4) by (simp add: in_flight_def)
  obtain new ws where w: "service (es @ new) (worker_at st) (stored_in st)" "concat ws = in_flight sock st"
      "lines_placed new (contents (msg_queue (serving st))) (ws @ contents (client_queue (client st))) (said st)"
    using assms(1) unfolding line_inv_def by blast
  have "line_inv sock fd es ?st"
    unfolding line_inv_def using ok w flight assms(7) by (intro conjI exI [of _ new] exI [of _ "ws @ out"]) simp_all
  with assms(2) show ?thesis by (simp add: goes_on_def relay_turn_def)
qed

lemma relay_ok:
  assumes "line_inv sock fd es st"
  shows "sender_ok ((relay st)\<lparr>sender_queue := client_queue (client st)\<rparr>)"
    "registered (sender_epoll ((relay st)\<lparr>sender_queue := client_queue (client st)\<rparr>)) sock \<noteq> None"
  using assms by (simp_all add: line_inv_def processes_ok_def client_ok_def sender_ok_def)

lemma sends_go_on:
  assumes "line_inv sock fd es st" "CLIENT_STR_LEN \<le> room"
  shows "goes_on sock fd es (said st) (moves sock fd (Sends d room) st)"
proof (cases "contents (client_queue (client st))")
  case Nil
  with sender_idle [OF relay_ok(1) [OF assms(1)]] relay_ok [OF assms(1)] show ?thesis
    using relay_goes_on [OF assms(1), of _ _ "[]"] by (simp add: sender_ok_def)
next
  case (Cons m ms)
  with sender_forwards [OF relay_ok(1) [OF assms(1)] _ relay_ok(2) [OF assms(1)] assms(2), of m ms d] show ?thesis
    using relay_goes_on [OF assms(1), of _ _ "[m]"] by (auto simp: sender_ok_def)
qed

lemma hears_goes_on:
  assumes "line_inv sock fd es st"
  shows "goes_on sock fd es (said st) (moves sock fd (Hears os) st)"
  using sender_listens [OF relay_ok(2) [OF assms], of os]
proof (elim disjE exE conjE)
  fix sd assume sd: "sender_turn sock [heard sock os] ((relay st)\<lparr>sender_queue := client_queue (client st)\<rparr>) = Inr sd"
    "sender_queue sd = sender_queue ((relay st)\<lparr>sender_queue := client_queue (client st)\<rparr>)"
    "taken sd = taken ((relay st)\<lparr>sender_queue := client_queue (client st)\<rparr>)" "registered (sender_epoll sd) sock \<noteq> None"
  from relay_goes_on [OF assms sd(1,4), of "[]"] relay_ok(1) [OF assms] sd(2,3) show ?thesis by (simp add: sender_ok_def)
qed (simp add: goes_on_def relay_turn_def)

lemma arrives_goes_on:
  assumes "line_inv sock fd es st"
  shows "goes_on sock fd es (said st) (moves sock fd (Arrives css) st)"
proof -
  let ?q = "msg_queue (serving st)"
  define cuts where "cuts = pieces css (in_flight sock st)"
  have ok: "epoll_set (serving st) fd \<noteq> None" "queue_inv ?q" "one_msg_size ?q = 1" "arrived st \<le> length (taken (relay st) sock)"
    using assms by (simp_all add: line_inv_def processes_ok_def)
  obtain new ws where w: "service (es @ new) (worker_at st) (stored_in st)" "concat ws = in_flight sock st"
      "lines_placed new (contents ?q) (ws @ contents (client_queue (client st))) (said st)"
    using assms unfolding line_inv_def by blast
  define ws' where "ws' = drop (length css) ws"
  have "map concat cuts = take (length css) ws"
    unfolding cuts_def w(2) [symmetric] by (rule pieces_messages [OF placed_wire [OF w(3)]])
  then have ws: "ws = map concat cuts @ ws'" by (simp add: ws'_def)
  then have flight: "in_flight sock st = concat (concat cuts) @ concat ws'" using w(2) by (metis concat_append concat_pieces)
  obtain ros where ros: "list_all2 append_parsed cuts ros"
      "lines_placed new (contents ?q @ map (\<lambda>r. [r]) (given ros)) (ws' @ contents (client_queue (client st))) (said st)"
    using placed_arrive [of new "contents ?q" cuts] w(3) ws by auto
  have whole: "\<forall>parts \<in> set cuts. whole_message parts" unfolding cuts_def by (rule pieces_whole)
  note R = read_rounds_appends [OF ok(1-3) _ whole ros(1), of "replicate BUFFER_SIZE nul"]
  show ?thesis
  proof (cases "length (contents ?q) + length (given ros) < size_q ?q")
    case False
    with R show ?thesis by (simp add: goes_on_def Read_fd_work_def cuts_def Let_def)
  next
    case True
    then obtain s' where s': "Read_fd_work fd (map Received (concat cuts) @ [WouldBlock]) (serving st) = Inr s'"
        "takes_in fd (given ros) (serving st) s'"
      using R by (auto simp: Read_fd_work_def)
    let ?n = "length (concat (concat cuts))"
    let ?st = "st\<lparr>serving := s', arrived := arrived st + ?n\<rparr>"
    have "drop ?n (in_flight sock st) = concat ws'" unfolding flight by simp
    then have "in_flight sock ?st = concat ws'" by (simp add: in_flight_def add.commute)
    moreover have "?n \<le> length (in_flight sock st)" unfolding flight by simp
    then have "processes_ok sock fd ?st"
      using assms s'(2) ok(4) by (auto simp: line_inv_def processes_ok_def takes_in_def in_flight_def)
    ultimately have "line_inv sock fd es ?st"
      unfolding line_inv_def using assms w(1) ros(2) s'(2)
      by (intro conjI exI [of _ new] exI [of _ ws']) (simp_all add: takes_in_def line_inv_def)
    with s'(1) show ?thesis by (simp add: goes_on_def cuts_def Let_def)
  qed
qed

lemma acknowledges_goes_on:
  assumes "line_inv sock fd es st"
  shows "goes_on sock fd es (said st) (moves sock fd (Acknowledges os) st)"
proof -
  have s: "epoll_set ((serving st)\<lparr>sends := os\<rparr>) fd \<noteq> None" "fd_result_map ((serving st)\<lparr>sends := os\<rparr>) fd = None"
    using assms by (simp_all add: line_inv_def processes_ok_def)
  from acknowledges [OF this] show ?thesis
  proof (elim disjE exE conjE)
    fix s' assume s': "Write_fd_work fd ((serving st)\<lparr>sends := os\<rparr>) = Inr s'" "msg_queue s' = msg_queue ((serving st)\<lparr>sends := os\<rparr>)"
      "epoll_set s' fd \<noteq> None" "fd_result_map s' = fd_result_map ((serving st)\<lparr>sends := os\<rparr>)"
    have "line_inv sock fd es (st\<lparr>serving := s'\<rparr>)"
      using assms s'(2-4) unfolding line_inv_def processes_ok_def in_flight_def by simp
    with s'(1) show ?thesis by (simp add: goes_on_def)
  qed (simp add: goes_on_def)
qed

text \<open>The processor takes the oldest request; it waits for one, and for a bulk to put its entry in.\<close>

lemma sound_request:
  assumes "sound_call l"
  shows "Valid (request_of l)" "req_type (request_of l) = T_Append" "acceptable (request_of l)"
    "entry_of (request_of l) = entry_of_call l"
proof -
  obtain k t b where l: "l = (k, t, b)" by (cases l)
  from request_acceptable [of k t b] assms show "Valid (request_of l)" "req_type (request_of l) = T_Append" "acceptable (request_of l)"
    by (simp_all add: l)
  show "entry_of (request_of l) = entry_of_call l" by (simp add: l entry_of_def line_of_request_def)
qed

lemma append_request_goes:
  assumes "service es pc dm" "Suc (length es) < 2 ^ 31" "sound_call l"
  shows "Process_req t0 t1 (request_of l) dm = Inl Waits
     \<or> (\<exists>dm'. Process_req t0 t1 (request_of l) dm = Inr dm' \<and> service (es @ [entry_of_call l]) pc dm')"
proof -
  let ?r = "request_of l"
  note r = sound_request [OF assms(3)]
  obtain logs where l: "dm_repr dm logs" "concat logs = es"
    using service_inv [OF assms(1)] by (auto simp: served_def)
  have e: "storable (entry_of ?r)" "length (line_of (entry_of ?r)) + 1 < BULKSIZE" using r by (simp_all add: acceptable_def)
  have "Append_log ?r dm = Inl Waits \<or> (\<exists>dm'. Append_log ?r dm = Inr (1, dm'))"
    using Append_log_log [OF l(1) r(1) e] assms(2) l(2) by (auto split: if_splits)
  then show ?thesis
  proof (elim disjE exE)
    fix dm' assume "Append_log ?r dm = Inr (1, dm')"
    then have p: "Process_req t0 t1 ?r dm = Inr dm'" using r by (simp add: Process_req_def Append_request_def)
    have "appended ?r = [entry_of_call l]" using r by (simp add: appended_def)
    with service.request [OF assms(1) r(3) assms(2) p] p show ?thesis by simp
  qed (use r in \<open>simp add: Process_req_def Append_request_def\<close>)
qed

lemma processor_turn_item:
  assumes "queue_inv q" "contents q = [req] # ms"
  shows "\<exists>q'. processor_turn t0 t1 (q, dm) = bindE (Process_req t0 t1 req dm) (\<lambda>dm'. Inr (q', dm'))
     \<and> queue_inv q' \<and> contents q' = ms \<and> size_q q' = size_q q \<and> one_msg_size q' = one_msg_size q"
proof -
  obtain n q' where q': "ReadAndDeleteFromMsgQueue q = Some (Suc n, Some [req], q')" "queue_inv q'" "contents q' = ms"
      "size_q q' = size_q q" "one_msg_size q' = one_msg_size q"
    using read_item [OF assms] by blast
  moreover have "\<not> Empty q" using assms by (simp add: Empty_contents)
  ultimately show ?thesis by (intro exI [of _ q']) (simp add: processor_turn_def)
qed

lemma processes_goes_on:
  assumes "line_inv sock fd es st" "length es + length (said st) < 2 ^ 31"
  shows "goes_on sock fd es (said st) (moves sock fd (Processes t0 t1) st)"
proof -
  let ?q = "msg_queue (serving st)"
  have ok: "queue_inv ?q" using assms(1) by (simp add: line_inv_def processes_ok_def)
  obtain new ws where w: "service (es @ new) (worker_at st) (stored_in st)" "concat ws = in_flight sock st"
      "lines_placed new (contents ?q) (ws @ contents (client_queue (client st))) (said st)"
    using assms(1) unfolding line_inv_def by blast
  show ?thesis
  proof (cases "contents ?q")
    case Nil
    then have "Empty ?q" using ok by (simp add: Empty_contents)
    then show ?thesis by (simp add: goes_on_def processor_turn_def)
  next
    case (Cons cell reqs)
    with w(3) placed_stored obtain l where l: "cell = [request_of l]" "sound_call l"
        "lines_placed (new @ [entry_of_call l]) reqs (ws @ contents (client_queue (client st))) (said st)"
      by metis
    obtain q' where q': "processor_turn t0 t1 (?q, stored_in st)
          = bindE (Process_req t0 t1 (request_of l) (stored_in st)) (\<lambda>dm'. Inr (q', dm'))"
        "queue_inv q'" "contents q' = reqs" "size_q q' = size_q ?q" "one_msg_size q' = one_msg_size ?q"
      using processor_turn_item [OF ok] Cons l(1) by blast
    have "Suc (length (es @ new)) < 2 ^ 31" using placed_length [OF w(3)] Cons assms(2) by simp
    from append_request_goes [OF w(1) this l(2)]
    consider "Process_req t0 t1 (request_of l) (stored_in st) = Inl Waits"
      | dm' where "Process_req t0 t1 (request_of l) (stored_in st) = Inr dm'"
          "service ((es @ new) @ [entry_of_call l]) (worker_at st) dm'" by blast
    then show ?thesis
    proof cases
      case 2
      let ?st = "st\<lparr>serving := (serving st)\<lparr>msg_queue := q'\<rparr>, stored_in := dm'\<rparr>"
      have "processes_ok sock fd ?st" using assms(1) q'(2,4,5) by (simp add: line_inv_def processes_ok_def)
      then have "line_inv sock fd es ?st"
        unfolding line_inv_def using assms(1) 2(2) w(2) l(3) q'(3)
        by (intro conjI exI [of _ "new @ [entry_of_call l]"] exI [of _ ws]) (simp_all add: in_flight_def line_inv_def)
      with 2(1) q'(1) show ?thesis by (simp add: goes_on_def)
    qed (use q'(1) in \<open>simp add: goes_on_def\<close>)
  qed
qed

lemma works_goes_on:
  assumes "line_inv sock fd es st"
  shows "goes_on sock fd es (said st) (moves sock fd Works st)"
proof -
  obtain new ws where w: "service (es @ new) (worker_at st) (stored_in st)" "concat ws = in_flight sock st"
      "lines_placed new (contents (msg_queue (serving st))) (ws @ contents (client_queue (client st))) (said st)"
    using assms unfolding line_inv_def by blast
  obtain pc' dm' where p: "worker_step (worker_at st) (stored_in st) = Inr (pc', dm')"
    using service_inv [OF w(1)] worker_step_served by blast
  have "processes_ok sock fd (st\<lparr>worker_at := pc', stored_in := dm'\<rparr>)" using assms by (simp add: line_inv_def processes_ok_def)
  then have "line_inv sock fd es (st\<lparr>worker_at := pc', stored_in := dm'\<rparr>)"
    unfolding line_inv_def using assms service.work [OF w(1) p] w(2,3)
    by (intro conjI exI [of _ new] exI [of _ ws]) (simp_all add: in_flight_def line_inv_def)
  with p show ?thesis by (simp add: goes_on_def)
qed

section \<open>Runs\<close>

fun line_logged :: "line_event \<Rightarrow> line_system \<Rightarrow> call list" where
  "line_logged (Logs printed) st = [call_made printed (client st)]"
| "line_logged ev st = []"

lemma moves_go_on:
  assumes "line_inv sock fd es st" "within ev" "length es + length (said st) < 2 ^ 31"
  shows "goes_on sock fd es (said st @ line_logged ev st) (moves sock fd ev st)"
  using assms logs_go_on sends_go_on hears_goes_on arrives_goes_on acknowledges_goes_on processes_goes_on works_goes_on
  by (cases ev) (simp_all del: moves.simps)

lemma line_move_goes:
  assumes "line_inv sock fd es st" "length es + length (said st) < 2 ^ 31" "within ev"
  shows "\<exists>st'. line_move sock fd ev st = Inr st' \<and> line_inv sock fd es st' \<and> (said st' = said st \<or> said st' = said st @ line_logged ev st)"
  using moves_go_on [OF assms(1,3,2)] assms(1) by (auto simp: line_move_def goes_on_def)

definition logs_line :: "line_event \<Rightarrow> bool" where
  "logs_line ev \<longleftrightarrow> (case ev of Logs body \<Rightarrow> True | _ \<Rightarrow> False)"

lemma line_run_goes:
  "line_inv sock fd es st \<Longrightarrow> length es + length (said st) + length (filter logs_line evs) < 2 ^ 31 \<Longrightarrow>
   \<forall>ev \<in> set evs. within ev \<Longrightarrow> \<exists>st'. line_run sock fd evs st = Inr st' \<and> line_inv sock fd es st'
     \<and> length (said st') \<le> length (said st) + length (filter logs_line evs)"
proof (induction evs arbitrary: st)
  case (Cons ev evs)
  obtain st1 where st1: "line_move sock fd ev st = Inr st1" "line_inv sock fd es st1"
      "said st1 = said st \<or> said st1 = said st @ line_logged ev st"
    using line_move_goes [OF Cons.prems(1), of ev] Cons.prems(2,3) by fastforce
  have len: "length (said st1) \<le> length (said st) + (if logs_line ev then 1 else 0)"
    using st1(3) by (cases ev) (auto simp: logs_line_def)
  then have "length es + length (said st1) + length (filter logs_line evs) < 2 ^ 31" using Cons.prems(2) by (auto split: if_splits)
  from Cons.IH [OF st1(2) this] Cons.prems(3) st1(1) len show ?case by (auto split: if_splits)
qed simp

lemma inv_accounts:
  assumes "line_inv sock fd es st"
  shows "\<exists>logs l1 l2 l3. dm_repr (stored_in st) logs \<and> said st = l1 @ l2 @ l3
     \<and> concat logs = es @ map entry_of_call (filter fits_message l1)
     \<and> contents (msg_queue (serving st)) = map (\<lambda>l. [request_of l]) (filter fits_message l2)
     \<and> length l3 = length (in_flight sock st) div BUFFER_SIZE + length (contents (client_queue (client st)))"
proof -
  obtain new ws where w: "service (es @ new) (worker_at st) (stored_in st)" "concat ws = in_flight sock st"
      "lines_placed new (contents (msg_queue (serving st))) (ws @ contents (client_queue (client st))) (said st)"
    using assms unfolding line_inv_def by blast
  have "length (in_flight sock st) div BUFFER_SIZE = length ws"
    using concat_even [OF placed_wire [OF w(3)]] w(2) by (simp add: BUFFER_SIZE_def)
  moreover obtain l1 l2 l3 where "said st = l1 @ l2 @ l3" "new = map entry_of_call (filter fits_message l1)"
      "contents (msg_queue (serving st)) = map (\<lambda>l. [request_of l]) (filter fits_message l2)"
      "list_all2 carried (ws @ contents (client_queue (client st))) l3"
    using w(3) unfolding lines_placed_def by blast
  ultimately show ?thesis
    using service_inv [OF w(1)] list_all2_lengthD by (fastforce simp: served_def)
qed

section \<open>The lines get through\<close>

definition advances :: "int \<Rightarrow> int \<Rightarrow> log_entry list \<Rightarrow> line_system \<Rightarrow> line_event list \<Rightarrow> line_system \<Rightarrow> bool" where
  "advances sock fd es st evs st' \<longleftrightarrow> filter logs_line evs = [] \<and> (\<forall>ev \<in> set evs. within ev) \<and> line_run sock fd evs st = Inr st' \<and> line_inv sock fd es st'
     \<and> said st' = said st"

lemma moved:
  assumes "line_inv sock fd es st" "length es + length (said st) < 2 ^ 31" "\<not> logs_line ev" "within ev"
    and "moves sock fd ev st = Inr st'"
  shows "advances sock fd es st [ev] st'"
proof -
  have "line_logged ev st = []" using assms(3) by (cases ev) (simp_all add: logs_line_def)
  with moves_go_on [OF assms(1,4,2)] assms(3,4,5) show ?thesis
    by (simp add: goes_on_def line_move_def advances_def)
qed

lemma line_run_append: "line_run sock fd (evs @ evs') st = bindE (line_run sock fd evs st) (line_run sock fd evs')"
proof (induction evs arbitrary: st)
  case (Cons ev evs)
  then show ?case by (cases "line_move sock fd ev st") simp_all
qed simp

lemma works_run:
  "worker_steps n (worker_at st, stored_in st) = Inr (pc, dm) \<Longrightarrow>
   line_run sock fd (replicate n Works) st = Inr (st\<lparr>worker_at := pc, stored_in := dm\<rparr>)"
proof (induction n arbitrary: st)
  case (Suc n)
  then obtain pc1 dm1 where s: "worker_step (worker_at st) (stored_in st) = Inr (pc1, dm1)" "worker_steps n (pc1, dm1) = Inr (pc, dm)"
    by (auto simp: bindE_eq_Inr)
  with Suc.IH [of "st\<lparr>worker_at := pc1, stored_in := dm1\<rparr>"] show ?case by (simp add: line_move_def)
qed simp

text \<open>What is left to do: a message of the client has three moves before it, one in flight two, a request one.\<close>

definition moves_left :: "int \<Rightarrow> line_system \<Rightarrow> nat" where
  "moves_left sock st = length (contents (msg_queue (serving st))) + 2 * (length (in_flight sock st) div BUFFER_SIZE)
     + 3 * length (contents (client_queue (client st)))"

lemma advances_trans: "advances sock fd es st evs st1 \<Longrightarrow> advances sock fd es st1 evs' st2 \<Longrightarrow> advances sock fd es st (evs @ evs') st2"
  by (auto simp: advances_def line_run_append)

lemma request_advances:
  assumes i: "line_inv sock fd es st" "length es + length (said st) < 2 ^ 31" and c: "contents (msg_queue (serving st)) \<noteq> []"
  shows "\<exists>evs st'. advances sock fd es st evs st' \<and> moves_left sock st' < moves_left sock st"
proof -
  let ?q = "msg_queue (serving st)"
  have ok: "queue_inv ?q" using i(1) by (simp add: line_inv_def processes_ok_def)
  obtain new ws where w: "service (es @ new) (worker_at st) (stored_in st)"
      "lines_placed new (contents ?q) (ws @ contents (client_queue (client st))) (said st)"
    using i(1) unfolding line_inv_def by blast
  obtain cell reqs where cell: "contents ?q = cell # reqs" using c by (cases "contents ?q") auto
  with w(2) placed_stored obtain l where l: "cell = [request_of l]" "sound_call l" by metis
  note r = sound_request(1-3) [OF l(2)]
  have "Suc (length (es @ new)) < 2 ^ 31" using placed_length [OF w(2)] cell i(2) by simp
  from append_after_work [OF w(1) r this, of 0 0] obtain n pc' dm' dm'' where n: "worker_steps n (worker_at st, stored_in st) = Inr (pc', dm')"
      "Process_req 0 0 (request_of l) dm' = Inr dm''" by blast
  let ?st = "st\<lparr>worker_at := pc', stored_in := dm'\<rparr>"
  have run: "line_run sock fd (replicate n Works) st = Inr ?st" by (rule works_run [OF n(1)])
  have works: "filter logs_line (replicate n Works) = []" "\<forall>ev \<in> set (replicate n Works). within ev" by (simp_all add: logs_line_def)
  have "length es + length (said st) + length (filter logs_line (replicate n Works)) < 2 ^ 31" using i(2) by (simp add: works(1))
  from line_run_goes [OF i(1) this works(2)] run have 1: "line_inv sock fd es ?st" by simp
  then have a: "advances sock fd es st (replicate n Works) ?st" using run works by (simp add: advances_def)
  obtain q' where q': "processor_turn 0 0 (?q, dm') = Inr (q', dm'')" "contents q' = reqs"
    using processor_turn_item [OF ok, of "request_of l" reqs 0 0 dm'] cell l(1) n(2) by auto
  let ?st' = "?st\<lparr>serving := (serving st)\<lparr>msg_queue := q'\<rparr>, stored_in := dm''\<rparr>"
  have "moves sock fd (Processes 0 0) ?st = Inr ?st'" using q'(1) by simp
  from moved [OF 1 _ _ _ this] i(2) have "advances sock fd es ?st [Processes 0 0] ?st'"
    by (simp add: logs_line_def)
  moreover have "moves_left sock ?st' < moves_left sock st" using cell q'(2) by (simp add: moves_left_def in_flight_def)
  ultimately show ?thesis using advances_trans [OF a] by blast
qed

lemma flight_advances:
  assumes i: "line_inv sock fd es st" "length es + length (said st) < 2 ^ 31" and c: "contents (msg_queue (serving st)) = []"
    and fl: "in_flight sock st \<noteq> []"
  shows "\<exists>evs st'. advances sock fd es st evs st' \<and> moves_left sock st' < moves_left sock st"
proof -
  let ?q = "msg_queue (serving st)"
  have ok: "epoll_set (serving st) fd \<noteq> None" "queue_inv ?q" "one_msg_size ?q = 1" "1 < size_q ?q"
    using i(1) by (simp_all add: line_inv_def processes_ok_def)
  obtain new ws where w: "concat ws = in_flight sock st"
      "lines_placed new (contents ?q) (ws @ contents (client_queue (client st))) (said st)"
    using i(1) unfolding line_inv_def by blast
  obtain m ws' where m: "ws = m # ws'" using w(1) fl by (cases ws) auto
  have "lines_placed new (contents ?q) (m # ws' @ contents (client_queue (client st))) (said st)" using w(2) m by simp
  from placed_arrives [OF this] obtain ro where
    r: "length m = BUFFER_SIZE" "hd m \<noteq> nul" "ParseReq m = Inr ro" "\<forall>r. ro = Some r \<longrightarrow> req_type r = T_Append" by blast
  then have p: "whole_message [m]" "append_parsed [m] ro" by (auto simp: whole_message_def append_parsed_def BUFFER_SIZE_def)
  have one: "length (given [ro]) \<le> 1" by (cases ro) simp_all
  then have "length (contents ?q) + length (given [ro]) < size_q ?q" using c ok(4) by simp
  with read_rounds_appends [OF ok(1-3), of "replicate BUFFER_SIZE nul" "[[m]]" "[ro]"] p obtain s' where
    s': "Read_fd_work fd [Received m, WouldBlock] (serving st) = Inr s'" "takes_in fd (given [ro]) (serving st) s'"
    by (auto simp: Read_fd_work_def)
  have flight: "in_flight sock st = m @ concat ws'" using w(1) m by simp
  then have "take BUFFER_SIZE (in_flight sock st) = m" using r(1) by simp
  moreover obtain c1 m1 where "m = c1 # m1" using r(1) by (cases m) (simp_all add: BUFFER_SIZE_def)
  ultimately have pcs: "pieces [[]] (in_flight sock st) = [[m]]" using r(1) flight by simp
  let ?st' = "st\<lparr>serving := s', arrived := arrived st + BUFFER_SIZE\<rparr>"
  have "moves sock fd (Arrives [[]]) st = Inr ?st'" using s'(1) r(1) by (simp only: moves.simps pcs Let_def) simp
  from moved [OF i _ _ this] have "advances sock fd es st [Arrives [[]]] ?st'" by (simp add: logs_line_def)
  moreover have "drop BUFFER_SIZE (in_flight sock st) = concat ws'" using flight r(1) by simp
  then have "in_flight sock ?st' = concat ws'" by (simp add: in_flight_def add.commute)
  then have "length (in_flight sock st) div BUFFER_SIZE = Suc (length (in_flight sock ?st') div BUFFER_SIZE)"
    using flight r(1) by (simp add: BUFFER_SIZE_def)
  then have "moves_left sock ?st' < moves_left sock st" using c s'(2) one by (simp add: moves_left_def takes_in_def)
  ultimately show ?thesis by blast
qed

lemma message_advances:
  assumes i: "line_inv sock fd es st" "length es + length (said st) < 2 ^ 31" and fl: "in_flight sock st = []"
    and c: "contents (client_queue (client st)) = m # ms"
  shows "\<exists>evs st'. advances sock fd es st evs st' \<and> moves_left sock st' < moves_left sock st"
proof -
  let ?sd = "(relay st)\<lparr>sender_queue := client_queue (client st)\<rparr>"
  obtain sd where sd: "sender_turn sock [writable sock (replicate 0 SendLater @ [SentUpTo CLIENT_STR_LEN])] ?sd = Inr sd"
      "contents (sender_queue sd) = ms" "taken sd sock = taken (relay st) sock @ m"
    using sender_forwards [OF relay_ok(1) [OF i(1)] _ relay_ok(2) [OF i(1)] order_refl, of m ms 0] c by auto
  let ?st' = "st\<lparr>relay := sd, client := (client st)\<lparr>client_queue := sender_queue sd\<rparr>\<rparr>"
  have "moves sock fd (Sends 0 CLIENT_STR_LEN) st = Inr ?st'" using sd(1) by (simp add: relay_turn_def)
  from moved [OF i _ _ this] have a: "advances sock fd es st [Sends 0 CLIENT_STR_LEN] ?st'" by (simp add: logs_line_def)
  have "arrived st \<le> length (taken (relay st) sock)" using i(1) by (simp add: line_inv_def processes_ok_def)
  then have "in_flight sock ?st' = m" using fl sd(3) by (simp add: in_flight_def)
  moreover have "length m = BUFFER_SIZE"
    using i(1) c contents_cells [of "client_queue (client st)" m]
    by (simp add: line_inv_def processes_ok_def client_ok_def BUFFER_SIZE_def CLIENT_STR_LEN_def)
  ultimately have "moves_left sock ?st' < moves_left sock st"
    using c sd(2) fl by (simp add: moves_left_def BUFFER_SIZE_def)
  with a show ?thesis by blast
qed

lemma lines_drain:
  "line_inv sock fd es st \<Longrightarrow> length es + length (said st) < 2 ^ 31 \<Longrightarrow>
   \<exists>evs st'. advances sock fd es st evs st' \<and> in_transit sock st' = 0"
proof (induction "moves_left sock st" arbitrary: st rule: less_induct)
  case less
  show ?case
  proof (cases "contents (msg_queue (serving st)) = [] \<and> in_flight sock st = [] \<and> contents (client_queue (client st)) = []")
    case True
    with less(2) show ?thesis by (intro exI [of _ "[]"] exI [of _ st]) (simp add: advances_def in_transit_def)
  next
    case False
    then obtain evs st1 where a: "advances sock fd es st evs st1" "moves_left sock st1 < moves_left sock st"
      using request_advances [OF less(2,3)] flight_advances [OF less(2,3)] message_advances [OF less(2,3)]
      by (metis neq_Nil_conv)
    then have "line_inv sock fd es st1" "length es + length (said st1) < 2 ^ 31" using less(3) by (simp_all add: advances_def)
    from less(1) [OF a(2) this] advances_trans [OF a(1)] show ?thesis by blast
  qed
qed

section \<open>Properties\<close>

text \<open>
  C1. Lines stay in order, and none is lost but those that fit no message.  Take a system at rest: the
  client's key table holds thirty non-empty keys that need no escape (the one its initialisation is meant to make
  does, \<open>table_keys_ok\<close>; as written, initialisation reads past an array, \<open>init_keys_overruns\<close>), its counter
  is between 2 and \<open>2 ^ 63\<close>, the queues are in order, the connection is set up at both ends and nothing is on
  the way.  Let the client, the sender, the connection, the server, the processor and the persistence
  worker go on in any order, with any texts whose white space separates words (no carriage return, vertical
  tab or form feed), the connection taking whole messages and giving them whole, in pieces of any size; a
  call that would wait is not yet made, and fewer than \<open>2 ^ 31\<close> lines are logged in all.  Then nothing is undefined and no process ends.  The calls made,
  \<open>said\<close>, are in three parts: the log has grown by exactly the entries of the first part - key, time and text of each
  call, once, in the order of the calls -, the server's queue holds the requests of the second, and for
  each call of the third there is one message in the client's queue or on the connection; of the first two parts
  only the lines that fit a message are there, the others are gone without a trace.
\<close>

theorem lines_in_order:
  assumes "at_rest sock fd es st" and "\<forall>ev \<in> set evs. within ev" and "length es + length (filter logs_line evs) < 2 ^ 31"
  shows "\<exists>st' logs l1 l2 l3. line_run sock fd evs st = Inr st' \<and> dm_repr (stored_in st') logs \<and> said st' = l1 @ l2 @ l3
     \<and> concat logs = es @ map entry_of_call (filter fits_message l1)
     \<and> contents (msg_queue (serving st')) = map (\<lambda>l. [request_of l]) (filter fits_message l2)
     \<and> length l3 = length (in_flight sock st') div BUFFER_SIZE + length (contents (client_queue (client st')))"
proof -
  have "length es + length (said st) + length (filter logs_line evs) < 2 ^ 31" using assms(1,3) by (simp add: at_rest_def)
  from line_run_goes [OF rest_inv [OF assms(1)] this assms(2)] obtain st' where "line_run sock fd evs st = Inr st'" "line_inv sock fd es st'" by blast
  with inv_accounts [OF this(2)] show ?thesis by blast
qed

definition sample_system :: "data_manager \<Rightarrow> line_system" where
  "sample_system dm = \<lparr>client = ready_service, relay = loaded_sender, arrived = 0, serving = listening_server,
     worker_at = Woken, stored_in = dm, said = []\<rparr>"

lemma sample_at_rest: "\<exists>dm. sample_store = Inr dm \<and> at_rest 5 5 sample_log (sample_system dm)"
proof -
  obtain dm where dm: "sample_store = Inr dm" "service sample_log Woken dm" using sample_service by blast
  have "fd_result_map listening_server 5 = None" "1 < size_q (msg_queue listening_server)"
    by (simp_all add: listening_server_def new_log_server_def new_MsgQueue_def Q_LEN_def)
  moreover have "clock_within 0 ready_service" by (simp add: clock_within_def ready_service_def new_log_service_def)
  ultimately have "at_rest 5 5 sample_log (sample_system dm)"
    using dm(2) ready_service_ok ready_service_loggable(1) listening_server_ok watching_sender(1,2)
    by (simp add: at_rest_def processes_ok_def sample_system_def in_flight_def)
  with dm(1) show ?thesis by blast
qed

text \<open>A short line and one of 1022 characters that fits no message; the first is on its way when the second is logged.\<close>

definition two_lines :: "line_event list" where
  "two_lines = [Logs ''Blue!'', Sends 1 4096, Works, Logs (replicate 1022 CHR ''a''), Hears [WouldBlock], Sends 0 4096, Works]"

lemma two_lines_within: "\<forall>ev \<in> set two_lines. within ev" "length sample_log + length (filter logs_line two_lines) < 2 ^ 31"
proof -
  have "list_all (\<lambda>x. c_isspace x \<longrightarrow> is_delim x) (printed_text (replicate 1022 CHR ''a''))"
    by (auto simp: printed_text_def cstr_def list_all_iff c_isspace_def dest!: set_takeWhileD in_set_takeD)
  moreover have "list_all (\<lambda>x. c_isspace x \<longrightarrow> is_delim x) (printed_text ''Blue!'')"
    by (auto simp: printed_text_def cstr_def list_all_iff c_isspace_def dest!: set_takeWhileD in_set_takeD)
  ultimately show "\<forall>ev \<in> set two_lines. within ev" by (simp add: two_lines_def CLIENT_STR_LEN_def)
  show "length sample_log + length (filter logs_line two_lines) < 2 ^ 31"
    by (simp add: sample_log_def two_lines_def logs_line_def)
qed

theorem lines_in_order_witness:
  "\<exists>dm st' logs l1 l2 l3. sample_store = Inr dm \<and> line_run 5 5 two_lines (sample_system dm) = Inr st'
     \<and> dm_repr (stored_in st') logs \<and> said st' = l1 @ l2 @ l3
     \<and> concat logs = sample_log @ map entry_of_call (filter fits_message l1)
     \<and> length l3 = length (in_flight 5 st') div BUFFER_SIZE + length (contents (client_queue (client st')))"
proof -
  obtain dm where dm: "sample_store = Inr dm" "at_rest 5 5 sample_log (sample_system dm)" using sample_at_rest by blast
  from lines_in_order [OF dm(2) two_lines_within] dm(1) show ?thesis by blast
qed

text \<open>
  C2. Lines get through.  From a system at rest, after any run of the kind \<open>lines_in_order\<close> describes, without a
  further call of the client and in finitely many moves nothing is on the way any more and the log
  is what it was, with the entry of every call made whose line fits a message, in the order of the
  calls.  No queue is left blocked behind another, however full they are and wherever the worker stands.
  The lines that fit no message are lost.
\<close>

theorem lines_get_through:
  assumes "at_rest sock fd es st" and "\<forall>ev \<in> set evs. within ev" and "length es + length (filter logs_line evs) < 2 ^ 31"
    and "line_run sock fd evs st = Inr st1"
  shows "\<exists>evs' st2 logs. filter logs_line evs' = [] \<and> (\<forall>ev \<in> set evs'. within ev) \<and> line_run sock fd evs' st1 = Inr st2
     \<and> in_transit sock st2 = 0 \<and> said st2 = said st1 \<and> dm_repr (stored_in st2) logs
     \<and> concat logs = es @ map entry_of_call (filter fits_message (said st1))"
proof -
  have "length es + length (said st) + length (filter logs_line evs) < 2 ^ 31" "said st = []"
    using assms(1,3) by (simp_all add: at_rest_def)
  with line_run_goes [OF rest_inv [OF assms(1)] _ assms(2)] assms(3,4)
  have 1: "line_inv sock fd es st1" "length es + length (said st1) < 2 ^ 31" by fastforce+
  from lines_drain [OF this] obtain evs' st2 where 2: "advances sock fd es st1 evs' st2" "in_transit sock st2 = 0" by blast
  then have "line_inv sock fd es st2" by (simp add: advances_def)
  from inv_accounts [OF this] obtain logs l1 l2 l3 where a: "dm_repr (stored_in st2) logs" "said st2 = l1 @ l2 @ l3"
    "concat logs = es @ map entry_of_call (filter fits_message l1)"
    "contents (msg_queue (serving st2)) = map (\<lambda>l. [request_of l]) (filter fits_message l2)"
    "length l3 = length (in_flight sock st2) div BUFFER_SIZE + length (contents (client_queue (client st2)))" by blast
  have "filter fits_message l2 = []" "l3 = []" using 2(2) a(4,5) by (simp_all add: in_transit_def)
  then have "filter fits_message (said st2) = filter fits_message l1" using a(2) by simp
  with a(1,3) 2 show ?thesis by (auto simp: advances_def)
qed

lemma loggable_fits:
  assumes "client_ok c" "loggable c body"
  shows "printed_text body = body" "fits_message (call_made body c)"
proof -
  show body: "printed_text body = body" using assms(2) by (simp add: printed_text_def loggable_def cstr_nul_free)
  have "drawn_key c \<in> set (key_list c)" using Get_key_ok [OF assms(1)] by blast
  with assms(2) body show "fits_message (call_made body c)" by (simp add: call_made_def loggable_def)
qed

abbreviation long_line :: string where
  "long_line \<equiv> replicate 1022 CHR ''a''"

lemma long_line_printed: "printed_text long_line = long_line"
  by (simp add: printed_text_def CLIENT_STR_LEN_def cstr_nul_free nul_free_def nul_def)

lemma long_line_lost: "\<not> fits_message (k, t, long_line)"
  using length_url_encode_ge [of long_line] by (simp add: line_fits_def append_params_def CLIENT_STR_LEN_def)

lemma two_lines_logged:
  "\<exists>st1 k t. line_run 5 5 [Logs ''Blue!'', Logs long_line] (sample_system dm) = Inr st1
     \<and> said st1 = [(drawn_key ready_service, 1, ''Blue!''), (k, t, long_line)]"
proof -
  obtain c1 where c1: "cody_log ''Blue!'' ready_service = Inr c1" "line_went ready_service (cstr (take (CLIENT_STR_LEN - 2) ''Blue!'')) c1"
    using cody_log_sent [OF ready_service_ok] by blast
  then have c: "client_ok c1" "key_counter c1 = key_counter ready_service + 1" "size_q (client_queue c1) = size_q (client_queue ready_service)"
    "length (contents (client_queue c1)) = Suc (length (contents (client_queue ready_service)))"
    by (auto simp: line_went_def)
  have "size_q (client_queue ready_service) = CLIENT_Q_LEN" by (simp add: ready_service_def new_log_service_def new_MsgQueue_def)
  then have "\<not> Full (client_queue c1)"
    using c(1,3,4) ready_service_loggable(1) by (simp add: client_ok_def Full_iff contents_def slot_order_def CLIENT_Q_LEN_def)
  moreover have "clock_ok c1" using c(2) by (simp add: clock_ok_def ready_service_def new_log_service_def)
  ultimately obtain c2 where "cody_log long_line c1 = Inr c2" using cody_log_sent [OF c(1)] by blast
  moreover have "call_made ''Blue!'' ready_service = (drawn_key ready_service, 1, ''Blue!'')"
    using loggable_fits(1) [OF ready_service_ok(1) ready_service_loggable(2)]
    by (simp add: call_made_def stamp_def) (simp add: ready_service_def new_log_service_def)
  ultimately show ?thesis using c1(1)
    by (simp add: line_move_def sample_system_def call_made_def [of long_line] long_line_printed)
qed

theorem lines_get_through_witness:
  "\<exists>dm st1 evs' st2 logs. sample_store = Inr dm \<and> line_run 5 5 [Logs ''Blue!'', Logs long_line] (sample_system dm) = Inr st1
     \<and> length (said st1) = 2 \<and> line_run 5 5 evs' st1 = Inr st2 \<and> in_transit 5 st2 = 0 \<and> dm_repr (stored_in st2) logs
     \<and> concat logs = sample_log @ [\<lparr>le_key = take (KEY_LEN - 1) (drawn_key ready_service), le_time = 1, le_content = ''Blue!''\<rparr>]"
proof -
  let ?evs = "[Logs ''Blue!'', Logs long_line]"
  obtain dm where dm: "sample_store = Inr dm" "at_rest 5 5 sample_log (sample_system dm)" using sample_at_rest by blast
  obtain st1 k t where st1: "line_run 5 5 ?evs (sample_system dm) = Inr st1"
      "said st1 = [(drawn_key ready_service, 1, ''Blue!''), (k, t, long_line)]"
    using two_lines_logged by blast
  have "fits_message (drawn_key ready_service, 1, ''Blue!'')"
    using loggable_fits [OF ready_service_ok(1) ready_service_loggable(2)]
    by (simp add: call_made_def stamp_def) (simp add: ready_service_def new_log_service_def)
  then have fit: "filter fits_message (said st1) = [(drawn_key ready_service, 1, ''Blue!'')]"
    using long_line_lost by (simp add: st1(2) del: fits_message.simps)
  have w: "\<forall>ev \<in> set ?evs. within ev" using two_lines_within(1) by (simp add: two_lines_def)
  have "length sample_log + length (filter logs_line ?evs) < 2 ^ 31" by (simp add: sample_log_def logs_line_def)
  from lines_get_through [OF dm(2) w this st1(1)] obtain evs' st2 logs where r: "line_run 5 5 evs' st1 = Inr st2"
      "in_transit 5 st2 = 0" "dm_repr (stored_in st2) logs"
      "concat logs = sample_log @ [\<lparr>le_key = take (KEY_LEN - 1) (drawn_key ready_service), le_time = 1, le_content = ''Blue!''\<rparr>]"
    unfolding fit by auto
  have "length (said st1) = 2" by (simp add: st1(2))
  with r dm(1) st1(1) show ?thesis by blast
qed

end
