(* ===== verification/Result_Routing.thy ===== *)
theory Result_Routing
  imports Log_Server
begin

text \<open>
  How an answer crosses from the processor to the server: the processor writes the blocks into the
  result queue one by one, trying again while it is full; the server, in the turns of its loop, reads
  at most \<^verbatim>\<open>MAX_QUERY_RESULT_READ\<close> + 1 of them at a time and files them under the connection.  The two
  run in any order.
\<close>

section \<open>Writing and reading in any order\<close>

inductive routing :: "QueryResult list \<Rightarrow> log_server \<Rightarrow> QueryResult list \<Rightarrow> log_server \<Rightarrow> bool" for blocks s0 where
  start: "routing blocks s0 blocks s0"
| put: "routing blocks s0 (r # pending) s \<Longrightarrow> send [r] (result_queue s) = (ok, q) \<Longrightarrow>
    routing blocks s0 (if ok then pending else r # pending) (s\<lparr>result_queue := q\<rparr>)"
| turn: "routing blocks s0 pending s \<Longrightarrow> server_turn [] s = Inr s' \<Longrightarrow> routing blocks s0 pending s'"

text \<open>Where an answer may start: nothing of the client's is in the queue or on file.\<close>

definition answer_ready :: "int \<Rightarrow> int \<Rightarrow> log_server \<Rightarrow> bool" where
  "answer_ready c fd s \<longleftrightarrow> queue_inv (result_queue s) \<and> one_msg_size (result_queue s) = 1 \<and> 1 < size_q (result_queue s)
     \<and> contents (result_queue s) = [] \<and> client_id_fd_map s c = Some fd \<and> fd \<noteq> 0 \<and> fd_result_map s fd = None \<and> epoll_set s fd \<noteq> None"

definition answer_blocks_ok :: "int \<Rightarrow> QueryResult list \<Rightarrow> bool" where
  "answer_blocks_ok c rs \<longleftrightarrow> rs \<noteq> [] \<and> list_all (\<lambda>r. qr_client_id r = c) rs
     \<and> list_all (\<lambda>r. \<not> qr_finish r) (butlast rs) \<and> qr_finish (last rs)"

text \<open>What the server has of the answer, once some blocks are read; the last one switches the connection to writing.\<close>

definition filed :: "int \<Rightarrow> QueryResult list \<Rightarrow> bool \<Rightarrow> QueryResult MsgQueue \<Rightarrow> log_server \<Rightarrow> log_server" where
  "filed fd rs all q s = s\<lparr>result_queue := q, fd_result_map := (if rs = [] then fd_result_map s else (fd_result_map s)(fd \<mapsto> rs)),
     epoll_obj := (if all then (epoll_obj s)\<lparr>registered := (epoll_set s)(fd \<mapsto> WRITE_MODE)\<rparr> else epoll_obj s)\<rparr>"

definition routed :: "int \<Rightarrow> QueryResult list \<Rightarrow> log_server \<Rightarrow> QueryResult list \<Rightarrow> log_server \<Rightarrow> bool" where
  "routed fd blocks s0 pending s \<longleftrightarrow> (\<exists>got queued q. blocks = got @ queued @ pending \<and> queue_inv q
     \<and> one_msg_size q = 1 \<and> size_q q = size_q (result_queue s0) \<and> contents q = map (\<lambda>r. [r]) queued
     \<and> s = filed fd got (queued @ pending = []) q s0)"

lemma routed_start: "answer_ready c fd s0 \<Longrightarrow> blocks \<noteq> [] \<Longrightarrow> routed fd blocks s0 blocks s0"
  by (auto simp: routed_def filed_def answer_ready_def intro!: exI [of _ "[]"])

lemma finish_marks:
  assumes "answer_blocks_ok c (got @ rs @ rest)"
  shows "map (\<lambda>_. fd) (filter qr_finish rs) = (if rs \<noteq> [] \<and> rest = [] then [fd] else [])"
proof (cases "rs = [] \<or> rest \<noteq> []")
  case True
  then have "list_all (\<lambda>r. \<not> qr_finish r) rs"
    using assms by (auto simp: answer_blocks_ok_def butlast_append)
  with True show ?thesis by (auto simp: list_all_iff filter_empty_conv)
next
  case False
  then obtain body fin where rs: "rs = body @ [fin]" "rest = []" by (metis rev_exhaust)
  with assms have "list_all (\<lambda>r. \<not> qr_finish r) body" "qr_finish fin"
    by (simp_all add: answer_blocks_ok_def butlast_append)
  with rs show ?thesis by (auto simp: list_all_iff filter_empty_conv)
qed

text \<open>A turn reads the next blocks, and never fails.\<close>

lemma routed_turn:
  assumes r: "routed fd blocks s0 pending s" and a: "answer_ready c fd s0" "answer_blocks_ok c blocks"
  shows "\<exists>s'. server_turn [] s = Inr s' \<and> routed fd blocks s0 pending s'
     \<and> length (contents (result_queue s')) = length (contents (result_queue s)) - Suc MAX_QUERY_RESULT_READ"
proof -
  obtain got queued q where g: "blocks = got @ queued @ pending" "queue_inv q" "one_msg_size q = 1"
      "size_q q = size_q (result_queue s0)" "contents q = map (\<lambda>r. [r]) queued" "s = filed fd got (queued @ pending = []) q s0"
    using r by (auto simp: routed_def)
  let ?k = "MAX_QUERY_RESULT_READ + 1"
  define rs where "rs = take ?k queued"
  define rest where "rest = drop ?k queued"
  have split: "queued = rs @ rest" "length rs \<le> ?k" "rest = [] \<or> length rs = ?k"
    by (auto simp: rs_def rest_def)
  have s: "result_queue s = q" "client_id_fd_map s c = Some fd" "fd \<noteq> 0"
    using a(1) g(6) by (simp_all add: filed_def answer_ready_def)
  have c: "list_all (\<lambda>r. qr_client_id r = c) rs" using a(2) g(1) split(1) by (simp add: answer_blocks_ok_def)
  obtain q' where q': "read_results ?k 0 [] s = Inr (length rs, map (\<lambda>_. fd) (filter qr_finish rs),
        s\<lparr>result_queue := q', fd_result_map := file_blocks fd rs s\<rparr>)"
      "queue_inv q'" "contents q' = map (\<lambda>r. [r]) rest" "size_q q' = size_q q" "one_msg_size q' = one_msg_size q"
    using read_results_prefix [of s rs rest ?k c fd 0 "[]"] g(2,5) s split c by auto
  have marks: "map (\<lambda>_. fd) (filter qr_finish rs) = (if rs \<noteq> [] \<and> rest @ pending = [] then [fd] else [])"
    using a(2) unfolding g(1) split(1) append_assoc by (rule finish_marks)
  have on_file: "file_blocks fd rs s = (if got @ rs = [] then fd_result_map s0 else (fd_result_map s0)(fd \<mapsto> got @ rs))"
    using a(1) g(6) by (auto simp: file_blocks_def filed_def waiting_def answer_ready_def)
  let ?s' = "filed fd (got @ rs) (rest @ pending = []) q' s0"
  have reg: "epoll_set s fd \<noteq> None" using a(1) g(6) by (simp add: filed_def answer_ready_def)
  have "server_turn [] s = Inr ?s'"
  proof (cases "rs = []")
    case True
    with q'(1) marks on_file g(6) split(1) show ?thesis
      by (simp add: server_turn_def Read_result_queue_def filed_def)
  next
    case False
    then have "\<not> queued @ pending = []" using split(1) by auto
    with False q'(1) marks on_file g(6) reg show ?thesis
      by (auto simp: server_turn_def Read_result_queue_def filed_def on_epoll_def epoll_defs)
  qed
  moreover have "routed fd blocks s0 pending ?s'"
    unfolding routed_def using g(1-4) split(1) q'(2-5) by (intro exI [of _ "got @ rs"] exI [of _ rest] exI [of _ q']) auto
  moreover have "length (contents (result_queue ?s')) = length (contents (result_queue s)) - Suc MAX_QUERY_RESULT_READ"
    using q'(3) g(5) s(1) by (simp add: filed_def rest_def)
  ultimately show ?thesis by blast
qed

lemma routed_put:
  assumes r: "routed fd blocks s0 (b # pending) s"
  shows "\<exists>ok q. send [b] (result_queue s) = (ok, q) \<and> ok = (\<not> Full (result_queue s))
     \<and> routed fd blocks s0 (if ok then pending else b # pending) (s\<lparr>result_queue := q\<rparr>)
     \<and> length (contents q) = length (contents (result_queue s)) + (if ok then 1 else 0)"
proof -
  obtain got queued q where g: "blocks = got @ queued @ b # pending" "queue_inv q" "one_msg_size q = 1"
      "size_q q = size_q (result_queue s0)" "contents q = map (\<lambda>r. [r]) queued" "s = filed fd got False q s0"
    using r by (auto simp: routed_def)
  have s: "result_queue s = q" using g(6) by (simp add: filed_def)
  have again: "s\<lparr>result_queue := q'\<rparr> = filed fd got False q' s0" for q' using g(6) by (simp add: filed_def)
  show ?thesis
  proof (cases "Full q")
    case True
    obtain q' where q': "send [b] q = (False, q')" "queue_inv q'" "contents q' = contents q" "size_q q' = size_q q" "one_msg_size q' = one_msg_size q"
      using send_full [OF g(2) True, of "[b]"] by blast
    have "routed fd blocks s0 (b # pending) (s\<lparr>result_queue := q'\<rparr>)"
      unfolding routed_def again using g(1,3-5) q' by (intro exI [of _ got] exI [of _ queued] exI [of _ q']) simp
    with q' s True show ?thesis by auto
  next
    case False
    obtain q' where q': "send [b] q = (True, q')" "queue_inv q'" "contents q' = contents q @ [[b]]" "size_q q' = size_q q" "one_msg_size q' = one_msg_size q"
      using send_free [OF g(2) _ False, of "[b]"] g(3) by auto
    have "routed fd blocks s0 pending (s\<lparr>result_queue := q'\<rparr>)"
      unfolding routed_def again using g(1,3-5) q' by (intro exI [of _ got] exI [of _ "queued @ [b]"] exI [of _ q']) simp
    with q' s False show ?thesis by auto
  qed
qed

lemma routing_routed:
  assumes "routing blocks s0 pending s" and a: "answer_ready c fd s0" "answer_blocks_ok c blocks"
  shows "routed fd blocks s0 pending s"
  using assms(1)
proof (induction rule: routing.induct)
  case start
  with routed_start [OF a(1)] a(2) show ?case by (simp add: answer_blocks_ok_def)
next
  case (put r pending s ok q)
  from routed_put [OF put.IH] put.hyps(2) show ?case by auto
next
  case (turn pending s s')
  from routed_turn [OF turn.IH a] turn.hyps(2) show ?case by auto
qed

section \<open>The answer gets through\<close>

lemma full_not_empty: "queue_inv q \<Longrightarrow> 1 < size_q q \<Longrightarrow> Full q \<Longrightarrow> contents q \<noteq> []"
proof
  assume q: "queue_inv q" "1 < size_q q" "Full q" "contents q = []"
  then have "slot_order q = []" by (simp add: contents_def)
  then have "Size q = 0" by (metis length_slot_order list.size(3))
  with q Full_iff [OF q(1)] show False by simp
qed

lemma routing_completes:
  assumes a: "answer_ready c fd s0" "answer_blocks_ok c blocks"
  shows "routing blocks s0 pending s \<Longrightarrow> \<exists>s'. routing blocks s0 [] s' \<and> contents (result_queue s') = []"
proof (induction "2 * length pending + length (contents (result_queue s))" arbitrary: pending s rule: less_induct)
  case less
  have r: "routed fd blocks s0 pending s" by (rule routing_routed [OF less.prems a])
  then have q: "queue_inv (result_queue s)" "1 < size_q (result_queue s)"
    using a(1) by (auto simp: routed_def filed_def answer_ready_def)
  show ?case
  proof (cases "pending = [] \<or> Full (result_queue s)")
    case True
    show ?thesis
    proof (cases "contents (result_queue s) = []")
      case True
      with \<open>pending = [] \<or> Full (result_queue s)\<close> full_not_empty [OF q] less.prems show ?thesis by auto
    next
      case False
      obtain s' where s': "server_turn [] s = Inr s'"
          "length (contents (result_queue s')) = length (contents (result_queue s)) - Suc MAX_QUERY_RESULT_READ"
        using routed_turn [OF r a] by blast
      then have "2 * length pending + length (contents (result_queue s')) < 2 * length pending + length (contents (result_queue s))"
        using False by (cases "contents (result_queue s)") auto
      from less.hyps [OF this routing.turn [OF less.prems s'(1)]] show ?thesis .
    qed
  next
    case False
    then obtain b ps where b: "pending = b # ps" by (cases pending) auto
    obtain q' where q': "send [b] (result_queue s) = (True, q')" "length (contents q') = length (contents (result_queue s)) + 1"
      using routed_put [OF r [unfolded b]] False by auto
    have "routing blocks s0 ps (s\<lparr>result_queue := q'\<rparr>)"
      using routing.put [OF less.prems [unfolded b] q'(1)] by simp
    from less.hyps [OF _ this] q'(2) b show ?thesis by simp
  qed
qed

text \<open>When all blocks are read the connection is in writing mode, and its next event writes the whole answer.\<close>

lemma routed_all:
  assumes "routed fd blocks s0 [] s" "contents (result_queue s) = []" "blocks \<noteq> []"
  shows "\<exists>q. s = filed fd blocks True q s0 \<and> queue_inv q \<and> contents q = []"
  using assms by (auto simp: routed_def filed_def)

lemma answer_written:
  assumes a: "answer_ready c fd s0" "answer_blocks_ok c (blocks @ [fin])" "list_all block_ok (blocks @ [fin])" "blocks \<noteq> []"
    and s: "routing (blocks @ [fin]) s0 [] s" "contents (result_queue s) = []"
    and out: "fd \<notin> fd_ack_set s0" "flowing os" "send_cost (blocks @ [fin]) \<le> length os"
  shows "\<exists>s'. server_turn [Ready fd None True] (s\<lparr>sends := os\<rparr>) = Inr s'
     \<and> outbox s' = (outbox s0)(fd := outbox s0 fd @ http_header (sum_list (map qr_offset (blocks @ [fin])))
         @ payload fin @ concat (map payload blocks))"
proof -
  have "routed fd (blocks @ [fin]) s0 [] s" by (rule routing_routed [OF s(1) a(1,2)])
  from routed_all [OF this s(2)] obtain q where q: "s = filed fd (blocks @ [fin]) True q s0" "queue_inv q" "contents q = []"
    by auto
  have fin: "list_all (\<lambda>r. \<not> qr_finish r) blocks" using a(2) by (simp add: answer_blocks_ok_def)
  let ?s = "s\<lparr>sends := os\<rparr>"
  have "fd_result_map ?s fd = Some (blocks @ [fin])" "fd \<notin> fd_ack_set ?s" "flowing (sends ?s)"
      "send_cost (blocks @ [fin]) \<le> length (sends ?s)" "outbox ?s = outbox s0"
    using q(1) out by (simp_all add: filed_def)
  from Write_fd_work_answer [OF this(1) a(4,3) fin this(2-4)] this(5) obtain s' where
    s': "Write_fd_work fd ?s = Inr s'" "outbox s' = (outbox s0)(fd := outbox s0 fd @ http_header (sum_list (map qr_offset (blocks @ [fin])))
         @ payload fin @ concat (map payload blocks))" by auto
  have "result_queue ?s = q" using q(1) by (simp add: filed_def)
  then have "Read_result_queue ?s = Inr (0, [], ?s)"
    using read_empty [OF q(2,3)] by (simp add: Read_result_queue_def)
  with s' show ?thesis by (simp add: server_turn_def)
qed

end
