(* ===== verification/Query_Path.thy ===== *)
theory Query_Path
  imports Result_Routing End_To_End
begin

text \<open>
  The path of a query through the system: a request on a fresh connection, through the server and the
  processor and back, block by block, to the bytes written to the connection.
\<close>

section \<open>The request arrives\<close>

text \<open>A connection nothing is known of yet, and a server with nothing in its queues.\<close>

definition connection_ready :: "int \<Rightarrow> int \<Rightarrow> log_server \<Rightarrow> bool" where
  "connection_ready c fd s \<longleftrightarrow> epoll_set s fd \<noteq> None \<and> fd \<noteq> 0 \<and> client_id_fd_map s c = None
     \<and> fd_result_map s fd = None \<and> fd \<notin> fd_ack_set s
     \<and> queue_inv (msg_queue s) \<and> one_msg_size (msg_queue s) = 1 \<and> \<not> Full (msg_queue s) \<and> contents (msg_queue s) = []
     \<and> queue_inv (result_queue s) \<and> one_msg_size (result_queue s) = 1 \<and> 1 < size_q (result_queue s)
     \<and> contents (result_queue s) = []"

lemma Read_fd_work_query:
  assumes s: "connection_ready c fd s"
    and m: "length bytes < BUFFER_SIZE" "ParseReq (bytes @ replicate (BUFFER_SIZE - length bytes) nul) = Inr (Some req)"
    and c: "Need_send_back req = c" "0 < c"
  shows "\<exists>q. Read_fd_work fd [Received bytes, WouldBlock] s = Inr ((Insert_client_id_fd_map c fd s)\<lparr>msg_queue := q\<rparr>)
     \<and> queue_inv q \<and> contents q = [[req]]"
proof -
  let ?buf = "bytes @ replicate (BUFFER_SIZE - length bytes) nul" and ?s1 = "Insert_client_id_fd_map c fd s"
  have mq: "queue_inv (msg_queue s)" "one_msg_size (msg_queue s) = 1" "\<not> Full (msg_queue s)" "contents (msg_queue s) = []"
    using s by (simp_all add: connection_ready_def)
  obtain q where q: "send [req] (msg_queue s) = (True, q)" "queue_inv q" "contents q = [[req]]"
    using send_free [OF mq(1) _ mq(3), of "[req]"] mq(2,4) by auto
  have "clip_len (msg_queue s) 0 = 1" using mq(2) by (simp add: clip_len_def)
  then have w: "WriteToMsgQueue_Wait (Some [req]) 0 (msg_queue ?s1) = Some (1, q)"
    using q(1) mq(3) by (auto simp: send_def WriteToMsgQueue_def WriteToMsgQueue_Wait_def Insert_client_id_fd_map_def)
  obtain x buf where x: "?buf = x # buf" "x \<noteq> nul" using ParseReq_first [OF m(2)] by blast
  have "x \<in> set ?buf" unfolding x(1) by simp
  with x(2) have ne: "bytes \<noteq> []" by auto
  have head: "deref (drop (0 * STR_LEN) ?buf) = Inr x" unfolding x(1) by simp
  have parse: "ParseReq (drop (0 * STR_LEN) ?buf) = Inr (Some req)" using m(2) by simp
  have msg: "Write_msg_to_msgqueue ?buf fd s = Inr (True, ?s1\<lparr>msg_queue := q\<rparr>)"
    unfolding Write_msg_to_msgqueue_def one_message using head parse x(2) w c by (simp add: Let_def)
  have "take (BUFFER_SIZE - 0) bytes = bytes" using m(1) by simp
  then have loop: "recv_loop [Received bytes, WouldBlock] 0 (replicate BUFFER_SIZE nul) = Some (True, False, length bytes, ?buf, [])"
    using ne m(1) by (simp add: Let_def cleared_buffer)
  have "Read_fd_work fd [Received bytes, WouldBlock] s = Inr (?s1\<lparr>msg_queue := q\<rparr>)"
    unfolding Read_fd_work_def by (subst read_rounds.simps) (simp del: recv_loop.simps add: loop msg ne)
  with q show ?thesis by blast
qed

section \<open>A key request\<close>

definition getkey_line :: "string \<Rightarrow> nat \<Rightarrow> string" where
  "getkey_line k c = ''GET /getkey?key='' @ k @ ''&id='' @ show_nat c @ '' HTTP/1.1''"

lemma parse_params_last:
  assumes "plain CHR ''&'' p" and "p \<noteq> []"
  shows "parse_params (p @ nul # rest) r = bindE (Get_parameter (p @ nul # rest) r) (\<lambda>(ok, r'). Inr r')"
proof -
  obtain x xs where p: "p = x # xs" using assms(2) by (cases p) auto
  with assms(1) have "skip_amp (p @ nul # rest) = Inr (p @ nul # rest)" by simp
  moreover have "Find_char (p @ nul # rest) CHR ''&'' = Inr None"
    using assms(1) by (rule Find_char_stop) (simp_all add: nul_def)
  ultimately show ?thesis by (subst parse_params.simps) simp
qed

lemma Get_parameter_id:
  "nul_free v \<Longrightarrow> get_number v = Some t \<Longrightarrow>
   Get_parameter (''id='' @ v @ nul # rest) r = Inr (True, r\<lparr>req_client_id := to_int32 t\<rparr>)"
  by (simp add: Get_parameter_def parameter_table_def read_cstr_terminated [unfolded nul_def] set_number_def nul_def blank_def newline_def)

lemma ParseReq_getkey:
  assumes k: "plain CHR ''&'' k" "plain blank k" and c: "0 < c" "c < 2 ^ 31"
  shows "ParseReq (getkey_line k c @ rest)
     = Inr (Some (new_ReqData\<lparr>req_type := T_Getkey, req_key := decode_field KEY_LEN k, req_client_id := int c\<rparr>))"
proof -
  let ?p = "''key='' @ k @ CHR ''&'' # ''id='' @ show_nat c" and ?tail = "''HTTP/1.1'' @ rest"
  have plain: "plain blank ?p"
    using k(2) plain_show_nat [of blank c] by (simp add: nul_def blank_def newline_def is_digit_iff)
  have amp: "plain CHR ''&'' (''key='' @ k)" "plain CHR ''&'' (''id='' @ show_nat c)"
    using k(1) plain_show_nat [of "CHR ''&''" c] by (simp_all add: nul_def blank_def newline_def is_digit_iff)
  have nf: "nul_free k" "nul_free (show_nat c)" using k(1) plain_nul_free by auto
  have num: "get_number (show_nat c) = Some (word_of_nat c)" using c by (intro get_number_show_nat) auto
  have int: "to_int32 (word_of_nat c) = int c"
    using c(2) by (rule to_int32_small)
  have params: "parse_params (?p @ nul # ?tail) new_ReqData
      = Inr (new_ReqData\<lparr>req_key := decode_field KEY_LEN k, req_client_id := int c\<rparr>)"
    using parse_params_step [OF amp(1), of "''id='' @ show_nat c @ nul # ?tail" new_ReqData]
      Get_parameter_key [OF nf(1), of "''id='' @ show_nat c @ nul # ?tail" new_ReqData]
      parse_params_last [OF amp(2), of ?tail] Get_parameter_id [OF nf(2) num, of ?tail]
    by (simp add: int)
  have line: "getkey_line k c @ rest = ''GET /getkey?'' @ ?p @ blank # ?tail"
    by (simp add: getkey_line_def blank_def)
  have head: "ParseReq (''GET /getkey?'' @ s) = parse_query T_Getkey (CHR ''?'' # s)" for s
    by (simp add: ParseReq_def method_str_def request_table_def)
  have f: "Find_char (?p @ blank # ?tail) blank = Inr (Some (length ?p))" by (rule Find_char_hit [OF plain])
  have u: "(?p @ blank # ?tail)[length ?p := nul] = ?p @ nul # ?tail" by (rule list_update_middle)
  have "drop (0 + 1) (CHR ''?'' # ?p @ blank # ?tail) = ?p @ blank # ?tail" by simp
  moreover have "Find_char (CHR ''?'' # ?p @ blank # ?tail) CHR ''?'' = Inr (Some 0)" by simp
  ultimately show ?thesis
    unfolding line head parse_query_def by (simp only: bindE.simps option.case f u params) simp
qed

section \<open>The answer leaves\<close>

lemma offsets_payload: "list_all block_ok rs \<Longrightarrow> sum_list (map qr_offset rs) = length (concat (map payload rs))"
  by (induction rs) (simp_all add: payload_length)

text \<open>
  C3. A key query is answered: the server that reads the request on a fresh connection hands it to the
  processor, one turn of the processor writes the answer - whatever the order in which the blocks are put
  into the result queue and read from it, all of them get through - and the server's next event on the
  connection, if the socket takes all of it (every send makes progress, and there are sends enough),
  writes the header with the length of the answer, the summary, and the lines of the entries with the
  key, newest first, at most 50001 of all that were ever appended (acceptable entries, as in
  \<open>service_keeps_log\<close>).  Each line is answered up to and with its first newline (\<open>shown_line\<close>): that is
  the whole line, unless the key or the text of the entry holds a newline, where the code cuts it.  When
  there are exactly 50000 lines the code adds its message that there was no result.
\<close>

theorem query_is_answered:
  assumes "service es pc dm" and "connection_ready (req_client_id req) fd s"
    and "length bytes < BUFFER_SIZE" and "ParseReq (bytes @ replicate (BUFFER_SIZE - length bytes) nul) = Inr (Some req)"
    and "Valid req" and "req_type req = T_Getkey"
  shows "let hits = take 50001 (rev (filter (\<lambda>e. le_key e = req_key req) es)); none = (length hits = 50000);
         reply = summary (length hits + (if none then 1 else 0)) (t1 - t0) @ shown_text hits @ no_result_bytes none
     in \<exists>s1 q dm' blocks. Read_fd_work fd [Received bytes, WouldBlock] s = Inr s1
        \<and> processor_turn t0 t1 (msg_queue s1, dm) = Inr (q, dm') \<and> result_blocks dm' = result_blocks dm @ blocks
        \<and> (\<exists>s2. routing blocks (s1\<lparr>msg_queue := q\<rparr>) [] s2 \<and> contents (result_queue s2) = [])
        \<and> (\<forall>s2 os. routing blocks (s1\<lparr>msg_queue := q\<rparr>) [] s2 \<and> contents (result_queue s2) = [] \<and> flowing os \<and> send_cost blocks \<le> length os \<longrightarrow>
             (\<exists>s3. server_turn [Ready fd None True] (s2\<lparr>sends := os\<rparr>) = Inr s3 \<and> outbox s3 fd = outbox s fd @ http_header (length reply) @ reply))"
proof -
  let ?c = "req_client_id req"
  define hits where "hits = take 50001 (rev (filter (\<lambda>e. le_key e = req_key req) es))"
  define none where "none = (length hits = 50000)"
  define n where "n = length hits + (if none then 1 else 0)"
  define reply where "reply = summary n (t1 - t0) @ shown_text hits @ no_result_bytes none"
  have c: "Need_send_back req = ?c" "0 < ?c" using assms(5,6) by (simp_all add: Need_send_back_def Valid_def)
  obtain q1 where q1: "Read_fd_work fd [Received bytes, WouldBlock] s = Inr ((Insert_client_id_fd_map ?c fd s)\<lparr>msg_queue := q1\<rparr>)"
      "queue_inv q1" "contents q1 = [req] # []"
    using Read_fd_work_query [OF assms(2,3,4) c] by auto
  obtain dm' where dm': "Process_req t0 t1 req dm = Inr dm'" "answer_sent dm dm' ?c (shown_text hits @ no_result_bytes none) n (t1 - t0)"
    using getkey_answered [OF assms(1,5,6), of t0 t1] unfolding Let_def hits_def [symmetric] none_def [symmetric] n_def [symmetric]
    by blast
  obtain blocks fin where b: "result_blocks dm' = result_blocks dm @ blocks @ [fin]" "blocks \<noteq> []"
      "concat (map payload blocks) = shown_text hits @ no_result_bytes none" "payload fin = summary n (t1 - t0)"
      "qr_finish fin" "list_all (\<lambda>r. \<not> qr_finish r) blocks" "list_all (\<lambda>r. block_ok r \<and> qr_client_id r = ?c) (blocks @ [fin])"
    using dm'(2) by (auto simp: answer_sent_def)
  obtain q where q: "processor_turn t0 t1 (q1, dm) = Inr (q, dm')"
    using processor_turn_takes [OF q1(2,3) dm'(1)] by blast
  let ?s1 = "(Insert_client_id_fd_map ?c fd s)\<lparr>msg_queue := q\<rparr>"
  have ready: "answer_ready ?c fd ?s1" "fd \<notin> fd_ack_set ?s1" "outbox ?s1 = outbox s"
    using assms(2) by (auto simp: answer_ready_def connection_ready_def Insert_client_id_fd_map_def emplace_def)
  have ok: "answer_blocks_ok ?c (blocks @ [fin])" "list_all block_ok (blocks @ [fin])"
    using b(5-7) by (auto simp: answer_blocks_ok_def list_all_iff)
  have len: "sum_list (map qr_offset (blocks @ [fin])) = length reply"
    using offsets_payload [OF ok(2)] b(3,4) by (simp add: reply_def)
  have out: "payload fin @ concat (map payload blocks) = reply" using b(3,4) by (simp add: reply_def)
  have through: "\<exists>s2. routing (blocks @ [fin]) ?s1 [] s2 \<and> contents (result_queue s2) = []"
    by (rule routing_completes [OF ready(1) ok(1) routing.start])
  have written: "\<exists>s3. server_turn [Ready fd None True] (s2\<lparr>sends := os\<rparr>) = Inr s3 \<and> outbox s3 fd = outbox s fd @ http_header (length reply) @ reply"
    if "routing (blocks @ [fin]) ?s1 [] s2 \<and> contents (result_queue s2) = [] \<and> flowing os
        \<and> send_cost (blocks @ [fin]) \<le> length os" for s2 os
    using answer_written [OF ready(1) ok b(2), of s2 os] that ready(2,3) unfolding len out by auto
  show ?thesis unfolding Let_def hits_def [symmetric] none_def [symmetric] n_def [symmetric] reply_def [symmetric]
    using q1(1) q b(1) through written
    by (intro exI [of _ "(Insert_client_id_fd_map ?c fd s)\<lparr>msg_queue := q1\<rparr>"] exI [of _ q] exI [of _ dm'] exI [of _ "blocks @ [fin]"]) simp
qed

theorem query_is_answered_witness:
  "\<exists>dm s1 q dm' blocks s2 s3 os. sample_store = Inr dm
     \<and> Read_fd_work 5 [Received (getkey_line ''k1'' 7), WouldBlock] listening_server = Inr s1
     \<and> processor_turn 3 8 (msg_queue s1, dm) = Inr (q, dm') \<and> result_blocks dm' = result_blocks dm @ blocks
     \<and> routing blocks (s1\<lparr>msg_queue := q\<rparr>) [] s2 \<and> server_turn [Ready 5 None True] (s2\<lparr>sends := os\<rparr>) = Inr s3
     \<and> outbox s3 5 = http_header (length (summary 2 5 @ text_of [sample_log ! 2, sample_log ! 0]))
         @ summary 2 5 @ text_of [sample_log ! 2, sample_log ! 0]"
proof -
  let ?r = "new_ReqData\<lparr>req_type := T_Getkey, req_key := decode_field KEY_LEN ''k1'', req_client_id := int 7\<rparr>"
  let ?bytes = "getkey_line ''k1'' 7"
  obtain dm where dm: "sample_store = Inr dm" "service sample_log Woken dm" using sample_service by blast
  have k: "plain CHR ''&'' ''k1''" "plain blank ''k1''" by (simp_all add: nul_def blank_def newline_def)
  have parse: "ParseReq (?bytes @ replicate (BUFFER_SIZE - length ?bytes) nul) = Inr (Some ?r)"
    by (rule ParseReq_getkey [OF k]) simp_all
  have len: "length ?bytes < BUFFER_SIZE" by (simp add: getkey_line_def show_nat.simps BUFFER_SIZE_def)
  have key: "decode_field KEY_LEN ''k1'' = ''k1''"
    by (simp add: decode_field_def cstr_lgy_strncpy cstr_nul_free nul_def KEY_LEN_def url_decode_plain)
  have r: "Valid ?r" "req_type ?r = T_Getkey" "req_key ?r = ''k1''" "req_client_id ?r = 7"
    by (simp_all add: Valid_def key)
  have es: "take 50001 (rev (filter (\<lambda>e. le_key e = ''k1'') sample_log)) = [sample_log ! 2, sample_log ! 0]"
    by (simp add: sample_log_def)
  have conn: "connection_ready (req_client_id ?r) 5 listening_server"
    using listening_server_ok new_MsgQueue_inv [of QueryResult_Q_LEN 1 "new_QueryResult 0"]
    by (simp add: connection_ready_def) (simp add: listening_server_def new_log_server_def QueryResult_Q_LEN_def new_MsgQueue_def)
  have out: "outbox listening_server 5 = []" by (simp add: listening_server_def new_log_server_def)
  obtain s1 q dm' blocks s2 where a: "Read_fd_work 5 [Received ?bytes, WouldBlock] listening_server = Inr s1"
      "processor_turn 3 8 (msg_queue s1, dm) = Inr (q, dm')" "result_blocks dm' = result_blocks dm @ blocks"
      "routing blocks (s1\<lparr>msg_queue := q\<rparr>) [] s2" "contents (result_queue s2) = []"
    and w: "\<And>os. flowing os \<Longrightarrow> send_cost blocks \<le> length os \<Longrightarrow>
        \<exists>s3. server_turn [Ready 5 None True] (s2\<lparr>sends := os\<rparr>) = Inr s3
          \<and> outbox s3 5 = http_header (length (summary 2 5 @ shown_text [sample_log ! 2, sample_log ! 0]))
              @ summary 2 5 @ shown_text [sample_log ! 2, sample_log ! 0]"
    using query_is_answered [OF dm(2) conn len parse r(1,2), of 8 3] unfolding r(3) es out Let_def
    by (auto simp: no_result_bytes_def numeral_2_eq_2)
  let ?os = "replicate (send_cost blocks) (SentUpTo 1)"
  have "flowing ?os" "send_cost blocks \<le> length ?os" by (simp_all add: flowing_def list_all_iff)
  from w [OF this] a dm(1) show ?thesis unfolding sample_answers [symmetric] by blast
qed

end
