(* ===== verification/Append_Race.thy ===== *)
theory Append_Race
  imports Bulk_Handler
begin

text \<open>
  \<^verbatim>\<open>Append_log\<close> and the persistence thread on one bulk (\<^verbatim>\<open>MemoryBulkHandler::Append\<close> and
  \<^verbatim>\<open>Build_index\<close> of \<^verbatim>\<open>src/log_processor/data_manager.cpp\<close>, \<^verbatim>\<open>Persistence\<close> of
  \<^verbatim>\<open>MemoryBulkHandler.cpp\<close>).  Only the copy into the buffer runs under the handler's write lock: the
  test of the state before it and the indexing after it do not.  The thread of the data manager is
  cut at the lock into its three steps, the auto-persistence of the worker thread is one step, since
  all of it is under the lock, and every place the worker can take is followed to its outcome.
\<close>

section \<open>The steps of the two threads\<close>

text \<open>The part of \<^verbatim>\<open>Append\<close> between \<^verbatim>\<open>Get_write_lock\<close> and \<^verbatim>\<open>Drop_write_lock\<close>.\<close>

definition append_locked :: "string \<Rightarrow> nat \<Rightarrow> MemoryBulkHandler \<Rightarrow> world \<Rightarrow> nat option step" where
  "append_locked str len h w =
     bindE (mb_Append str len (bulk h)) (\<lambda>(ret, b).
       let h1 = (if ret = None then h\<lparr>bulk := b, bh_state := InQueue\<rparr> else h\<lparr>bulk := b\<rparr>)
       in Inr (ret, h1, Set_auto_persistence_timer h1 w))"

lemma bh_Append_locked:
  "bh_Append str len h w = (if bh_state h = Appending then append_locked str len h w else Inr (None, h, w))"
  by (simp add: bh_Append_def append_locked_def)

text \<open>
  Where the appending thread is: before the test, past it and waiting for the lock, with an offset to
  index, done, or sent on to a new bulk by the \<^verbatim>\<open>-1\<close> of \<^verbatim>\<open>Append\<close>.
\<close>

datatype append_place = Testing | Locking | Indexing nat | Appended | Turned_away

type_synonym race = "append_place \<times> MemoryBulkHandler \<times> world"

fun appender_step :: "log_entry \<Rightarrow> race \<Rightarrow> race res" where
  "appender_step e (Testing, h, w) = Inr (if bh_state h = Appending then (Locking, h, w) else (Turned_away, h, w))"
| "appender_step e (Locking, h, w) = bindE (append_locked (line_of e) (length (line_of e)) h w) (\<lambda>(off, h1, w1).
     Inr (case off of None \<Rightarrow> (Turned_away, h1, w1) | Some o1 \<Rightarrow> (Indexing o1, h1, w1)))"
| "appender_step e (Indexing o1, h, w) = Inr (Appended, bh_Build_index o1 (le_content e) (le_key e) (le_time e) h, w)"
| "appender_step e s = Inr s"

definition saver_step :: "race \<Rightarrow> race res" where
  "saver_step s = (case s of (pl, h, w) \<Rightarrow> bindE (Persistence h w) (\<lambda>(_, h1, w1). Inr (pl, h1, w1)))"

datatype thread = Appender | Saver

fun race_run :: "log_entry \<Rightarrow> thread list \<Rightarrow> race \<Rightarrow> race res" where
  "race_run e [] s = Inr s"
| "race_run e (t # ts) s = bindE (case t of Appender \<Rightarrow> appender_step e s | Saver \<Rightarrow> saver_step s) (race_run e ts)"

lemma race_run_append: "race_run e (ts @ us) s = bindE (race_run e ts s) (race_run e us)"
  by (induction ts arbitrary: s) (auto simp: bindE_assoc intro!: bindE_cong)

text \<open>Left to itself the appending thread does what \<open>bh_add\<close> does.\<close>

lemma appender_alone:
  "race_run e [Appender, Appender, Appender] (Testing, h, w)
     = bindE (bh_add e h w) (\<lambda>(ok, h1, w1). Inr (if ok then Appended else Turned_away, h1, w1))"
  by (cases "append_locked (line_of e) (length (line_of e)) h w")
     (auto simp: bh_add_def bh_Append_locked split: option.split)

section \<open>What each place of the worker leads to\<close>

text \<open>The handler as it stands between the copy and the indexing.\<close>

lemma Locked_append:
  assumes "handler_repr h d ls" "storable e" "bh_state h = Appending"
    and "length (text_of ls) + length (line_of e) + 1 < BULKSIZE"
  shows "\<exists>h1. append_locked (line_of e) (length (line_of e)) h w
        = Inr (Some (length (text_of ls)), h1, Set_auto_persistence_timer h1 w)
     \<and> bh_state h1 = Appending \<and> data (bulk h1) = Some (text_of ls @ line_of e) \<and> parts_ok h1 ls
     \<and> unread_saved_parts h1 d ls \<and> header_ok h1 ls"
proof -
  have b: "bulk_repr (bulk h) ls" "header_ok h ls" "offset_read h" "timestamp_read h" "key_read h" "word_read h"
    using assms(1,3) by (simp_all add: handler_repr_def)
  have "nul_free (line_of e)" using assms(2) line_nul_free by (simp add: storable_def)
  from mb_Append_repr [OF b(1) this assms(4)] b assms(3) handler_parts [OF assms(1)] show ?thesis
    by (simp add: append_locked_def Let_def unread_saved_parts_def header_ok_def parts_ok_def)
qed

text \<open>A saved handler has no buffer to copy into, but its count of bytes still shows room.\<close>

lemma Saved_append_UB:
  assumes "data (bulk h) = None" "mb_offset (bulk h) + length str + 1 < BULKSIZE"
  shows "append_locked str (length str) h w = Inl UB"
  using assms by (simp add: append_locked_def mb_Append_def)

lemma Build_index_saved: "bh_state h = Saved \<Longrightarrow> bh_Build_index o1 c k t h = h"
  by (simp add: bh_Build_index_def)

lemma Saved_key_search:
  assumes "parts_ok h ls" "saved_index (files w) (file_num h) ls"
  shows "\<exists>r h' w'. bh_Search_key key h w = Inr (r, h', w') \<and> as_list r = serials_of_key key ls"
proof (cases "key_read h")
  case True
  with assms(1) show ?thesis
    by (simp add: bh_Search_key_def parts_ok_def Let_def trie_list_def mb_Search_key_def)
next
  case False
  obtain t where "Read_trie_file KeyTrie (file_num h) (files w) (key_serial_trie (mb_index (bulk h))) = Inr t"
    "\<forall>q. trie_list t q = serials_of_key q ls"
    using assms(2) unfolding saved_index_def trie_saved_def by blast
  with False show ?thesis
    by (simp add: bh_Search_key_def Read_key_trie_def trie_list_def mb_Search_key_def)
qed
text \<open>What the saving thread makes of a live handler whose buffer holds the text \<open>T\<close>.\<close>

lemma Saver_saves:
  assumes "bh_state h = Appending" "data (bulk h) = Some T" "nul_free T" "header_ok h ls" "parts_ok h ls"
    and "unread_saved_parts h (files w) ls"
  shows "\<exists>h1 w1. saver_step (pl, h, w) = Inr (pl, h1, w1) \<and> bh_state h1 = Saved \<and> data (bulk h1) = None
     \<and> unit_slot h1 = None \<and> mb_offset (bulk h1) = mb_offset (bulk h) \<and> file_num h1 = file_num h
     \<and> header_ok h1 ls \<and> parts_ok h1 ls
     \<and> files w1 (path Content (file_num h1)) = Some T \<and> saved_index (files w1) (file_num h1) ls"
proof -
  have n: "file_num h = to_int32 (start_serial (bulk h))" and room: "length (text_of ls) + 1 < BULKSIZE"
    using assms(4) by (simp_all add: header_ok_def)
  have st: "bh_state h \<in> {InMemory, InQueue, Appending}" using assms(1) by simp
  obtain h' w' where p: "Persistence h w = Inr (True, h', w')"
    "keeps (h\<lparr>bh_state := Saved, bulk := (bulk h)\<lparr>data := None\<rparr>, unit_slot := None\<rparr>) h'"
    "parts_ok h' ls" "files w' (path Content (file_num h)) = Some T" "saved_index (files w') (file_num h) ls"
    using Persistence_writes [OF st assms(2,3) n room assms(5,6)] by blast
  have "header_ok h' ls" using keeps_header [OF p(2), of ls] assms(4) by (simp add: header_ok_def)
  with p show ?thesis by (simp add: saver_step_def keeps_def)
qed

lemma text_with_entry_nul_free:
  "header_ok h ls \<Longrightarrow> storable e \<Longrightarrow> nul_free (text_of ls) \<and> nul_free (text_of ls @ line_of e)"
  using text_nul_free [of ls] line_nul_free [of e] by (simp add: header_ok_def storable_def)

lemma open_parts:
  assumes "handler_repr h d ls" "bh_state h = Appending"
  shows "data (bulk h) = Some (text_of ls)" "header_ok h ls" "parts_ok h ls" "unread_saved_parts h d ls"
    "mb_offset (bulk h) = length (text_of ls)"
  using assms handler_repr_live [OF assms(1)] by (auto simp: handler_repr_def bulk_repr_def)

lemma saver_first:
  assumes "handler_repr h (files w) ls" "bh_state h = Appending"
  shows "\<exists>h1 w1. saver_step (pl, h, w) = Inr (pl, h1, w1) \<and> bh_state h1 = Saved \<and> handler_repr h1 (files w1) ls"
proof -
  have "bh_state h \<noteq> Saved" using assms(2) by simp
  from Persistence_repr [OF assms(1) this] show ?thesis by (auto simp: saver_step_def)
qed

lemma saver_before_lock:
  assumes "handler_repr h (files w) ls" "storable e" "bh_state h = Appending"
    and "length (text_of ls) + length (line_of e) + 1 < BULKSIZE"
  shows "race_run e [Appender, Saver, Appender, Appender] (Testing, h, w) = Inl UB"
proof -
  note o = open_parts [OF assms(1,3)]
  obtain h1 w1 where s: "saver_step (Locking, h, w) = Inr (Locking, h1, w1)" "data (bulk h1) = None"
    "mb_offset (bulk h1) = mb_offset (bulk h)"
    using Saver_saves [OF assms(3) o(1) _ o(2-4), of Locking] text_with_entry_nul_free [OF o(2) assms(2)] by blast
  have "append_locked (line_of e) (length (line_of e)) h1 w1 = Inl UB"
    using Saved_append_UB [OF s(2)] s(3) o(5) assms(4) by simp
  with s(1) assms(3) show ?thesis by simp
qed

lemma saver_before_index:
  assumes "handler_repr h (files w) ls" "storable e" "bh_state h = Appending"
    and "length (text_of ls) + length (line_of e) + 1 < BULKSIZE"
  shows "\<exists>h' w'. race_run e [Appender, Appender, Saver, Appender] (Testing, h, w) = Inr (Appended, h', w')
     \<and> bh_state h' = Saved \<and> mb_size (bulk h') = length ls
     \<and> files w' (path Content (file_num h')) = Some (text_of (ls @ [e]))
     \<and> parts_ok h' ls \<and> saved_index (files w') (file_num h') ls"
proof -
  obtain h1 where a: "append_locked (line_of e) (length (line_of e)) h w
        = Inr (Some (length (text_of ls)), h1, Set_auto_persistence_timer h1 w)"
    "bh_state h1 = Appending" "data (bulk h1) = Some (text_of ls @ line_of e)" "parts_ok h1 ls"
    "unread_saved_parts h1 (files w) ls" "header_ok h1 ls"
    using Locked_append [OF assms] by blast
  let ?w1 = "Set_auto_persistence_timer h1 w" and ?pl = "Indexing (length (text_of ls))"
  have u: "unread_saved_parts h1 (files ?w1) ls" using a(5) by (simp add: Set_auto_persistence_timer_def)
  obtain h2 w2 where s: "saver_step (?pl, h1, ?w1) = Inr (?pl, h2, w2)" "bh_state h2 = Saved" "header_ok h2 ls"
    "parts_ok h2 ls" "files w2 (path Content (file_num h2)) = Some (text_of ls @ line_of e)"
    "saved_index (files w2) (file_num h2) ls"
    using Saver_saves [OF a(2,3) _ a(6,4) u, of ?pl] text_with_entry_nul_free [OF a(6) assms(2)] by blast
  have "mb_size (bulk h2) = length ls" using s(3) by (simp add: header_ok_def)
  with s a(1) assms(3) Build_index_saved [OF s(2)] have "files w2 (path Content (file_num h2)) = Some (text_of (ls @ [e]))" by (simp only: text_of_snoc)
  with s a(1) assms(3) Build_index_saved [OF s(2)] \<open>mb_size (bulk h2) = length ls\<close> show ?thesis by simp
qed

lemma saver_last:
  assumes "handler_repr h (files w) ls" "storable e" "bh_state h = Appending"
    and "length (text_of ls) + length (line_of e) + 1 < BULKSIZE"
  shows "\<exists>h' w'. race_run e [Appender, Appender, Appender, Saver] (Testing, h, w) = Inr (Appended, h', w')
     \<and> bh_state h' = Saved \<and> handler_repr h' (files w') (ls @ [e])"
proof -
  obtain h1 w1 where a: "bh_add e h w = Inr (True, h1, w1)" "handler_repr h1 (files w) (ls @ [e])"
    "bh_state h1 = Appending" "files w1 = files w"
    using bh_add_repr [OF assms, of w] by blast
  then have r: "handler_repr h1 (files w1) (ls @ [e])" by simp
  have split: "race_run e [Appender, Appender, Appender, Saver] (Testing, h, w)
      = bindE (race_run e [Appender, Appender, Appender] (Testing, h, w)) (race_run e [Saver])"
    by (simp only: race_run_append [of e "[Appender, Appender, Appender]" "[Saver]", simplified append.simps])
  obtain h' w' where s: "saver_step (Appended, h1, w1) = Inr (Appended, h', w')" "bh_state h' = Saved"
    "handler_repr h' (files w') (ls @ [e])"
    using saver_first [OF r a(3)] by blast
  have "race_run e [Appender, Appender, Appender, Saver] (Testing, h, w) = Inr (Appended, h', w')"
    unfolding split appender_alone using a(1) s(1) by simp
  with s(2,3) show ?thesis by blast
qed

text \<open>
  C13. One new entry against one auto-persistence of the bulk it goes to, for an open bulk with room.
  Saved before the test of the state, the bulk turns the entry away and it goes to a new one; saved
  after the indexing, the bulk holds it.  Saved between the test and the lock, the copy writes through
  the null \<^verbatim>\<open>data_\<close>.  Saved between the copy and the indexing, the call returns as if it had stored the
  entry: its line is in the content file, but \<^verbatim>\<open>Build_index\<close> refuses the saved bulk and its \<^verbatim>\<open>-1\<close> is
  ignored, so the entry has no serial, no search by its key finds it, and the count of the bulk is
  short by one.
\<close>

theorem append_against_persistence:
  assumes "handler_repr h (files w) ls" and "bh_state h = Appending" and "storable e"
    and "length (text_of ls) + length (line_of e) + 1 < BULKSIZE"
  shows "(\<exists>h' w'. race_run e [Saver, Appender, Appender, Appender] (Testing, h, w) = Inr (Turned_away, h', w')
        \<and> handler_repr h' (files w') ls)
   \<and> race_run e [Appender, Saver, Appender, Appender] (Testing, h, w) = Inl UB
   \<and> (\<exists>h' w'. race_run e [Appender, Appender, Saver, Appender] (Testing, h, w) = Inr (Appended, h', w')
        \<and> files w' (path Content (file_num h')) = Some (text_of (ls @ [e])) \<and> mb_size (bulk h') = length ls
        \<and> (\<exists>r h2 w2. bh_Search_key (le_key e) h' w' = Inr (r, h2, w2) \<and> as_list r = serials_of_key (le_key e) ls))
   \<and> (\<exists>h' w'. race_run e [Appender, Appender, Appender, Saver] (Testing, h, w) = Inr (Appended, h', w')
        \<and> handler_repr h' (files w') (ls @ [e]))"
proof (intro conjI)
  obtain h1 w1 where "saver_step (Testing, h, w) = Inr (Testing, h1, w1)" "bh_state h1 = Saved" "handler_repr h1 (files w1) ls"
    using saver_first [OF assms(1,2)] by blast
  then show "\<exists>h' w'. race_run e [Saver, Appender, Appender, Appender] (Testing, h, w) = Inr (Turned_away, h', w')
        \<and> handler_repr h' (files w') ls"
    by simp
  show "race_run e [Appender, Saver, Appender, Appender] (Testing, h, w) = Inl UB"
    by (rule saver_before_lock [OF assms(1,3,2,4)])
  show "\<exists>h' w'. race_run e [Appender, Appender, Appender, Saver] (Testing, h, w) = Inr (Appended, h', w')
        \<and> handler_repr h' (files w') (ls @ [e])"
    using saver_last [OF assms(1,3,2,4)] by blast
  show "\<exists>h' w'. race_run e [Appender, Appender, Saver, Appender] (Testing, h, w) = Inr (Appended, h', w')
        \<and> files w' (path Content (file_num h')) = Some (text_of (ls @ [e])) \<and> mb_size (bulk h') = length ls
        \<and> (\<exists>r h2 w2. bh_Search_key (le_key e) h' w' = Inr (r, h2, w2) \<and> as_list r = serials_of_key (le_key e) ls)"
    using saver_before_index [OF assms(1,3,2,4)] Saved_key_search by blast
qed

theorem append_against_persistence_witness:
  "\<exists>h w h' w' r h2 w2. handler_repr h (files w) sample_log \<and> bh_state h = Appending
     \<and> race_run \<lparr>le_key = ''k9'', le_time = 30, le_content = ''late''\<rparr> [Appender, Appender, Saver, Appender] (Testing, h, w) = Inr (Appended, h', w')
     \<and> bh_Search_key ''k9'' h' w' = Inr (r, h2, w2) \<and> as_list r = []"
proof -
  obtain h0 w0 h w where s: "new_MemoryBulkHandler 0 (new_MemoryBulk 5) new_world = Some (h0, w0)"
    "bh_fill sample_log h0 w0 = Inr (h, w)" "handler_repr h (files w) sample_log" "bh_state h = Appending"
    using sample_handler by blast
  let ?e = "\<lparr>le_key = ''k9'', le_time = 30, le_content = ''late''\<rparr>"
  have e: "storable ?e" "serials_of_key ''k9'' sample_log = []" by code_simp+
  have "length (text_of sample_log) + length (line_of ?e) + 1 < BULKSIZE"
    by (simp add: sample_log_def text_of_def line_of_def format_line_def show_nat.simps config_defs)
  with append_against_persistence [OF s(3,4) e(1) this] e(2) s(3,4) show ?thesis
    by (metis (no_types, lifting) log_entry.select_convs(1))
qed

end
