(* ===== verification/Shared_Memory.thy ===== *)
theory Shared_Memory
  imports Log_Sender Log_Service Log_Server
begin

text \<open>
  The System V shared memory wrappers of \<^verbatim>\<open>include/wrap.h\<close> and the functions of the processes that
  set their queues up with them: \<^verbatim>\<open>Init_msg_queue\<close> and \<^verbatim>\<open>Close_msg_queue\<close> of the server and the
  senders, \<^verbatim>\<open>Init_msg_queue\<close> of the processor, the attaching part of \<^verbatim>\<open>init_cody_log_service\<close>.  The
  kernel's side is a table of segments with the documented behaviour of \<^verbatim>\<open>shmget\<close>, \<^verbatim>\<open>shmat\<close> and
  \<^verbatim>\<open>shmctl(IPC_RMID)\<close>; permissions and the limits of the system are left out, and so are the deaths of
  processes, which only detach.  \<^verbatim>\<open>ftok\<close>, which looks at the file system, is a parameter.  A pointer
  into a segment is its identifier.
\<close>

section \<open>The kernel's table\<close>

text \<open>What a segment holds: the zeros it is made with, a sender's queue, or the server's two.\<close>

datatype shared_object = Zeroed | Sender_queue "char MsgQueue" | Server_queues "ReqData MsgQueue" "QueryResult MsgQueue"

record segment =
  seg_key :: int
  seg_size :: nat
  seg_nattch :: nat
  seg_object :: shared_object

record ipc =
  segments :: "nat \<Rightarrow> segment option"
  key_ids :: "int \<Rightarrow> nat option"
  next_id :: nat

definition IPC_PRIVATE :: int where
  "IPC_PRIVATE = 0"

definition IPC_CREAT :: "32 word" where "IPC_CREAT = 512"
definition IPC_EXCL :: "32 word" where "IPC_EXCL = 1024"
definition O_EXCL :: "32 word" where "O_EXCL = 128"
definition SHM_R :: "32 word" where "SHM_R = 256"
definition SHM_W :: "32 word" where "SHM_W = 128"

definition SVSHM_MODE :: "32 word" where
  "SVSHM_MODE = or (or (or SHM_R SHM_W) (drop_bit 3 SHM_R)) (drop_bit 6 SHM_R)"

definition has_flag :: "32 word \<Rightarrow> 32 word \<Rightarrow> bool" where
  "has_flag flags f \<longleftrightarrow> and flags f \<noteq> 0"

definition new_segment :: "int \<Rightarrow> nat \<Rightarrow> ipc \<Rightarrow> nat \<times> ipc" where
  "new_segment key sz s = (next_id s,
     s\<lparr>segments := (segments s)(next_id s \<mapsto> \<lparr>seg_key = key, seg_size = sz, seg_nattch = 0, seg_object = Zeroed\<rparr>),
       key_ids := (if key = IPC_PRIVATE then key_ids s else (key_ids s)(key \<mapsto> next_id s)), next_id := next_id s + 1\<rparr>)"

text \<open>\<open>None\<close> is the \<^verbatim>\<open>-1\<close> of the calls.\<close>

definition shmget :: "int \<Rightarrow> nat \<Rightarrow> 32 word \<Rightarrow> ipc \<Rightarrow> nat option \<times> ipc" where
  "shmget key sz flags s =
     (case (if key = IPC_PRIVATE then None else key_ids s key) of
        Some i \<Rightarrow>
          if has_flag flags IPC_CREAT \<and> has_flag flags IPC_EXCL then (None, s)
          else (case segments s i of
                  None \<Rightarrow> (None, s)
                | Some g \<Rightarrow> if sz > seg_size g then (None, s) else (Some i, s))
      | None \<Rightarrow>
          if (key = IPC_PRIVATE \<or> has_flag flags IPC_CREAT) \<and> sz > 0
          then (let (i, s') = new_segment key sz s in (Some i, s'))
          else (None, s))"

definition shmat :: "nat \<Rightarrow> ipc \<Rightarrow> ipc option" where
  "shmat i s = map_option (\<lambda>g. s\<lparr>segments := (segments s)(i \<mapsto> g\<lparr>seg_nattch := seg_nattch g + 1\<rparr>)\<rparr>) (segments s i)"

text \<open>A removed segment loses its key at once and its memory when nobody is attached.\<close>

definition shm_remove :: "nat \<Rightarrow> ipc \<Rightarrow> ipc option" where
  "shm_remove i s = map_option (\<lambda>g.
       s\<lparr>segments := (segments s)(i := (if seg_nattch g = 0 then None else Some (g\<lparr>seg_key := IPC_PRIVATE\<rparr>))),
         key_ids := (\<lambda>k. if key_ids s k = Some i then None else key_ids s k)\<rparr>) (segments s i)"

section \<open>The wrappers\<close>

definition Shmget :: "int \<Rightarrow> nat \<Rightarrow> 32 word \<Rightarrow> ipc \<Rightarrow> (nat \<times> ipc) res" where
  "Shmget key sz flags s = (case shmget key sz flags s of (None, _) \<Rightarrow> Inl Exited | (Some rc, s') \<Rightarrow> Inr (rc, s'))"

definition Ftok :: "(string \<Rightarrow> int \<Rightarrow> int) \<Rightarrow> string \<Rightarrow> int \<Rightarrow> int res" where
  "Ftok ftok pathname i = (if ftok pathname i = -1 then Inl Exited else Inr (ftok pathname i))"

definition Shmat :: "nat \<Rightarrow> ipc \<Rightarrow> ipc res" where
  "Shmat i s = (case shmat i s of None \<Rightarrow> Inl Exited | Some s' \<Rightarrow> Inr s')"

definition Shmctl_RMID :: "nat \<Rightarrow> ipc \<Rightarrow> ipc res" where
  "Shmctl_RMID i s = (case shm_remove i s of None \<Rightarrow> Inl Exited | Some s' \<Rightarrow> Inr s')"

definition Close_same_name_shm_before_get :: "(string \<Rightarrow> int \<Rightarrow> int) \<Rightarrow> string \<Rightarrow> ipc \<Rightarrow> ipc res" where
  "Close_same_name_shm_before_get ftok pathname s =
     bindE (Ftok ftok pathname 0) (\<lambda>key.
       case shmget key 0 SVSHM_MODE s of
         (None, s') \<Rightarrow> Inr s'
       | (Some shm_id, s') \<Rightarrow> Shmctl_RMID shm_id s')"

definition Init_shm :: "(string \<Rightarrow> int \<Rightarrow> int) \<Rightarrow> nat \<Rightarrow> string \<Rightarrow> int \<Rightarrow> ipc \<Rightarrow> (nat \<times> ipc) res" where
  "Init_shm ftok len pathname shm_num s =
     bindE (Close_same_name_shm_before_get ftok pathname s) (\<lambda>s1.
     bindE (Ftok ftok pathname shm_num) (\<lambda>key.
     bindE (Shmget key len (or (or SVSHM_MODE IPC_CREAT) O_EXCL) s1) (\<lambda>(shm_id, s2).
     bindE (Shmat shm_id s2) (\<lambda>s3. Inr (shm_id, s3)))))"

definition Get_shm :: "(string \<Rightarrow> int \<Rightarrow> int) \<Rightarrow> nat \<Rightarrow> string \<Rightarrow> int \<Rightarrow> ipc \<Rightarrow> (nat \<times> ipc) res" where
  "Get_shm ftok len pathname shm_num s =
     bindE (Ftok ftok pathname shm_num) (\<lambda>key.
     bindE (Shmget key len SVSHM_MODE s) (\<lambda>(shm_id, s1).
     bindE (Shmat shm_id s1) (\<lambda>s2. Inr (shm_id, s2))))"

definition Close_shm :: "nat \<Rightarrow> ipc \<Rightarrow> ipc res" where
  "Close_shm shm_id s = Shmctl_RMID shm_id s"

section \<open>The processes\<close>

definition server_shm_pathname :: string where
  "server_shm_pathname = ''./log_server''"

definition sender_shm_pathname :: string where
  "sender_shm_pathname = ''./log_sender''"

definition place_object :: "nat \<Rightarrow> shared_object \<Rightarrow> ipc \<Rightarrow> ipc" where
  "place_object i x s = s\<lparr>segments := (segments s)(i := map_option (\<lambda>g. g\<lparr>seg_object := x\<rparr>) (segments s i))\<rparr>"

definition object_at :: "nat \<Rightarrow> ipc \<Rightarrow> shared_object option" where
  "object_at i s = map_option seg_object (segments s i)"

text \<open>The sizes of the queue types are the compiler's; \<open>len\<close> is the size asked for.\<close>

definition sender_Init_msg_queue :: "(string \<Rightarrow> int \<Rightarrow> int) \<Rightarrow> nat \<Rightarrow> int \<Rightarrow> ipc \<Rightarrow> (nat \<times> ipc) res" where
  "sender_Init_msg_queue ftok len shm_num s =
     bindE (Init_shm ftok len sender_shm_pathname shm_num s) (\<lambda>(shm_id, s1).
       Inr (shm_id, place_object shm_id (Sender_queue Init_msg_queue) s1))"

definition sender_Close_msg_queue :: "nat \<Rightarrow> ipc \<Rightarrow> ipc res" where
  "sender_Close_msg_queue shm_id s =
     (case object_at shm_id s of
        Some (Sender_queue q) \<Rightarrow> bindE (Close_msg_queue q) (\<lambda>q'. Close_shm shm_id (place_object shm_id (Sender_queue q') s))
      | _ \<Rightarrow> Inl UB)"

definition server_Init_msg_queue :: "(string \<Rightarrow> int \<Rightarrow> int) \<Rightarrow> nat \<Rightarrow> ipc \<Rightarrow> (nat \<times> ipc) res" where
  "server_Init_msg_queue ftok len s =
     bindE (Init_shm ftok len server_shm_pathname 0 s) (\<lambda>(shm_id, s1).
       Inr (shm_id, place_object shm_id (Server_queues (new_MsgQueue Q_LEN 1 new_ReqData)
              (new_MsgQueue QueryResult_Q_LEN 1 (new_QueryResult 0))) s1))"

definition server_Close_msg_queue :: "nat \<Rightarrow> ipc \<Rightarrow> ipc res" where
  "server_Close_msg_queue shm_id s =
     (case object_at shm_id s of
        Some (Server_queues mq rq) \<Rightarrow>
          (case (sem_wait (read_sem mq), sem_wait (read_sem rq)) of
             (Some m, Some r) \<Rightarrow>
               Close_shm shm_id (place_object shm_id (Server_queues (mq\<lparr>read_sem := m\<rparr>) (rq\<lparr>read_sem := r\<rparr>)) s)
           | _ \<Rightarrow> Inl Waits)
      | _ \<Rightarrow> Inl UB)"

text \<open>The processor asks for the first queue's size only; it spins until both queues are made.\<close>

definition processor_Init_msg_queue ::
  "(string \<Rightarrow> int \<Rightarrow> int) \<Rightarrow> nat \<Rightarrow> ipc \<Rightarrow> ((ReqData MsgQueue \<times> QueryResult MsgQueue) \<times> nat \<times> ipc) res" where
  "processor_Init_msg_queue ftok len s =
     bindE (Get_shm ftok len server_shm_pathname 0 s) (\<lambda>(shm_id, s1).
       case object_at shm_id s1 of
         Some (Server_queues mq rq) \<Rightarrow> if isInit mq \<and> isInit rq then Inr ((mq, rq), shm_id, s1) else Inl Waits
       | Some Zeroed \<Rightarrow> Inl Waits
       | _ \<Rightarrow> Inl UB)"

text \<open>A client's side, \<^verbatim>\<open>log_service.cpp\<close> lines 57 to 62.\<close>

definition service_attach :: "(string \<Rightarrow> int \<Rightarrow> int) \<Rightarrow> nat \<Rightarrow> int \<Rightarrow> ipc \<Rightarrow> (char MsgQueue \<times> nat \<times> ipc) res" where
  "service_attach ftok len shm_num s =
     bindE (Get_shm ftok len sender_shm_pathname shm_num s) (\<lambda>(shm_id, s1).
       case object_at shm_id s1 of
         Some (Sender_queue q) \<Rightarrow> if isInit q then Inr (q, shm_id, s1) else Inl Waits
       | Some Zeroed \<Rightarrow> Inl Waits
       | _ \<Rightarrow> Inl UB)"

section \<open>The table's invariant\<close>

definition ipc_ok :: "ipc \<Rightarrow> bool" where
  "ipc_ok s \<longleftrightarrow> key_ids s IPC_PRIVATE = None
     \<and> (\<forall>k i. key_ids s k = Some i \<longrightarrow> segments s i \<noteq> None)
     \<and> (\<forall>k i g. key_ids s k = Some i \<longrightarrow> segments s i = Some g \<longrightarrow> seg_key g = k)
     \<and> (\<forall>i. segments s i \<noteq> None \<longrightarrow> i < next_id s)"

definition boot :: ipc where
  "boot = \<lparr>segments = Map.empty, key_ids = Map.empty, next_id = 0\<rparr>"

lemma boot_ok: "ipc_ok boot"
  by (simp add: ipc_ok_def boot_def)

lemma flag_simps [simp]:
  "\<not> has_flag SVSHM_MODE IPC_CREAT" "has_flag (or (or SVSHM_MODE IPC_CREAT) O_EXCL) IPC_CREAT"
  "\<not> has_flag (or (or SVSHM_MODE IPC_CREAT) O_EXCL) IPC_EXCL"
  by code_simp+

text \<open>\<open>O_EXCL\<close> is no flag of \<^verbatim>\<open>shmget\<close>: it is the owner's permission to write, which the mode has anyway.\<close>

lemma O_EXCL_without_effect: "or (or SVSHM_MODE IPC_CREAT) O_EXCL = or SVSHM_MODE IPC_CREAT"
  by code_simp

text \<open>The segment of a key, its identifier and what it holds.\<close>

definition holds_segment :: "int \<Rightarrow> nat \<Rightarrow> nat \<Rightarrow> shared_object \<Rightarrow> ipc \<Rightarrow> bool" where
  "holds_segment key i len x s \<longleftrightarrow> key_ids s key = Some i
     \<and> (\<exists>g. segments s i = Some g \<and> len \<le> seg_size g \<and> seg_object g = x)"

lemma shmget_cases:
  assumes "shmget key sz flags s = (r, s')"
  obtains "s' = s" "r = None"
  | i g where "s' = s" "r = Some i" "key \<noteq> IPC_PRIVATE" "key_ids s key = Some i" "segments s i = Some g" "sz \<le> seg_size g"
  | "new_segment key sz s = (next_id s, s')" "r = Some (next_id s)" "key = IPC_PRIVATE \<or> key_ids s key = None"
proof (cases "if key = IPC_PRIVATE then None else key_ids s key")
  case None
  then have "key = IPC_PRIVATE \<or> key_ids s key = None" by (simp split: if_splits)
  with None assms that(1,3) show ?thesis
    by (cases "(key = IPC_PRIVATE \<or> has_flag flags IPC_CREAT) \<and> sz > 0")
       (auto simp: shmget_def new_segment_def Let_def)
next
  case (Some i)
  then have i: "key \<noteq> IPC_PRIVATE" "key_ids s key = Some i" by (simp_all split: if_splits)
  show ?thesis
  proof (cases "segments s i")
    case None
    with i assms that(1) show ?thesis by (simp add: shmget_def split: if_splits)
  next
    case (Some g)
    with i assms that(1) that(2) [of i g] show ?thesis by (simp add: shmget_def split: if_splits)
  qed
qed

lemma ipc_okD:
  assumes "ipc_ok s"
  shows "key_ids s IPC_PRIVATE = None"
    "key_ids s k = Some i \<Longrightarrow> \<exists>g. segments s i = Some g \<and> seg_key g = k"
    "segments s i = Some g \<Longrightarrow> i < next_id s"
  using assms unfolding ipc_ok_def by (simp, fastforce, simp)

lemmas ipc_dest = ipc_okD(1) ipc_okD(2) [rotated] ipc_okD(3) [rotated]

lemma ipc_okI:
  assumes "key_ids s IPC_PRIVATE = None"
    "\<And>k i. key_ids s k = Some i \<Longrightarrow> \<exists>g. segments s i = Some g \<and> seg_key g = k"
    "\<And>i g. segments s i = Some g \<Longrightarrow> i < next_id s"
  shows "ipc_ok s"
  unfolding ipc_ok_def using assms by fastforce

lemma fresh_id:
  assumes "ipc_ok s"
  shows "segments s (next_id s) = None" "key_ids s k \<noteq> Some (next_id s)"
proof -
  show n: "segments s (next_id s) = None"
    using ipc_okD(3) [OF assms, of "next_id s"] by (cases "segments s (next_id s)") auto
  then show "key_ids s k \<noteq> Some (next_id s)" using ipc_okD(2) [OF assms] by fastforce
qed

lemma new_segment_ok:
  assumes ok: "ipc_ok s" and new: "new_segment key sz s = (j, s')"
  shows "ipc_ok s'"
proof (rule ipc_okI)
  show "key_ids s' IPC_PRIVATE = None" using new ipc_okD(1) [OF ok] by (auto simp: new_segment_def)
  show "\<exists>g. segments s' i = Some g \<and> seg_key g = k" if "key_ids s' k = Some i" for k i
  proof (cases "i = next_id s")
    case True
    then have "k = key" using that new fresh_id(2) [OF ok] by (auto simp: new_segment_def split: if_splits)
    with True new show ?thesis by (auto simp: new_segment_def)
  next
    case False
    then have "key_ids s k = Some i" using that new by (auto simp: new_segment_def split: if_splits)
    with ipc_okD(2) [OF ok] False new show ?thesis by (auto simp: new_segment_def)
  qed
  show "i < next_id s'" if "segments s' i = Some g" for i g
    using that new ipc_okD(3) [OF ok, of i g] by (auto simp: new_segment_def split: if_splits)
qed

lemma shmget_ok: "ipc_ok s \<Longrightarrow> shmget key sz flags s = (r, s') \<Longrightarrow> ipc_ok s'"
  by (erule shmget_cases) (auto dest: new_segment_ok)

lemma shmget_gives:
  assumes "ipc_ok s" "shmget key sz flags s = (Some j, s')"
  shows "\<exists>g. segments s' j = Some g \<and> seg_key g = key \<and> sz \<le> seg_size g" "key \<noteq> IPC_PRIVATE \<Longrightarrow> key_ids s' key = Some j"
proof -
  have "(\<exists>g. segments s' j = Some g \<and> seg_key g = key \<and> sz \<le> seg_size g) \<and> (key \<noteq> IPC_PRIVATE \<longrightarrow> key_ids s' key = Some j)"
    using assms(2)
  proof (cases rule: shmget_cases)
    case (2 i g)
    with ipc_okD(2) [OF assms(1), of key i] show ?thesis by auto
  qed (auto simp: new_segment_def)
  then show "\<exists>g. segments s' j = Some g \<and> seg_key g = key \<and> sz \<le> seg_size g"
    "key \<noteq> IPC_PRIVATE \<Longrightarrow> key_ids s' key = Some j" by simp_all
qed

lemma shmget_holds:
  assumes "ipc_ok s" "shmget key sz flags s = (r, s')" "holds_segment k i len x s"
  shows "holds_segment k i len x s'"
  using assms(2)
proof (cases rule: shmget_cases)
  case 3
  have "i \<noteq> next_id s" "key_ids s k = Some i" using fresh_id(2) [OF assms(1), of k] assms(3) by (auto simp: holds_segment_def)
  with 3 assms(3) show ?thesis by (auto simp: new_segment_def holds_segment_def)
qed (use assms(3) in simp_all)

lemma shmget_none: "shmget key sz flags s = (None, s') \<Longrightarrow> s' = s"
  by (erule shmget_cases) simp_all

lemma shmget_absent:
  assumes "ipc_ok s" "key \<noteq> IPC_PRIVATE" "shmget key 0 flags s = (None, s')" "\<not> has_flag flags IPC_CREAT"
  shows "key_ids s' key = None"
proof (cases "key_ids s key")
  case (Some i)
  with ipc_okD(2) [OF assms(1) Some] assms(2-4) show ?thesis by (auto simp: shmget_def)
qed (use shmget_none [OF assms(3)] in simp)

lemma shmat_ok: "ipc_ok s \<Longrightarrow> shmat i s = Some s' \<Longrightarrow> ipc_ok s'"
  by (rule ipc_okI) (fastforce simp: shmat_def dest: ipc_dest split: if_splits)+

lemma shmat_holds: "shmat j s = Some s' \<Longrightarrow> holds_segment k i len x s \<Longrightarrow> holds_segment k i len x s'"
  by (auto simp: shmat_def holds_segment_def)

lemma shm_remove_ok: "ipc_ok s \<Longrightarrow> shm_remove i s = Some s' \<Longrightarrow> ipc_ok s'"
  by (rule ipc_okI) (auto simp: shm_remove_def dest: ipc_dest split: if_splits)

lemma shm_remove_holds: "shm_remove j s = Some s' \<Longrightarrow> j \<noteq> i \<Longrightarrow> holds_segment k i len x s \<Longrightarrow> holds_segment k i len x s'"
  by (auto simp: shm_remove_def holds_segment_def)

lemma place_object_ok: "ipc_ok s \<Longrightarrow> ipc_ok (place_object i x s)"
  by (rule ipc_okI) (auto simp: place_object_def dest: ipc_dest split: if_splits)

lemma place_object_holds: "j \<noteq> i \<Longrightarrow> holds_segment k i len x s \<Longrightarrow> holds_segment k i len x (place_object j y s)"
  by (simp add: place_object_def holds_segment_def)

lemma holds_key: "ipc_ok s \<Longrightarrow> holds_segment k i len x s \<Longrightarrow> segments s i = Some g \<Longrightarrow> seg_key g = k"
  using ipc_okD(2) by (fastforce simp: holds_segment_def)

text \<open>\<open>Init_shm\<close> touches the segments of two keys only, the one it asks for and that of number 0.\<close>

lemma Close_same_name_keeps:
  assumes "Close_same_name_shm_before_get ftok p s = Inr s'" "ipc_ok s"
  shows "ipc_ok s'" "ftok p 0 \<noteq> k \<Longrightarrow> holds_segment k i len x s \<Longrightarrow> holds_segment k i len x s'"
    "ftok p 0 \<noteq> IPC_PRIVATE \<Longrightarrow> key_ids s' (ftok p 0) = None"
proof -
  obtain r s1 where g: "shmget (ftok p 0) 0 SVSHM_MODE s = (r, s1)" by fastforce
  have ok: "ipc_ok s1" using shmget_ok [OF assms(2) g] .
  have rm: "\<exists>j. r = Some j \<and> shm_remove j s1 = Some s'" if "r \<noteq> None"
    using assms(1) g that
    by (auto simp: Close_same_name_shm_before_get_def Ftok_def Shmctl_RMID_def bindE_eq_Inr split: if_splits option.splits)
  have no: "s' = s1" if "r = None"
    using assms(1) g that by (auto simp: Close_same_name_shm_before_get_def Ftok_def split: if_splits)
  show "ipc_ok s'" using ok rm no shm_remove_ok by (cases r) auto
  show "holds_segment k i len x s'" if "ftok p 0 \<noteq> k" "holds_segment k i len x s"
  proof (cases r)
    case (Some j)
    have h: "holds_segment k i len x s1" using shmget_holds [OF assms(2) g that(2)] .
    have "j \<noteq> i" using shmget_gives(1) [OF assms(2), of "ftok p 0" 0 SVSHM_MODE j s1] g Some holds_key [OF ok h] that(1) by auto
    with rm Some h show ?thesis using shm_remove_holds by auto
  qed (use no shmget_holds [OF assms(2) g that(2)] in simp)
  show "key_ids s' (ftok p 0) = None" if "ftok p 0 \<noteq> IPC_PRIVATE"
  proof (cases r)
    case (Some j)
    then have "key_ids s1 (ftok p 0) = Some j" using shmget_gives(2) [OF assms(2)] g that by simp
    with rm Some show ?thesis by (auto simp: shm_remove_def)
  next
    case None
    with no g show ?thesis using shmget_absent [OF assms(2) that] by auto
  qed
qed

lemma Shmget_facts:
  assumes "Shmget key len flags s = Inr (i, s')" "ipc_ok s"
  shows "ipc_ok s'" "\<exists>g. segments s' i = Some g \<and> seg_key g = key \<and> len \<le> seg_size g"
    "key \<noteq> IPC_PRIVATE \<Longrightarrow> key_ids s' key = Some i"
    "holds_segment k j n x s \<Longrightarrow> holds_segment k j n x s'"
proof -
  have g: "shmget key len flags s = (Some i, s')"
    using assms(1) by (auto simp: Shmget_def split: prod.splits option.splits)
  show "ipc_ok s'" "\<exists>g. segments s' i = Some g \<and> seg_key g = key \<and> len \<le> seg_size g"
    "key \<noteq> IPC_PRIVATE \<Longrightarrow> key_ids s' key = Some i"
    "holds_segment k j n x s \<Longrightarrow> holds_segment k j n x s'"
    using shmget_ok [OF assms(2) g] shmget_gives [OF assms(2) g] shmget_holds [OF assms(2) g] by auto
qed

lemma Shmat_facts:
  assumes "Shmat i s = Inr s'" "ipc_ok s"
  shows "ipc_ok s'" "key_ids s' = key_ids s" "map_option seg_key (segments s' j) = map_option seg_key (segments s j)"
    "map_option seg_size (segments s' j) = map_option seg_size (segments s j)"
    "holds_segment k j n x s \<Longrightarrow> holds_segment k j n x s'"
proof -
  have a: "shmat i s = Some s'" using assms(1) by (simp add: Shmat_def split: option.splits)
  show "ipc_ok s'" "holds_segment k j n x s \<Longrightarrow> holds_segment k j n x s'"
    using shmat_ok [OF assms(2) a] shmat_holds [OF a] by auto
  show "key_ids s' = key_ids s" "map_option seg_key (segments s' j) = map_option seg_key (segments s j)"
    "map_option seg_size (segments s' j) = map_option seg_size (segments s j)"
    using a by (auto simp: shmat_def)
qed

lemma Init_shm_facts:
  assumes "Init_shm ftok len p m s = Inr (i, s')" "ipc_ok s"
  shows "ipc_ok s'" "\<exists>g. segments s' i = Some g \<and> seg_key g = ftok p m \<and> len \<le> seg_size g"
    "ftok p m \<noteq> IPC_PRIVATE \<Longrightarrow> key_ids s' (ftok p m) = Some i"
    "ftok p 0 \<noteq> k \<Longrightarrow> holds_segment k j n x s \<Longrightarrow> holds_segment k j n x s'"
    "ftok p 0 \<noteq> IPC_PRIVATE \<Longrightarrow> ftok p m \<noteq> ftok p 0 \<Longrightarrow> key_ids s' (ftok p 0) = None"
proof -
  obtain s1 s2 where c: "Close_same_name_shm_before_get ftok p s = Inr s1"
    and g: "Shmget (ftok p m) len (or (or SVSHM_MODE IPC_CREAT) O_EXCL) s1 = Inr (i, s2)" and a: "Shmat i s2 = Inr s'"
    using assms(1) by (auto simp: Init_shm_def Ftok_def bindE_eq_Inr split: if_splits)
  note C = Close_same_name_keeps [OF c assms(2)] and G = Shmget_facts [OF g Close_same_name_keeps(1) [OF c assms(2)]]
  note A = Shmat_facts [OF a G(1)]
  show "ipc_ok s'" by (rule A(1))
  show "\<exists>g. segments s' i = Some g \<and> seg_key g = ftok p m \<and> len \<le> seg_size g"
    using G(2) A(3) [of i] A(4) [of i] by auto
  show "ftok p m \<noteq> IPC_PRIVATE \<Longrightarrow> key_ids s' (ftok p m) = Some i" using G(3) A(2) by simp
  show "ftok p 0 \<noteq> k \<Longrightarrow> holds_segment k j n x s \<Longrightarrow> holds_segment k j n x s'" using C(2) G(4) A(5) by blast
  show "key_ids s' (ftok p 0) = None" if "ftok p 0 \<noteq> IPC_PRIVATE" "ftok p m \<noteq> ftok p 0"
  proof -
    have "key_ids s2 (ftok p 0) = key_ids s1 (ftok p 0)"
      using g that(2) by (auto simp: Shmget_def shmget_def new_segment_def split: if_splits option.splits prod.splits)
    with C(3) [OF that(1)] A(2) show ?thesis by simp
  qed
qed

text \<open>A segment somebody is attached to outlives its key.\<close>

definition attached :: "nat \<Rightarrow> int \<Rightarrow> shared_object \<Rightarrow> ipc \<Rightarrow> bool" where
  "attached i k x s \<longleftrightarrow> (\<exists>g. segments s i = Some g \<and> 0 < seg_nattch g \<and> seg_object g = x
     \<and> (seg_key g = k \<or> seg_key g = IPC_PRIVATE))"

lemma shmget_attached:
  assumes "ipc_ok s" "shmget key sz flags s = (r, s')" "attached i k x s"
  shows "attached i k x s'"
  using assms(2)
proof (cases rule: shmget_cases)
  case 3
  have "i \<noteq> next_id s" using fresh_id(1) [OF assms(1)] assms(3) by (auto simp: attached_def)
  with 3 assms(3) show ?thesis by (auto simp: new_segment_def attached_def)
qed (use assms(3) in simp_all)

lemma shmat_attached: "shmat j s = Some s' \<Longrightarrow> attached i k x s \<Longrightarrow> attached i k x s'"
  by (auto simp: shmat_def attached_def)

lemma shm_remove_attached: "shm_remove j s = Some s' \<Longrightarrow> attached i k x s \<Longrightarrow> attached i k x s'"
  by (auto simp: shm_remove_def attached_def)

lemma Init_shm_attached:
  assumes "Init_shm ftok len p m s = Inr (j, s')" "ipc_ok s" "attached i k x s"
  shows "attached i k x s'"
proof -
  obtain s1 s2 where c: "Close_same_name_shm_before_get ftok p s = Inr s1"
    and g: "Shmget (ftok p m) len (or (or SVSHM_MODE IPC_CREAT) O_EXCL) s1 = Inr (j, s2)" and a: "Shmat j s2 = Inr s'"
    using assms(1) by (auto simp: Init_shm_def Ftok_def bindE_eq_Inr split: if_splits)
  obtain r t where t: "shmget (ftok p 0) 0 SVSHM_MODE s = (r, t)" by fastforce
  have "attached i k x s1"
    using c t shmget_attached [OF assms(2) t assms(3)] shm_remove_attached
    by (auto simp: Close_same_name_shm_before_get_def Ftok_def Shmctl_RMID_def split: if_splits option.splits)
  moreover obtain q where "shmget (ftok p m) len (or (or SVSHM_MODE IPC_CREAT) O_EXCL) s1 = (q, s2)"
    using g by (auto simp: Shmget_def split: prod.splits option.splits)
  ultimately have "attached i k x s2" using shmget_attached [OF Close_same_name_keeps(1) [OF c assms(2)]] by blast
  with a show ?thesis using shmat_attached by (auto simp: Shmat_def split: option.splits)
qed

lemma Init_shm_attaches:
  assumes "Init_shm ftok len p m s = Inr (j, s')" "ipc_ok s"
  shows "attached j (ftok p m) y (place_object j y s')"
proof -
  obtain s1 s2 where g: "Shmget (ftok p m) len (or (or SVSHM_MODE IPC_CREAT) O_EXCL) s1 = Inr (j, s2)" "Shmat j s2 = Inr s'"
    using assms(1) by (auto simp: Init_shm_def Ftok_def bindE_eq_Inr split: if_splits)
  with Init_shm_facts(2) [OF assms] show ?thesis
    by (auto simp: attached_def place_object_def Shmat_def shmat_def split: option.splits if_splits)
qed

section \<open>Processes that come and go\<close>

lemma place_holds:
  assumes "key_ids s k = Some i" "segments s i = Some g" "len \<le> seg_size g"
  shows "holds_segment k i len x (place_object i x s)"
  using assms by (simp add: holds_segment_def place_object_def)

lemma sender_Init_facts:
  assumes "sender_Init_msg_queue ftok len m s = Inr (i, s')" "ipc_ok s"
  shows "ipc_ok s'"
    "ftok sender_shm_pathname m \<noteq> IPC_PRIVATE \<Longrightarrow> holds_segment (ftok sender_shm_pathname m) i len (Sender_queue Init_msg_queue) s'"
    "k \<noteq> ftok sender_shm_pathname 0 \<Longrightarrow> k \<noteq> ftok sender_shm_pathname m \<Longrightarrow>
       holds_segment k j n x s \<Longrightarrow> holds_segment k j n x s'"
    "ftok sender_shm_pathname 0 \<noteq> IPC_PRIVATE \<Longrightarrow> ftok sender_shm_pathname m \<noteq> ftok sender_shm_pathname 0 \<Longrightarrow>
       key_ids s' (ftok sender_shm_pathname 0) = None"
    "attached i (ftok sender_shm_pathname m) (Sender_queue Init_msg_queue) s'"
    "ftok sender_shm_pathname m \<noteq> k \<Longrightarrow> ftok sender_shm_pathname m \<noteq> IPC_PRIVATE \<Longrightarrow>
       attached j k x s \<Longrightarrow> attached j k x s'"
proof -
  obtain s1 where i: "Init_shm ftok len sender_shm_pathname m s = Inr (i, s1)"
    and s': "s' = place_object i (Sender_queue Init_msg_queue) s1"
    using assms(1) by (auto simp: sender_Init_msg_queue_def bindE_eq_Inr)
  note I = Init_shm_facts [OF i assms(2)]
  let ?key = "ftok sender_shm_pathname m"
  obtain g where g: "segments s1 i = Some g" "seg_key g = ?key" "len \<le> seg_size g" using I(2) by blast
  show "ipc_ok s'" using place_object_ok [OF I(1)] s' by simp
  show "?key \<noteq> IPC_PRIVATE \<Longrightarrow> holds_segment ?key i len (Sender_queue Init_msg_queue) s'"
    using place_holds [OF I(3) g(1,3)] s' by simp
  show "holds_segment k j n x s'" if "k \<noteq> ftok sender_shm_pathname 0" "k \<noteq> ?key" "holds_segment k j n x s"
  proof -
    have h: "holds_segment k j n x s1" using I(4) that(1,3) by metis
    have "i \<noteq> j" using holds_key [OF I(1) h] g(1,2) that(2) by auto
    from place_object_holds [OF this h] s' show ?thesis by simp
  qed
  show "ftok sender_shm_pathname 0 \<noteq> IPC_PRIVATE \<Longrightarrow> ?key \<noteq> ftok sender_shm_pathname 0 \<Longrightarrow>
       key_ids s' (ftok sender_shm_pathname 0) = None"
    using I(5) s' by (simp add: place_object_def)
  show "attached i ?key (Sender_queue Init_msg_queue) s'" using Init_shm_attaches [OF i assms(2)] s' by simp
  show "attached j k x s'" if "?key \<noteq> k" "?key \<noteq> IPC_PRIVATE" "attached j k x s"
  proof -
    have "attached j k x s1" using Init_shm_attached [OF i assms(2) that(3)] .
    then show ?thesis using g(1,2) that(1,2) s' by (auto simp: attached_def place_object_def)
  qed
qed

lemma server_Init_facts:
  assumes "server_Init_msg_queue ftok len s = Inr (i, s')" "ipc_ok s"
  shows "ipc_ok s'" "k \<noteq> ftok server_shm_pathname 0 \<Longrightarrow> holds_segment k j n x s \<Longrightarrow> holds_segment k j n x s'"
    "ftok server_shm_pathname 0 \<noteq> IPC_PRIVATE \<Longrightarrow> holds_segment (ftok server_shm_pathname 0) i len
       (Server_queues (new_MsgQueue Q_LEN 1 new_ReqData) (new_MsgQueue QueryResult_Q_LEN 1 (new_QueryResult 0))) s'"
proof -
  let ?y = "Server_queues (new_MsgQueue Q_LEN 1 new_ReqData) (new_MsgQueue QueryResult_Q_LEN 1 (new_QueryResult 0))"
  obtain s1 where i: "Init_shm ftok len server_shm_pathname 0 s = Inr (i, s1)" and s': "s' = place_object i ?y s1"
    using assms(1) by (auto simp: server_Init_msg_queue_def bindE_eq_Inr)
  note I = Init_shm_facts [OF i assms(2)]
  show "ipc_ok s'" using place_object_ok [OF I(1)] s' by simp
  show "holds_segment k j n x s'" if "k \<noteq> ftok server_shm_pathname 0" "holds_segment k j n x s"
  proof -
    have h: "holds_segment k j n x s1" using I(4) that by metis
    have "i \<noteq> j" using holds_key [OF I(1) h] I(2) that(1) by auto
    from place_object_holds [OF this h] s' show ?thesis by simp
  qed
  show "holds_segment (ftok server_shm_pathname 0) i len ?y s'" if "ftok server_shm_pathname 0 \<noteq> IPC_PRIVATE"
    using I(2) place_holds [OF I(3) [OF that]] s' by blast
qed

lemma Get_shm_facts:
  assumes "Get_shm ftok len p m s = Inr (i, s')" "ipc_ok s"
  shows "ipc_ok s'" "holds_segment k j n x s \<Longrightarrow> holds_segment k j n x s'"
proof -
  obtain s1 where g: "Shmget (ftok p m) len SVSHM_MODE s = Inr (i, s1)" and a: "Shmat i s1 = Inr s'"
    using assms(1) by (auto simp: Get_shm_def Ftok_def bindE_eq_Inr split: if_splits)
  note G = Shmget_facts [OF g assms(2)]
  show "ipc_ok s'" "holds_segment k j n x s \<Longrightarrow> holds_segment k j n x s'"
    using Shmat_facts [OF a G(1)] G(4) by auto
qed

lemma Get_shm_holds:
  assumes "holds_segment (ftok p m) i len x s" "ftok p m \<noteq> IPC_PRIVATE" "ftok p m \<noteq> -1"
  shows "\<exists>s'. Get_shm ftok len p m s = Inr (i, s') \<and> object_at i s' = Some x"
  using assms by (auto simp: holds_segment_def Get_shm_def Ftok_def Shmget_def shmget_def Shmat_def shmat_def object_at_def)

text \<open>The four kinds of process that attach, and a sequence of their starts.\<close>

datatype start = Start_sender int | Start_client int | Start_server | Start_processor

definition start_process :: "(string \<Rightarrow> int \<Rightarrow> int) \<Rightarrow> nat \<Rightarrow> nat \<Rightarrow> start \<Rightarrow> ipc \<Rightarrow> ipc res" where
  "start_process ftok len qlen c s = (case c of
       Start_sender m \<Rightarrow> bindE (sender_Init_msg_queue ftok len m s) (\<lambda>(_, s'). Inr s')
     | Start_client m \<Rightarrow> bindE (service_attach ftok len m s) (\<lambda>(_, _, s'). Inr s')
     | Start_server \<Rightarrow> bindE (server_Init_msg_queue ftok qlen s) (\<lambda>(_, s'). Inr s')
     | Start_processor \<Rightarrow> bindE (processor_Init_msg_queue ftok qlen s) (\<lambda>(_, _, s'). Inr s'))"

fun start_processes :: "(string \<Rightarrow> int \<Rightarrow> int) \<Rightarrow> nat \<Rightarrow> nat \<Rightarrow> start list \<Rightarrow> ipc \<Rightarrow> ipc res" where
  "start_processes ftok len qlen [] s = Inr s"
| "start_processes ftok len qlen (c # cs) s = bindE (start_process ftok len qlen c s) (start_processes ftok len qlen cs)"

text \<open>Whether a start removes or makes anew the segment of a key.\<close>

fun resets :: "(string \<Rightarrow> int \<Rightarrow> int) \<Rightarrow> int \<Rightarrow> start \<Rightarrow> bool" where
  "resets ftok k (Start_sender m) \<longleftrightarrow> k = ftok sender_shm_pathname 0 \<or> k = ftok sender_shm_pathname m"
| "resets ftok k Start_server \<longleftrightarrow> k = ftok server_shm_pathname 0"
| "resets ftok k _ \<longleftrightarrow> False"

lemma service_attach_shm:
  assumes "service_attach ftok len m s = Inr (q, i, s')"
  shows "Get_shm ftok len sender_shm_pathname m s = Inr (i, s')"
proof -
  obtain j t where g: "Get_shm ftok len sender_shm_pathname m s = Inr (j, t)"
    using assms by (auto simp: service_attach_def bindE_eq_Inr)
  then show ?thesis
    using assms by (cases "object_at j t"; cases "the (object_at j t)") (auto simp: service_attach_def split: if_splits)
qed

lemma processor_shm:
  assumes "processor_Init_msg_queue ftok len s = Inr (q, i, s')"
  shows "Get_shm ftok len server_shm_pathname 0 s = Inr (i, s')"
proof -
  obtain j t where g: "Get_shm ftok len server_shm_pathname 0 s = Inr (j, t)"
    using assms by (auto simp: processor_Init_msg_queue_def bindE_eq_Inr)
  then show ?thesis
    using assms by (cases "object_at j t"; cases "the (object_at j t)") (auto simp: processor_Init_msg_queue_def split: if_splits)
qed

lemma start_process_facts:
  assumes "start_process ftok len qlen c s = Inr s'" "ipc_ok s" "\<not> resets ftok k c" "holds_segment k j n x s"
  shows "ipc_ok s' \<and> holds_segment k j n x s'"
proof (cases c)
  case (Start_sender m)
  with assms sender_Init_facts(1,3) show ?thesis by (fastforce simp: start_process_def bindE_eq_Inr)
next
  case Start_server
  with assms server_Init_facts show ?thesis by (fastforce simp: start_process_def bindE_eq_Inr)
next
  case (Start_client m)
  then obtain i where "Get_shm ftok len sender_shm_pathname m s = Inr (i, s')"
    using assms(1) service_attach_shm by (fastforce simp: start_process_def bindE_eq_Inr)
  from Get_shm_facts(1) [OF this assms(2)] Get_shm_facts(2) [OF this assms(2,4)] show ?thesis ..
next
  case Start_processor
  then obtain i where "Get_shm ftok qlen server_shm_pathname 0 s = Inr (i, s')"
    using assms(1) processor_shm by (fastforce simp: start_process_def bindE_eq_Inr)
  from Get_shm_facts(1) [OF this assms(2)] Get_shm_facts(2) [OF this assms(2,4)] show ?thesis ..
qed

lemma start_processes_facts:
  "start_processes ftok len qlen cs s = Inr s' \<Longrightarrow> ipc_ok s \<Longrightarrow> \<forall>c \<in> set cs. \<not> resets ftok k c \<Longrightarrow>
   holds_segment k j n x s \<Longrightarrow> holds_segment k j n x s'"
proof (induction cs arbitrary: s)
  case (Cons c cs)
  then show ?case using start_process_facts [of ftok len qlen c s] by (auto simp: bindE_eq_Inr)
qed simp

lemma start_process_ok: "start_process ftok len qlen c s = Inr s' \<Longrightarrow> ipc_ok s \<Longrightarrow> ipc_ok s'"
  using sender_Init_facts(1) server_Init_facts(1) Get_shm_facts(1) service_attach_shm processor_shm
  by (cases c) (fastforce simp: start_process_def bindE_eq_Inr)+

lemma start_processes_ok: "start_processes ftok len qlen cs s = Inr s' \<Longrightarrow> ipc_ok s \<Longrightarrow> ipc_ok s'"
  by (induction cs arbitrary: s) (auto simp: bindE_eq_Inr dest: start_process_ok)

lemma Init_queue_isInit: "isInit Init_msg_queue"
  by (simp add: isInit_def Init_msg_queue_def new_MsgQueue_def CLIENT_Q_LEN_def)

lemma Init_shm_ftok: "Init_shm ftok len p m s = Inr r \<Longrightarrow> ftok p m \<noteq> -1"
  by (auto simp: Init_shm_def Ftok_def bindE_eq_Inr split: if_splits)

lemma sender_Init_ftok: "sender_Init_msg_queue ftok len m s = Inr r \<Longrightarrow> ftok sender_shm_pathname m \<noteq> -1"
  using Init_shm_ftok by (fastforce simp: sender_Init_msg_queue_def bindE_eq_Inr)

text \<open>
  A client reaches its sender.  Once a sender has started, a client of the same number is given
  the queue this sender made, whichever other servers, processors, clients and senders have started
  since, as long as none of them removes or remakes the sender's own segment.
\<close>

lemma client_reaches_its_sender:
  assumes "ipc_ok s" and "ftok sender_shm_pathname m \<noteq> IPC_PRIVATE"
    and "sender_Init_msg_queue ftok len m s = Inr (i, s1)"
    and "start_processes ftok len qlen cs s1 = Inr s2"
    and "\<forall>c \<in> set cs. \<not> resets ftok (ftok sender_shm_pathname m) c"
  shows "\<exists>s3. service_attach ftok len m s2 = Inr (Init_msg_queue, i, s3)"
proof -
  note S = sender_Init_facts [OF assms(3,1)]
  have h: "holds_segment (ftok sender_shm_pathname m) i len (Sender_queue Init_msg_queue) s2"
    using start_processes_facts [OF assms(4) S(1) assms(5) S(2) [OF assms(2)]] .
  obtain s3 where "Get_shm ftok len sender_shm_pathname m s2 = Inr (i, s3)"
    "object_at i s3 = Some (Sender_queue Init_msg_queue)"
    using Get_shm_holds [of ftok sender_shm_pathname m i len, OF h assms(2) sender_Init_ftok [OF assms(3)]] by blast
  then show ?thesis by (simp add: service_attach_def Init_queue_isInit)
qed

definition sample_ftok :: "string \<Rightarrow> int \<Rightarrow> int" where
  "sample_ftok p i = (if p = sender_shm_pathname then 1000 else 2000) + i"

lemma sample_keys: "sample_ftok sender_shm_pathname m = 1000 + m" "sample_ftok server_shm_pathname m = 2000 + m"
  by (simp_all add: sample_ftok_def sender_shm_pathname_def server_shm_pathname_def)

lemmas ipc_eval = sender_Init_msg_queue_def server_Init_msg_queue_def service_attach_def processor_Init_msg_queue_def
  Init_shm_def Get_shm_def Close_same_name_shm_before_get_def Shmget_def Shmat_def Shmctl_RMID_def Ftok_def
  shmget_def shmat_def shm_remove_def new_segment_def place_object_def object_at_def sample_keys IPC_PRIVATE_def

text \<open>
  C34. Starting a second sender cuts off the first.  \<open>Init_shm\<close> clears a left-over segment, but always
  that of number 0: when a sender of another number starts, the segment of a running sender 0 loses its
  key.  The sender still reads the queue it made, and every client of number 0 that starts from then
  on ends with an error.
\<close>

theorem second_sender_cuts_off_first:
  assumes "ipc_ok s" and "ftok sender_shm_pathname 0 \<noteq> IPC_PRIVATE" and "ftok sender_shm_pathname m \<noteq> IPC_PRIVATE"
    and "ftok sender_shm_pathname m \<noteq> ftok sender_shm_pathname 0"
    and "sender_Init_msg_queue ftok len 0 s = Inr (i, s1)" and "sender_Init_msg_queue ftok len m s1 = Inr (j, s2)"
  shows "service_attach ftok len 0 s2 = Inl Exited \<and> object_at i s2 = Some (Sender_queue Init_msg_queue)"
proof -
  note A = sender_Init_facts [OF assms(5,1)] and B = sender_Init_facts [OF assms(6) sender_Init_facts(1) [OF assms(5,1)]]
  have "key_ids s2 (ftok sender_shm_pathname 0) = None" using B(4) assms(2,4) by simp
  then have "service_attach ftok len 0 s2 = Inl Exited"
    using assms(2) sender_Init_ftok [OF assms(5)]
    by (simp add: service_attach_def Get_shm_def Ftok_def Shmget_def shmget_def)
  moreover have "attached i (ftok sender_shm_pathname 0) (Sender_queue Init_msg_queue) s2"
    using B(6) [OF assms(4,3)] A(5) by blast
  ultimately show ?thesis by (auto simp: attached_def object_at_def)
qed

theorem second_sender_cuts_off_first_witness:
  "\<exists>s1 s2. sender_Init_msg_queue sample_ftok 9 0 boot = Inr (0, s1) \<and> sender_Init_msg_queue sample_ftok 9 1 s1 = Inr (1, s2)
     \<and> service_attach sample_ftok 9 0 s2 = Inl Exited"
proof -
  have "\<exists>s1 s2. sender_Init_msg_queue sample_ftok 9 0 boot = Inr (0, s1) \<and> sender_Init_msg_queue sample_ftok 9 1 s1 = Inr (1, s2)"
    by (simp add: ipc_eval boot_def)
  then obtain s1 s2 where s: "sender_Init_msg_queue sample_ftok 9 0 boot = Inr (0, s1)"
    "sender_Init_msg_queue sample_ftok 9 1 s1 = Inr (1, s2)" by blast
  have "sample_ftok sender_shm_pathname 0 \<noteq> IPC_PRIVATE" "sample_ftok sender_shm_pathname 1 \<noteq> IPC_PRIVATE"
    "sample_ftok sender_shm_pathname 1 \<noteq> sample_ftok sender_shm_pathname 0"
    by (simp_all add: sample_keys IPC_PRIVATE_def)
  from second_sender_cuts_off_first [OF boot_ok this s] s show ?thesis by blast
qed

text \<open>
  A sender of another number than 0 that is started twice is given the segment it already has, since
  \<open>O_EXCL\<close> has no effect there, and makes its queue anew over whatever was waiting in it.
\<close>

lemma restarted_sender_wipes_queue:
  assumes "ipc_ok s" "holds_segment (ftok sender_shm_pathname m) i len (Sender_queue q) s"
    "ftok sender_shm_pathname m \<noteq> IPC_PRIVATE" "ftok sender_shm_pathname m \<noteq> ftok sender_shm_pathname 0"
    "sender_Init_msg_queue ftok len m s = Inr (j, s')"
  shows "j = i \<and> object_at i s' = Some (Sender_queue Init_msg_queue)"
proof -
  obtain s1 where i: "Init_shm ftok len sender_shm_pathname m s = Inr (j, s1)"
    using assms(5) by (auto simp: sender_Init_msg_queue_def bindE_eq_Inr)
  have "key_ids s1 (ftok sender_shm_pathname m) = Some i"
    using Init_shm_facts(4) [OF i assms(1) _ assms(2)] assms(4) by (auto simp: holds_segment_def)
  moreover have "key_ids s1 (ftok sender_shm_pathname m) = Some j" using Init_shm_facts(3) [OF i assms(1,3)] .
  ultimately have "j = i" by simp
  with sender_Init_facts(5) [OF assms(5,1)] show ?thesis by (auto simp: attached_def object_at_def)
qed

end
