(* ===== verification/Server_Inv.thy ===== *)
theory Server_Inv
  imports Log_Server
begin

text \<open>
  The types of the server's state (\<^verbatim>\<open>src/log_server/log_server.cpp\<close>): the request queue holds
  requests the parser has filled, the result queue and the lists of waiting answers hold well-formed
  blocks, no list of waiting blocks is empty, the event loop counts its descriptors.  Every operation
  of the server keeps them and none runs into undefined behaviour, as long as no client fills the
  whole receive buffer.
\<close>

section \<open>Outcomes that are not undefined\<close>

text \<open>A result that satisfies a predicate, or an orderly end of the process, or a wait.\<close>

fun sound :: "('a \<Rightarrow> bool) \<Rightarrow> 'a res \<Rightarrow> bool" where
  "sound P (Inl e) \<longleftrightarrow> e \<noteq> UB"
| "sound P (Inr x) \<longleftrightarrow> P x"

lemma sound_bind: "sound P m \<Longrightarrow> (\<And>x. P x \<Longrightarrow> sound Q (f x)) \<Longrightarrow> sound Q (bindE m f)"
  by (cases m) auto

lemma sound_mono: "sound P m \<Longrightarrow> (\<And>x. P x \<Longrightarrow> Q x) \<Longrightarrow> sound Q m"
  by (cases m) auto

section \<open>Queues of one-cell messages\<close>

definition carries :: "('a \<Rightarrow> bool) \<Rightarrow> 'a MsgQueue \<Rightarrow> bool" where
  "carries P q \<longleftrightarrow> queue_inv q \<and> one_msg_size q = 1 \<and> (\<forall>m \<in> set (contents q). \<exists>x. m = [x] \<and> P x)"

lemma carries_new: "0 < n \<Longrightarrow> carries P (new_MsgQueue n 1 z)"
  using new_MsgQueue_inv [of n 1 z] by (simp add: carries_def) (simp add: new_MsgQueue_def)

lemma carries_send:
  assumes "carries P q" "P x" "WriteToMsgQueue_Wait (Some [x]) 0 q = Some (k, q')"
  shows "carries P q'"
proof -
  have room: "\<not> Full q" using assms(3) by (auto simp: WriteToMsgQueue_Wait_def split: if_splits)
  obtain q1 where q1: "send [x] q = (True, q1)" "queue_inv q1" "contents q1 = contents q @ [[x]]"
    "one_msg_size q1 = one_msg_size q"
    using send_free [of q "[x]"] assms(1) room by (auto simp: carries_def)
  then have "q' = q1"
    using assms(3) room by (auto simp: send_def WriteToMsgQueue_def WriteToMsgQueue_Wait_def Let_def)
  with q1 assms(1,2) show ?thesis by (auto simp: carries_def)
qed

lemma carries_receive:
  assumes "carries P q"
  obtains "ReadAndDeleteFromMsgQueue q = Some (0, None, q)"
  | n x q' where "ReadAndDeleteFromMsgQueue q = Some (Suc n, Some [x], q')" "P x" "carries P q'"
proof (cases "contents q")
  case Nil
  with assms read_empty [of q] that(1) show ?thesis by (simp add: carries_def)
next
  case (Cons m ms)
  obtain n q' where r: "ReadAndDeleteFromMsgQueue q = Some (Suc n, Some m, q')" "queue_inv q'" "contents q' = ms"
    "one_msg_size q' = one_msg_size q"
    using read_item [of q m ms] assms Cons by (auto simp: carries_def)
  obtain x where "m = [x]" "P x" using assms Cons by (auto simp: carries_def)
  with r that(2) assms Cons show ?thesis by (simp add: carries_def)
qed

section \<open>The server's state\<close>

definition server_wf :: "log_server \<Rightarrow> bool" where
  "server_wf s \<longleftrightarrow> epoll_ok (epoll_obj s) \<and> carries req_wf (msg_queue s) \<and> carries block_ok (result_queue s)
     \<and> (\<forall>fd rs. fd_result_map s fd = Some rs \<longrightarrow> rs \<noteq> [] \<and> list_all block_ok rs)"

lemma server_wf_maps:
  "server_wf s \<Longrightarrow> server_wf (Insert_client_id_fd_map c fd s)"
  "server_wf s \<Longrightarrow> server_wf (Del_fd_from_result_index_strucure fd s)"
  "server_wf s \<Longrightarrow> server_wf (close_fd fd s)"
  "server_wf s \<Longrightarrow> block_ok r \<Longrightarrow> server_wf (Insert_fd_qurey_result fd r s)"
  by (auto simp: server_wf_def Insert_client_id_fd_map_def Del_fd_from_result_index_strucure_def Delete_client_id_fd_map_def
      Del_fd_form_fd_result_map_def close_fd_def Insert_fd_qurey_result_def split: option.splits)

lemma on_epoll_sound:
  assumes "server_wf s"
  shows "sound server_wf (on_epoll (AddFd fd) s)" "sound server_wf (on_epoll (DelFd fd) s)"
    "sound server_wf (on_epoll (SetRead fd) s)" "sound server_wf (on_epoll (SetWrite fd) s)"
proof -
  have keep: "sound server_wf (on_epoll f s)"
    if "\<And>e. f (epoll_obj s) = Inr e \<Longrightarrow> epoll_ok e" "f (epoll_obj s) \<noteq> Inl UB" for f
    using that assms by (cases "f (epoll_obj s)") (auto simp: on_epoll_def server_wf_def)
  have e: "epoll_ok (epoll_obj s)" using assms by (simp add: server_wf_def)
  show "sound server_wf (on_epoll (AddFd fd) s)"
    using AddFd_ok [OF e] by (intro keep) (auto simp: AddFd_def)
  show "sound server_wf (on_epoll (DelFd fd) s)"
    using DelFd_ok [OF e] by (intro keep) (auto simp: DelFd_def)
  show "sound server_wf (on_epoll (SetRead fd) s)"
    using ModifyFdMode_ok [OF e] by (intro keep) (auto simp: SetRead_def ModifyFdMode_def)
  show "sound server_wf (on_epoll (SetWrite fd) s)"
    using ModifyFdMode_ok [OF e] by (intro keep) (auto simp: SetWrite_def ModifyFdMode_def)
qed

section \<open>Reading requests\<close>

text \<open>What a connection gives in one event, all calls together, is shorter than the buffer.\<close>

fun received :: "recv_outcome list \<Rightarrow> nat" where
  "received [] = 0"
| "received (Received bytes # os) = length bytes + received os"
| "received (_ # os) = received os"

lemma recv_loop_short:
  "recv_loop os i buf = Some (d, h, n, buf', os') \<Longrightarrow> i + received os < BUFFER_SIZE \<Longrightarrow> length buf = BUFFER_SIZE \<Longrightarrow>
   last buf = nul \<Longrightarrow> d \<and> length buf' = BUFFER_SIZE \<and> last buf' = nul"
proof (induction os i buf rule: recv_loop.induct)
  case (4 bytes os i buf)
  have len: "i + length bytes < BUFFER_SIZE" using "4.prems"(2) by simp
  then have got: "take (BUFFER_SIZE - i) bytes = bytes" by simp
  show ?case
  proof (cases "bytes = []")
    case False
    have buf': "length (buf_write i bytes buf) = BUFFER_SIZE" "last (buf_write i bytes buf) = nul"
      using len "4.prems"(3,4) by (auto simp: buf_write_def last_append)
    have "recv_loop os (i + length bytes) (buf_write i bytes buf) = Some (d, h, n, buf', os')"
      using "4.prems"(1) False len got by (simp add: Let_def)
    with "4.IH" [OF got [symmetric] _ refl refl] False len got "4.prems"(2) buf' show ?thesis by simp
  qed (use 4 in \<open>simp add: Let_def\<close>)
qed auto

lemma Write_msg_sound:
  assumes "server_wf s" "length buf = BUFFER_SIZE" "last buf = nul"
  shows "sound (\<lambda>(_, s'). server_wf s') (Write_msg_to_msgqueue buf fd s)"
proof -
  have buf: "buf \<noteq> []" "5 \<le> length buf" using assms(2) by (auto simp: BUFFER_SIZE_def)
  obtain q where q: "ParseReq buf = Inr q" "\<forall>r. q = Some r \<longrightarrow> req_wf r"
    using ParseReq_ok [OF assms(3) buf(2)] by blast
  have one: "BUFFER_SIZE div STR_LEN = Suc 0" by (simp add: BUFFER_SIZE_def STR_LEN_def)
  have filled: "sound (\<lambda>(_, s'). server_wf s') (case WriteToMsgQueue_Wait (Some [r]) 0 (msg_queue s') of
       None \<Rightarrow> Inl Waits | Some (_, q) \<Rightarrow> write_msgs 0 j b fd need (s'\<lparr>msg_queue := q\<rparr>))"
    if "server_wf s'" "req_wf r" for s' r j b and need :: bool
    using that carries_send [of req_wf "msg_queue s'" r] by (auto simp: server_wf_def split: option.split)
  show ?thesis
    using buf(1) q assms(1) server_wf_maps(1) [OF assms(1)]
    by (cases buf; cases q) (auto simp: Write_msg_to_msgqueue_def one Let_def intro!: filled)
qed

lemma Read_fd_work_sound:
  assumes "server_wf s" "received os < BUFFER_SIZE"
  shows "sound server_wf (Read_fd_work fd os s)"
proof (cases "recv_loop os 0 (replicate BUFFER_SIZE nul)")
  case None
  then show ?thesis unfolding Read_fd_work_def by (subst read_rounds.simps) simp
next
  case (Some r)
  obtain d h n buf' os' where r: "r = (d, h, n, buf', os')" by (cases r)
  have b: "d" "length buf' = BUFFER_SIZE" "last buf' = nul"
    using recv_loop_short [OF Some [unfolded r]] assms(2) by (simp_all add: BUFFER_SIZE_def)
  have drop: "sound server_wf (if h then bindE (on_epoll (DelFd fd) s)
      (\<lambda>s'. Inr (close_fd fd (Del_fd_from_result_index_strucure fd s'))) else Inr s)"
    using assms(1) by (auto intro!: sound_bind [OF on_epoll_sound(2)] simp: server_wf_maps)
  have ack: "server_wf s' \<Longrightarrow> server_wf (s'\<lparr>fd_ack_set := X\<rparr>)" for s' X by (simp add: server_wf_def)
  have parse: "sound server_wf (if n = 0 then Inr s1 else bindE (Write_msg_to_msgqueue buf' fd s1) (\<lambda>(need, s2).
      if need then Inr s2 else bindE (on_epoll (SetWrite fd) s2) (\<lambda>s3. Inr (s3\<lparr>fd_ack_set := insert fd (fd_ack_set s3)\<rparr>))))"
    if "server_wf s1" for s1
    using that by (auto intro!: sound_bind [OF Write_msg_sound [OF that b(2,3)]] sound_bind [OF on_epoll_sound(4)] ack)
  show ?thesis
    unfolding Read_fd_work_def
    by (subst read_rounds.simps, simp only: Some r option.case prod.case, rule sound_bind [OF drop])
       (rule sound_bind [OF parse], use b(1) in simp_all)
qed

section \<open>Writing answers\<close>

lemma MySend_sound: "server_wf s \<Longrightarrow> sound (\<lambda>s'. server_wf s' \<and> fd_result_map s' = fd_result_map s) (MySend fd msg s)"
  by (auto simp: MySend_def server_wf_def split: option.split)

lemma send_blocks_sound:
  "server_wf s \<Longrightarrow> sound server_wf (send_blocks fd rs s)"
proof (induction rs arbitrary: s)
  case (Cons r rs)
  show ?case using Cons.IH by (auto intro!: sound_bind [OF MySend_sound [OF Cons.prems]])
qed simp

lemma Ack_to_fd_sound: "server_wf s \<Longrightarrow> sound server_wf (Ack_to_fd fd s)"
proof -
  assume s: "server_wf s"
  have ack: "server_wf s' \<Longrightarrow> server_wf (s'\<lparr>fd_ack_set := X\<rparr>)" for s' X by (simp add: server_wf_def)
  show ?thesis
    using s by (auto simp: Ack_to_fd_def intro!: sound_bind [OF MySend_sound] on_epoll_sound ack)
qed

text \<open>The list of waiting blocks is never empty, so the last block it moves to the front is there.\<close>

lemma Result_to_fd_sound:
  assumes "server_wf s"
  shows "sound server_wf (Result_to_fd fd s)"
proof (cases "fd_result_map s fd")
  case (Some rs)
  have ne: "rs \<noteq> []" using assms Some by (simp add: server_wf_def)
  have finish: "sound server_wf (if f then bindE (on_epoll (DelFd fd) (Del_fd_from_result_index_strucure fd s2))
      (\<lambda>s4. Inr (close_fd fd s4)) else Inr (Del_fd_from_result_index_strucure fd s2))" if "server_wf s2" for s2 f
    using server_wf_maps(2) [OF that] by (auto intro!: sound_bind [OF on_epoll_sound(2)] simp: server_wf_maps(3))
  have rest: "sound server_wf (bindE (send_blocks fd ps x) (\<lambda>s2. if f then bindE (on_epoll (DelFd fd) (Del_fd_from_result_index_strucure fd s2))
      (\<lambda>s4. Inr (close_fd fd s4)) else Inr (Del_fd_from_result_index_strucure fd s2)))" if "server_wf x" for x ps f
    by (rule sound_bind [OF send_blocks_sound [OF that] finish])
  show ?thesis
    unfolding Result_to_fd_def Let_def
    by (simp only: Some option.case, rule sound_bind [OF MySend_sound [OF assms]])
       (simp only: ne if_False, rule rest, simp)
qed (use assms in \<open>simp add: Result_to_fd_def\<close>)

lemma Write_fd_work_sound: "server_wf s \<Longrightarrow> sound server_wf (Write_fd_work fd s)"
  unfolding Write_fd_work_def by (rule sound_bind [OF Ack_to_fd_sound Result_to_fd_sound])

section \<open>A turn of the loop\<close>

lemma read_results_sound: "server_wf s \<Longrightarrow> sound (\<lambda>(_, _, s'). server_wf s') (read_results k n fds s)"
proof (induction k arbitrary: n fds s)
  case (Suc k)
  have c: "carries block_ok (result_queue s)" using Suc.prems by (simp add: server_wf_def)
  show ?case
  proof (cases rule: carries_receive [OF c])
    case 1
    then show ?thesis using Suc.prems by simp
  next
    case (2 m r q')
    let ?s1 = "s\<lparr>result_queue := q'\<rparr>"
    have s1: "server_wf ?s1" using Suc.prems 2(3) by (simp add: server_wf_def)
    show ?thesis
      using 2(1) Suc.IH [OF s1] Suc.IH [OF server_wf_maps(4) [OF s1 2(2)]] by (simp add: Let_def)
  qed
qed simp

lemma set_writes_sound: "server_wf s \<Longrightarrow> sound server_wf (set_writes fds s)"
  by (induction fds arbitrary: s) (auto intro!: sound_bind [OF on_epoll_sound(4)])

lemma add_fds_sound: "server_wf s \<Longrightarrow> sound server_wf (add_fds fds s)"
  by (induction fds arbitrary: s) (auto intro!: sound_bind [OF on_epoll_sound(1)])

fun event_short :: "epoll_event \<Rightarrow> bool" where
  "event_short (Ready fd (Some os) w) \<longleftrightarrow> received os < BUFFER_SIZE"
| "event_short _ \<longleftrightarrow> True"

lemma DoWithEpoll_sound: "list_all event_short es \<Longrightarrow> server_wf s \<Longrightarrow> sound server_wf (DoWithEpoll es s)"
proof (induction es arbitrary: s rule: list.induct)
  case (Cons e es)
  show ?case
  proof (cases e)
    case (Accepted fds)
    then show ?thesis using Cons by (auto intro!: sound_bind [OF add_fds_sound])
  next
    case (Ready fd inp w)
    have "sound server_wf (case inp of None \<Rightarrow> Inr s | Some os \<Rightarrow> Read_fd_work fd os s)"
      using Cons.prems Ready Read_fd_work_sound by (auto split: option.split)
    moreover have "server_wf s1 \<Longrightarrow> sound server_wf (if w then Write_fd_work fd s1 else Inr s1)" for s1
      using Write_fd_work_sound by simp
    ultimately show ?thesis using Cons Ready by (auto intro!: sound_bind)
  qed
qed simp

lemma server_turn_sound:
  assumes "server_wf s" "list_all event_short events"
  shows "sound server_wf (server_turn events s)"
proof -
  have "sound server_wf (if n > 0 then set_writes fds s1 else Inr s1)" if "server_wf s1" for n :: nat and fds s1
    using that set_writes_sound by simp
  then show ?thesis
    unfolding server_turn_def Read_result_queue_def
    by (intro sound_bind [OF read_results_sound [OF assms(1)]])
       (auto intro!: sound_bind DoWithEpoll_sound [OF assms(2)])
qed

text \<open>
  The life of a server: it starts with its listening descriptor, takes turns, and between them the
  kernel readies the outcomes of its calls, the processor takes requests and puts blocks.
\<close>

inductive server_life :: "log_server \<Rightarrow> bool" where
  started: "AddFd listen_fd new_Epoll_Obj = Inr e \<Longrightarrow> server_life (new_log_server\<lparr>epoll_obj := e\<rparr>)"
| kernel: "server_life s \<Longrightarrow> server_life (s\<lparr>sends := os\<rparr>)"
| request_taken: "server_life s \<Longrightarrow> ReadAndDeleteFromMsgQueue (msg_queue s) = Some (n, m, q) \<Longrightarrow> server_life (s\<lparr>msg_queue := q\<rparr>)"
| block_put: "server_life s \<Longrightarrow> block_ok r \<Longrightarrow> WriteToMsgQueue_Wait (Some [r]) 0 (result_queue s) = Some (n, q) \<Longrightarrow>
    server_life (s\<lparr>result_queue := q\<rparr>)"
| turn: "server_life s \<Longrightarrow> list_all event_short events \<Longrightarrow> server_turn events s = Inr s' \<Longrightarrow> server_life s'"

lemma server_life_wf: "server_life s \<Longrightarrow> server_wf s"
proof (induction rule: server_life.induct)
  case (started listen_fd e)
  have "carries req_wf (new_MsgQueue Q_LEN 1 new_ReqData)" "carries block_ok (new_MsgQueue QueryResult_Q_LEN 1 (new_QueryResult 0))"
    by (simp_all add: Q_LEN_def QueryResult_Q_LEN_def carries_new del: One_nat_def)
  with AddFd_ok [OF new_Epoll_ok started] show ?case by (simp add: server_wf_def new_log_server_def)
next
  case (kernel s os)
  then show ?case by (simp add: server_wf_def)
next
  case (request_taken s n m q)
  have c: "carries req_wf (msg_queue s)" using request_taken.IH by (simp add: server_wf_def)
  from request_taken show ?case by (cases rule: carries_receive [OF c]) (auto simp: server_wf_def)
next
  case (block_put s r n q)
  have "carries block_ok (result_queue s)" using block_put.IH by (simp add: server_wf_def)
  from carries_send [OF this block_put.hyps(2,3)] block_put.IH show ?case by (simp add: server_wf_def)
next
  case (turn s events s')
  then show ?case using server_turn_sound [of s events] by simp
qed

text \<open>
  C7. The server does not go wrong.  Whatever its life so far, a turn of its loop over events that
  each bring less than a buffer of bytes ends in a well-formed state, waits, or ends the process with
  a message; it never reads past a buffer, takes the last block of an empty answer or queues a request
  whose strings do not fit.
\<close>

theorem server_well_typed:
  assumes "server_life s" and "list_all event_short events"
  shows "sound server_wf (server_turn events s)"
  by (rule server_turn_sound [OF server_life_wf [OF assms(1)] assms(2)])

theorem server_well_typed_witness:
  "sound server_wf (server_turn [Accepted [7], Ready 7 (Some [Received ''GET /getkey?key=a& HTTP/1.1'', WouldBlock]) False]
     (new_log_server\<lparr>epoll_obj := \<lparr>registered = [5 \<mapsto> READ_MODE], epoll_size = 1\<rparr>\<rparr>))"
proof -
  have "server_life (new_log_server\<lparr>epoll_obj := \<lparr>registered = [5 \<mapsto> READ_MODE], epoll_size = 1\<rparr>\<rparr>)"
    by (rule server_life.started [of 5]) (simp add: AddFd_def new_Epoll_Obj_def)
  moreover have "list_all event_short [Accepted [7], Ready 7 (Some [Received ''GET /getkey?key=a& HTTP/1.1'', WouldBlock]) False]"
    by (simp add: BUFFER_SIZE_def)
  ultimately show ?thesis by (rule server_well_typed)
qed

end
