(* ===== verification/System_Start.thy ===== *)
theory System_Start
  imports Shared_Memory Server_Inv
begin

text \<open>
  The starts of the programs, before their loops: \<^verbatim>\<open>main\<close> of \<^verbatim>\<open>log_server.cpp\<close>, of the two senders and
  of \<^verbatim>\<open>log_processor.cpp\<close> up to the queues, and the parts of the server that stand beside its loop, the
  counters it prints and the network timer nobody starts.  What a socket call gives is an argument.
\<close>

section \<open>The server\<close>

text \<open>The descriptor \<^verbatim>\<open>socket\<close> gives, and whether \<^verbatim>\<open>bind\<close> and \<^verbatim>\<open>listen\<close> succeed.\<close>

definition open_listener :: "int \<Rightarrow> bool \<Rightarrow> bool \<Rightarrow> int res" where
  "open_listener fd bound listening =
     (if fd < 0 then Inl Exited else if \<not> bound then Inl Exited else if \<not> listening then Inl Exited else Inr fd)"

text \<open>The queues of the server are the ones it has put into its segment.\<close>

definition server_start ::
  "(string \<Rightarrow> int \<Rightarrow> int) \<Rightarrow> nat \<Rightarrow> int \<Rightarrow> bool \<Rightarrow> bool \<Rightarrow> ipc \<Rightarrow> (log_server \<times> nat \<times> ipc) res" where
  "server_start ftok len fd bound listening s =
     bindE (open_listener fd bound listening) (\<lambda>listen_fd.
     bindE (server_Init_msg_queue ftok len s) (\<lambda>(shm_id, s1).
     case object_at shm_id s1 of
       Some (Server_queues mq rq) \<Rightarrow>
         bindE (AddFd listen_fd new_Epoll_Obj) (\<lambda>e.
           Inr (new_log_server\<lparr>msg_queue := mq, result_queue := rq, epoll_obj := e\<rparr>, shm_id, s1))
     | _ \<Rightarrow> Inl UB))"

text \<open>
  The counters under \<^verbatim>\<open>PERFORMACE_PRINT\<close>: every ten thousandth request prints a rate, after the first
  two hundred thousand.  The clock, in microseconds, is read twice.
\<close>

record qps_counters =
  qps_start :: u64
  req_counts :: u64
  add_qps :: u64
  qps_count :: u64

definition qps_unit :: u64 where
  "qps_unit = 10000"

definition show_qps :: "u64 \<Rightarrow> u64 \<Rightarrow> qps_counters \<Rightarrow> (u64 \<times> qps_counters) res" where
  "show_qps now0 now1 c =
     (let tmp = now0 - qps_start c
      in if tmp = 0 then Inl UB else Inr (qps_unit * 1000000 div tmp, c\<lparr>qps_start := now1\<rparr>))"

text \<open>The average printed, when one is.\<close>

definition count_req :: "u64 \<Rightarrow> u64 \<Rightarrow> qps_counters \<Rightarrow> (u64 option \<times> qps_counters) res" where
  "count_req now0 now1 c =
     (let c1 = c\<lparr>req_counts := req_counts c + 1\<rparr>
      in if req_counts c1 mod qps_unit = 0 \<and> req_counts c1 > 20 * qps_unit
         then bindE (show_qps now0 now1 c1) (\<lambda>(qps, c2).
                if qps > 10
                then (let c3 = c2\<lparr>add_qps := add_qps c2 + qps, qps_count := qps_count c2 + 1\<rparr>
                      in if qps_count c3 = 0 then Inl UB else Inr (Some (add_qps c3 div qps_count c3), c3))
                else Inr (None, c2))
         else Inr (None, c1))"

text \<open>
  \<^verbatim>\<open>FdTimeout\<close> would close a connection after a while; the calls that start it are commented out.  Its
  objects are numbers; \<^verbatim>\<open>GetFdTimeout\<close> indexes the map, which puts a null pointer where there is nothing.
\<close>

type_synonym fd_timeouts = "int \<Rightarrow> nat option option"

definition new_FdTimeout :: "nat \<Rightarrow> int \<Rightarrow> fd_timeouts \<Rightarrow> fd_timeouts" where
  "new_FdTimeout p fd m = (if m fd = None then m(fd \<mapsto> Some p) else m)"

definition GetFdTimeout :: "int \<Rightarrow> fd_timeouts \<Rightarrow> nat option \<times> fd_timeouts" where
  "GetFdTimeout fd m = (case m fd of None \<Rightarrow> (None, m(fd \<mapsto> None)) | Some v \<Rightarrow> (v, m))"

definition delete_FdTimeout :: "int \<Rightarrow> fd_timeouts \<Rightarrow> fd_timeouts" where
  "delete_FdTimeout fd m = m(fd := None)"

definition FdTimeout_Act :: "int \<Rightarrow> log_server \<Rightarrow> log_server res" where
  "FdTimeout_Act fd s = bindE (on_epoll (DelFd fd) s) (\<lambda>s'. Inr (close_fd fd s'))"

section \<open>The senders\<close>

text \<open>
  \<^verbatim>\<open>Connect_to_Server\<close> gives 1 when there is no socket, which is the descriptor of the standard output;
  the outcome of \<^verbatim>\<open>connect\<close> is not looked at.
\<close>

definition Connect_to_Server :: "int \<Rightarrow> int" where
  "Connect_to_Server sockfd = (if sockfd < 0 then 1 else sockfd)"

text \<open>\<open>Inl\<close> of the result is the exit status of a call without arguments.\<close>

definition sender_start ::
  "(string \<Rightarrow> int \<Rightarrow> int) \<Rightarrow> nat \<Rightarrow> string list \<Rightarrow> int \<Rightarrow> (int \<Rightarrow> Epoll_Obj \<Rightarrow> Epoll_Obj res) \<Rightarrow> ipc \<Rightarrow> (nat + sender \<times> int \<times> nat \<times> ipc) res" where
  "sender_start ftok len argv socket_fd mode s =
     (if length argv \<le> 1 then Inr (Inl 1)
      else let shm_num = strtol (argv ! 1); sockfd = Connect_to_Server socket_fd
           in bindE (sender_Init_msg_queue ftok len shm_num s) (\<lambda>(shm_id, s1).
              case object_at shm_id s1 of
                Some (Sender_queue q) \<Rightarrow>
                  bindE (AddFd sockfd new_Epoll_Obj) (\<lambda>e.
                  bindE (mode sockfd e) (\<lambda>e'.
                    Inr (Inr (new_sender\<lparr>sender_queue := q, sender_epoll := e'\<rparr>, sockfd, shm_id, s1))))
              | _ \<Rightarrow> Inl UB))"

definition log_sender_start ::
  "(string \<Rightarrow> int \<Rightarrow> int) \<Rightarrow> nat \<Rightarrow> string list \<Rightarrow> int \<Rightarrow> ipc \<Rightarrow> (nat + sender \<times> int \<times> nat \<times> ipc) res" where
  "log_sender_start ftok len argv socket_fd s = sender_start ftok len argv socket_fd SetRead s"

definition short_sender_start ::
  "(string \<Rightarrow> int \<Rightarrow> int) \<Rightarrow> nat \<Rightarrow> string list \<Rightarrow> int \<Rightarrow> ipc \<Rightarrow> (nat + sender \<times> int \<times> nat \<times> ipc) res" where
  "short_sender_start ftok len argv socket_fd s = sender_start ftok len argv socket_fd SetWrite s"

section \<open>Every program finds its queues\<close>

lemma holds_shorter: "holds_segment k i len x s \<Longrightarrow> len' \<le> len \<Longrightarrow> holds_segment k i len' x s"
  by (auto simp: holds_segment_def)

lemma holds_object: "holds_segment k i len x s \<Longrightarrow> object_at i s = Some x"
  by (auto simp: holds_segment_def object_at_def)

lemma server_Init_ftok: "server_Init_msg_queue ftok len s = Inr r \<Longrightarrow> ftok server_shm_pathname 0 \<noteq> -1"
  using Init_shm_ftok by (fastforce simp: server_Init_msg_queue_def bindE_eq_Inr)

lemma server_queues_init:
  "isInit (new_MsgQueue Q_LEN n new_ReqData)" "isInit (new_MsgQueue QueryResult_Q_LEN n (new_QueryResult 0))"
  by (simp_all add: isInit_def new_MsgQueue_def Q_LEN_def QueryResult_Q_LEN_def)

lemma server_start_facts:
  assumes "server_start ftok len fd bound listening s = Inr (srv, i, s1)" "ipc_ok s" "ftok server_shm_pathname 0 \<noteq> IPC_PRIVATE"
  shows "ipc_ok s1" "server_life srv" "epoll_set srv fd = Some READ_MODE" "ftok server_shm_pathname 0 \<noteq> -1"
    "holds_segment (ftok server_shm_pathname 0) i len (Server_queues (msg_queue srv) (result_queue srv)) s1"
    "k \<noteq> ftok server_shm_pathname 0 \<Longrightarrow> holds_segment k j n x s \<Longrightarrow> holds_segment k j n x s1"
    "isInit (msg_queue srv)" "isInit (result_queue srv)"
proof -
  let ?mq = "new_MsgQueue Q_LEN 1 new_ReqData" and ?rq = "new_MsgQueue QueryResult_Q_LEN 1 (new_QueryResult 0)"
  have l: "open_listener fd bound listening = Inr fd"
    using assms(1) by (auto simp: server_start_def open_listener_def bindE_eq_Inr split: if_splits)
  obtain i0 t where t: "server_Init_msg_queue ftok len s = Inr (i0, t)"
    using assms(1) by (auto simp: server_start_def bindE_eq_Inr)
  have obj: "object_at i0 t = Some (Server_queues ?mq ?rq)"
    using holds_object [OF server_Init_facts(3) [OF t assms(2,3)]] .
  obtain e where e: "AddFd fd new_Epoll_Obj = Inr e"
    and r: "s1 = t" "srv = new_log_server\<lparr>msg_queue := ?mq, result_queue := ?rq, epoll_obj := e\<rparr>" and "i0 = i"
    using assms(1) unfolding server_start_def l t by (auto simp: obj bindE_eq_Inr)
  note t = t [unfolded \<open>i0 = i\<close>]
  note I = server_Init_facts [OF t assms(2)]
  have h: "holds_segment (ftok server_shm_pathname 0) i len (Server_queues ?mq ?rq) t" using I(3) [OF assms(3)] .
  have srv: "srv = new_log_server\<lparr>epoll_obj := e\<rparr>" using r(2) by (simp add: new_log_server_def)
  show "ipc_ok s1" "ftok server_shm_pathname 0 \<noteq> -1"
    "k \<noteq> ftok server_shm_pathname 0 \<Longrightarrow> holds_segment k j n x s \<Longrightarrow> holds_segment k j n x s1"
    using I(1,2) server_Init_ftok [OF t] r(1) by auto
  show "server_life srv" unfolding srv by (rule server_life.started [OF e])
  show "epoll_set srv fd = Some READ_MODE" using e by (auto simp: srv AddFd_def split: if_splits)
  show "holds_segment (ftok server_shm_pathname 0) i len (Server_queues (msg_queue srv) (result_queue srv)) s1"
    "isInit (msg_queue srv)" "isInit (result_queue srv)"
    using h r server_queues_init by simp_all
qed

lemma sender_start_facts:
  assumes "sender_start ftok len argv sock mode s = Inr (Inr (sdr, fd, i, s1))" "ipc_ok s"
    and key: "ftok sender_shm_pathname (strtol (argv ! 1)) \<noteq> IPC_PRIVATE"
  shows "sender_Init_msg_queue ftok len (strtol (argv ! 1)) s = Inr (i, s1)" "sender_queue sdr = Init_msg_queue"
    "fd = Connect_to_Server sock"
proof -
  let ?n = "strtol (argv ! 1)"
  obtain j t where t: "sender_Init_msg_queue ftok len ?n s = Inr (j, t)"
    using assms(1) by (auto simp: sender_start_def Let_def bindE_eq_Inr split: if_splits)
  have obj: "object_at j t = Some (Sender_queue Init_msg_queue)"
    using holds_object [OF sender_Init_facts(2) [OF t assms(2) key]] .
  have "j = i \<and> t = s1 \<and> sender_queue sdr = Init_msg_queue \<and> fd = Connect_to_Server sock"
    using assms(1) unfolding sender_start_def Let_def t by (auto simp: obj bindE_eq_Inr split: if_splits)
  with t show "sender_Init_msg_queue ftok len ?n s = Inr (i, s1)" "sender_queue sdr = Init_msg_queue"
    "fd = Connect_to_Server sock" by auto
qed

text \<open>Without a socket a sender takes the standard output for its connection.\<close>

lemma sender_without_socket:
  "sock < 0 \<Longrightarrow> sender_start ftok len argv sock mode s = Inr (Inr (sdr, fd, i, s1)) \<Longrightarrow> ipc_ok s \<Longrightarrow>
   ftok sender_shm_pathname (strtol (argv ! 1)) \<noteq> IPC_PRIVATE \<Longrightarrow> fd = 1"
  using sender_start_facts(3) by (fastforce simp: Connect_to_Server_def)

text \<open>
  C15. The system comes up.  When the server has started, and then a sender, whatever else has started
  since without remaking their segments, a processor is given the server's two queues and a client the
  sender's: what the one writes the other reads.  The server is then in a state from which no turn of
  its loop goes wrong.
\<close>

theorem system_comes_up:
  assumes "ipc_ok s" and "ftok server_shm_pathname 0 \<noteq> IPC_PRIVATE"
    and "ftok sender_shm_pathname (strtol (argv ! 1)) \<noteq> IPC_PRIVATE"
    and "server_start ftok qlen lfd bound listening s = Inr (srv, i, s1)"
    and "log_sender_start ftok len argv sock s1 = Inr (Inr (sdr, fd, j, s2))"
    and "start_processes ftok len qlen cs s2 = Inr s3"
    and "\<forall>c \<in> set (Start_sender (strtol (argv ! 1)) # cs). \<not> resets ftok (ftok server_shm_pathname 0) c"
    and "\<forall>c \<in> set cs. \<not> resets ftok (ftok sender_shm_pathname (strtol (argv ! 1))) c"
    and "mqlen \<le> qlen"
  shows "\<exists>s4 s5. processor_Init_msg_queue ftok mqlen s3 = Inr ((msg_queue srv, result_queue srv), i, s4)
     \<and> service_attach ftok len (strtol (argv ! 1)) s4 = Inr (sender_queue sdr, j, s5) \<and> server_life srv"
proof -
  let ?kv = "ftok server_shm_pathname 0" and ?ks = "ftok sender_shm_pathname (strtol (argv ! 1))"
  let ?Q = "Server_queues (msg_queue srv) (result_queue srv)"
  note V = server_start_facts [OF assms(4,1,2)]
  have sd: "sender_start ftok len argv sock SetRead s1 = Inr (Inr (sdr, fd, j, s2))"
    using assms(5) by (simp add: log_sender_start_def)
  note S = sender_start_facts [OF sd V(1) assms(3)]
  note F = sender_Init_facts [OF S(1) V(1)]
  have v2: "holds_segment ?kv i qlen ?Q s2" using F(3) V(5) assms(7) by simp
  have v3: "holds_segment ?kv i mqlen ?Q s3"
    using holds_shorter [OF start_processes_facts [OF assms(6) F(1) _ v2] assms(9)] assms(7) by simp
  obtain s4 where p: "Get_shm ftok mqlen server_shm_pathname 0 s3 = Inr (i, s4)" "object_at i s4 = Some ?Q"
    using Get_shm_holds [of ftok server_shm_pathname 0 i mqlen, OF v3 assms(2) V(4)] by blast
  have ok3: "ipc_ok s3" using start_processes_ok [OF assms(6) F(1)] .
  have "holds_segment ?ks j len (Sender_queue Init_msg_queue) s3"
    using start_processes_facts [OF assms(6) F(1) assms(8) F(2) [OF assms(3)]] .
  then have "holds_segment ?ks j len (Sender_queue Init_msg_queue) s4" using Get_shm_facts(2) [OF p(1) ok3] by blast
  then obtain s5 where c: "Get_shm ftok len sender_shm_pathname (strtol (argv ! 1)) s4 = Inr (j, s5)"
    "object_at j s5 = Some (Sender_queue Init_msg_queue)"
    using Get_shm_holds [of ftok sender_shm_pathname "strtol (argv ! 1)" j len] assms(3) sender_Init_ftok [OF S(1)] by blast
  have "processor_Init_msg_queue ftok mqlen s3 = Inr ((msg_queue srv, result_queue srv), i, s4)"
    using p V(7,8) by (simp add: processor_Init_msg_queue_def)
  moreover have "service_attach ftok len (strtol (argv ! 1)) s4 = Inr (sender_queue sdr, j, s5)"
    using c S(2) by (simp add: service_attach_def Init_queue_isInit)
  ultimately show ?thesis using V(2) by blast
qed

lemma strtol_one: "strtol ''1'' = 1"
  by code_simp

theorem system_comes_up_witness:
  "\<exists>srv s1 sdr s2 s4 s5. server_start sample_ftok 99 5 True True boot = Inr (srv, 0, s1)
     \<and> log_sender_start sample_ftok 9 [''log_sender'', ''1''] 6 s1 = Inr (Inr (sdr, 6, 1, s2))
     \<and> processor_Init_msg_queue sample_ftok 60 s2 = Inr ((msg_queue srv, result_queue srv), 0, s4)
     \<and> service_attach sample_ftok 9 1 s4 = Inr (sender_queue sdr, 1, s5)"
proof -
  have "\<exists>srv s1 sdr s2. server_start sample_ftok 99 5 True True boot = Inr (srv, 0, s1)
     \<and> log_sender_start sample_ftok 9 [''log_sender'', ''1''] 6 s1 = Inr (Inr (sdr, 6, 1, s2))"
    by (simp add: server_start_def open_listener_def log_sender_start_def sender_start_def Connect_to_Server_def strtol_one
        ipc_eval boot_def epoll_defs new_Epoll_Obj_def)
  then obtain srv s1 sdr s2 where s: "server_start sample_ftok 99 5 True True boot = Inr (srv, 0, s1)"
    "log_sender_start sample_ftok 9 [''log_sender'', ''1''] 6 s1 = Inr (Inr (sdr, 6, 1, s2))" by blast
  have n: "strtol ([''log_sender'', ''1''] ! 1) = 1" by (simp add: strtol_one)
  have k: "sample_ftok server_shm_pathname 0 \<noteq> IPC_PRIVATE" "sample_ftok sender_shm_pathname (strtol ([''log_sender'', ''1''] ! 1)) \<noteq> IPC_PRIVATE"
    "\<forall>c \<in> set (Start_sender (strtol ([''log_sender'', ''1''] ! 1)) # []). \<not> resets sample_ftok (sample_ftok server_shm_pathname 0) c"
    "\<forall>c \<in> set []. \<not> resets sample_ftok (sample_ftok sender_shm_pathname (strtol ([''log_sender'', ''1''] ! 1))) c"
    "start_processes sample_ftok 9 99 [] s2 = Inr s2" "(60 :: nat) \<le> 99"
    by (simp_all add: strtol_one sample_keys IPC_PRIVATE_def)
  from system_comes_up [OF boot_ok k(1,2) s k(5,3,4,6)] s show ?thesis unfolding n by blast
qed

section \<open>The counters\<close>

text \<open>Counting fails only when the clock stands still between two rates or the count of rates wraps.\<close>

lemma count_req_ok:
  assumes "now0 \<noteq> qps_start c" "qps_count c + 1 \<noteq> 0"
  shows "\<exists>avg c'. count_req now0 now1 c = Inr (avg, c') \<and> req_counts c' = req_counts c + 1"
  using assms by (simp add: count_req_def show_qps_def Let_def)

end
