(* ===== verification/Timer_Slot.thy ===== *)
theory Timer_Slot
  imports Prelude
begin

text \<open>
  \<^verbatim>\<open>TimerSlot\<close> and \<^verbatim>\<open>DelTimer\<close> of \<^verbatim>\<open>include/TimerWheel.h\<close> with their pointers: a slot is a doubly linked
  list of timer units in the heap.  \<open>Timer_Wheel\<close> takes a slot for the list of its units; here the
  three operations are shown to be what they are there, and what a deletion by one thread does to a
  pop by another.
\<close>

section \<open>Units in the heap\<close>

text \<open>A pointer is a number, a null pointer \<open>None\<close>; a unit that is not in the heap has been deleted.\<close>

record timer_node =
  tn_next :: "nat option"
  tn_prev :: "nat option"
  tn_location :: "nat option"

record slot_memory =
  slot_number :: nat
  timer_list :: "nat option"
  nodes :: "nat \<Rightarrow> timer_node option"

definition node_at :: "nat \<Rightarrow> slot_memory \<Rightarrow> timer_node res" where
  "node_at p s = (case nodes s p of None \<Rightarrow> Inl UB | Some n \<Rightarrow> Inr n)"

definition change_node :: "(timer_node \<Rightarrow> timer_node) \<Rightarrow> nat \<Rightarrow> slot_memory \<Rightarrow> slot_memory res" where
  "change_node f p s = bindE (node_at p s) (\<lambda>n. Inr (s\<lparr>nodes := (nodes s)(p \<mapsto> f n)\<rparr>))"

text \<open>\<^verbatim>\<open>if(q) q->...\<close>\<close>

definition change_if :: "(timer_node \<Rightarrow> timer_node) \<Rightarrow> nat option \<Rightarrow> slot_memory \<Rightarrow> slot_memory res" where
  "change_if f q s = (case q of None \<Rightarrow> Inr s | Some p \<Rightarrow> change_node f p s)"

definition new_unit :: "nat \<Rightarrow> slot_memory \<Rightarrow> slot_memory" where
  "new_unit p s = s\<lparr>nodes := (nodes s)(p \<mapsto> \<lparr>tn_next = None, tn_prev = None, tn_location = None\<rparr>)\<rparr>"

definition delete_unit :: "nat \<Rightarrow> slot_memory \<Rightarrow> slot_memory res" where
  "delete_unit p s = bindE (node_at p s) (\<lambda>_. Inr (s\<lparr>nodes := (nodes s)(p := None)\<rparr>))"

section \<open>The operations of a slot\<close>

definition ts_Insert :: "nat \<Rightarrow> slot_memory \<Rightarrow> slot_memory res" where
  "ts_Insert p s =
     bindE (change_if (\<lambda>n. n\<lparr>tn_prev := Some p\<rparr>) (timer_list s) s) (\<lambda>s1.
     bindE (change_node (\<lambda>n. n\<lparr>tn_next := timer_list s1\<rparr>) p s1) (\<lambda>s2.
     Inr (s2\<lparr>timer_list := Some p\<rparr>)))"

text \<open>Both \<^verbatim>\<open>AddTimer\<close>s insert a unit and then tell it its place.\<close>

definition place_unit :: "nat \<Rightarrow> slot_memory \<Rightarrow> slot_memory res" where
  "place_unit p s = bindE (ts_Insert p s) (change_node (\<lambda>n. n\<lparr>tn_location := Some (slot_number s)\<rparr>) p)"

text \<open>The statements of \<^verbatim>\<open>Pop\<close> after \<^verbatim>\<open>tmp = timer_list_\<close>; \<^verbatim>\<open>Empty\<close> looks at the list again.\<close>

definition pop_rest :: "nat option \<Rightarrow> slot_memory \<Rightarrow> (nat option \<times> slot_memory) res" where
  "pop_rest tmp s =
     (case timer_list s of
        None \<Rightarrow> Inr (tmp, s)
      | Some p \<Rightarrow>
          bindE (node_at p s) (\<lambda>n.
          let s1 = s\<lparr>timer_list := tn_next n\<rparr>
          in bindE (change_if (\<lambda>n. n\<lparr>tn_prev := None\<rparr>) (timer_list s1) s1) (\<lambda>s2.
          (case tmp of
             None \<Rightarrow> Inl UB
           | Some t \<Rightarrow>
               bindE (change_node (\<lambda>n. n\<lparr>tn_next := None\<rparr>) t s2) (\<lambda>s3.
               bindE (change_node (\<lambda>n. n\<lparr>tn_location := None\<rparr>) t s3) (\<lambda>s4. Inr (tmp, s4)))))))"

definition ts_Pop :: "slot_memory \<Rightarrow> (nat option \<times> slot_memory) res" where
  "ts_Pop s = pop_rest (timer_list s) s"

definition ts_Delete :: "nat \<Rightarrow> slot_memory \<Rightarrow> slot_memory res" where
  "ts_Delete p s =
     bindE (node_at p s) (\<lambda>n.
     bindE (change_if (\<lambda>q. q\<lparr>tn_next := tn_next n\<rparr>) (tn_prev n) s) (\<lambda>s1.
     bindE (node_at p s1) (\<lambda>n1.
     bindE (change_if (\<lambda>q. q\<lparr>tn_prev := tn_prev n1\<rparr>) (tn_next n1) s1) (\<lambda>s2.
     bindE (if timer_list s2 = Some p
            then bindE (node_at p s2) (\<lambda>n2. Inr (s2\<lparr>timer_list := tn_next n2\<rparr>)) else Inr s2) (\<lambda>s3.
     bindE (change_node (\<lambda>n. n\<lparr>tn_location := None\<rparr>) p s3) (delete_unit p))))))"

text \<open>The back pointer of the member is the argument; a unit that is not in a slot is left alone.\<close>

definition ts_DelTimer :: "nat option \<Rightarrow> slot_memory \<Rightarrow> slot_memory res" where
  "ts_DelTimer unit s =
     (case unit of
        None \<Rightarrow> Inr s
      | Some p \<Rightarrow> bindE (node_at p s) (\<lambda>n. case tn_location n of None \<Rightarrow> Inr s | Some _ \<Rightarrow> ts_Delete p s))"

section \<open>The list a slot stands for\<close>

text \<open>The first pointer of a list, and the last, with what stands for them when it is empty.\<close>

definition first_or :: "nat option \<Rightarrow> nat list \<Rightarrow> nat option" where
  "first_or nx ps = (case ps of [] \<Rightarrow> nx | p # _ \<Rightarrow> Some p)"

definition last_or :: "nat option \<Rightarrow> nat list \<Rightarrow> nat option" where
  "last_or pr ps = (if ps = [] then pr else Some (last ps))"

lemma ends_simps [simp]:
  "first_or nx [] = nx" "first_or nx (p # ps) = Some p" "last_or pr [] = pr" "last_or pr (us @ [u]) = Some u"
  "last_or pr (p # ps) = last_or (Some p) ps"
  by (simp_all add: first_or_def last_or_def)

lemma first_or_append [simp]: "first_or nx (us @ vs) = first_or (first_or nx vs) us"
  by (simp add: first_or_def split: list.split)

text \<open>The nodes of a list stand in the heap between a node before and a node after them.\<close>

fun linked :: "(nat \<Rightarrow> timer_node option) \<Rightarrow> nat \<Rightarrow> nat option \<Rightarrow> nat list \<Rightarrow> nat option \<Rightarrow> bool" where
  "linked h i pr [] nx \<longleftrightarrow> True"
| "linked h i pr (p # ps) nx \<longleftrightarrow> h p = Some \<lparr>tn_next = first_or nx ps, tn_prev = pr, tn_location = Some i\<rparr>
     \<and> linked h i (Some p) ps nx"

definition slot_holds :: "slot_memory \<Rightarrow> nat list \<Rightarrow> bool" where
  "slot_holds s ps \<longleftrightarrow> timer_list s = first_or None ps \<and> distinct ps \<and> linked (nodes s) (slot_number s) None ps None"

lemma linked_other [simp]: "p \<notin> set ps \<Longrightarrow> linked (h(p := x)) i pr ps nx = linked h i pr ps nx"
  by (induction ps arbitrary: pr) auto

lemma linked_append: "linked h i pr (us @ vs) nx \<longleftrightarrow> linked h i pr us (first_or nx vs) \<and> linked h i (last_or pr us) vs nx"
  by (induction us arbitrary: pr) auto

lemmas node_simps = node_at_def change_node_def change_if_def

text \<open>What is not in the list is not touched.\<close>

definition only_nodes :: "nat list \<Rightarrow> slot_memory \<Rightarrow> slot_memory \<Rightarrow> bool" where
  "only_nodes ps s s' \<longleftrightarrow> (\<forall>q. q \<notin> set ps \<longrightarrow> nodes s' q = nodes s q)"

text \<open>A unit that a slot may take in: just made, or popped.\<close>

definition loose :: "nat \<Rightarrow> slot_memory \<Rightarrow> bool" where
  "loose p s \<longleftrightarrow> (\<exists>l. nodes s p = Some \<lparr>tn_next = None, tn_prev = None, tn_location = l\<rparr>)"

lemma place_unit_holds:
  assumes "slot_holds s ps" "p \<notin> set ps" "loose p s"
  shows "\<exists>s'. place_unit p s = Inr s' \<and> slot_holds s' (p # ps) \<and> only_nodes (p # ps) s s' \<and> slot_number s' = slot_number s"
proof (cases ps)
  case Nil
  with assms show ?thesis by (auto simp: place_unit_def ts_Insert_def slot_holds_def loose_def node_simps only_nodes_def)
next
  case (Cons q qs)
  with assms show ?thesis by (auto simp: place_unit_def ts_Insert_def slot_holds_def loose_def node_simps only_nodes_def)
qed

lemma ts_Pop_empty: "slot_holds s [] \<Longrightarrow> ts_Pop s = Inr (None, s)"
  by (simp add: ts_Pop_def pop_rest_def slot_holds_def)

lemma ts_Pop_holds:
  assumes "slot_holds s (p # ps)"
  shows "\<exists>s'. ts_Pop s = Inr (Some p, s') \<and> slot_holds s' ps \<and> only_nodes (p # ps) s s' \<and> slot_number s' = slot_number s
     \<and> nodes s' p = Some \<lparr>tn_next = None, tn_prev = None, tn_location = None\<rparr>"
proof (cases ps)
  case Nil
  with assms show ?thesis by (auto simp: ts_Pop_def pop_rest_def slot_holds_def node_simps only_nodes_def Let_def)
next
  case (Cons q qs)
  with assms show ?thesis by (auto simp: ts_Pop_def pop_rest_def slot_holds_def node_simps only_nodes_def Let_def)
qed

lemma ts_Delete_holds:
  assumes "slot_holds s (us @ p # vs)"
  shows "\<exists>s'. ts_Delete p s = Inr s' \<and> slot_holds s' (us @ vs) \<and> only_nodes (us @ p # vs) s s' \<and> nodes s' p = None
     \<and> slot_number s' = slot_number s"
proof (cases us rule: rev_cases)
  case Nil
  with assms show ?thesis
    by (cases vs) (auto simp: ts_Delete_def delete_unit_def slot_holds_def node_simps only_nodes_def)
next
  case (snoc us' u)
  with assms show ?thesis
    by (cases us'; cases vs) (auto simp: ts_Delete_def delete_unit_def slot_holds_def node_simps only_nodes_def linked_append)
qed

section \<open>A slot is the list of its units\<close>

text \<open>
  What the wheels do with a slot: a new unit goes in, the first is popped, acts and is deleted, the
  timer of a member is deleted.  The result is the unit popped.
\<close>

datatype slot_op = Add nat | Fire | Del nat

fun slot_exec :: "slot_op \<Rightarrow> slot_memory \<Rightarrow> (nat option \<times> slot_memory) res" where
  "slot_exec (Add p) s = bindE (place_unit p (new_unit p s)) (\<lambda>s'. Inr (None, s'))"
| "slot_exec Fire s = bindE (ts_Pop s) (\<lambda>(t, s1). case t of
       None \<Rightarrow> Inr (None, s1) | Some p \<Rightarrow> bindE (delete_unit p s1) (\<lambda>s2. Inr (t, s2)))"
| "slot_exec (Del p) s = bindE (ts_DelTimer (Some p) s) (\<lambda>s'. Inr (None, s'))"

fun slot_runs :: "slot_op list \<Rightarrow> slot_memory \<Rightarrow> (nat list \<times> slot_memory) res" where
  "slot_runs [] s = Inr ([], s)"
| "slot_runs (c # cs) s = bindE (slot_exec c s) (\<lambda>(t, s1). bindE (slot_runs cs s1) (\<lambda>(ts, s2).
     Inr ((case t of None \<Rightarrow> ts | Some p \<Rightarrow> p # ts), s2)))"

text \<open>The same on a list, and when it makes sense: no unit twice, no deletion of a unit that is gone.\<close>

fun list_runs :: "slot_op list \<Rightarrow> nat list \<Rightarrow> nat list \<times> nat list" where
  "list_runs [] ps = ([], ps)"
| "list_runs (Add p # cs) ps = list_runs cs (p # ps)"
| "list_runs (Fire # cs) ps = (case ps of [] \<Rightarrow> list_runs cs [] | p # qs \<Rightarrow> (let (ts, rs) = list_runs cs qs in (p # ts, rs)))"
| "list_runs (Del p # cs) ps = list_runs cs (filter (\<lambda>q. q \<noteq> p) ps)"

fun list_valid :: "slot_op list \<Rightarrow> nat list \<Rightarrow> bool" where
  "list_valid [] ps \<longleftrightarrow> True"
| "list_valid (Add p # cs) ps \<longleftrightarrow> p \<notin> set ps \<and> list_valid cs (p # ps)"
| "list_valid (Fire # cs) ps \<longleftrightarrow> list_valid cs (tl ps)"
| "list_valid (Del p # cs) ps \<longleftrightarrow> p \<in> set ps \<and> list_valid cs (filter (\<lambda>q. q \<noteq> p) ps)"

lemma slot_Add:
  assumes "slot_holds s ps" "p \<notin> set ps"
  shows "\<exists>s'. slot_exec (Add p) s = Inr (None, s') \<and> slot_holds s' (p # ps)"
proof -
  have "slot_holds (new_unit p s) ps" "loose p (new_unit p s)"
    using assms by (simp_all add: slot_holds_def new_unit_def loose_def)
  from place_unit_holds [OF this(1) assms(2) this(2)] show ?thesis by auto
qed

lemma slot_Fire:
  assumes "slot_holds s (p # ps)"
  shows "\<exists>s'. slot_exec Fire s = Inr (Some p, s') \<and> slot_holds s' ps"
proof -
  obtain s1 where s1: "ts_Pop s = Inr (Some p, s1)" "slot_holds s1 ps" "nodes s1 p \<noteq> None"
    using ts_Pop_holds [OF assms] by auto
  have "p \<notin> set ps" using assms by (simp add: slot_holds_def)
  with s1 show ?thesis by (auto simp: delete_unit_def node_simps slot_holds_def)
qed

lemma slot_Del:
  assumes "slot_holds s ps" "p \<in> set ps"
  shows "\<exists>s'. slot_exec (Del p) s = Inr (None, s') \<and> slot_holds s' (filter (\<lambda>q. q \<noteq> p) ps)"
proof -
  obtain us vs where ps: "ps = us @ p # vs" using split_list [OF assms(2)] by blast
  have h: "slot_holds s (us @ p # vs)" using assms(1) ps by simp
  then have at: "\<exists>n. nodes s p = Some n \<and> tn_location n \<noteq> None" by (auto simp: slot_holds_def linked_append)
  have "p \<notin> set us \<union> set vs" using h by (auto simp: slot_holds_def)
  then have "filter (\<lambda>q. q \<noteq> p) us = us" "filter (\<lambda>q. q \<noteq> p) vs = vs" by (auto intro!: filter_True)
  then have "filter (\<lambda>q. q \<noteq> p) ps = us @ vs" unfolding ps by simp
  with ts_Delete_holds [OF h] at show ?thesis by (auto simp: ts_DelTimer_def node_simps)
qed

lemma slot_runs_list:
  "slot_holds s ps \<Longrightarrow> list_valid cs ps \<Longrightarrow>
   \<exists>s'. slot_runs cs s = Inr (fst (list_runs cs ps), s') \<and> slot_holds s' (snd (list_runs cs ps))"
proof (induction cs ps arbitrary: s rule: list_runs.induct)
  case (2 p cs ps)
  then show ?case using slot_Add [of s ps p] by auto
next
  case (3 cs ps)
  show ?case
  proof (cases ps)
    case Nil
    with 3 ts_Pop_empty [of s] show ?thesis by auto
  next
    case (Cons p qs)
    obtain s1 where s1: "slot_exec Fire s = Inr (Some p, s1)" "slot_holds s1 qs"
      using slot_Fire [of s p qs] 3(3) Cons by auto
    obtain s' where "slot_runs cs s1 = Inr (fst (list_runs cs qs), s')" "slot_holds s' (snd (list_runs cs qs))"
      using 3(2) [OF Cons s1(2)] 3(4) Cons by auto
    with s1(1) Cons show ?thesis by (simp add: case_prod_beta del: slot_exec.simps)
  qed
next
  case (4 p cs ps)
  then show ?case using slot_Del [of s ps p] by auto
qed simp

text \<open>
  C16. The linked slot is the list the wheels are modelled with: any sequence of insertions, firings and
  deletions of timers that are there runs without touching freed memory, fires the units the list
  would fire, in that order, and leaves the pointers linked as the list that is left.
\<close>

theorem slot_is_list:
  assumes "slot_holds s ps" and "list_valid cs ps"
  shows "\<exists>s'. slot_runs cs s = Inr (fst (list_runs cs ps), s') \<and> slot_holds s' (snd (list_runs cs ps))"
  by (rule slot_runs_list [OF assms])

definition empty_slot :: slot_memory where
  "empty_slot = \<lparr>slot_number = 3, timer_list = None, nodes = Map.empty\<rparr>"

lemma empty_slot_holds: "slot_holds empty_slot []"
  by (simp add: slot_holds_def empty_slot_def)

theorem slot_is_list_witness:
  "\<exists>s'. slot_runs [Add 1, Add 2, Add 3, Del 2, Fire, Add 2, Fire] empty_slot = Inr ([3, 2], s') \<and> slot_holds s' [1]"
  using slot_is_list [OF empty_slot_holds, of "[Add 1, Add 2, Add 3, Del 2, Fire, Add 2, Fire]"] by simp

section \<open>Two threads at one slot\<close>

text \<open>
  The wheels have no lock.  The persistence thread pops the unit of a timer while the thread of the
  data manager, which restarts the timers at every append and every query, deletes it: between the
  first statement of \<^verbatim>\<open>Pop\<close> and the rest.
\<close>

definition popped_meanwhile_deleted :: "nat \<Rightarrow> slot_memory \<Rightarrow> slot_memory res" where
  "popped_meanwhile_deleted p s =
     (let tmp = timer_list s
      in bindE (ts_DelTimer (Some p) s) (\<lambda>s1.
         bindE (pop_rest tmp s1) (\<lambda>(t, s2).
         case t of None \<Rightarrow> Inr s2 | Some q \<Rightarrow> bindE (node_at q s2) (\<lambda>_. delete_unit q s2))))"

text \<open>
  C35. A timer restarted while it fires is used after it was freed: if the unit that stands first in a
  slot is deleted by \<^verbatim>\<open>DelTimer\<close> after \<^verbatim>\<open>Pop\<close> has read the list, the rest of \<^verbatim>\<open>Pop\<close> or the \<^verbatim>\<open>Act\<close>
  that follows it works on freed memory, whatever else the slot holds.
\<close>

theorem restarted_while_firing:
  assumes "slot_holds s (p # ps)"
  shows "popped_meanwhile_deleted p s = Inl UB"
proof -
  have at: "\<exists>n. nodes s p = Some n \<and> tn_location n \<noteq> None" using assms by (simp add: slot_holds_def)
  obtain s1 where s1: "ts_Delete p s = Inr s1" "slot_holds s1 ps" "nodes s1 p = None"
    using ts_Delete_holds [of s "[]" p ps] assms by auto
  have del: "ts_DelTimer (Some p) s = Inr s1" using at s1(1) by (auto simp: ts_DelTimer_def node_simps)
  have tmp: "timer_list s = Some p" using assms by (simp add: slot_holds_def)
  show ?thesis
  proof (cases ps)
    case Nil
    then have "pop_rest (Some p) s1 = Inr (Some p, s1)" using s1(2) by (simp add: pop_rest_def slot_holds_def)
    with del tmp s1(3) show ?thesis by (simp add: popped_meanwhile_deleted_def node_simps)
  next
    case (Cons q qs)
    have ne: "p \<noteq> q" "p \<notin> set qs" using assms Cons by (auto simp: slot_holds_def)
    have "pop_rest (Some p) s1 = Inl UB"
      using s1(2,3) ne Cons by (cases qs) (auto simp: pop_rest_def slot_holds_def node_simps Let_def)
    with del tmp show ?thesis by (simp add: popped_meanwhile_deleted_def)
  qed
qed

theorem restarted_while_firing_witness:
  "\<exists>s. slot_runs [Add 1, Add 2] empty_slot = Inr ([], s) \<and> popped_meanwhile_deleted 2 s = Inl UB"
proof -
  obtain s where s: "slot_runs [Add 1, Add 2] empty_slot = Inr ([], s)" "slot_holds s [2, 1]"
    using slot_runs_list [OF empty_slot_holds, of "[Add 1, Add 2]"] by auto
  from restarted_while_firing [OF s(2)] s(1) show ?thesis by blast
qed

end
