(* ===== verification/Test_Producer.thy ===== *)
theory Test_Producer
  imports Log_Service
begin

text \<open>
  \<^verbatim>\<open>src/test_log_producer/main.cpp\<close>, the load generator: it links the log service library, takes its
  name and the number of its sender from the command line, and logs fifty lines over and over.
\<close>

section \<open>The program\<close>

text \<open>The lines are bytes; one of them has a quotation mark of three bytes.\<close>

definition test_lines :: "string list" where
  "test_lines =
    [''He has refused his Assent to Laws, the most wholesome and necessary for the public good.'',
     ''He has forbidden his Governors to pass Laws of immediate and pressing importance, unl'',
     ''He has refused to pass other Laws for the accommodation of large districts of people,'',
     ''He has called together legislative bodies at places unusual, uncomfortable, and dista'',
     ''He has dissolved Representative Houses repeatedly, for opposing with manly firmness o'',
     ''He has refused for a long time, after such dissolutions, to cause others to be electe'',
     ''He has endeavoured to prevent the population of these States; for that purpose obstru'',
     ''He has obstructed the Administration of Justice by refusing his Assent to Laws for es'',
     ''He has made Judges dependent on his Will alone for the tenure of their offices, and t'',
     ''He has erected a multitude of New Offices, and sent hither swarms of Officers to hara'',
     ''He has kept among us, in times of peace, Standing Armies without the Consent of our l'',
     ''He has affected to render the Military independent of and superior to the Civil Power'',
     ''He has combined with others to subject us to a jurisdiction foreign to our constituti'',
     ''For quartering large bodies of armed troops among us:'',
     ''For protecting them, by a mock Trial from punishment for any Murders which they shoul'',
     ''For cutting off our Trade with all parts of the world:'',
     ''For imposing Taxes on us without our Consent:'',
     ''For depriving us in many cases, of the benefit of Trial by Jury:'',
     ''For transporting us beyond Seas to be tried for pretended offences:'',
     ''For abolishing the free System of English Laws in a neighbouring Province, establishi'',
     ''For taking away our Charters, abolishing our most valuable Laws and altering fundamen'',
     ''For suspending our own Legislatures, and declaring themselves invested with power to '',
     ''He has abdicated Government here, by declaring us out of his Protection and waging Wa'',
     ''He has plundered our seas, ravaged our coasts, burnt our towns, and destroyed the liv'',
     ''He is at this time transporting large Armies of foreign Mercenaries to compleat the w'',
     ''He has constrained our fellow Citizens taken Captive on the high Seas to bear Arms ag'',
     ''Life in the world is but a big dream;'',
     ''I will not spoil it by any labour or care.'',
     ''So saying, I was drunk all the day,'',
     ''lying helpless at the porch in front of my door.'',
     ''When I awoke, I blinked at the garden-lawn;'',
     ''a lonely bird was singing amid the flowers.'',
     ''I asked myself, had the day been wet or fine?'',
     ''The Spring wind was telling the mango-bird.'',
     ''Moved by its song I soon began to sigh,'',
     ''and, as wine was there, I filled my own cup.'',
     ''Wildly singing I waited for the moon to rise;'',
     ''when my song was over, all my senses had gone.'',
     ''Bright shines the Moon before my bed;'',
     ''Methinks '' @ [CHR 0xE2, CHR 0x80, CHR 0x99] @ ''tis frost upon the earth.'',
     ''I watch the Moon, then bend my head'',
     ''And miss the hamlet of my birth.'',
     ''A cup of wine, under the flowering trees;'',
     ''I drink alone, for no friend is near.'',
     ''Raising my cup I beckon the bright moon,'',
     ''For he, with my shadow, will make three men.'',
     ''The moon, alas, is no drinker of wine;'',
     ''Listless, my shadow creeps about at my side.'',
     ''Yet with the moon as friend and the shadow as slave'',
     ''I must make merry before the Spring is spent.'']"

fun log_lines :: "string list \<Rightarrow> log_service \<Rightarrow> log_service res" where
  "log_lines [] s = Inr s"
| "log_lines (l # ls) s = bindE (cody_log l s) (log_lines ls)"

definition test_producer_test :: "log_service \<Rightarrow> log_service res" where
  "test_producer_test s = log_lines test_lines s"

text \<open>The two nested loops print a line every thousand rounds and are otherwise one count.\<close>

fun test_rounds :: "nat \<Rightarrow> log_service \<Rightarrow> log_service res" where
  "test_rounds 0 s = Inr s"
| "test_rounds (Suc n) s = bindE (test_producer_test s) (test_rounds n)"

text \<open>\<^verbatim>\<open>lgy_strncpy(ID, argv[1], KEY_LEN)\<close> into \<^verbatim>\<open>char ID[KEY_LEN]\<close>.\<close>

definition set_ID :: "string \<Rightarrow> string res" where
  "set_ID arg = (let written = lgy_strncpy arg KEY_LEN in if length written \<le> KEY_LEN then Inr written else Inl UB)"

text \<open>The shared queues are a parameter, by the number of the sender; the result is the exit status.\<close>

definition test_producer_main :: "(int \<Rightarrow> char MsgQueue) \<Rightarrow> string list \<Rightarrow> (nat \<times> log_service) res" where
  "test_producer_main shm argv =
     (if length argv \<le> 2 then Inr (1, new_log_service (shm 0))
      else bindE (set_ID (argv ! 1)) (\<lambda>ID.
           let shm_num = strtol (argv ! 2)
           in bindE (init_cody_log_service (cstr ID) (shm shm_num) (new_log_service (shm shm_num))) (\<lambda>s.
              bindE (test_rounds (1000 * 1000) s) (\<lambda>s'. Inr (0, s')))))"

section \<open>What its lines become\<close>

lemma test_lines_plain: "\<forall>l \<in> set test_lines. nul_free l \<and> length l \<le> 91"
  by code_simp

lemma length_test_lines: "length test_lines = 50"
  by code_simp

text \<open>A short line fits a message whatever its key and its time.\<close>

lemma short_line_fits:
  assumes "length k \<le> KEY_LEN - 1" "length body \<le> 91"
  shows "line_fits k t body"
proof -
  have "unat t < 10 ^ Suc 19" using unsigned_less [of t] by (rule less_trans) simp
  then have "length (show_nat (unat t)) \<le> 20" using length_show_nat [of "unat t" 19] by simp
  moreover have "length (url_encode body) \<le> 3 * 91" using length_url_encode_le [of body] assms(2) by simp
  ultimately show ?thesis using assms(1) by (simp add: line_fits_def append_params_def CLIENT_STR_LEN_def KEY_LEN_def)
qed

definition short_keys :: "log_service \<Rightarrow> bool" where
  "short_keys s \<longleftrightarrow> (\<forall>k \<in> set (key_list s). length k \<le> KEY_LEN - 1)"

text \<open>What the server's parser makes of a message: the request of line \<open>l\<close> with a time and a key of the table.\<close>

definition reads_as :: "string \<Rightarrow> log_service \<Rightarrow> string \<Rightarrow> bool" where
  "reads_as m s l \<longleftrightarrow> (\<exists>k \<in> set (key_list s). \<exists>t. ParseReq m = Inr (Some (line_of_request k t l)))"

lemma clock_next: "unat (key_counter s) + 1 < 2 ^ 64 \<Longrightarrow> key_counter s' = key_counter s + 1 \<Longrightarrow>
  unat (key_counter s') = unat (key_counter s) + 1"
  by (simp add: unat_word_ariths)

lemma free_slot: "queue_inv q \<Longrightarrow> length (contents q) + Suc n < size_q q \<Longrightarrow> \<not> Full q"
  by (simp add: Full_iff contents_def slot_order_def)

lemma log_lines_sent:
  assumes "client_ok s" "short_keys s" "2 \<le> unat (key_counter s)" "unat (key_counter s) + length ls < 2 ^ 64"
    and "length (contents (client_queue s)) + length ls < size_q (client_queue s)"
    and "\<forall>l \<in> set ls. nul_free l \<and> length l \<le> 91"
  shows "\<exists>s' ms. log_lines ls s = Inr s' \<and> client_ok s' \<and> key_list s' = key_list s
     \<and> contents (client_queue s') = contents (client_queue s) @ ms \<and> list_all2 (\<lambda>m l. reads_as m s l) ms ls"
  using assms
proof (induction ls arbitrary: s)
  case (Cons l ls)
  have "\<not> Full (client_queue s)"
    using Cons.prems(1,5) free_slot [of "client_queue s" "length ls"] by (simp add: client_ok_def)
  moreover have ck: "clock_ok s" using Cons.prems(3,4) by (simp add: clock_ok_def)
  moreover have "cstr (take (CLIENT_STR_LEN - 2) l) = l"
    using Cons.prems(6) by (simp add: cstr_nul_free CLIENT_STR_LEN_def)
  ultimately obtain s1 where s1: "cody_log l s = Inr s1" "line_went s l s1"
    using cody_log_sent [OF Cons.prems(1), of l] by auto
  then obtain k m where m: "k \<in> set (key_list s)" "contents (client_queue s1) = contents (client_queue s) @ [m]"
    "ParseReq m = Inr (if line_fits k (stamp s) l then Some (line_of_request k (stamp s) l) else None)"
    "client_ok s1" "key_counter s1 = key_counter s + 1" "key_list s1 = key_list s"
    "size_q (client_queue s1) = size_q (client_queue s)"
    by (auto simp: line_went_def)
  have "line_fits k (stamp s) l" using short_line_fits m(1) Cons.prems(2,6) by (simp add: short_keys_def)
  then have head: "reads_as m s l" using m(1,3) by (auto simp: reads_as_def)
  have "unat (key_counter s1) = unat (key_counter s) + 1" using clock_next [OF _ m(5)] Cons.prems(4) by simp
  then obtain s' ms where "log_lines ls s1 = Inr s'" "client_ok s'" "key_list s' = key_list s1"
    "contents (client_queue s') = contents (client_queue s1) @ ms" "list_all2 (\<lambda>m l. reads_as m s1 l) ms ls"
    using Cons.IH [OF m(4)] Cons.prems m by (auto simp: short_keys_def)
  with s1(1) m(2,6) head show ?case
    by (intro exI [of _ s'] exI [of _ "m # ms"]) (simp add: reads_as_def)
qed simp

text \<open>
  A round of the load generator arrives.  With room for fifty messages in the sender's queue,
  one call of \<^verbatim>\<open>test\<close> puts exactly fifty messages there, in order, and the server's parser reads from
  each the append request of its line, none cut and none rejected.
\<close>

lemma test_round_arrives:
  assumes "client_ok s" and "short_keys s" and "2 \<le> unat (key_counter s)" and "unat (key_counter s) + 50 < 2 ^ 64"
    and "length (contents (client_queue s)) + 50 < size_q (client_queue s)"
  shows "\<exists>s' ms. test_producer_test s = Inr s' \<and> contents (client_queue s') = contents (client_queue s) @ ms
     \<and> length ms = 50 \<and> list_all2 (\<lambda>m l. reads_as m s l) ms test_lines"
proof -
  obtain s' ms where r: "log_lines test_lines s = Inr s'" "contents (client_queue s') = contents (client_queue s) @ ms"
    "list_all2 (\<lambda>m l. reads_as m s l) ms test_lines"
    using log_lines_sent [of s test_lines] assms test_lines_plain by (auto simp: length_test_lines)
  moreover have "length ms = 50" using list_all2_lengthD [OF r(3)] by (simp add: length_test_lines)
  ultimately show ?thesis by (auto simp: test_producer_test_def)
qed

text \<open>
  The program itself does not get there: the array \<^verbatim>\<open>ID\<close> has room for \<open>KEY_LEN\<close> bytes, and
  \<^verbatim>\<open>lgy_strncpy\<close> with that length writes one more.
\<close>

lemma ID_overruns: "set_ID arg = Inl UB"
  by (simp add: set_ID_def lgy_strncpy_def c_strncpy_def KEY_LEN_def)

lemma test_producer_main_ends:
  "test_producer_main shm argv = (if length argv \<le> 2 then Inr (1, new_log_service (shm 0)) else Inl UB)"
  by (simp add: test_producer_main_def ID_overruns)

end
